(* ===== verification/Prelude.thy ===== *)
theory Prelude
  imports Main "HOL-Library.Word"
begin

text \<open>
  Shared vocabulary of the development: the machine types of the C code (an LP64 Linux build:
  32-bit \<open>int\<close>, 64-bit \<open>size_t\<close> and pointers), the error values that stand for the
  \<open>longjmp\<close>-based errors of \<^verbatim>\<open>src/lua/ldo.c\<close>, the bind of that error monad, and the generic
  lemmas on words, bit fields and lists that the component theories use.
\<close>

unbundle bit_operations_syntax

section \<open>Collections of facts\<close>

named_theorems field_simps_w "reading and writing bit fields of instruction words"
named_theorems res_simps "the error monad"

section \<open>Machine types\<close>

type_synonym lu_byte = "8 word"
type_synonym u32 = "32 word"
type_synonym size_t = "64 word"
type_synonym ptr = "64 word"

abbreviation INT_MAX :: int where "INT_MAX \<equiv> 2147483647"
abbreviation INT_MIN :: int where "INT_MIN \<equiv> - 2147483648"

definition MAX_INT :: int where
  "MAX_INT = INT_MAX - 2"

definition fits_int :: "int \<Rightarrow> bool" where
  "fits_int x \<longleftrightarrow> INT_MIN \<le> x \<and> x \<le> INT_MAX"

section \<open>Errors\<close>

text \<open>
  \<open>ErrRun\<close> is \<open>luaG_runerror\<close>, \<open>ErrSyntax\<close> is \<open>luaD_throw(L, LUA_ERRSYNTAX)\<close>,
  \<open>ErrMem\<close> is \<open>luaD_throw(L, LUA_ERRMEM)\<close> or \<open>luaM_toobig\<close>, and \<open>ErrUB\<close> a step
  the C code takes although its result has no meaning (a null string, a read past the end of an array).  \<open>OutOfFuel\<close> is
  not an error of the program: it is what a loop of the model returns when its step budget is
  exhausted, and the theorems show that it does not occur on well-formed states.
\<close>

datatype lua_error = ErrRun string | ErrSyntax string | ErrMem | ErrUB string | OutOfFuel

type_synonym 'a res = "lua_error + 'a"

definition bindE :: "'e + 'a \<Rightarrow> ('a \<Rightarrow> 'e + 'b) \<Rightarrow> 'e + 'b" where
  "bindE m f = (case m of Inl e \<Rightarrow> Inl e | Inr x \<Rightarrow> f x)"

lemma bindE_Inl [simp, res_simps]: "bindE (Inl e) f = Inl e"
  by (simp add: bindE_def)

lemma bindE_Inr [simp, res_simps]: "bindE (Inr x) f = f x"
  by (simp add: bindE_def)

lemma bindE_eq_Inr [res_simps]: "bindE m f = Inr y \<longleftrightarrow> (\<exists>x. m = Inr x \<and> f x = Inr y)"
  by (cases m) auto

lemma bindE_eq_Inl [res_simps]:
  "bindE m f = Inl e \<longleftrightarrow> m = Inl e \<or> (\<exists>x. m = Inr x \<and> f x = Inl e)"
  by (cases m) auto

lemma bindE_assoc: "bindE (bindE m f) g = bindE m (\<lambda>x. bindE (f x) g)"
  by (cases m) auto

lemma bindE_cong [fundef_cong]:
  "m = m' \<Longrightarrow> (\<And>x. m' = Inr x \<Longrightarrow> f x = f' x) \<Longrightarrow> bindE m f = bindE m' f'"
  by (cases m') auto

text \<open>The contract of a computation with errors: its errors satisfy \<open>E\<close> and its result \<open>Q\<close>.\<close>

definition outcome :: "('e \<Rightarrow> bool) \<Rightarrow> ('a \<Rightarrow> bool) \<Rightarrow> 'e + 'a \<Rightarrow> bool" where
  "outcome E Q r \<longleftrightarrow> (case r of Inl e \<Rightarrow> E e | Inr x \<Rightarrow> Q x)"

lemma outcome_simps [simp]: "outcome E Q (Inl e) = E e" "outcome E Q (Inr x) = Q x"
  by (simp_all add: outcome_def)

lemma outcome_bind: "outcome E P m \<Longrightarrow> (\<And>x. P x \<Longrightarrow> outcome E Q (f x)) \<Longrightarrow> outcome E Q (bindE m f)"
  by (cases m) auto

lemma outcome_weaken: "outcome E P m \<Longrightarrow> (\<And>x. P x \<Longrightarrow> Q x) \<Longrightarrow> outcome E Q m"
  by (cases m) auto

lemma outcome_if: "(P \<Longrightarrow> outcome E Q x) \<Longrightarrow> (\<not> P \<Longrightarrow> outcome E Q y) \<Longrightarrow> outcome E Q (if P then x else y)"
  by simp

definition guardE :: "bool \<Rightarrow> 'e \<Rightarrow> 'e + unit" where
  "guardE c e = (if c then Inr () else Inl e)"

lemma guardE_simps [simp]: "guardE True e = Inr ()" "guardE False e = Inl e"
  by (simp_all add: guardE_def)

lemma guardE_eq_Inr [res_simps]: "guardE c e = Inr u \<longleftrightarrow> c"
  by (cases c) auto

section \<open>Bit fields of 32-bit words\<close>

definition mask1 :: "nat \<Rightarrow> nat \<Rightarrow> u32" where
  "mask1 n p = push_bit p (NOT (push_bit n (NOT 0)))"

definition get_field :: "nat \<Rightarrow> nat \<Rightarrow> u32 \<Rightarrow> u32" where
  "get_field p n i = drop_bit p i AND mask1 n 0"

definition set_field :: "nat \<Rightarrow> nat \<Rightarrow> u32 \<Rightarrow> u32 \<Rightarrow> u32" where
  "set_field p n i u = (i AND NOT (mask1 n p)) OR (push_bit p u AND mask1 n p)"

lemma bit_mask1 [simp]: "bit (mask1 n p) k \<longleftrightarrow> k < 32 \<and> p \<le> k \<and> k < p + n"
  by (auto simp: mask1_def bit_simps)

lemma get_field_take_bit: "get_field p n i = take_bit n (drop_bit p i)"
  by (rule bit_eqI) (auto simp: get_field_def bit_simps)

lemma uint_get_field: "uint (get_field p n i) = take_bit n (drop_bit p (uint i))"
  by (rule bit_eqI) (auto simp: get_field_take_bit bit_simps)

lemma uint_get_field_lt: "uint (get_field p n i) < 2 ^ n"
  by (simp add: uint_get_field)

text \<open>A field that lies inside the 32 bits of a word, and a second one disjoint from it.\<close>

locale bit_field =
  fixes p n :: nat
  assumes fits: "p + n \<le> 32"
begin

lemma get_set: "get_field p n (set_field p n i u) = take_bit n u"
  using fits by (intro bit_eqI) (auto simp: get_field_def set_field_def bit_simps)

lemma uint_get_set: "uint (get_field p n (set_field p n i u)) = uint u mod 2 ^ n"
  by (simp only: get_set unsigned_take_bit_eq) (simp only: take_bit_eq_mod)

lemma set_set: "set_field p n (set_field p n i u) v = set_field p n i v"
  by (intro bit_eqI) (auto simp: set_field_def bit_simps)

lemma set_get: "set_field p n i (get_field p n i) = i"
  using fits by (intro bit_eqI) (auto simp: get_field_def set_field_def bit_simps)

end

locale disjoint_fields = bit_field +
  fixes q m :: nat
  assumes fits': "q + m \<le> 32"
    and disjoint: "p + n \<le> q \<or> q + m \<le> p"
begin

lemma get_set_other: "get_field q m (set_field p n i u) = get_field q m i"
  using fits fits' disjoint by (intro bit_eqI) (auto simp: get_field_def set_field_def bit_simps)

lemma set_commute: "set_field q m (set_field p n i u) v = set_field p n (set_field q m i v) u"
  using disjoint by (intro bit_eqI) (auto simp: set_field_def bit_simps)

end

section \<open>Lists\<close>

lemma take_length_append [simp]: "take (length xs) (xs @ ys) = xs"
  by simp

lemma nth_in_set_iff: "x \<in> set xs \<longleftrightarrow> (\<exists>i < length xs. xs ! i = x)"
  by (auto simp: in_set_conv_nth)

end
