(* ===== verification/LuaNumber.thy ===== *)
theory LuaNumber
  imports Prelude
begin

text \<open>
  \<open>lua_Number\<close> (\<^verbatim>\<open>src/lua/luaconf.h\<close>) is the C type \<open>double\<close>: here its IEEE-754 binary64
  bit pattern, so that hashing, comparing and dumping a number read the same bits as the C code.
  The theory defines the comparison \<open>luai_numeq\<close>, the conversions \<open>cast_num\<close> (from
  \<open>int\<close>) and \<open>lua_number2int\<close> (the C cast to \<open>int\<close>, which truncates; out of range it
  gives \<open>INT_MIN\<close>, the value the x86-64 conversion instruction returns) and their laws.
\<close>

type_synonym lua_Number = "64 word"

section \<open>Integer logarithm\<close>

fun ilog2 :: "nat \<Rightarrow> nat" where
  "ilog2 n = (if n < 2 then 0 else Suc (ilog2 (n div 2)))"

declare ilog2.simps [simp del]

lemma ilog2_small [simp]: "ilog2 0 = 0" "ilog2 (Suc 0) = 0"
  by (simp_all add: ilog2.simps)

lemma ilog2_bounds: "0 < n \<Longrightarrow> 2 ^ ilog2 n \<le> n \<and> n < 2 ^ Suc (ilog2 n)"
proof (induction n rule: ilog2.induct)
  case (1 n)
  show ?case
  proof (cases "n < 2")
    case True
    with "1.prems" show ?thesis by (simp add: ilog2.simps [of n])
  next
    case False
    with "1.IH" have "2 ^ ilog2 (n div 2) \<le> n div 2 \<and> n div 2 < 2 ^ Suc (ilog2 (n div 2))"
      by simp
    with False show ?thesis by (auto simp: ilog2.simps [of n])
  qed
qed

lemma ilog2_unique: "2 ^ k \<le> n \<Longrightarrow> n < 2 ^ Suc k \<Longrightarrow> ilog2 n = k"
proof -
  assume k: "2 ^ k \<le> n" "n < 2 ^ Suc k"
  then have "0 < n" by (metis gr0I not_le zero_less_numeral zero_less_power)
  from ilog2_bounds [OF this] k show "ilog2 n = k"
    by (metis le_less_trans less_Suc_eq_le nat_power_less_imp_less not_less_eq order_antisym
        zero_less_numeral)
qed

lemma ilog2_less: "0 < n \<Longrightarrow> n < 2 ^ k \<Longrightarrow> ilog2 n < k"
  using ilog2_bounds [of n] by (metis le_less_trans nat_power_less_imp_less zero_less_numeral)

section \<open>Fields of a double\<close>

definition num_neg :: "lua_Number \<Rightarrow> bool" where
  "num_neg d = bit d 63"

definition num_exp :: "lua_Number \<Rightarrow> nat" where
  "num_exp d = unat (take_bit 11 (drop_bit 52 d))"

definition num_frac :: "lua_Number \<Rightarrow> nat" where
  "num_frac d = unat (take_bit 52 d)"

definition mk_double :: "bool \<Rightarrow> nat \<Rightarrow> nat \<Rightarrow> lua_Number" where
  "mk_double neg e f = push_bit 63 (of_bool neg) OR push_bit 52 (of_nat e) OR of_nat f"

lemma bit_nat_range: "a < 2 ^ n \<Longrightarrow> bit (a::nat) k \<Longrightarrow> k < n"
  by (metis bit_take_bit_iff take_bit_nat_eq_self)

lemma num_fields_mk_double [simp]:
  assumes "e < 2 ^ 11" "f < 2 ^ 52"
  shows "num_neg (mk_double neg e f) = neg" "num_exp (mk_double neg e f) = e"
    "num_frac (mk_double neg e f) = f"
proof -
  note r = bit_nat_range [OF assms(1)] bit_nat_range [OF assms(2)]
  show "num_neg (mk_double neg e f) = neg"
    by (auto simp: num_neg_def mk_double_def bit_simps dest: r)
  have "take_bit 11 (drop_bit 52 (mk_double neg e f)) = of_nat e"
    by (rule bit_eqI) (auto simp: mk_double_def bit_simps dest: r)
  then show "num_exp (mk_double neg e f) = e"
    using assms(1) by (simp add: num_exp_def unsigned_of_nat take_bit_nat_eq_self_iff)
  have "take_bit 52 (mk_double neg e f) = of_nat f"
    by (rule bit_eqI) (auto simp: mk_double_def bit_simps dest: r)
  then show "num_frac (mk_double neg e f) = f"
    using assms(2) by (simp add: num_frac_def unsigned_of_nat take_bit_nat_eq_self_iff)
qed

section \<open>Comparison\<close>

definition num_isnan :: "lua_Number \<Rightarrow> bool" where
  "num_isnan d \<longleftrightarrow> num_exp d = 2047 \<and> num_frac d \<noteq> 0"

definition num_iszero :: "lua_Number \<Rightarrow> bool" where
  "num_iszero d \<longleftrightarrow> num_exp d = 0 \<and> num_frac d = 0"

definition luai_numeq :: "lua_Number \<Rightarrow> lua_Number \<Rightarrow> bool" where
  "luai_numeq a b \<longleftrightarrow> \<not> num_isnan a \<and> \<not> num_isnan b \<and> (a = b \<or> num_iszero a \<and> num_iszero b)"

definition luai_numisnan :: "lua_Number \<Rightarrow> bool" where
  "luai_numisnan a \<longleftrightarrow> \<not> luai_numeq a a"

lemma luai_numisnan_iff [simp]: "luai_numisnan a \<longleftrightarrow> num_isnan a"
  by (auto simp: luai_numisnan_def luai_numeq_def)

lemma luai_numeq_refl [simp]: "\<not> num_isnan a \<Longrightarrow> luai_numeq a a"
  by (simp add: luai_numeq_def)

lemma luai_numeq_sym: "luai_numeq a b \<longleftrightarrow> luai_numeq b a"
  by (auto simp: luai_numeq_def)

lemma luai_numeq_trans: "luai_numeq a b \<Longrightarrow> luai_numeq b c \<Longrightarrow> luai_numeq a c"
  by (auto simp: luai_numeq_def)

lemma luai_numeq_nan: "num_isnan a \<Longrightarrow> \<not> luai_numeq a b \<and> \<not> luai_numeq b a"
  by (simp add: luai_numeq_def)

section \<open>Conversions\<close>

definition cast_num :: "int \<Rightarrow> lua_Number" where
  "cast_num k =
     (if k = 0 then 0
      else let m = nat \<bar>k\<bar>; e = ilog2 m in mk_double (k < 0) (1023 + e) (m * 2 ^ (52 - e) - 2 ^ 52))"

definition lua_number2int :: "lua_Number \<Rightarrow> int" where
  "lua_number2int d =
     (if num_exp d < 1023 then 0
      else if 1023 + 31 \<le> num_exp d then INT_MIN
      else let m = int ((2 ^ 52 + num_frac d) div 2 ^ (52 - (num_exp d - 1023)))
           in if num_neg d then - m else m)"

lemma zero_fields [simp]: "num_exp 0 = 0" "num_frac 0 = 0" "\<not> num_neg 0"
  by (simp_all add: num_exp_def num_frac_def num_neg_def)

lemma zero_number [simp]: "num_iszero 0" "\<not> num_isnan 0"
  by (simp_all add: num_iszero_def num_isnan_def)

lemma num_frac_lt: "num_frac d < 2 ^ 52"
  using take_bit_nat_less_exp [of 52 "unat d"]
  by (simp only: num_frac_def unsigned_take_bit_eq)

lemma cast_num_frac:
  fixes m :: nat
  assumes "0 < m" "m < 2 ^ 53"
  shows "2 ^ 52 \<le> m * 2 ^ (52 - ilog2 m)" "m * 2 ^ (52 - ilog2 m) < 2 ^ 53" "ilog2 m \<le> 52"
proof -
  note b = ilog2_bounds [OF assms(1)]
  show e: "ilog2 m \<le> 52" using ilog2_less [OF assms] by simp
  have p: "2 ^ ilog2 m * 2 ^ (52 - ilog2 m) = (2::nat) ^ 52"
    by (metis e le_add_diff_inverse power_add)
  show "2 ^ 52 \<le> m * 2 ^ (52 - ilog2 m)"
    using b p by (metis mult_le_mono1)
  have "m * 2 ^ (52 - ilog2 m) < 2 * 2 ^ ilog2 m * 2 ^ (52 - ilog2 m)"
    using b by (metis mult_less_cancel2 power_Suc zero_less_numeral zero_less_power)
  then show "m * 2 ^ (52 - ilog2 m) < 2 ^ 53"
    using p by (simp add: mult.assoc)
qed

lemma sub_2_52: "x < 2 ^ 53 \<Longrightarrow> x - 2 ^ 52 < (2::nat) ^ 52"
  by simp

lemma cast_num_fields:
  assumes "k \<noteq> 0" "\<bar>k\<bar> < 2 ^ 53"
  shows "num_neg (cast_num k) = (k < 0)" "num_exp (cast_num k) = 1023 + ilog2 (nat \<bar>k\<bar>)"
    "num_frac (cast_num k) = nat \<bar>k\<bar> * 2 ^ (52 - ilog2 (nat \<bar>k\<bar>)) - 2 ^ 52"
proof -
  have m: "0 < nat \<bar>k\<bar>" "nat \<bar>k\<bar> < 2 ^ 53" using assms by simp_all
  note f = cast_num_frac [OF m]
  have e: "1023 + ilog2 (nat \<bar>k\<bar>) < 2 ^ 11" using f(3) by simp
  have g: "nat \<bar>k\<bar> * 2 ^ (52 - ilog2 (nat \<bar>k\<bar>)) - 2 ^ 52 < 2 ^ 52"
    by (rule sub_2_52) (use f(2) in simp)
  show "num_neg (cast_num k) = (k < 0)" "num_exp (cast_num k) = 1023 + ilog2 (nat \<bar>k\<bar>)"
    "num_frac (cast_num k) = nat \<bar>k\<bar> * 2 ^ (52 - ilog2 (nat \<bar>k\<bar>)) - 2 ^ 52"
    using assms(1) num_fields_mk_double [OF e g] by (simp_all add: cast_num_def Let_def)
qed

lemma cast_num_not_nan [simp]: "fits_int k \<Longrightarrow> \<not> num_isnan (cast_num k)"
proof (cases "k = 0")
  case False
  assume "fits_int k"
  with False have "0 < nat \<bar>k\<bar>" "nat \<bar>k\<bar> < 2 ^ 53" "\<bar>k\<bar> < 2 ^ 53" by (auto simp: fits_int_def)
  then show ?thesis
    using cast_num_fields [of k] cast_num_frac [of "nat \<bar>k\<bar>"] False by (simp add: num_isnan_def)
qed (simp add: cast_num_def)

theorem lua_number2int_cast_num [simp]:
  assumes "fits_int k"
  shows "lua_number2int (cast_num k) = k"
proof (cases "k = 0")
  case True
  then show ?thesis by (simp add: cast_num_def lua_number2int_def)
next
  case False
  let ?m = "nat \<bar>k\<bar>"
  from assms False have m: "0 < ?m" "?m < 2 ^ 53" "\<bar>k\<bar> < 2 ^ 53"
    by (auto simp: fits_int_def)
  note f = cast_num_frac [OF m(1,2)] and g = cast_num_fields [OF False m(3)]
  show ?thesis
  proof (cases "ilog2 ?m \<le> 30")
    case True
    have "(2 ^ 52 + num_frac (cast_num k)) div 2 ^ (52 - ilog2 ?m) = ?m"
      using f(1) by (simp add: g)
    then show ?thesis
      using True False by (simp add: lua_number2int_def g Let_def)
  next
    case bigexp: False
    then have "2 ^ 31 \<le> ?m"
      using ilog2_bounds [OF m(1)] power_increasing [of 31 "ilog2 ?m" "2::nat"]
      by linarith
    then have "k = INT_MIN" using assms by (auto simp: fits_int_def)
    moreover have "lua_number2int (cast_num k) = INT_MIN"
      using bigexp by (simp add: lua_number2int_def g)
    ultimately show ?thesis by simp
  qed
qed

lemma lua_number2int_fits [simp]: "fits_int (lua_number2int d)"
proof -
  have "(2 ^ 52 + num_frac d) div 2 ^ (52 - (num_exp d - 1023)) < 2 ^ 31"
    if e: "num_exp d < 1054" "\<not> num_exp d < 1023"
  proof -
    have "2 ^ 52 + num_frac d < (2::nat) ^ 53" using num_frac_lt [of d] by simp
    also have "\<dots> \<le> 2 ^ (31 + (52 - (num_exp d - 1023)))"
      using e by (intro power_increasing) auto
    finally show ?thesis by (simp add: power_add div_less_iff_less_mult mult.commute)
  qed
  then show ?thesis
    by (auto simp: lua_number2int_def fits_int_def Let_def
        simp del: of_nat_add of_nat_power zdiv_int of_nat_div)
qed

lemma cast_num_inj:
  assumes "fits_int j" "fits_int k"
  shows "cast_num j = cast_num k \<longleftrightarrow> j = k"
  using lua_number2int_cast_num [OF assms(1)] lua_number2int_cast_num [OF assms(2)] by metis

lemma cast_num_iszero [simp]: "fits_int k \<Longrightarrow> num_iszero (cast_num k) \<longleftrightarrow> k = 0"
proof (cases "k = 0")
  case False
  assume "fits_int k"
  with False have "\<bar>k\<bar> < 2 ^ 53" by (auto simp: fits_int_def)
  with cast_num_fields [OF False] False show ?thesis by (simp add: num_iszero_def)
qed (simp add: cast_num_def)

lemma luai_numeq_cast_num [simp]:
  "fits_int j \<Longrightarrow> fits_int k \<Longrightarrow> luai_numeq (cast_num j) (cast_num k) \<longleftrightarrow> j = k"
  by (auto simp: luai_numeq_def cast_num_inj)

lemma luai_numeq_number2int: "luai_numeq a b \<Longrightarrow> lua_number2int a = lua_number2int b"
  by (auto simp: luai_numeq_def lua_number2int_def num_iszero_def)

end
