(* ===== verification/Opcodes.thy ===== *)
theory Opcodes
  imports Prelude
begin

text \<open>
  The instruction set of the Lua virtual machine: \<^verbatim>\<open>src/lua/lopcodes.h\<close> (instruction layout, field
  macros, opcodes, RK operands) and \<^verbatim>\<open>src/lua/lopcodes.c\<close> (the opcode name and mode tables).
  An \<open>Instruction\<close> is a 32-bit word; every field macro is the word expression of the header.
\<close>

type_synonym Instruction = u32

section \<open>Layout\<close>

abbreviation (input) SIZE_C :: nat where "SIZE_C \<equiv> 9"
abbreviation (input) SIZE_B :: nat where "SIZE_B \<equiv> 9"
abbreviation (input) SIZE_Bx :: nat where "SIZE_Bx \<equiv> 18"
abbreviation (input) SIZE_A :: nat where "SIZE_A \<equiv> 8"
abbreviation (input) SIZE_OP :: nat where "SIZE_OP \<equiv> 6"
abbreviation (input) POS_OP :: nat where "POS_OP \<equiv> 0"
abbreviation (input) POS_A :: nat where "POS_A \<equiv> 6"
abbreviation (input) POS_C :: nat where "POS_C \<equiv> 14"
abbreviation (input) POS_B :: nat where "POS_B \<equiv> 23"
abbreviation (input) POS_Bx :: nat where "POS_Bx \<equiv> 14"

definition MAXARG_Bx :: int where "MAXARG_Bx = 2 ^ SIZE_Bx - 1"
definition MAXARG_sBx :: int where "MAXARG_sBx = drop_bit 1 MAXARG_Bx"
definition MAXARG_A :: int where "MAXARG_A = 2 ^ SIZE_A - 1"
definition MAXARG_B :: int where "MAXARG_B = 2 ^ SIZE_B - 1"
definition MAXARG_C :: int where "MAXARG_C = 2 ^ SIZE_C - 1"

lemma MAXARG_values [simp]:
  "MAXARG_Bx = 262143" "MAXARG_sBx = 131071" "MAXARG_A = 255" "MAXARG_B = 511" "MAXARG_C = 511"
  by (simp_all add: MAXARG_Bx_def MAXARG_sBx_def MAXARG_A_def MAXARG_B_def MAXARG_C_def
      drop_bit_eq_div)

section \<open>Opcodes\<close>

datatype OpCode =
    OP_MOVE | OP_LOADK | OP_LOADBOOL | OP_LOADNIL | OP_GETUPVAL | OP_GETGLOBAL | OP_GETTABLE
  | OP_SETGLOBAL | OP_SETUPVAL | OP_SETTABLE | OP_NEWTABLE | OP_SELF
  | OP_ADD | OP_SUB | OP_MUL | OP_DIV | OP_MOD | OP_POW | OP_UNM | OP_NOT | OP_LEN
  | OP_CONCAT | OP_JMP | OP_EQ | OP_LT | OP_LE | OP_TEST | OP_TESTSET
  | OP_CALL | OP_TAILCALL | OP_RETURN | OP_FORLOOP | OP_FORPREP | OP_TFORLOOP
  | OP_SETLIST | OP_CLOSE | OP_CLOSURE | OP_VARARG

definition opcodes :: "OpCode list" where
  "opcodes =
    [OP_MOVE, OP_LOADK, OP_LOADBOOL, OP_LOADNIL, OP_GETUPVAL, OP_GETGLOBAL, OP_GETTABLE,
     OP_SETGLOBAL, OP_SETUPVAL, OP_SETTABLE, OP_NEWTABLE, OP_SELF,
     OP_ADD, OP_SUB, OP_MUL, OP_DIV, OP_MOD, OP_POW, OP_UNM, OP_NOT, OP_LEN,
     OP_CONCAT, OP_JMP, OP_EQ, OP_LT, OP_LE, OP_TEST, OP_TESTSET,
     OP_CALL, OP_TAILCALL, OP_RETURN, OP_FORLOOP, OP_FORPREP, OP_TFORLOOP,
     OP_SETLIST, OP_CLOSE, OP_CLOSURE, OP_VARARG]"

definition NUM_OPCODES :: nat where
  "NUM_OPCODES = 38"

text \<open>The value of an enumerator, and the enumerator of a value (none from \<open>NUM_OPCODES\<close> on).\<close>

primrec opcode_num :: "OpCode \<Rightarrow> nat" where
  "opcode_num OP_MOVE = 0" | "opcode_num OP_LOADK = 1" | "opcode_num OP_LOADBOOL = 2"
| "opcode_num OP_LOADNIL = 3" | "opcode_num OP_GETUPVAL = 4" | "opcode_num OP_GETGLOBAL = 5"
| "opcode_num OP_GETTABLE = 6" | "opcode_num OP_SETGLOBAL = 7" | "opcode_num OP_SETUPVAL = 8"
| "opcode_num OP_SETTABLE = 9" | "opcode_num OP_NEWTABLE = 10" | "opcode_num OP_SELF = 11"
| "opcode_num OP_ADD = 12" | "opcode_num OP_SUB = 13" | "opcode_num OP_MUL = 14"
| "opcode_num OP_DIV = 15" | "opcode_num OP_MOD = 16" | "opcode_num OP_POW = 17"
| "opcode_num OP_UNM = 18" | "opcode_num OP_NOT = 19" | "opcode_num OP_LEN = 20"
| "opcode_num OP_CONCAT = 21" | "opcode_num OP_JMP = 22" | "opcode_num OP_EQ = 23"
| "opcode_num OP_LT = 24" | "opcode_num OP_LE = 25" | "opcode_num OP_TEST = 26"
| "opcode_num OP_TESTSET = 27" | "opcode_num OP_CALL = 28" | "opcode_num OP_TAILCALL = 29"
| "opcode_num OP_RETURN = 30" | "opcode_num OP_FORLOOP = 31" | "opcode_num OP_FORPREP = 32"
| "opcode_num OP_TFORLOOP = 33" | "opcode_num OP_SETLIST = 34" | "opcode_num OP_CLOSE = 35"
| "opcode_num OP_CLOSURE = 36" | "opcode_num OP_VARARG = 37"

definition opcode_of :: "nat \<Rightarrow> OpCode option" where
  "opcode_of n = (if n < NUM_OPCODES then Some (opcodes ! n) else None)"

lemma opcode_num_lt: "opcode_num op < NUM_OPCODES"
  by (cases op) (simp_all add: NUM_OPCODES_def)

lemma opcode_of_num [simp]: "opcode_of (opcode_num op) = Some op"
  by (cases op) (simp_all add: opcode_of_def NUM_OPCODES_def opcodes_def)

lemma opcode_num_inj [simp]: "opcode_num op = opcode_num op' \<longleftrightarrow> op = op'"
  by (metis opcode_of_num option.inject)

section \<open>Field macros\<close>

definition GET_OPCODE :: "Instruction \<Rightarrow> OpCode option" where
  "GET_OPCODE i = opcode_of (unat (get_field POS_OP SIZE_OP i))"

definition SET_OPCODE :: "Instruction \<Rightarrow> OpCode \<Rightarrow> Instruction" where
  "SET_OPCODE i op = set_field POS_OP SIZE_OP i (of_nat (opcode_num op))"

definition GETARG_A :: "Instruction \<Rightarrow> int" where
  "GETARG_A i = uint (get_field POS_A SIZE_A i)"

definition SETARG_A :: "Instruction \<Rightarrow> int \<Rightarrow> Instruction" where
  "SETARG_A i u = set_field POS_A SIZE_A i (of_int u)"

definition GETARG_B :: "Instruction \<Rightarrow> int" where
  "GETARG_B i = uint (get_field POS_B SIZE_B i)"

definition SETARG_B :: "Instruction \<Rightarrow> int \<Rightarrow> Instruction" where
  "SETARG_B i b = set_field POS_B SIZE_B i (of_int b)"

definition GETARG_C :: "Instruction \<Rightarrow> int" where
  "GETARG_C i = uint (get_field POS_C SIZE_C i)"

definition SETARG_C :: "Instruction \<Rightarrow> int \<Rightarrow> Instruction" where
  "SETARG_C i b = set_field POS_C SIZE_C i (of_int b)"

definition GETARG_Bx :: "Instruction \<Rightarrow> int" where
  "GETARG_Bx i = uint (get_field POS_Bx SIZE_Bx i)"

definition SETARG_Bx :: "Instruction \<Rightarrow> int \<Rightarrow> Instruction" where
  "SETARG_Bx i b = set_field POS_Bx SIZE_Bx i (of_int b)"

definition GETARG_sBx :: "Instruction \<Rightarrow> int" where
  "GETARG_sBx i = GETARG_Bx i - MAXARG_sBx"

definition SETARG_sBx :: "Instruction \<Rightarrow> int \<Rightarrow> Instruction" where
  "SETARG_sBx i b = SETARG_Bx i (b + MAXARG_sBx)"

definition CREATE_ABC :: "OpCode \<Rightarrow> int \<Rightarrow> int \<Rightarrow> int \<Rightarrow> Instruction" where
  "CREATE_ABC op a b c =
     push_bit POS_OP (of_nat (opcode_num op)) OR push_bit POS_A (of_int a)
     OR push_bit POS_B (of_int b) OR push_bit POS_C (of_int c)"

definition CREATE_ABx :: "OpCode \<Rightarrow> int \<Rightarrow> int \<Rightarrow> Instruction" where
  "CREATE_ABx op a bc =
     push_bit POS_OP (of_nat (opcode_num op)) OR push_bit POS_A (of_int a)
     OR push_bit POS_Bx (of_int bc)"

subsection \<open>RK operands\<close>

definition BITRK :: int where "BITRK = push_bit (SIZE_B - 1) 1"

definition ISK :: "int \<Rightarrow> bool" where
  "ISK x \<longleftrightarrow> x AND BITRK \<noteq> 0"

definition INDEXK :: "int \<Rightarrow> int" where
  "INDEXK r = r AND NOT BITRK"

definition MAXINDEXRK :: int where "MAXINDEXRK = BITRK - 1"

definition RKASK :: "int \<Rightarrow> int" where
  "RKASK x = x OR BITRK"

definition NO_REG :: int where "NO_REG = MAXARG_A"

section \<open>Opcode modes\<close>

datatype OpMode = iABC | iABx | iAsBx

datatype OpArgMask = OpArgN | OpArgU | OpArgR | OpArgK

primrec mode_num :: "OpMode \<Rightarrow> lu_byte" where
  "mode_num iABC = 0" | "mode_num iABx = 1" | "mode_num iAsBx = 2"

primrec argmask_num :: "OpArgMask \<Rightarrow> lu_byte" where
  "argmask_num OpArgN = 0" | "argmask_num OpArgU = 1" | "argmask_num OpArgR = 2"
| "argmask_num OpArgK = 3"

definition opmode :: "lu_byte \<Rightarrow> lu_byte \<Rightarrow> OpArgMask \<Rightarrow> OpArgMask \<Rightarrow> OpMode \<Rightarrow> lu_byte" where
  "opmode t a b c m =
     push_bit 7 t OR push_bit 6 a OR push_bit 4 (argmask_num b) OR push_bit 2 (argmask_num c)
     OR mode_num m"

primrec luaP_opmodes :: "OpCode \<Rightarrow> lu_byte" where
  "luaP_opmodes OP_MOVE = opmode 0 1 OpArgR OpArgN iABC"
| "luaP_opmodes OP_LOADK = opmode 0 1 OpArgK OpArgN iABx"
| "luaP_opmodes OP_LOADBOOL = opmode 0 1 OpArgU OpArgU iABC"
| "luaP_opmodes OP_LOADNIL = opmode 0 1 OpArgR OpArgN iABC"
| "luaP_opmodes OP_GETUPVAL = opmode 0 1 OpArgU OpArgN iABC"
| "luaP_opmodes OP_GETGLOBAL = opmode 0 1 OpArgK OpArgN iABx"
| "luaP_opmodes OP_GETTABLE = opmode 0 1 OpArgR OpArgK iABC"
| "luaP_opmodes OP_SETGLOBAL = opmode 0 0 OpArgK OpArgN iABx"
| "luaP_opmodes OP_SETUPVAL = opmode 0 0 OpArgU OpArgN iABC"
| "luaP_opmodes OP_SETTABLE = opmode 0 0 OpArgK OpArgK iABC"
| "luaP_opmodes OP_NEWTABLE = opmode 0 1 OpArgU OpArgU iABC"
| "luaP_opmodes OP_SELF = opmode 0 1 OpArgR OpArgK iABC"
| "luaP_opmodes OP_ADD = opmode 0 1 OpArgK OpArgK iABC"
| "luaP_opmodes OP_SUB = opmode 0 1 OpArgK OpArgK iABC"
| "luaP_opmodes OP_MUL = opmode 0 1 OpArgK OpArgK iABC"
| "luaP_opmodes OP_DIV = opmode 0 1 OpArgK OpArgK iABC"
| "luaP_opmodes OP_MOD = opmode 0 1 OpArgK OpArgK iABC"
| "luaP_opmodes OP_POW = opmode 0 1 OpArgK OpArgK iABC"
| "luaP_opmodes OP_UNM = opmode 0 1 OpArgR OpArgN iABC"
| "luaP_opmodes OP_NOT = opmode 0 1 OpArgR OpArgN iABC"
| "luaP_opmodes OP_LEN = opmode 0 1 OpArgR OpArgN iABC"
| "luaP_opmodes OP_CONCAT = opmode 0 1 OpArgR OpArgR iABC"
| "luaP_opmodes OP_JMP = opmode 0 0 OpArgR OpArgN iAsBx"
| "luaP_opmodes OP_EQ = opmode 1 0 OpArgK OpArgK iABC"
| "luaP_opmodes OP_LT = opmode 1 0 OpArgK OpArgK iABC"
| "luaP_opmodes OP_LE = opmode 1 0 OpArgK OpArgK iABC"
| "luaP_opmodes OP_TEST = opmode 1 1 OpArgR OpArgU iABC"
| "luaP_opmodes OP_TESTSET = opmode 1 1 OpArgR OpArgU iABC"
| "luaP_opmodes OP_CALL = opmode 0 1 OpArgU OpArgU iABC"
| "luaP_opmodes OP_TAILCALL = opmode 0 1 OpArgU OpArgU iABC"
| "luaP_opmodes OP_RETURN = opmode 0 0 OpArgU OpArgN iABC"
| "luaP_opmodes OP_FORLOOP = opmode 0 1 OpArgR OpArgN iAsBx"
| "luaP_opmodes OP_FORPREP = opmode 0 1 OpArgR OpArgN iAsBx"
| "luaP_opmodes OP_TFORLOOP = opmode 1 0 OpArgN OpArgU iABC"
| "luaP_opmodes OP_SETLIST = opmode 0 0 OpArgU OpArgU iABC"
| "luaP_opmodes OP_CLOSE = opmode 0 0 OpArgN OpArgN iABC"
| "luaP_opmodes OP_CLOSURE = opmode 0 1 OpArgU OpArgN iABx"
| "luaP_opmodes OP_VARARG = opmode 0 1 OpArgU OpArgN iABC"

definition argmask_of :: "lu_byte \<Rightarrow> OpArgMask" where
  "argmask_of w = (if w = 0 then OpArgN else if w = 1 then OpArgU else if w = 2 then OpArgR
                   else OpArgK)"

definition getOpMode :: "OpCode \<Rightarrow> OpMode" where
  "getOpMode m = (let w = luaP_opmodes m AND 3 in
     if w = 0 then iABC else if w = 1 then iABx else iAsBx)"

definition getBMode :: "OpCode \<Rightarrow> OpArgMask" where
  "getBMode m = argmask_of (drop_bit 4 (luaP_opmodes m) AND 3)"

definition getCMode :: "OpCode \<Rightarrow> OpArgMask" where
  "getCMode m = argmask_of (drop_bit 2 (luaP_opmodes m) AND 3)"

definition testAMode :: "OpCode \<Rightarrow> bool" where
  "testAMode m \<longleftrightarrow> luaP_opmodes m AND push_bit 6 1 \<noteq> 0"

definition testTMode :: "OpCode \<Rightarrow> bool" where
  "testTMode m \<longleftrightarrow> luaP_opmodes m AND push_bit 7 1 \<noteq> 0"

definition luaP_opnames :: "string option list" where
  "luaP_opnames =
    [Some ''MOVE'', Some ''LOADK'', Some ''LOADBOOL'', Some ''LOADNIL'', Some ''GETUPVAL'',
     Some ''GETGLOBAL'', Some ''GETTABLE'', Some ''SETGLOBAL'', Some ''SETUPVAL'',
     Some ''SETTABLE'', Some ''NEWTABLE'', Some ''SELF'', Some ''ADD'', Some ''SUB'',
     Some ''MUL'', Some ''DIV'', Some ''MOD'', Some ''POW'', Some ''UNM'', Some ''NOT'',
     Some ''LEN'', Some ''CONCAT'', Some ''JMP'', Some ''EQ'', Some ''LT'', Some ''LE'',
     Some ''TEST'', Some ''TESTSET'', Some ''CALL'', Some ''TAILCALL'', Some ''RETURN'',
     Some ''FORLOOP'', Some ''FORPREP'', Some ''TFORLOOP'', Some ''SETLIST'', Some ''CLOSE'',
     Some ''CLOSURE'', Some ''VARARG'', None]"

definition LFIELDS_PER_FLUSH :: int where
  "LFIELDS_PER_FLUSH = 50"

section \<open>Laws of the field macros\<close>

interpretation fOP: bit_field POS_OP SIZE_OP by unfold_locales simp
interpretation fA: bit_field POS_A SIZE_A by unfold_locales simp
interpretation fB: bit_field POS_B SIZE_B by unfold_locales simp
interpretation fC: bit_field POS_C SIZE_C by unfold_locales simp
interpretation fBx: bit_field POS_Bx SIZE_Bx by unfold_locales simp

interpretation fOP_A: disjoint_fields POS_OP SIZE_OP POS_A SIZE_A by unfold_locales simp_all
interpretation fOP_B: disjoint_fields POS_OP SIZE_OP POS_B SIZE_B by unfold_locales simp_all
interpretation fOP_C: disjoint_fields POS_OP SIZE_OP POS_C SIZE_C by unfold_locales simp_all
interpretation fOP_Bx: disjoint_fields POS_OP SIZE_OP POS_Bx SIZE_Bx by unfold_locales simp_all
interpretation fA_OP: disjoint_fields POS_A SIZE_A POS_OP SIZE_OP by unfold_locales simp_all
interpretation fA_B: disjoint_fields POS_A SIZE_A POS_B SIZE_B by unfold_locales simp_all
interpretation fA_C: disjoint_fields POS_A SIZE_A POS_C SIZE_C by unfold_locales simp_all
interpretation fA_Bx: disjoint_fields POS_A SIZE_A POS_Bx SIZE_Bx by unfold_locales simp_all
interpretation fB_OP: disjoint_fields POS_B SIZE_B POS_OP SIZE_OP by unfold_locales simp_all
interpretation fB_A: disjoint_fields POS_B SIZE_B POS_A SIZE_A by unfold_locales simp_all
interpretation fB_C: disjoint_fields POS_B SIZE_B POS_C SIZE_C by unfold_locales simp_all
interpretation fC_OP: disjoint_fields POS_C SIZE_C POS_OP SIZE_OP by unfold_locales simp_all
interpretation fC_A: disjoint_fields POS_C SIZE_C POS_A SIZE_A by unfold_locales simp_all
interpretation fC_B: disjoint_fields POS_C SIZE_C POS_B SIZE_B by unfold_locales simp_all
interpretation fBx_OP: disjoint_fields POS_Bx SIZE_Bx POS_OP SIZE_OP by unfold_locales simp_all
interpretation fBx_A: disjoint_fields POS_Bx SIZE_Bx POS_A SIZE_A by unfold_locales simp_all

lemmas arg_defs = GETARG_A_def GETARG_B_def GETARG_C_def GETARG_Bx_def GETARG_sBx_def
  SETARG_A_def SETARG_B_def SETARG_C_def SETARG_Bx_def SETARG_sBx_def

lemma GETARG_bounds [simp]:
  "0 \<le> GETARG_A i" "GETARG_A i < 256" "0 \<le> GETARG_B i" "GETARG_B i < 512"
  "0 \<le> GETARG_C i" "GETARG_C i < 512" "0 \<le> GETARG_Bx i" "GETARG_Bx i < 262144"
  using uint_get_field_lt [of POS_A SIZE_A i] uint_get_field_lt [of POS_B SIZE_B i]
    uint_get_field_lt [of POS_C SIZE_C i] uint_get_field_lt [of POS_Bx SIZE_Bx i]
  by (simp_all add: arg_defs)

lemma uint_of_int_32: "uint (of_int u :: u32) = u mod 2 ^ 32"
  by (simp add: unsigned_of_int take_bit_eq_mod)

lemma field_of_int_mod: "n \<le> 32 \<Longrightarrow> uint (of_int u :: u32) mod 2 ^ n = u mod 2 ^ n"
  using mod_mod_cancel [of "2 ^ n" "2 ^ 32" u] le_imp_power_dvd [of n 32 "2::int"]
  by (simp only: uint_of_int_32)

lemma GETARG_SETARG [simp, field_simps_w]:
  "GETARG_A (SETARG_A i u) = u mod 256"
  "GETARG_B (SETARG_B i u) = u mod 512"
  "GETARG_C (SETARG_C i u) = u mod 512"
  "GETARG_Bx (SETARG_Bx i u) = u mod 262144"
  using fA.uint_get_set [of i "of_int u"] fB.uint_get_set [of i "of_int u"]
    fC.uint_get_set [of i "of_int u"] fBx.uint_get_set [of i "of_int u"]
    field_of_int_mod [of 8 u] field_of_int_mod [of 9 u] field_of_int_mod [of 18 u]
  by (simp_all add: arg_defs)

lemma GETARG_SETARG_sBx [field_simps_w]:
  "- MAXARG_sBx \<le> u \<Longrightarrow> u \<le> MAXARG_sBx + 1 \<Longrightarrow> GETARG_sBx (SETARG_sBx i u) = u"
  by (simp add: GETARG_sBx_def SETARG_sBx_def)

lemma SETARG_frame [simp, field_simps_w]:
  "GET_OPCODE (SETARG_A i u) = GET_OPCODE i" "GETARG_B (SETARG_A i u) = GETARG_B i"
  "GETARG_C (SETARG_A i u) = GETARG_C i" "GETARG_Bx (SETARG_A i u) = GETARG_Bx i"
  "GETARG_sBx (SETARG_A i u) = GETARG_sBx i"
  "GET_OPCODE (SETARG_B i u) = GET_OPCODE i" "GETARG_A (SETARG_B i u) = GETARG_A i"
  "GETARG_C (SETARG_B i u) = GETARG_C i"
  "GET_OPCODE (SETARG_C i u) = GET_OPCODE i" "GETARG_A (SETARG_C i u) = GETARG_A i"
  "GETARG_B (SETARG_C i u) = GETARG_B i"
  "GET_OPCODE (SETARG_Bx i u) = GET_OPCODE i" "GETARG_A (SETARG_Bx i u) = GETARG_A i"
  "GET_OPCODE (SETARG_sBx i u) = GET_OPCODE i" "GETARG_A (SETARG_sBx i u) = GETARG_A i"
  by (simp_all add: arg_defs GET_OPCODE_def fA_B.get_set_other fA_C.get_set_other
      fA_OP.get_set_other fA_Bx.get_set_other fB_OP.get_set_other fB_A.get_set_other
      fB_C.get_set_other fC_OP.get_set_other fC_A.get_set_other fC_B.get_set_other
      fBx_OP.get_set_other fBx_A.get_set_other del: One_nat_def)

lemma opcode_num_take_bit: "take_bit 6 (of_nat (opcode_num op) :: u32) = of_nat (opcode_num op)"
  by (cases op) simp_all

lemma unat_opcode_num: "unat (of_nat (opcode_num op) :: u32) = opcode_num op"
  by (cases op) simp_all

lemma SET_OPCODE_laws [simp, field_simps_w]:
  "GET_OPCODE (SET_OPCODE i op) = Some op" "GETARG_A (SET_OPCODE i op) = GETARG_A i"
  "GETARG_B (SET_OPCODE i op) = GETARG_B i" "GETARG_C (SET_OPCODE i op) = GETARG_C i"
  "GETARG_Bx (SET_OPCODE i op) = GETARG_Bx i" "GETARG_sBx (SET_OPCODE i op) = GETARG_sBx i"
  by (simp_all add: arg_defs GET_OPCODE_def SET_OPCODE_def fOP.get_set fOP_A.get_set_other
      fOP_B.get_set_other fOP_C.get_set_other fOP_Bx.get_set_other opcode_num_take_bit
      unat_opcode_num)

lemma bit_int_range: "0 \<le> (a::int) \<Longrightarrow> a < 2 ^ n \<Longrightarrow> bit a k \<Longrightarrow> k < n"
  by (metis bit_take_bit_iff take_bit_int_eq_self)

lemma bit_opcode_num: "bit (opcode_num op) k \<Longrightarrow> k < 6"
proof -
  have "take_bit 6 (opcode_num op) = opcode_num op"
    by (cases op) simp_all
  then show "bit (opcode_num op) k \<Longrightarrow> k < 6"
    by (metis bit_take_bit_iff)
qed

lemma CREATE_ABC_fields:
  assumes "0 \<le> a" "a < 2 ^ SIZE_A" "0 \<le> b" "b < 2 ^ SIZE_B" "0 \<le> c" "c < 2 ^ SIZE_C"
  shows "get_field POS_OP SIZE_OP (CREATE_ABC op a b c) = of_nat (opcode_num op)"
    and "get_field POS_A SIZE_A (CREATE_ABC op a b c) = of_int a"
    and "get_field POS_B SIZE_B (CREATE_ABC op a b c) = of_int b"
    and "get_field POS_C SIZE_C (CREATE_ABC op a b c) = of_int c"
proof -
  note r = bit_int_range [OF assms(1,2)] bit_int_range [OF assms(3,4)]
    bit_int_range [OF assms(5,6)]
  show "get_field POS_OP SIZE_OP (CREATE_ABC op a b c) = of_nat (opcode_num op)"
    by (rule bit_eqI) (auto simp: CREATE_ABC_def get_field_def bit_simps dest: bit_opcode_num r)
  show "get_field POS_A SIZE_A (CREATE_ABC op a b c) = of_int a"
    by (rule bit_eqI) (auto simp: CREATE_ABC_def get_field_def bit_simps bit_of_int_iff
        dest: bit_opcode_num r)
  show "get_field POS_B SIZE_B (CREATE_ABC op a b c) = of_int b"
    by (rule bit_eqI) (auto simp: CREATE_ABC_def get_field_def bit_simps bit_of_int_iff
        dest: bit_opcode_num r)
  show "get_field POS_C SIZE_C (CREATE_ABC op a b c) = of_int c"
    by (rule bit_eqI) (auto simp: CREATE_ABC_def get_field_def bit_simps bit_of_int_iff
        dest: bit_opcode_num r)
qed

lemma CREATE_ABx_fields:
  assumes "0 \<le> a" "a < 2 ^ SIZE_A" "0 \<le> bc" "bc < 2 ^ SIZE_Bx"
  shows "get_field POS_OP SIZE_OP (CREATE_ABx op a bc) = of_nat (opcode_num op)"
    and "get_field POS_A SIZE_A (CREATE_ABx op a bc) = of_int a"
    and "get_field POS_Bx SIZE_Bx (CREATE_ABx op a bc) = of_int bc"
proof -
  note r = bit_int_range [OF assms(1,2)] bit_int_range [OF assms(3,4)]
  show "get_field POS_OP SIZE_OP (CREATE_ABx op a bc) = of_nat (opcode_num op)"
    by (rule bit_eqI) (auto simp: CREATE_ABx_def get_field_def bit_simps dest: bit_opcode_num r)
  show "get_field POS_A SIZE_A (CREATE_ABx op a bc) = of_int a"
    by (rule bit_eqI) (auto simp: CREATE_ABx_def get_field_def bit_simps bit_of_int_iff
        dest: bit_opcode_num r)
  show "get_field POS_Bx SIZE_Bx (CREATE_ABx op a bc) = of_int bc"
    by (rule bit_eqI) (auto simp: CREATE_ABx_def get_field_def bit_simps bit_of_int_iff
        dest: bit_opcode_num r)
qed

lemma GET_CREATE_ABC [simp, field_simps_w]:
  assumes "0 \<le> a" "a \<le> MAXARG_A" "0 \<le> b" "b \<le> MAXARG_B" "0 \<le> c" "c \<le> MAXARG_C"
  shows "GET_OPCODE (CREATE_ABC op a b c) = Some op" "GETARG_A (CREATE_ABC op a b c) = a"
    "GETARG_B (CREATE_ABC op a b c) = b" "GETARG_C (CREATE_ABC op a b c) = c"
  using CREATE_ABC_fields [of a b c op] assms
  by (simp_all add: GET_OPCODE_def arg_defs unat_opcode_num uint_of_int_32)

lemma GET_CREATE_ABx [simp, field_simps_w]:
  assumes "0 \<le> a" "a \<le> MAXARG_A" "0 \<le> bc" "bc \<le> MAXARG_Bx"
  shows "GET_OPCODE (CREATE_ABx op a bc) = Some op" "GETARG_A (CREATE_ABx op a bc) = a"
    "GETARG_Bx (CREATE_ABx op a bc) = bc"
  using CREATE_ABx_fields [of a bc op] assms
  by (simp_all add: GET_OPCODE_def arg_defs unat_opcode_num uint_of_int_32)

subsection \<open>RK operands\<close>

lemma BITRK_eq [simp]: "BITRK = 256" "MAXINDEXRK = 255" "NO_REG = 255"
  by (simp_all add: BITRK_def MAXINDEXRK_def NO_REG_def push_bit_eq_mult)

lemma ISK_bit: "ISK x \<longleftrightarrow> bit x 8"
  using and_exp_eq_0_iff_not_bit [of x 8] by (simp add: ISK_def)

lemma ISK_iff: "0 \<le> x \<Longrightarrow> x < 512 \<Longrightarrow> ISK x \<longleftrightarrow> 256 \<le> x"
  using int_div_pos_eq [of x 256 1 "x - 256"]
  by (cases "256 \<le> x") (simp_all add: ISK_bit bit_iff_odd)

lemma RKASK_eq: "0 \<le> k \<Longrightarrow> k \<le> MAXINDEXRK \<Longrightarrow> RKASK k = k + 256"
proof -
  assume k: "0 \<le> k" "k \<le> MAXINDEXRK"
  then have "k AND 256 = 0"
    using and_exp_eq_0_iff_not_bit [of k 8] bit_int_range [of k 8 8] by auto
  then show ?thesis
    by (simp add: RKASK_def disjunctive_add_eq_or)
qed

lemma INDEXK_eq: "0 \<le> k \<Longrightarrow> k \<le> MAXINDEXRK \<Longrightarrow> INDEXK (k + 256) = k"
proof -
  assume k: "0 \<le> k" "k \<le> MAXINDEXRK"
  have "bit (256::int) n \<longleftrightarrow> n = 8" for n
    using bit_exp_iff [where 'a = int, of 8 n] by auto
  then have "INDEXK (RKASK k) = k"
    using k bit_int_range [of k 8]
    by (intro bit_eqI) (auto simp: INDEXK_def RKASK_def bit_simps)
  then show ?thesis using RKASK_eq [OF k] by simp
qed

section \<open>Properties\<close>

text \<open>Instruction encoding round trip: for every opcode and all operands in the
  ranges the layout reserves for them, reading the fields of an instruction built by
  \<open>CREATE_ABC\<close> gives back the opcode and the three operands, and for \<open>CREATE_ABx\<close> the
  opcode, \<open>A\<close>, \<open>Bx\<close> and the signed reading \<open>sBx = Bx - MAXARG_sBx\<close>.\<close>

theorem instruction_roundtrip:
  assumes "0 \<le> a" "a \<le> MAXARG_A" "0 \<le> b" "b \<le> MAXARG_B" "0 \<le> c" "c \<le> MAXARG_C"
    and "- MAXARG_sBx \<le> s" "s \<le> MAXARG_sBx"
  shows "GET_OPCODE (CREATE_ABC op a b c) = Some op \<and> GETARG_A (CREATE_ABC op a b c) = a \<and>
    GETARG_B (CREATE_ABC op a b c) = b \<and> GETARG_C (CREATE_ABC op a b c) = c \<and>
    GET_OPCODE (CREATE_ABx op a (s + MAXARG_sBx)) = Some op \<and>
    GETARG_A (CREATE_ABx op a (s + MAXARG_sBx)) = a \<and>
    GETARG_sBx (CREATE_ABx op a (s + MAXARG_sBx)) = s"
proof -
  have "0 \<le> s + MAXARG_sBx" "s + MAXARG_sBx \<le> MAXARG_Bx" using assms by simp_all
  from GET_CREATE_ABx [OF assms(1,2) this] GET_CREATE_ABC [OF assms(1-6)]
  show ?thesis by (simp add: GETARG_sBx_def)
qed

theorem instruction_roundtrip_witness:
  "GET_OPCODE (CREATE_ABC OP_EQ 1 256 511) = Some OP_EQ \<and> GETARG_A (CREATE_ABC OP_EQ 1 256 511) = 1 \<and>
   GETARG_B (CREATE_ABC OP_EQ 1 256 511) = 256 \<and> GETARG_C (CREATE_ABC OP_EQ 1 256 511) = 511 \<and>
   GET_OPCODE (CREATE_ABx OP_EQ 1 (-3 + MAXARG_sBx)) = Some OP_EQ \<and>
   GETARG_A (CREATE_ABx OP_EQ 1 (-3 + MAXARG_sBx)) = 1 \<and>
   GETARG_sBx (CREATE_ABx OP_EQ 1 (-3 + MAXARG_sBx)) = -3"
  by (rule instruction_roundtrip) simp_all

text \<open>RK operands: a constant index up to \<open>MAXINDEXRK\<close> coded by \<open>RKASK\<close> fits the
  9-bit operand, is recognised by \<open>ISK\<close> and decoded by \<open>INDEXK\<close>, and no register number (at
  most \<open>MAXARG_A\<close>) is taken for a constant.\<close>

theorem rk_roundtrip:
  assumes "0 \<le> k" "k \<le> MAXINDEXRK" "0 \<le> r" "r \<le> MAXARG_A"
  shows "0 \<le> RKASK k \<and> RKASK k \<le> MAXARG_B \<and> ISK (RKASK k) \<and> INDEXK (RKASK k) = k \<and> \<not> ISK r"
  using assms RKASK_eq [OF assms(1,2)] INDEXK_eq [OF assms(1,2)] by (simp add: ISK_iff)

theorem rk_roundtrip_witness:
  "0 \<le> RKASK 255 \<and> RKASK 255 \<le> MAXARG_B \<and> ISK (RKASK 255) \<and> INDEXK (RKASK 255) = 255 \<and> \<not> ISK 249"
  by (rule rk_roundtrip) simp_all

end
