(* ===== verification/Objects.thy ===== *)
theory Objects
  imports LuaNumber Opcodes
begin

text \<open>
  Lua values and the generic functions over them: \<^verbatim>\<open>src/lua/lobject.h\<close> and \<^verbatim>\<open>src/lua/lobject.c\<close>.

  A \<open>TValue\<close> is a tagged value.  A string value is its contents: strings are interned
  (theory \<open>StringTable\<close>), so two live string pointers are equal exactly when the contents are.
  Every other collectable value is the address of its object.  \<open>TDeadKey\<close> is the tag the
  collector gives to the key of a removed table entry; it keeps the address of the collected object.
\<close>

datatype TValue =
    TNil
  | TBoolean bool
  | TLightUserdata ptr
  | TNumber lua_Number
  | TString string
  | TTable ptr
  | TFunction ptr
  | TUserdata ptr
  | TThread ptr
  | TDeadKey ptr

primrec ttype :: "TValue \<Rightarrow> nat" where
  "ttype TNil = 0"
| "ttype (TBoolean b) = 1"
| "ttype (TLightUserdata p) = 2"
| "ttype (TNumber n) = 3"
| "ttype (TString s) = 4"
| "ttype (TTable p) = 5"
| "ttype (TFunction p) = 6"
| "ttype (TUserdata p) = 7"
| "ttype (TThread p) = 8"
| "ttype (TDeadKey p) = 11"

definition ttisnil :: "TValue \<Rightarrow> bool" where
  "ttisnil v \<longleftrightarrow> v = TNil"

definition ttisnumber :: "TValue \<Rightarrow> bool" where
  "ttisnumber v \<longleftrightarrow> (case v of TNumber _ \<Rightarrow> True | _ \<Rightarrow> False)"

definition ttisstring :: "TValue \<Rightarrow> bool" where
  "ttisstring v \<longleftrightarrow> (case v of TString _ \<Rightarrow> True | _ \<Rightarrow> False)"

definition iscollectable :: "TValue \<Rightarrow> bool" where
  "iscollectable v \<longleftrightarrow> 4 \<le> ttype v"

definition l_isfalse :: "TValue \<Rightarrow> bool" where
  "l_isfalse v \<longleftrightarrow> v = TNil \<or> v = TBoolean False"

section \<open>Raw equality\<close>

fun luaO_rawequalObj :: "TValue \<Rightarrow> TValue \<Rightarrow> bool" where
  "luaO_rawequalObj t1 t2 =
     (if ttype t1 \<noteq> ttype t2 then False
      else case (t1, t2) of
        (TNil, _) \<Rightarrow> True
      | (TNumber a, TNumber b) \<Rightarrow> luai_numeq a b
      | (TBoolean a, TBoolean b) \<Rightarrow> a = b
      | (TLightUserdata p, TLightUserdata q) \<Rightarrow> p = q
      | _ \<Rightarrow> t1 = t2)"

declare luaO_rawequalObj.simps [simp del]

text \<open>A key that can be stored in a table: neither nil nor NaN.\<close>

definition valid_key :: "TValue \<Rightarrow> bool" where
  "valid_key k \<longleftrightarrow> k \<noteq> TNil \<and> (\<forall>n. k = TNumber n \<longrightarrow> \<not> num_isnan n)"

lemma rawequal_iff:
  "luaO_rawequalObj a b \<longleftrightarrow>
     (case a of TNumber x \<Rightarrow> (\<exists>y. b = TNumber y \<and> luai_numeq x y) | _ \<Rightarrow> a = b)"
  by (cases a; cases b) (simp_all add: luaO_rawequalObj.simps)

lemma rawequal_refl [simp]: "valid_key k \<Longrightarrow> luaO_rawequalObj k k"
  by (auto simp: rawequal_iff valid_key_def split: TValue.splits)

lemma rawequal_sym: "luaO_rawequalObj a b \<longleftrightarrow> luaO_rawequalObj b a"
  by (cases a; cases b) (auto simp: rawequal_iff luai_numeq_sym)

lemma rawequal_trans: "luaO_rawequalObj a b \<Longrightarrow> luaO_rawequalObj b c \<Longrightarrow> luaO_rawequalObj a c"
  by (cases a; cases b; cases c) (auto simp: rawequal_iff intro: luai_numeq_trans)

lemma rawequal_valid: "luaO_rawequalObj a b \<Longrightarrow> a \<noteq> TNil \<Longrightarrow> valid_key a \<and> valid_key b"
  by (cases a; cases b) (auto simp: rawequal_iff valid_key_def luai_numeq_def)

section \<open>Floating point bytes\<close>

fun int2fb_loop :: "nat \<Rightarrow> nat \<Rightarrow> nat \<times> nat" where
  "int2fb_loop x e =
     (if x \<ge> 16 then int2fb_loop (((x + 1) mod 2 ^ 32) div 2) (e + 1) else (x, e))"

declare int2fb_loop.simps [simp del]

definition luaO_int2fb :: "nat \<Rightarrow> nat" where
  "luaO_int2fb x = (let (x, e) = int2fb_loop x 0 in
     if x < 8 then x else push_bit 3 (e + 1) OR (x - 8))"

text \<open>The shift is an \<open>int\<close> shift: it wraps around at 32 bits.\<close>

definition luaO_fb2int :: "int \<Rightarrow> int" where
  "luaO_fb2int x = (let e = drop_bit 3 x AND 31 in
     if e = 0 then x else sint (push_bit (nat (e - 1)) (of_int ((x AND 7) + 8) :: u32)))"

section \<open>Logarithm\<close>

definition log_2_table :: "nat list" where
  "log_2_table =
     [0,1,2,2,3,3,3,3,4,4,4,4,4,4,4,4,5,5,5,5,5,5,5,5,5,5,5,5,5,5,5,5,
      6,6,6,6,6,6,6,6,6,6,6,6,6,6,6,6,6,6,6,6,6,6,6,6,6,6,6,6,6,6,6,6,
      7,7,7,7,7,7,7,7,7,7,7,7,7,7,7,7,7,7,7,7,7,7,7,7,7,7,7,7,7,7,7,7,
      7,7,7,7,7,7,7,7,7,7,7,7,7,7,7,7,7,7,7,7,7,7,7,7,7,7,7,7,7,7,7,7,
      8,8,8,8,8,8,8,8,8,8,8,8,8,8,8,8,8,8,8,8,8,8,8,8,8,8,8,8,8,8,8,8,
      8,8,8,8,8,8,8,8,8,8,8,8,8,8,8,8,8,8,8,8,8,8,8,8,8,8,8,8,8,8,8,8,
      8,8,8,8,8,8,8,8,8,8,8,8,8,8,8,8,8,8,8,8,8,8,8,8,8,8,8,8,8,8,8,8,
      8,8,8,8,8,8,8,8,8,8,8,8,8,8,8,8,8,8,8,8,8,8,8,8,8,8,8,8,8,8,8,8]"

fun log2_loop :: "nat \<Rightarrow> int \<Rightarrow> nat \<times> int" where
  "log2_loop x l = (if x \<ge> 256 then log2_loop (x div 256) (l + 8) else (x, l))"

declare log2_loop.simps [simp del]

definition luaO_log2 :: "nat \<Rightarrow> int" where
  "luaO_log2 x = (let (x, l) = log2_loop x (-1) in l + int (log_2_table ! x))"

definition ceillog2 :: "nat \<Rightarrow> int" where
  "ceillog2 x = luaO_log2 (x - 1) + 1"

section \<open>Chunk names\<close>

text \<open>
  C strings are their characters up to the terminating zero.  \<open>luaO_chunkid\<close> gets the size of
  the output buffer and returns the string it leaves there; \<open>bufflen\<close> is a \<open>size_t\<close>, so its
  subtraction wraps around.
\<close>

definition size_sub :: "nat \<Rightarrow> nat \<Rightarrow> nat" where
  "size_sub a b = (a + 2 ^ 64 - b) mod 2 ^ 64"

definition strcspn :: "string \<Rightarrow> char set \<Rightarrow> nat" where
  "strcspn s cs = length (takeWhile (\<lambda>c. c \<notin> cs) s)"

definition CHR_NL :: char where "CHR_NL = CHR 0x0A"
definition CHR_CR :: char where "CHR_CR = CHR 0x0D"

definition luaO_chunkid :: "string \<Rightarrow> nat \<Rightarrow> string" where
  "luaO_chunkid source bufflen =
     (if source \<noteq> [] \<and> hd source = CHR ''='' then take (bufflen - 1) (tl source)
      else if source \<noteq> [] \<and> hd source = CHR ''@'' then
        (let source = tl source;
             bufflen = size_sub bufflen 8;
             l = length source
         in if l > bufflen then ''...'' @ drop (l - bufflen) source else source)
      else
        (let len = strcspn source {CHR_NL, CHR_CR};
             bufflen = size_sub bufflen 17;
             len = (if len > bufflen then bufflen else len)
         in ''[string '' @ [CHR 0x22] @
            (if len < length source then take len source @ ''...'' else source) @
            [CHR 0x22] @ '']''))"

section \<open>Function prototypes\<close>

record LocVar =
  varname :: "string option"
  startpc :: int
  endpc :: int

text \<open>The size fields of the C structure are the lengths of the lists.\<close>

datatype Proto = Proto
  (p_k: "TValue list")
  (p_code: "Instruction list")
  (p_p: "Proto list")
  (p_lineinfo: "int list")
  (p_locvars: "LocVar list")
  (p_upvalues: "string option list")
  (p_source: "string option")
  (p_linedefined: int)
  (p_lastlinedefined: int)
  (p_nups: lu_byte)
  (p_numparams: lu_byte)
  (p_is_vararg: lu_byte)
  (p_maxstacksize: lu_byte)

abbreviation sizek :: "Proto \<Rightarrow> int" where "sizek f \<equiv> int (length (p_k f))"
abbreviation sizecode :: "Proto \<Rightarrow> int" where "sizecode f \<equiv> int (length (p_code f))"
abbreviation sizep :: "Proto \<Rightarrow> int" where "sizep f \<equiv> int (length (p_p f))"
abbreviation sizelineinfo :: "Proto \<Rightarrow> int" where "sizelineinfo f \<equiv> int (length (p_lineinfo f))"
abbreviation sizelocvars :: "Proto \<Rightarrow> int" where "sizelocvars f \<equiv> int (length (p_locvars f))"
abbreviation sizeupvalues :: "Proto \<Rightarrow> int" where
  "sizeupvalues f \<equiv> int (length (p_upvalues f))"

text \<open>\<open>luaF_newproto\<close> and \<open>luaF_getlocalname\<close> of \<^verbatim>\<open>src/lua/lfunc.c\<close>.\<close>

definition luaF_newproto :: Proto where
  "luaF_newproto = Proto [] [] [] [] [] [] None 0 0 0 0 0 0"

fun getlocalname_loop :: "LocVar list \<Rightarrow> int \<Rightarrow> int \<Rightarrow> LocVar option" where
  "getlocalname_loop [] local_number pc = None"
| "getlocalname_loop (v # vs) local_number pc =
     (if startpc v \<le> pc then
        (if pc < endpc v then
           (if local_number - 1 = 0 then Some v else getlocalname_loop vs (local_number - 1) pc)
         else getlocalname_loop vs local_number pc)
      else None)"

definition luaF_getlocalname :: "Proto \<Rightarrow> int \<Rightarrow> int \<Rightarrow> string option" where
  "luaF_getlocalname f local_number pc =
     (case getlocalname_loop (p_locvars f) local_number pc of
        Some v \<Rightarrow> varname v | None \<Rightarrow> None)"

section \<open>Laws\<close>

subsection \<open>Logarithms\<close>

lemma log_2_table_ilog2: "0 < x \<Longrightarrow> x < 256 \<Longrightarrow> log_2_table ! x = Suc (ilog2 x)"
proof -
  have "\<forall>x \<in> set [1..<256]. log_2_table ! x = Suc (ilog2 x)"
    by code_simp
  then show "0 < x \<Longrightarrow> x < 256 \<Longrightarrow> log_2_table ! x = Suc (ilog2 x)" by simp
qed

lemma ilog2_div_256: "256 \<le> x \<Longrightarrow> ilog2 x = ilog2 (x div 256) + 8"
proof -
  assume "256 \<le> x"
  then have "0 < x div 256" by (simp add: div_greater_zero_iff)
  from ilog2_bounds [OF this]
  have "2 ^ ilog2 (x div 256) * 256 \<le> x" "x < 2 ^ Suc (ilog2 (x div 256)) * 256"
    by (simp_all add: less_eq_div_iff_mult_less_eq div_less_iff_less_mult)
  then show ?thesis by (intro ilog2_unique) (simp_all add: power_add)
qed

lemma log2_loop_eq:
  "0 < x \<Longrightarrow> log2_loop x l = (y, l') \<Longrightarrow>
     0 < y \<and> y < 256 \<and> l' + int (ilog2 y) = l + int (ilog2 x)"
proof (induction x l rule: log2_loop.induct)
  case (1 x l)
  show ?case
  proof (cases "x \<ge> 256")
    case True
    with "1.IH" "1.prems" show ?thesis
      by (simp add: log2_loop.simps [of x l] div_greater_zero_iff ilog2_div_256)
  next
    case False
    with "1.prems" show ?thesis by (simp add: log2_loop.simps [of x l])
  qed
qed

lemma luaO_log2_ilog2: "0 < x \<Longrightarrow> luaO_log2 x = int (ilog2 x)"
  using log2_loop_eq [of x "-1"] log_2_table_ilog2
  by (fastforce simp: luaO_log2_def split: prod.splits)

lemma luaO_log2_0: "luaO_log2 0 = -1"
  by (simp add: luaO_log2_def log2_loop.simps log_2_table_def)

lemma ceillog2_cases: "ceillog2 x = (if x \<le> 1 then 0 else int (Suc (ilog2 (x - 1))))"
  by (simp add: ceillog2_def luaO_log2_0 luaO_log2_ilog2)

lemma ceillog2_bounds:
  assumes "0 < x"
  shows "0 \<le> ceillog2 x" "x \<le> 2 ^ nat (ceillog2 x)" "1 < x \<Longrightarrow> 2 ^ nat (ceillog2 x) < 2 * x"
  using assms ilog2_bounds [of "x - 1"] by (auto simp: ceillog2_cases nat_add_distrib)

lemma ceillog2_le: "x \<le> 2 ^ k \<Longrightarrow> ceillog2 x \<le> int k"
proof (cases "x \<le> 1")
  case False
  assume "x \<le> 2 ^ k"
  with False have "0 < x - 1" "x - 1 < 2 ^ k" by linarith+
  from ilog2_less [OF this] False show ?thesis by (simp add: ceillog2_cases)
qed (simp add: ceillog2_cases)

subsection \<open>Floating point bytes\<close>

lemma int2fb_loop_spec:
  "x < 2 ^ 32 - 1 \<Longrightarrow> int2fb_loop x e = (y, e') \<Longrightarrow>
     \<exists>k. e' = e + k \<and> y < 16 \<and> x \<le> y * 2 ^ k \<and> y * 2 ^ k < x + 2 ^ k \<and>
         (k = 0 \<longrightarrow> y = x) \<and> (0 < k \<longrightarrow> 8 \<le> y)"
proof (induction x e rule: int2fb_loop.induct)
  case (1 x e)
  show ?case
  proof (cases "x \<ge> 16")
    case True
    let ?x1 = "(x + 1) div 2"
    have m: "(x + 1) mod 2 ^ 32 = x + 1" using "1.prems" by simp
    have "int2fb_loop ?x1 (e + 1) = (y, e')"
      using "1.prems"(2) True m by (simp add: int2fb_loop.simps [of x e])
    moreover have "?x1 < 2 ^ 32 - 1" using "1.prems"(1) True by simp
    ultimately obtain k where
      k: "e' = e + 1 + k" "y < 16" "?x1 \<le> y * 2 ^ k" "y * 2 ^ k < ?x1 + 2 ^ k"
        "k = 0 \<longrightarrow> y = ?x1" "0 < k \<longrightarrow> 8 \<le> y"
      using "1.IH" [OF True] m by auto
    have "8 \<le> y" using k(5,6) True by (cases "k = 0") auto
    moreover have "x \<le> y * 2 ^ Suc k" "y * 2 ^ Suc k < x + 2 ^ Suc k" using k(3,4) by auto
    ultimately show ?thesis using k(1,2) by (intro exI [of _ "Suc k"]) auto
  next
    case False
    with "1.prems" show ?thesis by (auto simp: int2fb_loop.simps [of x e])
  qed
qed

lemma fb_code: "8 \<le> y \<Longrightarrow> y < 16 \<Longrightarrow> push_bit 3 (e + 1) OR (y - 8) = 8 * (e + 1) + (y - (8::nat))"
proof -
  assume y: "8 \<le> y" "y < 16"
  have "push_bit 3 (e + 1) AND (y - 8) = 0"
    using y bit_nat_range [of "y - 8" 3] by (intro bit_eqI) (fastforce simp: bit_simps)
  then have "push_bit 3 (e + 1) OR (y - 8) = push_bit 3 (e + 1) + (y - 8)"
    by (simp only: disjunctive_add_eq_or)
  then show ?thesis by (simp add: push_bit_eq_mult)
qed

lemma sint_shift:
  assumes "0 \<le> (y::int)" "y * 2 ^ k < 2 ^ 31"
  shows "sint (push_bit k (of_int y) :: u32) = y * 2 ^ k"
proof -
  have nn: "0 \<le> y * 2 ^ k" using assms by simp
  have "push_bit k (of_int y :: u32) = of_int (y * 2 ^ k)"
    by (simp add: push_bit_eq_mult)
  moreover have s31: "signed_take_bit 31 (y * 2 ^ k) = y * 2 ^ k"
    by (rule signed_take_bit_int_eq_self) (use nn assms(2) in linarith)+
  have "sint (of_int (y * 2 ^ k) :: u32) = y * 2 ^ k"
    using s31 by (simp only: signed_of_int) simp
  ultimately show ?thesis by simp
qed

lemma fb2int_code:
  assumes "8 \<le> y" "y < 16" "e < 31" "y * 2 ^ e < 2 ^ 31"
  shows "luaO_fb2int (int (8 * (e + 1) + (y - 8))) = int (y * 2 ^ e)"
proof -
  let ?n = "int (8 * (e + 1) + (y - 8))"
  have n: "?n = (int y - 8) + 8 * (int e + 1)" using assms by simp
  have hi: "drop_bit 3 ?n = int e + 1"
    using assms by (simp add: n drop_bit_eq_div)
  have "(int e + 1) AND mask 5 = int e + 1"
    using assms by (simp add: take_bit_int_eq_self flip: take_bit_eq_mask)
  then have e: "drop_bit 3 ?n AND 31 = int e + 1" using hi by (simp add: mask_eq_exp_minus_1)
  have mod_y: "int y mod 8 = int y - 8"
    by (rule int_mod_pos_eq [of _ _ 1]) (use assms(1,2) in simp_all)
  have "?n AND mask 3 = int y - 8"
    using mod_y by (simp only: n flip: take_bit_eq_mask) (simp add: take_bit_eq_mod)
  then have lo: "(?n AND 7) + 8 = int y" by (simp add: mask_eq_exp_minus_1)
  have "int (y * 2 ^ e) < int (2 ^ 31)" using assms(4) by (simp only: of_nat_less_iff)
  then have "int y * 2 ^ e < 2 ^ 31" by simp
  then have "sint (push_bit e (of_int (int y)) :: u32) = int y * 2 ^ e"
    by (intro sint_shift) simp
  then show ?thesis
    by (simp only: luaO_fb2int_def Let_def e lo) simp
qed

subsection \<open>Chunk names\<close>

lemma size_sub_eq: "b \<le> a \<Longrightarrow> a < 2 ^ 64 \<Longrightarrow> size_sub a b = a - b"
proof -
  assume ab: "b \<le> a" "a < 2 ^ 64"
  then have "(a + 2 ^ 64 - b) mod 2 ^ 64 = (a - b) mod 2 ^ 64"
    by (metis Nat.add_diff_assoc2 mod_add_self2)
  with ab show ?thesis by (simp add: size_sub_def)
qed

subsection \<open>Active local variables\<close>

definition active_locvars :: "LocVar list \<Rightarrow> int \<Rightarrow> LocVar list" where
  "active_locvars vs pc = filter (\<lambda>v. pc < endpc v) (takeWhile (\<lambda>v. startpc v \<le> pc) vs)"

lemma getlocalname_loop_eq:
  "0 < n \<Longrightarrow> getlocalname_loop vs n pc =
     (if nat n \<le> length (active_locvars vs pc) then Some (active_locvars vs pc ! (nat n - 1))
      else None)"
proof (induction vs n pc rule: getlocalname_loop.induct)
  case (1 n pc)
  then show ?case by (simp add: active_locvars_def)
next
  case (2 v vs n pc)
  show ?case
  proof (cases "startpc v \<le> pc \<and> pc < endpc v \<and> n \<noteq> 1")
    case True
    with "2.prems" have n: "0 < n - 1" "nat n - 1 = Suc (nat (n - 1) - 1)" "nat n = Suc (nat (n - 1))"
      by auto
    have "active_locvars (v # vs) pc = v # active_locvars vs pc"
      using True by (simp add: active_locvars_def)
    then show ?thesis using "2.IH"(1) True n by simp
  next
    case False
    then show ?thesis
      using "2.IH"(2) "2.prems" by (auto simp: active_locvars_def)
  qed
qed

section \<open>Properties\<close>

text \<open>\<open>luaO_log2\<close> with its 256-entry table computes the integer logarithm of every
  positive argument (and \<open>-1\<close> for 0), and \<open>ceillog2\<close> the least exponent whose power of two
  is at least its argument: the table size computations of \<^verbatim>\<open>ltable.c\<close> rest on it.\<close>

theorem luaO_log2_correct:
  "(0 < x \<longrightarrow> 2 ^ nat (luaO_log2 x) \<le> x \<and> x < 2 ^ (nat (luaO_log2 x) + 1)) \<and> luaO_log2 0 = -1 \<and>
   (0 < x \<longrightarrow> 0 \<le> ceillog2 x \<and> x \<le> 2 ^ nat (ceillog2 x) \<and> (\<forall>k. x \<le> 2 ^ k \<longrightarrow> ceillog2 x \<le> int k))"
  using ilog2_bounds [of x] ceillog2_bounds [of x] ceillog2_le [of x]
  by (simp add: luaO_log2_ilog2 luaO_log2_0)

theorem luaO_log2_correct_witness:
  "2 ^ nat (luaO_log2 1000) \<le> (1000::nat) \<and> (1000::nat) < 2 ^ (nat (luaO_log2 1000) + 1) \<and>
   luaO_log2 1000 = 9 \<and> 1000 \<le> (2::nat) ^ nat (ceillog2 1000)"
  using luaO_log2_correct [of 1000] by (simp add: luaO_log2_def log2_loop.simps log_2_table_def)

text \<open>Size hints survive the trip through the 8-bit floating point of
  \<open>OP_NEWTABLE\<close>: decoding the code of \<open>x\<close> never gives less than \<open>x\<close>, less than 8/7 of it,
  and exactly \<open>x\<close> below 16.\<close>

theorem int2fb_fb2int:
  assumes "x \<le> 2 ^ 30"
  shows "int x \<le> luaO_fb2int (int (luaO_int2fb x)) \<and>
    (0 < x \<longrightarrow> 7 * luaO_fb2int (int (luaO_int2fb x)) < 8 * int x) \<and>
    (x < 16 \<longrightarrow> luaO_fb2int (int (luaO_int2fb x)) = int x)"
proof -
  obtain y e where ye: "int2fb_loop x 0 = (y, e)" by fastforce
  from int2fb_loop_spec [OF _ ye] assms
  have s: "y < 16" "x \<le> y * 2 ^ e" "y * 2 ^ e < x + 2 ^ e" "e = 0 \<longrightarrow> y = x" "0 < e \<longrightarrow> 8 \<le> y"
    by auto
  show ?thesis
  proof (cases "y < 8")
    case True
    with s ye have "luaO_int2fb x = x" "x < 8" by (auto simp: luaO_int2fb_def)
    moreover have "luaO_fb2int (int x) = int x" if "x < 8"
      using that by (simp add: luaO_fb2int_def drop_bit_eq_div)
    ultimately show ?thesis by simp
  next
    case False
    have v: "8 * 2 ^ e \<le> y * 2 ^ e" using False by simp
    with s(3) have lt: "7 * (y * 2 ^ e) < 8 * x" by linarith
    then have "y * 2 ^ e < 2 ^ 31" using assms by simp
    moreover from this v have "8 * 2 ^ e < (2::nat) ^ 31" by linarith
    then have "e < 28" by (simp add: power_less_imp_less_exp [of 2 e 28])
    moreover have "luaO_int2fb x = 8 * (e + 1) + (y - 8)"
      using fb_code [of y e] ye False s(1) by (simp only: luaO_int2fb_def Let_def) simp
    ultimately have "luaO_fb2int (int (luaO_int2fb x)) = int (y * 2 ^ e)"
      using fb2int_code [of y e] False s(1) by simp
    moreover have "x = y * 2 ^ e" if "x < 16"
      using ye that by (simp add: int2fb_loop.simps)
    ultimately show ?thesis using s(2) lt by (simp flip: of_nat_mult of_nat_power)
  qed
qed

theorem int2fb_fb2int_witness:
  "int 1000 \<le> luaO_fb2int (int (luaO_int2fb 1000)) \<and>
    7 * luaO_fb2int (int (luaO_int2fb 1000)) < 8 * int 1000"
  using int2fb_fb2int [of 1000] by simp

text \<open>Buffer safety of \<open>luaO_chunkid\<close>: for every source name and every buffer of at
  least 17 bytes (callers pass \<open>LUA_IDSIZE\<close>, which is 60), the string written, with its
  terminating zero, fits the buffer.\<close>

theorem luaO_chunkid_fits:
  assumes "17 \<le> bufflen" "bufflen < 2 ^ 64"
  shows "length (luaO_chunkid source bufflen) + 1 \<le> bufflen"
proof -
  have s: "size_sub bufflen 8 = bufflen - 8" "size_sub bufflen 17 = bufflen - 17"
    using assms by (simp_all add: size_sub_eq)
  show ?thesis
  proof (cases "source \<noteq> [] \<and> (hd source = CHR ''='' \<or> hd source = CHR ''@'')")
    case True
    with assms s show ?thesis by (auto simp: luaO_chunkid_def Let_def)
  next
    case False
    let ?len = "strcspn source {CHR_NL, CHR_CR}"
    have "?len \<le> length source" by (simp add: strcspn_def length_takeWhile_le)
    with False assms s show ?thesis
      by (auto simp: luaO_chunkid_def Let_def min_def)
  qed
qed

theorem luaO_chunkid_fits_witness:
  "length (luaO_chunkid (CHR ''@'' # replicate 100 (CHR ''a'')) 60) + 1 \<le> 60"
  by (rule luaO_chunkid_fits) simp_all

text \<open>\<open>luaF_getlocalname\<close> returns the name of the n-th variable active at \<open>pc\<close>,
  counting the variables in order of their start, and nothing when fewer are active.\<close>

theorem luaF_getlocalname_spec:
  assumes "0 < n"
  shows "luaF_getlocalname f n pc =
    (let vs = active_locvars (p_locvars f) pc in
     if nat n \<le> length vs then varname (vs ! (nat n - 1)) else None)"
  using getlocalname_loop_eq [OF assms, of "p_locvars f" pc]
  by (simp add: luaF_getlocalname_def Let_def)

theorem luaF_getlocalname_spec_witness:
  "luaF_getlocalname (Proto [] [] [] [] [\<lparr>varname = Some ''a'', startpc = 0, endpc = 2\<rparr>,
      \<lparr>varname = Some ''b'', startpc = 1, endpc = 9\<rparr>] [] None 0 0 0 0 0 0) 1 5 = Some ''b''"
  using luaF_getlocalname_spec [of 1 "Proto [] [] [] [] [\<lparr>varname = Some ''a'', startpc = 0, endpc = 2\<rparr>,
      \<lparr>varname = Some ''b'', startpc = 1, endpc = 9\<rparr>] [] None 0 0 0 0 0 0" 5]
  by (simp add: active_locvars_def)

end
