(* ===== verification/StringTable.thy ===== *)
theory StringTable
  imports Objects "HOL-Library.Multiset"
begin

text \<open>
  The table of interned strings: \<^verbatim>\<open>src/lua/lstring.c\<close>.

  A string object carries its address, its hash and its characters.  \<open>strt_hash\<close> holds for each
  bucket the chain of objects linked through \<open>next\<close>, head first.  The allocator is outside
  this file: the address of a new object is an argument of the operations, and the theorems assume
  what an allocator guarantees, that it is not the address of an object of the table.
\<close>

record tsobj =
  ts_addr :: ptr
  ts_marked :: lu_byte
  ts_reserved :: lu_byte
  ts_hash :: u32
  ts_str :: string

record stringtable =
  strt_hash :: "tsobj list list"
  strt_nuse :: u32
  strt_size :: int

record gstate =
  strt :: stringtable
  gcsweepstring :: bool
  currentwhite :: lu_byte

section \<open>Colours (\<^verbatim>\<open>lgc.h\<close>)\<close>

definition WHITEBITS :: lu_byte where
  "WHITEBITS = push_bit 0 1 OR push_bit 1 1"

definition otherwhite :: "gstate \<Rightarrow> lu_byte" where
  "otherwhite g = currentwhite g XOR WHITEBITS"

definition isdead :: "gstate \<Rightarrow> lu_byte \<Rightarrow> bool" where
  "isdead g marked \<longleftrightarrow> marked AND otherwhite g AND WHITEBITS \<noteq> 0"

definition changewhite :: "lu_byte \<Rightarrow> lu_byte" where
  "changewhite marked = marked XOR WHITEBITS"

definition luaC_white :: "gstate \<Rightarrow> lu_byte" where
  "luaC_white g = currentwhite g AND WHITEBITS"

section \<open>Operations\<close>

definition lmod :: "u32 \<Rightarrow> int \<Rightarrow> nat" where
  "lmod s sz = unat (s AND (of_int sz - 1))"

fun resize_chain :: "int \<Rightarrow> tsobj list list \<Rightarrow> tsobj list \<Rightarrow> tsobj list list" where
  "resize_chain newsize newhash [] = newhash"
| "resize_chain newsize newhash (p # next) =
     (let h1 = lmod (ts_hash p) newsize
      in resize_chain newsize (newhash[h1 := p # newhash ! h1]) next)"

fun resize_rehash :: "int \<Rightarrow> tsobj list list \<Rightarrow> tsobj list list \<Rightarrow> tsobj list list" where
  "resize_rehash newsize newhash [] = newhash"
| "resize_rehash newsize newhash (c # cs) =
     resize_rehash newsize (resize_chain newsize newhash c) cs"

definition luaS_resize :: "gstate \<Rightarrow> int \<Rightarrow> gstate" where
  "luaS_resize g newsize =
     (if gcsweepstring g then g
      else let newhash = replicate (nat newsize) [];
               newhash = resize_rehash newsize newhash (strt_hash (strt g))
           in g\<lparr>strt := (strt g)\<lparr>strt_size := newsize, strt_hash := newhash\<rparr>\<rparr>)"

abbreviation SIZEOF_TString :: nat where "SIZEOF_TString \<equiv> 24"

definition newlstr :: "gstate \<Rightarrow> ptr \<Rightarrow> string \<Rightarrow> u32 \<Rightarrow> (gstate \<times> ptr) res" where
  "newlstr g addr str h =
     (if length str + 1 > (2 ^ 64 - 3) - SIZEOF_TString then Inl ErrMem
      else
        let ts = \<lparr>ts_addr = addr, ts_marked = luaC_white g, ts_reserved = 0, ts_hash = h,
                  ts_str = str\<rparr>;
            tb = strt g;
            i = lmod h (strt_size tb);
            tb = tb\<lparr>strt_hash := (strt_hash tb)[i := ts # strt_hash tb ! i],
                    strt_nuse := strt_nuse tb + 1\<rparr>;
            g = g\<lparr>strt := tb\<rparr>;
            g = (if strt_nuse tb > of_int (strt_size tb) \<and> strt_size tb \<le> MAX_INT div 2
                 then luaS_resize g (strt_size tb * 2) else g)
        in Inr (g, addr))"

function hash_loop :: "string \<Rightarrow> nat \<Rightarrow> nat \<Rightarrow> u32 \<Rightarrow> u32" where
  "hash_loop str step l1 h =
     (if l1 \<ge> step \<and> 0 < step
      then hash_loop str step (l1 - step)
             (h XOR (push_bit 5 h + drop_bit 2 h + of_char (str ! (l1 - 1))))
      else h)"
  by pat_completeness auto
termination by (relation "measure (\<lambda>(str, step, l1, h). l1)") auto

declare hash_loop.simps [simp del]

definition luaS_hash :: "string \<Rightarrow> u32" where
  "luaS_hash str =
     (let l = length str; step = (l div 32) + 1 in hash_loop str step l (of_nat l))"

definition revive :: "gstate \<Rightarrow> tsobj \<Rightarrow> tsobj" where
  "revive g o1 = (if isdead g (ts_marked o1) then o1\<lparr>ts_marked := changewhite (ts_marked o1)\<rparr> else o1)"

fun find_chain :: "tsobj list \<Rightarrow> string \<Rightarrow> nat \<Rightarrow> nat option" where
  "find_chain [] str n = None"
| "find_chain (ts # next) str n =
     (if length (ts_str ts) = length str \<and> ts_str ts = str then Some n
      else find_chain next str (Suc n))"

definition luaS_newlstr :: "gstate \<Rightarrow> ptr \<Rightarrow> string \<Rightarrow> (gstate \<times> ptr) res" where
  "luaS_newlstr g addr str =
     (let h = luaS_hash str;
          i = lmod h (strt_size (strt g));
          chain = strt_hash (strt g) ! i
      in case find_chain chain str 0 of
           Some n \<Rightarrow>
             let ts = chain ! n;
                 chain = chain[n := revive g ts]
             in Inr (g\<lparr>strt := (strt g)\<lparr>strt_hash := (strt_hash (strt g))[i := chain]\<rparr>\<rparr>, ts_addr ts)
         | None \<Rightarrow> newlstr g addr str h)"

section \<open>Well-formed string tables\<close>

definition objs :: "gstate \<Rightarrow> tsobj list" where
  "objs g = concat (strt_hash (strt g))"

definition buckets_ok :: "int \<Rightarrow> tsobj list list \<Rightarrow> bool" where
  "buckets_ok sz hs \<longleftrightarrow> length hs = nat sz \<and>
     (\<forall>i < length hs. \<forall>p \<in> set (hs ! i). lmod (ts_hash p) sz = i)"

definition strt_wf :: "gstate \<Rightarrow> bool" where
  "strt_wf g \<longleftrightarrow>
     (\<exists>k \<le> 30. strt_size (strt g) = 2 ^ k) \<and>
     buckets_ok (strt_size (strt g)) (strt_hash (strt g)) \<and>
     (\<forall>p \<in> set (objs g). ts_hash p = luaS_hash (ts_str p)) \<and>
     distinct (map ts_str (objs g)) \<and> distinct (map ts_addr (objs g)) \<and>
     strt_nuse (strt g) = of_nat (length (objs g))"

text \<open>The string at an address, and the freshness an allocator guarantees.\<close>

definition str_at :: "gstate \<Rightarrow> ptr \<Rightarrow> string option" where
  "str_at g p = map_of (map (\<lambda>x. (ts_addr x, ts_str x)) (objs g)) p"

definition fresh :: "gstate \<Rightarrow> ptr \<Rightarrow> bool" where
  "fresh g p \<longleftrightarrow> p \<notin> ts_addr ` set (objs g)"

lemma lmod_less: "k \<le> 31 \<Longrightarrow> lmod s (2 ^ k) < 2 ^ k"
proof -
  assume "k \<le> 31"
  have "s AND (2 ^ k - 1) = take_bit k s"
    by (simp add: take_bit_eq_mask mask_eq_exp_minus_1)
  then show ?thesis
    by (simp add: lmod_def unsigned_take_bit_eq)
qed

lemma mset_concat_update:
  "i < length xs \<Longrightarrow> mset (concat (xs[i := p # xs ! i])) = add_mset p (mset (concat xs))"
proof (induction xs arbitrary: i)
  case (Cons x xs)
  then show ?case by (cases i) auto
qed simp

lemma buckets_ok_push:
  assumes "buckets_ok sz hs" "lmod (ts_hash p) sz < length hs"
  shows "buckets_ok sz (hs[lmod (ts_hash p) sz := p # hs ! lmod (ts_hash p) sz])"
  using assms by (auto simp: buckets_ok_def nth_list_update)

lemma resize_chain_spec:
  assumes "\<And>s. lmod s sz < nat sz" "buckets_ok sz hs"
  shows "buckets_ok sz (resize_chain sz hs ps) \<and>
    mset (concat (resize_chain sz hs ps)) = mset (concat hs) + mset ps"
  using assms(2)
proof (induction ps arbitrary: hs)
  case (Cons p ps)
  let ?i = "lmod (ts_hash p) sz"
  from Cons.prems assms(1) have i: "?i < length hs" by (simp add: buckets_ok_def)
  from Cons.IH [OF buckets_ok_push [OF Cons.prems i]] i show ?case
    by (simp add: Let_def mset_concat_update)
qed simp

lemma resize_rehash_spec:
  assumes "\<And>s. lmod s sz < nat sz" "buckets_ok sz hs"
  shows "buckets_ok sz (resize_rehash sz hs cs) \<and>
    mset (concat (resize_rehash sz hs cs)) = mset (concat hs) + mset (concat cs)"
  using assms(2)
proof (induction cs arbitrary: hs)
  case (Cons c cs)
  from resize_chain_spec [OF assms(1) Cons.prems, of c] Cons.IH [of "resize_chain sz hs c"]
  show ?case by (simp add: add.assoc)
qed simp

lemma distinct_map_mset: "mset xs = mset ys \<Longrightarrow> distinct (map f xs) \<longleftrightarrow> distinct (map f ys)"
  by (metis mset_eq_imp_distinct_iff mset_map)

lemma objs_of_mset:
  assumes "mset (objs g') = mset (objs g)"
  shows "set (objs g') = set (objs g)" "length (objs g') = length (objs g)"
    "distinct (map ts_str (objs g')) = distinct (map ts_str (objs g))"
    "distinct (map ts_addr (objs g')) = distinct (map ts_addr (objs g))"
  using assms mset_eq_setD mset_eq_length distinct_map_mset by metis+

lemma luaS_resize_spec:
  assumes "strt_wf g" "k \<le> 30" "n = 2 ^ k"
  shows "strt_wf (luaS_resize g n)" "mset (objs (luaS_resize g n)) = mset (objs g)"
proof -
  have b: "buckets_ok n (replicate (nat n) [])" by (simp add: buckets_ok_def)
  have l: "lmod s n < nat n" for s
    using lmod_less [of k s] assms(2,3) by (simp add: nat_power_eq)
  note r = resize_rehash_spec [OF l b, of "strt_hash (strt g)"]
  show m: "mset (objs (luaS_resize g n)) = mset (objs g)"
    using r by (simp add: luaS_resize_def objs_def Let_def concat_replicate_trivial)
  show "strt_wf (luaS_resize g n)"
    using assms r objs_of_mset [OF m]
    by (auto simp: strt_wf_def luaS_resize_def Let_def)
qed

lemma str_at_iff:
  "distinct (map ts_addr (objs g)) \<Longrightarrow>
   str_at g p = Some s \<longleftrightarrow> (\<exists>x \<in> set (objs g). ts_addr x = p \<and> ts_str x = s)"
  by (auto simp: str_at_def map_of_eq_Some_iff comp_def)

lemma find_chain_Some: "find_chain c str n = Some m \<Longrightarrow>
    n \<le> m \<and> m - n < length c \<and> ts_str (c ! (m - n)) = str"
proof (induction c str n rule: find_chain.induct)
  case (2 ts nxt str n)
  then show ?case by (auto split: if_splits simp: nth_Cons')
qed simp

lemma find_chain_None: "find_chain c str n = None \<longleftrightarrow> str \<notin> ts_str ` set c"
  by (induction c str n rule: find_chain.induct) auto

lemma newlstr_spec:
  assumes wf: "strt_wf g" and fr: "fresh g addr" and new: "str \<notin> ts_str ` set (objs g)"
    and ok: "newlstr g addr str (luaS_hash str) = Inr (g', p)"
  shows "strt_wf g' \<and> p = addr \<and>
    (\<exists>ts. ts_addr ts = addr \<and> ts_str ts = str \<and> mset (objs g') = add_mset ts (mset (objs g)))"
proof -
  obtain k where k: "k \<le> 30" "strt_size (strt g) = 2 ^ k" using wf by (auto simp: strt_wf_def)
  define i where "i = lmod (luaS_hash str) (strt_size (strt g))"
  define ts where "ts = \<lparr>ts_addr = addr, ts_marked = luaC_white g, ts_reserved = 0,
    ts_hash = luaS_hash str, ts_str = str\<rparr>"
  define hs where "hs = (strt_hash (strt g))[i := ts # strt_hash (strt g) ! i]"
  define g1 where "g1 = g\<lparr>strt := (strt g)\<lparr>strt_hash := hs, strt_nuse := strt_nuse (strt g) + 1\<rparr>\<rparr>"
  have b: "buckets_ok (2 ^ k) (strt_hash (strt g))" using wf k by (simp add: strt_wf_def)
  have i: "i < length (strt_hash (strt g))"
    using lmod_less [of k "luaS_hash str"] k b by (simp add: i_def buckets_ok_def nat_power_eq)
  have m: "mset (objs g1) = add_mset ts (mset (objs g))"
    using i by (simp add: g1_def objs_def hs_def mset_concat_update)
  have b1: "buckets_ok (2 ^ k) hs"
    using buckets_ok_push [OF b, of ts] i k by (simp add: hs_def i_def ts_def)
  have m': "mset (objs g1) = mset (ts # objs g)" using m by simp
  have s: "set (objs g1) = insert ts (set (objs g))" "length (objs g1) = Suc (length (objs g))"
    using mset_eq_setD [OF m'] mset_eq_length [OF m'] by simp_all
  have "distinct (map ts_str (objs g1))" "distinct (map ts_addr (objs g1))"
    using wf fr new by (simp_all add: distinct_map_mset [OF m'] strt_wf_def fresh_def ts_def)
  moreover have "\<forall>p \<in> set (objs g1). ts_hash p = luaS_hash (ts_str p)"
    using wf s by (auto simp: ts_def strt_wf_def)
  ultimately have w1: "strt_wf g1"
    using wf b1 k s by (auto simp: strt_wf_def g1_def)
  have g': "p = addr \<and> (g' = g1 \<or> (2 ^ k \<le> MAX_INT div 2 \<and> g' = luaS_resize g1 (2 ^ k * 2)))"
    using ok k(2) unfolding newlstr_def Let_def
    by (auto simp: g1_def hs_def i_def ts_def split: if_splits)
  have "Suc k \<le> 30" if "(2::int) ^ k \<le> MAX_INT div 2"
    using that power_increasing [of 30 k "2::int"] by (force simp: MAX_INT_def)
  with luaS_resize_spec [OF w1, of "Suc k" "2 ^ k * 2"] g' w1 m show ?thesis
    by (auto simp: ts_def)
qed

lemma map_update_same: "n < length h \<Longrightarrow> f y = f (h ! n) \<Longrightarrow> map f (h[n := y]) = map f h"
  by (metis list_update_id map_update nth_map)

lemma map_concat_update:
  assumes "i < length hs" "n < length (hs ! i)" "f y = f (hs ! i ! n)"
  shows "map f (concat (hs[i := (hs ! i)[n := y]])) = map f (concat hs)"
proof -
  have "map (map f) (hs[i := (hs ! i)[n := y]]) = map (map f) hs"
    by (rule map_update_same [OF assms(1)]) (rule map_update_same [OF assms(2,3)])
  then show ?thesis by (simp only: map_concat)
qed

lemma buckets_ok_update:
  assumes "buckets_ok sz hs" "lmod (ts_hash y) sz = i"
  shows "buckets_ok sz (hs[i := (hs ! i)[n := y]])"
proof -
  have "lmod (ts_hash p) sz = j"
    if j: "j < length hs" and p: "p \<in> set (hs[i := (hs ! i)[n := y]] ! j)" for j p
  proof (cases "j = i")
    case True
    with p j have "p = y \<or> p \<in> set (hs ! i)"
      using set_update_subset_insert [of "hs ! i" n y] by auto
    with True assms j show ?thesis by (auto simp: buckets_ok_def)
  qed (use assms j p in \<open>simp add: buckets_ok_def\<close>)
  with assms show ?thesis by (simp add: buckets_ok_def)
qed

lemma objs_update:
  assumes "i < length (strt_hash (strt g))" "n < length (strt_hash (strt g) ! i)"
    "f y = f (strt_hash (strt g) ! i ! n)"
  shows "map f (objs (g\<lparr>strt := (strt g)\<lparr>strt_hash :=
    (strt_hash (strt g))[i := (strt_hash (strt g) ! i)[n := y]]\<rparr>\<rparr>)) = map f (objs g)"
  using map_concat_update [OF assms] by (simp add: objs_def)

lemma luaS_newlstr_found:
  assumes wf: "strt_wf g"
    and f: "find_chain (strt_hash (strt g) ! lmod (luaS_hash str) (strt_size (strt g))) str 0 = Some n"
    and ok: "luaS_newlstr g addr str = Inr (g', p)"
  shows "strt_wf g' \<and> map (\<lambda>x. (ts_addr x, ts_str x)) (objs g') = map (\<lambda>x. (ts_addr x, ts_str x)) (objs g)
    \<and> (\<exists>x \<in> set (objs g). ts_addr x = p \<and> ts_str x = str)"
proof -
  obtain k where k: "k \<le> 30" "strt_size (strt g) = 2 ^ k" using wf by (auto simp: strt_wf_def)
  define i where "i = lmod (luaS_hash str) (strt_size (strt g))"
  define hs where "hs = strt_hash (strt g)"
  define y where "y = revive g (hs ! i ! n)"
  have b: "buckets_ok (2 ^ k) hs" using wf k by (simp add: strt_wf_def hs_def)
  have i: "i < length hs"
    using lmod_less [of k "luaS_hash str"] k b by (simp add: i_def buckets_ok_def nat_power_eq)
  have n: "n < length (hs ! i)" "ts_str (hs ! i ! n) = str"
    using find_chain_Some [OF f] by (simp_all add: hs_def i_def)
  have g': "g' = g\<lparr>strt := (strt g)\<lparr>strt_hash := hs[i := (hs ! i)[n := y]]\<rparr>\<rparr>" "p = ts_addr (hs ! i ! n)"
    using ok f by (simp_all add: luaS_newlstr_def Let_def i_def hs_def y_def)
  have y: "ts_addr y = ts_addr (hs ! i ! n)" "ts_str y = ts_str (hs ! i ! n)"
    "ts_hash y = ts_hash (hs ! i ! n)"
    by (simp_all add: y_def revive_def)
  define f3 where "f3 = (\<lambda>x::tsobj. (ts_addr x, ts_str x, ts_hash x))"
  have keep3: "map f3 (objs g') = map f3 (objs g)"
    unfolding g'(1) unfolding hs_def
    by (rule objs_update) (use i n(1) y in \<open>simp_all add: hs_def f3_def\<close>)
  have h: "\<forall>q \<in> set (objs g'). ts_hash q = luaS_hash (ts_str q)"
  proof
    fix q assume "q \<in> set (objs g')"
    then have "f3 q \<in> set (map f3 (objs g'))" by simp
    then have "f3 q \<in> set (map f3 (objs g))" by (simp only: keep3)
    then obtain q' where "q' \<in> set (objs g)" "f3 q = f3 q'" by auto
    with wf show "ts_hash q = luaS_hash (ts_str q)" by (simp add: strt_wf_def f3_def)
  qed
  have "lmod (ts_hash y) (2 ^ k) = i"
    using b i n(1) y(3) by (simp add: buckets_ok_def)
  then have "buckets_ok (2 ^ k) (hs[i := (hs ! i)[n := y]])"
    by (rule buckets_ok_update [OF b])
  moreover have ks: "map ts_str (objs g') = map ts_str (objs g)"
    using arg_cong [OF keep3, of "map (\<lambda>(a, s, h). s)"] by (simp add: f3_def comp_def)
  moreover have "map ts_addr (objs g') = map ts_addr (objs g)"
    using arg_cong [OF keep3, of "map (\<lambda>(a, s, h). a)"] by (simp add: f3_def comp_def)
  moreover have "length (objs g') = length (objs g)" using arg_cong [OF ks, of length] by simp
  ultimately have "strt_wf g'"
    using wf k h by (simp add: strt_wf_def g'(1))
  moreover have "map (\<lambda>x. (ts_addr x, ts_str x)) (objs g') = map (\<lambda>x. (ts_addr x, ts_str x)) (objs g)"
    using arg_cong [OF keep3, of "map (\<lambda>(a, s, h). (a, s))"] by (simp add: f3_def comp_def)
  moreover have "hs ! i ! n \<in> set (objs g)"
    using nth_mem [OF i] nth_mem [OF n(1)] by (auto simp: objs_def hs_def)
  ultimately show ?thesis using y g'(2) n(2) by blast
qed

lemma newlstr_ok: "newlstr g addr str h = Inr (g', p) \<Longrightarrow> p = addr"
  by (simp add: newlstr_def Let_def split: if_splits)

lemma in_objs_bucket:
  assumes "strt_wf g" "x \<in> set (objs g)"
  shows "x \<in> set (strt_hash (strt g) ! lmod (luaS_hash (ts_str x)) (strt_size (strt g)))"
proof -
  from assms(2) obtain c where c: "c \<in> set (strt_hash (strt g))" "x \<in> set c"
    by (auto simp: objs_def)
  then obtain i where i: "i < length (strt_hash (strt g))" "x \<in> set (strt_hash (strt g) ! i)"
    by (metis in_set_conv_nth)
  moreover have "ts_hash x = luaS_hash (ts_str x)" using assms by (simp add: strt_wf_def)
  moreover have "lmod (ts_hash x) (strt_size (strt g)) = i"
    using assms(1) i by (auto simp: strt_wf_def buckets_ok_def)
  ultimately show ?thesis by simp
qed

lemma luaS_newlstr_new:
  assumes wf: "strt_wf g" and fr: "fresh g addr"
    and f: "find_chain (strt_hash (strt g) ! lmod (luaS_hash str) (strt_size (strt g))) str 0 = None"
    and ok: "luaS_newlstr g addr str = Inr (g', p)"
  shows "strt_wf g' \<and> p = addr \<and>
    (\<exists>ts. ts_addr ts = addr \<and> ts_str ts = str \<and> mset (objs g') = add_mset ts (mset (objs g)))"
proof -
  have "str \<notin> ts_str ` set (objs g)"
    using f in_objs_bucket [OF wf] by (auto simp: find_chain_None)
  moreover have "newlstr g addr str (luaS_hash str) = Inr (g', p)"
    using ok f by (simp add: luaS_newlstr_def Let_def)
  ultimately show ?thesis by (rule newlstr_spec [OF wf fr])
qed

lemma luaS_newlstr_spec:
  assumes wf: "strt_wf g" and fr: "fresh g addr" and ok: "luaS_newlstr g addr str = Inr (g', p)"
  shows "strt_wf g' \<and> str_at g' p = Some str \<and> (\<forall>q s. str_at g q = Some s \<longrightarrow> str_at g' q = Some s)"
proof (cases "find_chain (strt_hash (strt g) ! lmod (luaS_hash str) (strt_size (strt g))) str 0")
  case (Some n)
  from luaS_newlstr_found [OF wf Some ok] have
    w: "strt_wf g'" and m: "map (\<lambda>x. (ts_addr x, ts_str x)) (objs g') = map (\<lambda>x. (ts_addr x, ts_str x)) (objs g)"
    and x: "\<exists>x \<in> set (objs g). ts_addr x = p \<and> ts_str x = str" by auto
  from m have "str_at g' = str_at g" by (simp add: str_at_def fun_eq_iff)
  with w x wf show ?thesis by (simp add: str_at_iff strt_wf_def)
next
  case None
  from luaS_newlstr_new [OF wf fr None ok] obtain ts where
    w: "strt_wf g'" and p: "p = addr" "ts_addr ts = addr" "ts_str ts = str"
    and m: "mset (objs g') = add_mset ts (mset (objs g))" by auto
  from m have "set (objs g') = insert ts (set (objs g))"
    by (metis set_mset_add_mset_insert set_mset_mset)
  with w p wf show ?thesis by (auto simp: str_at_iff strt_wf_def)
qed

lemma str_at_inj:
  assumes "strt_wf g" "str_at g p = Some s" "str_at g q = Some s"
  shows "p = q"
proof -
  from assms obtain x y where xy: "x \<in> set (objs g)" "y \<in> set (objs g)" "ts_str x = ts_str y"
    "ts_addr x = p" "ts_addr y = q"
    by (auto simp: str_at_iff strt_wf_def)
  moreover have "inj_on ts_str (set (objs g))" using assms(1) by (simp add: strt_wf_def distinct_map)
  ultimately show ?thesis by (auto dest: inj_onD)
qed

section \<open>The interface of an interner\<close>

text \<open>What the clients of the string table rely on: interning keeps the invariant, returns the address
  of an object with the requested contents, moves no string, and no two addresses hold equal strings.
  The client's theorem: over any sequence of interning operations, pointer comparison is string
  comparison.\<close>

locale interner =
  fixes inv :: "'g \<Rightarrow> bool"
    and is_fresh :: "'g \<Rightarrow> ptr \<Rightarrow> bool"
    and intern :: "'g \<Rightarrow> ptr \<Rightarrow> string \<Rightarrow> ('g \<times> ptr) res"
    and contents :: "'g \<Rightarrow> ptr \<Rightarrow> string option"
  assumes inv_intern: "inv g \<Longrightarrow> is_fresh g a \<Longrightarrow> intern g a s = Inr (g', p) \<Longrightarrow> inv g'"
    and contents_intern: "inv g \<Longrightarrow> is_fresh g a \<Longrightarrow> intern g a s = Inr (g', p) \<Longrightarrow> contents g' p = Some s"
    and contents_stable: "inv g \<Longrightarrow> is_fresh g a \<Longrightarrow> intern g a s = Inr (g', p) \<Longrightarrow>
      contents g q = Some t \<Longrightarrow> contents g' q = Some t"
    and contents_inj: "inv g \<Longrightarrow> contents g p = Some s \<Longrightarrow> contents g q = Some s \<Longrightarrow> p = q"
begin

fun intern_all :: "'g \<Rightarrow> (ptr \<times> string) list \<Rightarrow> ('g \<times> ptr list) option" where
  "intern_all g [] = Some (g, [])"
| "intern_all g ((a, s) # rs) =
     (if is_fresh g a then
        (case intern g a s of
           Inl _ \<Rightarrow> None
         | Inr (g', p) \<Rightarrow> map_option (\<lambda>(g'', ps). (g'', p # ps)) (intern_all g' rs))
      else None)"

lemma intern_all_contents:
  "inv g \<Longrightarrow> intern_all g rs = Some (g', ps) \<Longrightarrow>
   inv g' \<and> length ps = length rs \<and> (\<forall>i < length rs. contents g' (ps ! i) = Some (snd (rs ! i))) \<and>
   (\<forall>q t. contents g q = Some t \<longrightarrow> contents g' q = Some t)"
proof (induction g rs arbitrary: ps rule: intern_all.induct)
  case (2 g a s rs)
  then obtain g1 p1 ps1 where
    s: "is_fresh g a" "intern g a s = Inr (g1, p1)" "intern_all g1 rs = Some (g', ps1)" "ps = p1 # ps1"
    by (auto split: if_splits sum.splits)
  note IH = "2.IH" [OF s(1,2) refl inv_intern [OF "2.prems"(1) s(1,2)] s(3)]
  have "contents g' (ps ! i) = Some (snd (((a, s) # rs) ! i))" if "i < length ((a, s) # rs)" for i
    using that IH s(4) contents_intern [OF "2.prems"(1) s(1,2)] by (cases i) auto
  moreover have "contents g' q = Some t" if "contents g q = Some t" for q t
    using that contents_stable [OF "2.prems"(1) s(1,2)] IH by blast
  ultimately show ?case using IH s(4) by simp
qed auto

lemma pointers_decide:
  assumes "inv g" "intern_all g rs = Some (g', ps)" "i < length rs" "j < length rs"
  shows "ps ! i = ps ! j \<longleftrightarrow> snd (rs ! i) = snd (rs ! j)"
proof -
  note c = intern_all_contents [OF assms(1,2)]
  with assms(3,4) have ij: "contents g' (ps ! i) = Some (snd (rs ! i))"
    "contents g' (ps ! j) = Some (snd (rs ! j))" by simp_all
  show ?thesis
  proof
    assume "ps ! i = ps ! j"
    with ij show "snd (rs ! i) = snd (rs ! j)" by simp
  next
    assume "snd (rs ! i) = snd (rs ! j)"
    with ij c show "ps ! i = ps ! j" by (auto intro: contents_inj)
  qed
qed

end

interpretation luaS: interner strt_wf fresh luaS_newlstr str_at
  by unfold_locales (use luaS_newlstr_spec str_at_inj in \<open>blast+\<close>)

section \<open>Properties\<close>

text \<open>The string table of a new state (\<open>lua_newstate\<close> clears it, \<open>f_luaopen\<close> gives it
  \<open>MINSTRTABSIZE\<close> buckets), and a sequence of interning requests.\<close>

definition init_strt :: gstate where
  "init_strt = luaS_resize
     \<lparr>strt = \<lparr>strt_hash = [], strt_nuse = 0, strt_size = 0\<rparr>, gcsweepstring = False, currentwhite = 1\<rparr> 32"

fun newlstr_all :: "gstate \<Rightarrow> (ptr \<times> string) list \<Rightarrow> (gstate \<times> ptr list) option" where
  "newlstr_all g [] = Some (g, [])"
| "newlstr_all g ((a, s) # rs) =
     (if fresh g a then
        (case luaS_newlstr g a s of
           Inl _ \<Rightarrow> None
         | Inr (g', p) \<Rightarrow> map_option (\<lambda>(g'', ps). (g'', p # ps)) (newlstr_all g' rs))
      else None)"

lemma newlstr_all_eq: "newlstr_all g rs = luaS.intern_all g rs"
  by (induction g rs rule: newlstr_all.induct)
    (auto simp: luaS.intern_all.simps split: sum.splits)

lemma strt_wf_init: "strt_wf init_strt"
  by (auto simp: strt_wf_def init_strt_def luaS_resize_def Let_def buckets_ok_def objs_def
      intro: exI [of _ "5::nat"])

text \<open>Property C8.  Interning: starting from a well-formed string table, after any sequence of
  \<open>luaS_newlstr\<close> requests (with addresses the allocator may return, table resizes included),
  the table is well-formed again, every returned pointer holds the requested characters, strings that
  were there before keep their address, and two returned pointers are equal exactly when the requested
  strings are.\<close>

theorem luaS_newlstr_interns:
  assumes "strt_wf g" "newlstr_all g rs = Some (g', ps)" "i < length rs" "j < length rs"
  shows "strt_wf g' \<and> str_at g' (ps ! i) = Some (snd (rs ! i)) \<and>
    (\<forall>q t. str_at g q = Some t \<longrightarrow> str_at g' q = Some t) \<and>
    (ps ! i = ps ! j \<longleftrightarrow> snd (rs ! i) = snd (rs ! j))"
  using luaS.intern_all_contents [of g rs g' ps] luaS.pointers_decide [of g rs g' ps i j] assms
  by (simp add: newlstr_all_eq)

definition tiny_strt :: gstate where
  "tiny_strt = \<lparr>strt = \<lparr>strt_hash = [[]], strt_nuse = 0, strt_size = 1\<rparr>, gcsweepstring = False,
     currentwhite = 1\<rparr>"

lemma strt_wf_tiny: "strt_wf tiny_strt"
  by (auto simp: strt_wf_def tiny_strt_def buckets_ok_def objs_def intro: exI [of _ "0::nat"])

lemma replicate_2: "replicate 2 x = [x, x]"
  by (simp add: numeral_2_eq_2)

lemma newlstr_all_tiny:
  "map_option snd (newlstr_all tiny_strt [(16, ''x''), (48, ''y''), (80, ''x'')]) = Some [16, 48, 16]"
  by (simp add: tiny_strt_def luaS_resize_def luaS_newlstr_def newlstr_def luaS_hash_def
      hash_loop.simps lmod_def fresh_def objs_def luaC_white_def WHITEBITS_def MAX_INT_def
      replicate_2 isdead_def otherwhite_def revive_def push_bit_eq_mult drop_bit_eq_div)

theorem luaS_newlstr_interns_witness:
  "\<exists>g'. newlstr_all tiny_strt [(16, ''x''), (48, ''y''), (80, ''x'')] = Some (g', [16, 48, 16]) \<and>
     strt_wf g' \<and> ((16::ptr) = 48 \<longleftrightarrow> ''x'' = ''y'')"
proof -
  from newlstr_all_tiny obtain g' where
    g': "newlstr_all tiny_strt [(16, ''x''), (48, ''y''), (80, ''x'')] = Some (g', [16, 48, 16])"
    by auto
  from luaS_newlstr_interns [OF strt_wf_tiny g', of 0 1] g' show ?thesis by auto
qed

text \<open>\<open>luaS_resize\<close> to a power of two keeps a well-formed table well-formed and
  loses, duplicates and changes no string object; during the sweep of strings it does nothing.\<close>

theorem luaS_resize_preserves:
  assumes "strt_wf g" "k \<le> 30"
  shows "strt_wf (luaS_resize g (2 ^ k)) \<and> mset (objs (luaS_resize g (2 ^ k))) = mset (objs g) \<and>
    (gcsweepstring g \<longrightarrow> luaS_resize g (2 ^ k) = g)"
  using luaS_resize_spec [OF assms refl] by (simp add: luaS_resize_def)

theorem luaS_resize_preserves_witness:
  "strt_wf (luaS_resize init_strt (2 ^ 6)) \<and>
   mset (objs (luaS_resize init_strt (2 ^ 6))) = mset (objs init_strt)"
  using luaS_resize_preserves [OF strt_wf_init, of 6] by simp

end
