(* ===== verification/LuaTable.thy ===== *)
theory LuaTable
  imports StringTable
begin

text \<open>
  Lua tables: the data structures and operations of \<^verbatim>\<open>src/lua/ltable.c\<close>.

  A table has an array part (\<open>t_array\<close>, whose length is \<open>sizearray\<close>) and a hash part, a
  node vector of \<open>2 ^ t_lsizenode\<close> nodes chained through indices (\<open>None\<close> is the null pointer).
  \<open>t_isdummy\<close> says that \<open>node\<close> points to the shared constant \<open>dummynode\<close>; the node list is
  then that one node.  \<open>t_lastfree\<close> is the offset of \<open>lastfree\<close> from \<open>node\<close>.

  The C functions return the address of the slot that holds a value; the model returns a
  \<open>slot\<close>, which \<open>deref\<close> reads and \<open>setslot\<close> writes (\<open>setobj\<close> through the pointer).
  Allocation is assumed to succeed, and the write barrier \<open>luaC_barriert\<close> changes colours only.
\<close>

record Node =
  i_val :: TValue
  i_key :: TValue
  nk_next :: "nat option"

record Table =
  t_flags :: lu_byte
  t_lsizenode :: nat
  t_metatable :: "ptr option"
  t_array :: "TValue list"
  t_node :: "Node list"
  t_isdummy :: bool
  t_lastfree :: int

datatype slot = NilObject | ArraySlot nat | NodeSlot nat

definition deref :: "Table \<Rightarrow> slot \<Rightarrow> TValue" where
  "deref t s = (case s of NilObject \<Rightarrow> TNil | ArraySlot i \<Rightarrow> t_array t ! i
                | NodeSlot i \<Rightarrow> i_val (t_node t ! i))"

definition setslot :: "Table \<Rightarrow> slot \<Rightarrow> TValue \<Rightarrow> Table" where
  "setslot t s v = (case s of
       NilObject \<Rightarrow> t
     | ArraySlot i \<Rightarrow> t\<lparr>t_array := (t_array t)[i := v]\<rparr>
     | NodeSlot i \<Rightarrow> t\<lparr>t_node := (t_node t)[i := (t_node t ! i)\<lparr>i_val := v\<rparr>]\<rparr>)"

definition MAXBITS :: nat where "MAXBITS = 26"
definition MAXASIZE :: int where "MAXASIZE = 2 ^ 26"

definition dummynode :: Node where
  "dummynode = \<lparr>i_val = TNil, i_key = TNil, nk_next = None\<rparr>"

section \<open>Hashing\<close>

text \<open>The main position depends on the table only through \<open>lsizenode\<close>.  No caller asks for the main
  position of nil; the address its unused value field would give is taken to be 0.\<close>

definition hashpow2 :: "nat \<Rightarrow> u32 \<Rightarrow> nat" where
  "hashpow2 ls n = lmod n (2 ^ ls)"

definition hashmod :: "nat \<Rightarrow> u32 \<Rightarrow> nat" where
  "hashmod ls n = unat (n mod ((2 ^ ls - 1) OR 1))"

definition hashpointer :: "nat \<Rightarrow> ptr \<Rightarrow> nat" where
  "hashpointer ls p = hashmod ls (ucast p)"

definition hashnum :: "nat \<Rightarrow> lua_Number \<Rightarrow> nat" where
  "hashnum ls n = (if luai_numeq n 0 then 0 else hashmod ls (ucast n + ucast (drop_bit 32 n)))"

primrec mainposition :: "nat \<Rightarrow> TValue \<Rightarrow> nat" where
  "mainposition ls (TNumber n) = hashnum ls n"
| "mainposition ls (TString s) = hashpow2 ls (luaS_hash s)"
| "mainposition ls (TBoolean b) = hashpow2 ls (of_bool b)"
| "mainposition ls (TLightUserdata p) = hashpointer ls p"
| "mainposition ls (TTable p) = hashpointer ls p"
| "mainposition ls (TFunction p) = hashpointer ls p"
| "mainposition ls (TUserdata p) = hashpointer ls p"
| "mainposition ls (TThread p) = hashpointer ls p"
| "mainposition ls (TDeadKey p) = hashpointer ls p"
| "mainposition ls TNil = hashpointer ls 0"

definition arrayindex :: "TValue \<Rightarrow> int" where
  "arrayindex key = (case key of
       TNumber n \<Rightarrow> (let k = lua_number2int n in if luai_numeq (cast_num k) n then k else -1)
     | _ \<Rightarrow> -1)"

section \<open>Searching\<close>

text \<open>The \<open>do ... while (n)\<close> loop along a collision chain.  \<open>fuel\<close> bounds the number of
  nodes visited; the callers give the number of nodes, which is enough when the chain has no cycle.\<close>

fun chain_find :: "nat \<Rightarrow> Node list \<Rightarrow> (Node \<Rightarrow> bool) \<Rightarrow> nat \<Rightarrow> nat option res" where
  "chain_find 0 ns P n = Inl OutOfFuel"
| "chain_find (Suc fuel) ns P n =
     (if P (ns ! n) then Inr (Some n)
      else case nk_next (ns ! n) of None \<Rightarrow> Inr None | Some n' \<Rightarrow> chain_find fuel ns P n')"

definition chain_slot :: "nat option \<Rightarrow> slot" where
  "chain_slot r = (case r of Some n \<Rightarrow> NodeSlot n | None \<Rightarrow> NilObject)"

definition luaH_getnum :: "Table \<Rightarrow> int \<Rightarrow> slot res" where
  "luaH_getnum t key =
     (if (of_int (key - 1) :: u32) < of_nat (length (t_array t))
      then Inr (ArraySlot (nat (key - 1)))
      else let nk = cast_num key in
        bindE (chain_find (length (t_node t)) (t_node t)
                 (\<lambda>n. case i_key n of TNumber m \<Rightarrow> luai_numeq m nk | _ \<Rightarrow> False)
                 (hashnum (t_lsizenode t) nk))
              (\<lambda>r. Inr (chain_slot r)))"

definition luaH_getstr :: "Table \<Rightarrow> string \<Rightarrow> slot res" where
  "luaH_getstr t key =
     bindE (chain_find (length (t_node t)) (t_node t)
              (\<lambda>n. case i_key n of TString s \<Rightarrow> s = key | _ \<Rightarrow> False)
              (hashpow2 (t_lsizenode t) (luaS_hash key)))
           (\<lambda>r. Inr (chain_slot r))"

definition get_generic :: "Table \<Rightarrow> TValue \<Rightarrow> slot res" where
  "get_generic t key =
     bindE (chain_find (length (t_node t)) (t_node t) (\<lambda>n. luaO_rawequalObj (i_key n) key)
              (mainposition (t_lsizenode t) key))
           (\<lambda>r. Inr (chain_slot r))"

definition luaH_get :: "Table \<Rightarrow> TValue \<Rightarrow> slot res" where
  "luaH_get t key = (case key of
       TNil \<Rightarrow> Inr NilObject
     | TString s \<Rightarrow> luaH_getstr t s
     | TNumber n \<Rightarrow> (let k = lua_number2int n in
         if luai_numeq (cast_num k) n then luaH_getnum t k else get_generic t key)
     | _ \<Rightarrow> get_generic t key)"

section \<open>Resizing\<close>

definition setarrayvector :: "Table \<Rightarrow> nat \<Rightarrow> Table" where
  "setarrayvector t size1 =
     t\<lparr>t_array := take size1 (t_array t) @ replicate (size1 - length (t_array t)) TNil\<rparr>"

definition setnodevector :: "Table \<Rightarrow> nat \<Rightarrow> Table res" where
  "setnodevector t size1 =
     (if size1 = 0
      then Inr (t\<lparr>t_node := [dummynode], t_isdummy := True, t_lsizenode := 0, t_lastfree := 0\<rparr>)
      else let lsize = nat (ceillog2 size1) in
        if lsize > MAXBITS then Inl (ErrRun ''table overflow'')
        else Inr (t\<lparr>t_node := replicate (2 ^ lsize) dummynode, t_isdummy := False,
                     t_lsizenode := lsize, t_lastfree := 2 ^ lsize\<rparr>))"

type_synonym newkey_fn = "Table \<Rightarrow> TValue \<Rightarrow> (Table \<times> slot) res"

text \<open>\<open>newkey\<close>, \<open>rehash\<close>, \<open>resize\<close>, \<open>luaH_set\<close> and \<open>luaH_setnum\<close> call each other.
  The last four are written over the \<open>newkey\<close> they call; \<open>newkey\<close> itself, below, recurses on
  a bound for the depth of that recursion.\<close>

definition set_with :: "newkey_fn \<Rightarrow> Table \<Rightarrow> TValue \<Rightarrow> (Table \<times> slot) res" where
  "set_with nk t key =
     bindE (luaH_get t key) (\<lambda>p.
       let t = t\<lparr>t_flags := 0\<rparr> in
       if p \<noteq> NilObject then Inr (t, p)
       else if ttisnil key then Inl (ErrRun ''table index is nil'')
       else if (case key of TNumber n \<Rightarrow> luai_numisnan n | _ \<Rightarrow> False)
            then Inl (ErrRun ''table index is NaN'')
       else nk t key)"

definition setnum_with :: "newkey_fn \<Rightarrow> Table \<Rightarrow> int \<Rightarrow> (Table \<times> slot) res" where
  "setnum_with nk t key =
     bindE (luaH_getnum t key) (\<lambda>p.
       if p \<noteq> NilObject then Inr (t, p) else nk t (TNumber (cast_num key)))"

text \<open>The loop that re-inserts the slots \<open>i, i + 1, \<dots>\<close> of the vanishing slice of the array, and the
  loop that re-inserts the old nodes, given in the order in which it visits them.\<close>

fun reinsert_array :: "newkey_fn \<Rightarrow> Table \<Rightarrow> int \<Rightarrow> TValue list \<Rightarrow> Table res" where
  "reinsert_array nk t i [] = Inr t"
| "reinsert_array nk t i (v # vs) =
     (if \<not> ttisnil v
      then bindE (setnum_with nk t (i + 1)) (\<lambda>(t, s). reinsert_array nk (setslot t s v) (i + 1) vs)
      else reinsert_array nk t (i + 1) vs)"

fun reinsert_nodes :: "newkey_fn \<Rightarrow> Table \<Rightarrow> Node list \<Rightarrow> Table res" where
  "reinsert_nodes nk t [] = Inr t"
| "reinsert_nodes nk t (old # olds) =
     (if \<not> ttisnil (i_val old)
      then bindE (set_with nk t (i_key old))
             (\<lambda>(t, s). reinsert_nodes nk (setslot t s (i_val old)) olds)
      else reinsert_nodes nk t olds)"

definition resize_with :: "newkey_fn \<Rightarrow> Table \<Rightarrow> nat \<Rightarrow> nat \<Rightarrow> Table res" where
  "resize_with nk t nasize nhsize =
     (let oldasize = length (t_array t);
          nold = t_node t;
          t = (if nasize > oldasize then setarrayvector t nasize else t)
      in bindE (setnodevector t nhsize) (\<lambda>t.
         bindE (if nasize < oldasize
                then let vanishing = drop nasize (t_array t);
                         t = t\<lparr>t_array := take nasize (t_array t)\<rparr>
                     in reinsert_array nk t (int nasize) vanishing
                else Inr t) (\<lambda>t.
         reinsert_nodes nk t (rev nold))))"

subsection \<open>Computing the new sizes\<close>

fun computesizes_loop :: "int list \<Rightarrow> int \<Rightarrow> int \<Rightarrow> int \<Rightarrow> int \<Rightarrow> int \<Rightarrow> int \<times> int" where
  "computesizes_loop [] twotoi a na n narray = (na, n)"
| "computesizes_loop (x # nums) twotoi a na n narray =
     (if twotoi div 2 < narray then
        let (a, na, n) =
              (if x > 0 then
                 let a = a + x in if a > twotoi div 2 then (a, a, twotoi) else (a, na, n)
               else (a, na, n))
        in if a = narray then (na, n) else computesizes_loop nums (twotoi * 2) a na n narray
      else (na, n))"

text \<open>Returns the result \<open>na\<close> and the new \<open>*narray\<close>.\<close>

definition computesizes :: "int list \<Rightarrow> int \<Rightarrow> int \<times> int" where
  "computesizes nums narray = computesizes_loop nums 1 0 0 0 narray"

definition countint :: "TValue \<Rightarrow> int list \<Rightarrow> int list \<times> int" where
  "countint key nums =
     (let k = arrayindex key in
      if 0 < k \<and> k \<le> MAXASIZE
      then (let i = nat (ceillog2 (nat k)) in (nums[i := nums ! i + 1], 1))
      else (nums, 0))"

function count_slice :: "TValue list \<Rightarrow> nat \<Rightarrow> nat \<Rightarrow> int \<Rightarrow> int \<times> nat" where
  "count_slice arr i lim lc =
     (if i \<le> lim then count_slice arr (i + 1) lim (if ttisnil (arr ! (i - 1)) then lc else lc + 1)
      else (lc, i))"
  by pat_completeness auto
termination by (relation "measure (\<lambda>(arr, i, lim, lc). lim + 1 - i)") auto

declare count_slice.simps [simp del]

function numusearray_loop ::
  "TValue list \<Rightarrow> nat \<Rightarrow> nat \<Rightarrow> nat \<Rightarrow> int list \<Rightarrow> int \<Rightarrow> int list \<times> int" where
  "numusearray_loop arr lg ttlg i nums ause =
     (if lg \<le> MAXBITS then
        let lim = (if ttlg > length arr then length arr else ttlg) in
        if ttlg > length arr \<and> i > lim then (nums, ause)
        else let (lc, i) = count_slice arr i lim 0
             in numusearray_loop arr (lg + 1) (ttlg * 2) i (nums[lg := nums ! lg + lc]) (ause + lc)
      else (nums, ause))"
  by pat_completeness auto
termination by (relation "measure (\<lambda>(arr, lg, _). MAXBITS + 1 - lg)") auto

declare numusearray_loop.simps [simp del]

definition numusearray :: "Table \<Rightarrow> int list \<Rightarrow> int list \<times> int" where
  "numusearray t nums = numusearray_loop (t_array t) 0 1 1 nums 0"

fun numusehash_loop :: "Node list \<Rightarrow> int list \<Rightarrow> int \<Rightarrow> int \<Rightarrow> int list \<times> int \<times> int" where
  "numusehash_loop [] nums ause totaluse = (nums, ause, totaluse)"
| "numusehash_loop (n # ns) nums ause totaluse =
     (if \<not> ttisnil (i_val n)
      then let (nums, c) = countint (i_key n) nums
           in numusehash_loop ns nums (ause + c) (totaluse + 1)
      else numusehash_loop ns nums ause totaluse)"

text \<open>Returns \<open>nums\<close>, the increment of \<open>*pnasize\<close> and the total; the nodes are visited from the
  last to the first.\<close>

definition numusehash :: "Table \<Rightarrow> int list \<Rightarrow> int list \<times> int \<times> int" where
  "numusehash t nums = numusehash_loop (rev (t_node t)) nums 0 0"

definition rehash_sizes :: "Table \<Rightarrow> TValue \<Rightarrow> nat \<times> nat" where
  "rehash_sizes t ek =
     (let nums = replicate (MAXBITS + 1) 0;
          (nums, nasize) = numusearray t nums;
          totaluse = nasize;
          (nums, ause, total) = numusehash t nums;
          nasize = nasize + ause;
          totaluse = totaluse + total;
          (nums, c) = countint ek nums;
          nasize = nasize + c;
          totaluse = totaluse + 1;
          (na, nasize) = computesizes nums nasize
      in (nat nasize, nat (totaluse - na)))"

definition rehash_with :: "newkey_fn \<Rightarrow> Table \<Rightarrow> TValue \<Rightarrow> Table res" where
  "rehash_with nk t ek =
     (let (nasize, nhsize) = rehash_sizes t ek in resize_with nk t nasize nhsize)"

section \<open>Inserting\<close>

fun getfreepos_loop :: "Node list \<Rightarrow> nat \<Rightarrow> nat option" where
  "getfreepos_loop ns 0 = None"
| "getfreepos_loop ns (Suc lastfree) =
     (if ttisnil (i_key (ns ! lastfree)) then Some lastfree else getfreepos_loop ns lastfree)"

definition getfreepos :: "Table \<Rightarrow> Table \<times> nat option" where
  "getfreepos t =
     (if t_lastfree t > 0
      then (case getfreepos_loop (t_node t) (nat (t_lastfree t)) of
              Some i \<Rightarrow> (t\<lparr>t_lastfree := int i\<rparr>, Some i)
            | None \<Rightarrow> (t\<lparr>t_lastfree := -1\<rparr>, None))
      else (t\<lparr>t_lastfree := t_lastfree t - 1\<rparr>, None))"

text \<open>\<open>while (gnext(othern) != mp) othern = gnext(othern)\<close>, with the same fuel as a search.\<close>

fun find_previous :: "nat \<Rightarrow> Node list \<Rightarrow> nat \<Rightarrow> nat \<Rightarrow> nat res" where
  "find_previous 0 ns mp othern = Inl OutOfFuel"
| "find_previous (Suc fuel) ns mp othern =
     (if nk_next (ns ! othern) = Some mp then Inr othern
      else case nk_next (ns ! othern) of
             None \<Rightarrow> Inl OutOfFuel
           | Some n' \<Rightarrow> find_previous fuel ns mp n')"

text \<open>The two ways to make room when the main position is taken; the result is the node that gets the
  new key.\<close>

definition move_colliding :: "Node list \<Rightarrow> nat \<Rightarrow> nat \<Rightarrow> nat \<Rightarrow> Node list" where
  "move_colliding ns mp prev n =
     (let ns = ns[prev := (ns ! prev)\<lparr>nk_next := Some n\<rparr>];
          ns = ns[n := ns ! mp]
      in ns[mp := (ns ! mp)\<lparr>nk_next := None, i_val := TNil\<rparr>])"

definition chain_free :: "Node list \<Rightarrow> nat \<Rightarrow> nat \<Rightarrow> Node list" where
  "chain_free ns mp n =
     (let ns = ns[n := (ns ! n)\<lparr>nk_next := nk_next (ns ! mp)\<rparr>]
      in ns[mp := (ns ! mp)\<lparr>nk_next := Some n\<rparr>])"

definition put_key :: "Table \<Rightarrow> Node list \<Rightarrow> nat \<Rightarrow> TValue \<Rightarrow> Table \<times> slot" where
  "put_key t ns mp key =
     (t\<lparr>t_node := ns[mp := (ns ! mp)\<lparr>i_key := key\<rparr>]\<rparr>, NodeSlot mp)"

fun newkey :: "nat \<Rightarrow> Table \<Rightarrow> TValue \<Rightarrow> (Table \<times> slot) res" where
  "newkey 0 t key = Inl OutOfFuel"
| "newkey (Suc depth) t key =
     (let mp = mainposition (t_lsizenode t) key in
      if \<not> ttisnil (i_val (t_node t ! mp)) \<or> t_isdummy t then
        (case getfreepos t of
           (t, None) \<Rightarrow>
             bindE (rehash_with (newkey depth) t key) (\<lambda>t. set_with (newkey depth) t key)
         | (t, Some n) \<Rightarrow>
             let othern = mainposition (t_lsizenode t) (i_key (t_node t ! mp)) in
             if othern \<noteq> mp then
               bindE (find_previous (length (t_node t)) (t_node t) mp othern) (\<lambda>prev.
                 Inr (put_key t (move_colliding (t_node t) mp prev n) mp key))
             else Inr (put_key t (chain_free (t_node t) mp n) n key))
      else Inr (put_key t (t_node t) mp key))"

text \<open>A \<open>newkey\<close> that rehashes re-inserts into a table with room for every key, so the recursion is
  two deep; the theorems below show that depth 2 is enough.\<close>

definition luaH_set :: "Table \<Rightarrow> TValue \<Rightarrow> (Table \<times> slot) res" where
  "luaH_set t key = set_with (newkey 2) t key"

definition luaH_setnum :: "Table \<Rightarrow> int \<Rightarrow> (Table \<times> slot) res" where
  "luaH_setnum t key = setnum_with (newkey 2) t key"

definition luaH_setstr :: "Table \<Rightarrow> string \<Rightarrow> (Table \<times> slot) res" where
  "luaH_setstr t key =
     bindE (luaH_getstr t key) (\<lambda>p. if p \<noteq> NilObject then Inr (t, p) else newkey 2 t (TString key))"

definition luaH_resizearray :: "Table \<Rightarrow> nat \<Rightarrow> Table res" where
  "luaH_resizearray t nasize =
     resize_with (newkey 2) t nasize (if t_isdummy t then 0 else 2 ^ t_lsizenode t)"

definition luaH_new :: "nat \<Rightarrow> nat \<Rightarrow> Table res" where
  "luaH_new narray nhash =
     (let t = \<lparr>t_flags = NOT 0, t_lsizenode = 0, t_metatable = None, t_array = [],
               t_node = [dummynode], t_isdummy = True, t_lastfree = 0\<rparr>
      in setnodevector (setarrayvector t narray) nhash)"

section \<open>Traversal\<close>

text \<open>\<open>saddr\<close> gives the address of an interned string: a dead key is compared by address.\<close>

primrec gcvalue :: "(string \<Rightarrow> ptr) \<Rightarrow> TValue \<Rightarrow> ptr option" where
  "gcvalue saddr TNil = None"
| "gcvalue saddr (TBoolean b) = None"
| "gcvalue saddr (TLightUserdata p) = None"
| "gcvalue saddr (TNumber n) = None"
| "gcvalue saddr (TString s) = Some (saddr s)"
| "gcvalue saddr (TTable p) = Some p"
| "gcvalue saddr (TFunction p) = Some p"
| "gcvalue saddr (TUserdata p) = Some p"
| "gcvalue saddr (TThread p) = Some p"
| "gcvalue saddr (TDeadKey p) = Some p"

definition findindex :: "(string \<Rightarrow> ptr) \<Rightarrow> Table \<Rightarrow> TValue \<Rightarrow> int res" where
  "findindex saddr t key =
     (if ttisnil key then Inr (-1)
      else let i = arrayindex key in
        if 0 < i \<and> i \<le> int (length (t_array t)) then Inr (i - 1)
        else bindE (chain_find (length (t_node t)) (t_node t)
               (\<lambda>n. luaO_rawequalObj (i_key n) key \<or>
                    (case i_key n of TDeadKey p \<Rightarrow> gcvalue saddr key = Some p | _ \<Rightarrow> False))
               (mainposition (t_lsizenode t) key))
             (\<lambda>r. case r of Some n \<Rightarrow> Inr (int n + int (length (t_array t)))
                  | None \<Rightarrow> Inl (ErrRun (''invalid key to '' @ [CHR 0x27] @ ''next'' @ [CHR 0x27]))))"

fun next_array :: "TValue list \<Rightarrow> nat \<Rightarrow> (nat \<times> TValue) option" where
  "next_array [] i = None"
| "next_array (v # vs) i = (if \<not> ttisnil v then Some (i, v) else next_array vs (i + 1))"

fun next_node :: "Node list \<Rightarrow> (TValue \<times> TValue) option" where
  "next_node [] = None"
| "next_node (n # ns) = (if \<not> ttisnil (i_val n) then Some (i_key n, i_val n) else next_node ns)"

text \<open>The next key and value, or \<open>None\<close> at the end of the traversal (result 0).\<close>

definition luaH_next :: "(string \<Rightarrow> ptr) \<Rightarrow> Table \<Rightarrow> TValue \<Rightarrow> (TValue \<times> TValue) option res" where
  "luaH_next saddr t key =
     bindE (findindex saddr t key) (\<lambda>i.
       let i = nat (i + 1) in
       case next_array (drop i (t_array t)) i of
         Some (j, v) \<Rightarrow> Inr (Some (TNumber (cast_num (int j + 1)), v))
       | None \<Rightarrow> Inr (next_node (drop (i - length (t_array t)) (t_node t))))"

section \<open>Length\<close>

function array_search :: "TValue list \<Rightarrow> nat \<Rightarrow> nat \<Rightarrow> nat" where
  "array_search arr i j =
     (if j - i > 1 then let m = (i + j) div 2 in
        if ttisnil (arr ! (m - 1)) then array_search arr i m else array_search arr m j
      else i)"
  by pat_completeness auto
termination by (relation "measure (\<lambda>(arr, i, j). j - i)") auto

declare array_search.simps [simp del]

definition isnil_at :: "Table \<Rightarrow> nat \<Rightarrow> bool res" where
  "isnil_at t j = bindE (luaH_getnum t (int j)) (\<lambda>s. Inr (ttisnil (deref t s)))"

text \<open>The loops of \<open>unbound_search\<close>; \<open>fuel\<close> bounds the linear search.\<close>

fun linear_search :: "nat \<Rightarrow> Table \<Rightarrow> nat \<Rightarrow> nat res" where
  "linear_search 0 t i = Inl OutOfFuel"
| "linear_search (Suc fuel) t i =
     bindE (isnil_at t i) (\<lambda>b. if b then Inr (i - 1) else linear_search fuel t (i + 1))"

function hash_search :: "Table \<Rightarrow> nat \<Rightarrow> nat \<Rightarrow> nat res" where
  "hash_search t i j =
     (if j - i > 1 then let m = (i + j) div 2 in
        bindE (isnil_at t m) (\<lambda>b. if b then hash_search t i m else hash_search t m j)
      else Inr i)"
  by pat_completeness auto
termination by (relation "measure (\<lambda>(t, i, j). j - i)") auto

declare hash_search.simps [simp del]

function double_search :: "Table \<Rightarrow> nat \<Rightarrow> nat \<Rightarrow> nat res" where
  "double_search t i j =
     (if j = 0 \<or> j > nat MAX_INT then Inl OutOfFuel
      else bindE (isnil_at t j) (\<lambda>b.
        if b then hash_search t i j
        else if j * 2 > nat MAX_INT then linear_search (2 ^ 31) t 1
        else double_search t j (j * 2)))"
  by pat_completeness auto
termination by (relation "measure (\<lambda>(t, i, j). nat MAX_INT - j)") auto

declare double_search.simps [simp del]

definition unbound_search :: "Table \<Rightarrow> nat \<Rightarrow> nat res" where
  "unbound_search t j = double_search t j (j + 1)"

definition luaH_getn :: "Table \<Rightarrow> nat res" where
  "luaH_getn t =
     (let j = length (t_array t) in
      if j > 0 \<and> ttisnil (t_array t ! (j - 1)) then Inr (array_search (t_array t) 0 j)
      else if t_isdummy t then Inr j
      else unbound_search t j)"

end
