(* ===== verification/Chains.thy ===== *)
theory Chains
  imports LuaTable
begin

text \<open>
  The hash part of a table as a chained scatter table with Brent's variation (the comment at the head
  of \<^verbatim>\<open>src/lua/ltable.c\<close>): the invariant of the node vector, searching along a chain, and the
  three ways \<open>newkey\<close> places a key without growing the table.  The locale \<open>scatter\<close> states what the
  hash function must promise; the theory \<open>TableProps\<close> interprets it on \<open>mainposition\<close>.
\<close>

section \<open>Links\<close>

definition keyed :: "Node \<Rightarrow> bool" where
  "keyed nd \<longleftrightarrow> i_key nd \<noteq> TNil \<and> (\<forall>p. i_key nd \<noteq> TDeadKey p)"

definition nrel :: "Node list \<Rightarrow> (nat \<times> nat) set" where
  "nrel ns = {(i, j). i < length ns \<and> nk_next (ns ! i) = Some j}"

definition reach :: "Node list \<Rightarrow> nat \<Rightarrow> nat set" where
  "reach ns i = {j. (i, j) \<in> (nrel ns)\<^sup>*}"

text \<open>The links are a set of disjoint, finite lists of nodes with keys; nodes without a key are in none.\<close>

definition links_ok :: "Node list \<Rightarrow> bool" where
  "links_ok ns \<longleftrightarrow>
     (\<forall>i j. (i, j) \<in> nrel ns \<longrightarrow> j < length ns \<and> i_key (ns ! j) \<noteq> TNil) \<and>
     (\<forall>i < length ns. i_key (ns ! i) = TNil \<longrightarrow> nk_next (ns ! i) = None) \<and>
     (\<forall>i i' j. (i, j) \<in> nrel ns \<longrightarrow> (i', j) \<in> nrel ns \<longrightarrow> i = i') \<and>
     acyclic (nrel ns)"

lemma links_okD:
  assumes "links_ok ns"
  shows "(i, j) \<in> nrel ns \<Longrightarrow> j < length ns" "(i, j) \<in> nrel ns \<Longrightarrow> i_key (ns ! j) \<noteq> TNil"
    "i < length ns \<Longrightarrow> i_key (ns ! i) = TNil \<Longrightarrow> nk_next (ns ! i) = None"
    "(i, j) \<in> nrel ns \<Longrightarrow> (i', j) \<in> nrel ns \<Longrightarrow> i = i'" "acyclic (nrel ns)"
  using assms unfolding links_ok_def by blast+

lemma nrel_iff: "(i, j) \<in> nrel ns \<longleftrightarrow> i < length ns \<and> nk_next (ns ! i) = Some j"
  by (simp add: nrel_def)

lemma reach_refl [simp]: "i \<in> reach ns i"
  by (simp add: reach_def)

lemma reach_step: "nk_next (ns ! i) = Some j \<Longrightarrow> i < length ns \<Longrightarrow> reach ns i = insert i (reach ns j)"
  by (auto simp: reach_def nrel_iff elim: converse_rtranclE intro: converse_rtrancl_into_rtrancl)

lemma reach_end: "nk_next (ns ! i) = None \<Longrightarrow> reach ns i = {i}"
  by (auto simp: reach_def nrel_iff elim: converse_rtranclE)

lemma reach_bounded:
  assumes "links_ok ns" "i < length ns"
  shows "reach ns i \<subseteq> {..<length ns}"
proof
  fix j assume "j \<in> reach ns i"
  then have "(i, j) \<in> (nrel ns)\<^sup>*" by (simp add: reach_def)
  then show "j \<in> {..<length ns}"
    using assms by (induction rule: rtrancl_induct) (auto dest: links_okD(1))
qed

lemma finite_reach: "links_ok ns \<Longrightarrow> i < length ns \<Longrightarrow> finite (reach ns i)"
  by (rule finite_subset [OF reach_bounded]) auto

lemma card_reach: "links_ok ns \<Longrightarrow> i < length ns \<Longrightarrow> card (reach ns i) \<le> length ns"
  using card_mono [OF _ reach_bounded, of ns i] by simp

lemma card_reach_step:
  assumes "links_ok ns" "i < length ns" "nk_next (ns ! i) = Some j"
  shows "card (reach ns i) = Suc (card (reach ns j))"
proof -
  have ij: "(i, j) \<in> nrel ns" using assms by (simp add: nrel_iff)
  then have "j < length ns" using assms(1) by (rule links_okD(1) [rotated])
  moreover have "i \<notin> reach ns j"
    using ij links_okD(5) [OF assms(1)] rtrancl_into_trancl2 [OF ij]
    by (auto simp: reach_def acyclic_def)
  ultimately show ?thesis
    using assms by (simp add: reach_step finite_reach)
qed

section \<open>Searching\<close>

lemma chain_find_spec:
  assumes "links_ok ns"
  shows "i < length ns \<Longrightarrow> card (reach ns i) \<le> fuel \<Longrightarrow>
    \<exists>r. chain_find fuel ns P i = Inr r \<and>
      (case r of Some j \<Rightarrow> j \<in> reach ns i \<and> P (ns ! j) | None \<Rightarrow> \<forall>j \<in> reach ns i. \<not> P (ns ! j))"
proof (induction fuel arbitrary: i)
  case 0
  have "card (reach ns i) \<noteq> 0"
    using finite_reach [OF assms 0(1)] reach_refl [of i ns] by (metis card_0_eq empty_iff)
  with 0 show ?case by simp
next
  case (Suc fuel)
  show ?case
  proof (cases "nk_next (ns ! i)")
    case None
    then show ?thesis by (auto simp: reach_end)
  next
    case (Some j)
    have "j < length ns" using links_okD(1) [OF assms, of i j] Some Suc.prems by (simp add: nrel_iff)
    moreover have "card (reach ns j) \<le> fuel"
      using Suc.prems card_reach_step [OF assms Suc.prems(1) Some] by simp
    ultimately obtain r where "chain_find fuel ns P j = Inr r"
      "case r of Some l \<Rightarrow> l \<in> reach ns j \<and> P (ns ! l) | None \<Rightarrow> \<forall>l \<in> reach ns j. \<not> P (ns ! l)"
      using Suc.IH by blast
    then show ?thesis
      using Some Suc.prems(1) by (auto simp: reach_step split: option.splits)
  qed
qed

lemma find_previous_spec:
  assumes "links_ok ns" "m < length ns"
  shows "i < length ns \<Longrightarrow> card (reach ns i) \<le> fuel \<Longrightarrow> m \<in> reach ns i \<Longrightarrow> i \<noteq> m \<Longrightarrow>
    \<exists>p. find_previous fuel ns m i = Inr p \<and> (p, m) \<in> nrel ns"
proof (induction fuel arbitrary: i)
  case 0
  have "card (reach ns i) \<noteq> 0"
    using finite_reach [OF assms(1) 0(1)] reach_refl [of i ns] by (metis card_0_eq empty_iff)
  with 0 show ?case by simp
next
  case (Suc fuel)
  then obtain j where j: "nk_next (ns ! i) = Some j"
    using reach_end [of ns i] by (cases "nk_next (ns ! i)") auto
  have "j < length ns" using links_okD(1) [OF assms(1), of i j] j Suc.prems by (simp add: nrel_iff)
  moreover have "card (reach ns j) \<le> fuel"
    using Suc.prems card_reach_step [OF assms(1) Suc.prems(1) j] by simp
  moreover have "m \<in> reach ns j" using Suc.prems reach_step [OF j Suc.prems(1)] by auto
  ultimately show ?case
    using Suc.IH [of j] Suc.prems(1) j by (auto simp: nrel_iff)
qed

section \<open>Placing a key\<close>

text \<open>How the three placements change the links.\<close>

lemma nrel_same_next:
  "length ns' = length ns \<Longrightarrow> (\<And>i. i < length ns \<Longrightarrow> nk_next (ns' ! i) = nk_next (ns ! i)) \<Longrightarrow>
   nrel ns' = nrel ns"
  by (auto simp: nrel_def)

lemma links_ok_put_key:
  assumes "links_ok ns" "j < length ns" "k \<noteq> TNil"
  shows "links_ok (ns[j := (ns ! j)\<lparr>i_key := k\<rparr>])"
proof -
  have "nrel (ns[j := (ns ! j)\<lparr>i_key := k\<rparr>]) = nrel ns"
    by (rule nrel_same_next) (use assms(2) in \<open>simp_all add: nth_list_update\<close>)
  with assms show ?thesis
    unfolding links_ok_def by (auto simp: nth_list_update)
qed

lemma acyclic_insert_after:
  assumes "acyclic N" and n: "\<And>a. (a, n) \<notin> N" "\<And>b. (n, b) \<notin> N" and "(m, x) \<in> N"
  shows "acyclic (insert (m, n) (insert (n, x) (N - {(m, x)})))"
proof -
  let ?N0 = "N - {(m, x)}"
  have sub: "?N0\<^sup>* \<subseteq> N\<^sup>*" by (rule rtrancl_mono) auto
  have nox: "(y, n) \<in> ?N0\<^sup>* \<Longrightarrow> y = n" for y
    using n(1) by (auto elim: rtranclE)
  have nm: "n \<noteq> m" "n \<noteq> x" using assms(4) n by auto
  have a1: "acyclic (insert (n, x) ?N0)"
    using acyclic_subset [OF assms(1), of ?N0] nox nm by (auto simp: acyclic_insert)
  have "(n, m) \<notin> (insert (n, x) ?N0)\<^sup>*"
  proof
    assume "(n, m) \<in> (insert (n, x) ?N0)\<^sup>*"
    moreover have "(n, m) \<notin> ?N0\<^sup>*" using n(2) nm by (auto elim: converse_rtranclE)
    ultimately have "(x, m) \<in> N\<^sup>*" using sub by (auto simp: rtrancl_insert)
    with assms(4) have "(m, m) \<in> N\<^sup>+" by (rule rtrancl_into_trancl2)
    with assms(1) show False by (simp add: acyclic_def)
  qed
  with a1 show ?thesis by (simp add: acyclic_insert)
qed

lemma acyclic_append_link:
  assumes "acyclic N" "\<And>b. (n, b) \<notin> N" "n \<noteq> m"
  shows "acyclic (insert (m, n) N)"
  using assms by (auto simp: acyclic_insert elim: converse_rtranclE)

lemma nrel_chain_free:
  assumes "m < length ns" "n < length ns" "m \<noteq> n"
  shows "nrel (chain_free ns m n) =
    insert (m, n) ({(i, j) \<in> nrel ns. i \<noteq> m \<and> i \<noteq> n} \<union> {(n, x) |x. nk_next (ns ! m) = Some x})"
  using assms by (auto simp: nrel_def chain_free_def Let_def nth_list_update split: if_splits)

lemma length_chain_free [simp]: "length (chain_free ns m n) = length ns"
  by (simp add: chain_free_def Let_def)

lemma chain_free_nth:
  assumes "m < length ns" "n < length ns" "m \<noteq> n" "i < length ns"
  shows "i_key (chain_free ns m n ! i) = i_key (ns ! i)" "i_val (chain_free ns m n ! i) = i_val (ns ! i)"
  using assms by (auto simp: chain_free_def Let_def nth_list_update)

definition insert_chained :: "Node list \<Rightarrow> nat \<Rightarrow> nat \<Rightarrow> TValue \<Rightarrow> Node list" where
  "insert_chained ns m n k = (let ns = chain_free ns m n in ns[n := (ns ! n)\<lparr>i_key := k\<rparr>])"

lemma nrel_insert_chained:
  assumes "links_ok ns" "m < length ns" "n < length ns" "i_key (ns ! n) = TNil" "i_key (ns ! m) \<noteq> TNil"
  shows "nrel (insert_chained ns m n k) =
    (case nk_next (ns ! m) of None \<Rightarrow> insert (m, n) (nrel ns)
     | Some x \<Rightarrow> insert (m, n) (insert (n, x) (nrel ns - {(m, x)})))"
proof -
  have mn: "m \<noteq> n" using assms by auto
  have "nrel (insert_chained ns m n k) = nrel (chain_free ns m n)"
    by (rule nrel_same_next) (use assms mn in \<open>simp_all add: insert_chained_def Let_def nth_list_update\<close>)
  moreover have "(n, j) \<notin> nrel ns" "(m, j) \<in> nrel ns \<longleftrightarrow> nk_next (ns ! m) = Some j" for j
    using links_okD(3) [OF assms(1,3,4)] assms(2) by (simp_all add: nrel_iff)
  ultimately show ?thesis
    by (cases "nk_next (ns ! m)") (auto simp: nrel_chain_free [OF assms(2,3) mn])
qed

lemma links_ok_insert_chained:
  assumes ok: "links_ok ns" and m: "m < length ns" and n: "n < length ns"
    and free: "i_key (ns ! n) = TNil" and occ: "i_key (ns ! m) \<noteq> TNil" and k: "k \<noteq> TNil"
  shows "links_ok (insert_chained ns m n k)" "(nrel ns)\<^sup>* \<subseteq> (nrel (insert_chained ns m n k))\<^sup>*"
    "(m, n) \<in> nrel (insert_chained ns m n k)"
proof -
  let ?N = "nrel ns" and ?N' = "nrel (insert_chained ns m n k)"
  have nn: "(a, n) \<notin> ?N" "(n, b) \<notin> ?N" for a b
    using links_okD(2) [OF ok, of a n] links_okD(3) [OF ok n free] free by (auto simp: nrel_iff)
  have mn: "m \<noteq> n" using free occ by auto
  note N' = nrel_insert_chained [OF ok m n free occ, of k]
  have acy: "acyclic ?N'"
  proof (cases "nk_next (ns ! m)")
    case None
    then show ?thesis
      using acyclic_append_link [OF links_okD(5) [OF ok] nn(2) mn [symmetric]] by (simp add: N')
  next
    case (Some x)
    with m have "(m, x) \<in> ?N" by (simp add: nrel_iff)
    from acyclic_insert_after [OF links_okD(5) [OF ok] nn this] Some show ?thesis by (simp add: N')
  qed
  show "(m, n) \<in> ?N'" by (auto simp: N' split: option.splits)
  have "(a, b) \<in> ?N'\<^sup>*" if "(a, b) \<in> ?N" for a b
  proof (cases "a = m")
    case True
    with that m have "nk_next (ns ! m) = Some b" by (simp add: nrel_iff)
    then have "(m, n) \<in> ?N'" "(n, b) \<in> ?N'" by (auto simp: N')
    with True show ?thesis by (metis r_into_rtrancl rtrancl.rtrancl_into_rtrancl)
  next
    case False
    with that show ?thesis by (auto simp: N' split: option.splits)
  qed
  then show "?N\<^sup>* \<subseteq> ?N'\<^sup>*" by (metis rtrancl_subset_rtrancl subrelI)
  have keys: "i_key (insert_chained ns m n k ! i) = (if i = n then k else i_key (ns ! i))"
    if "i < length ns" for i
    using that m n mn by (simp add: insert_chained_def Let_def nth_list_update chain_free_nth)
  have len: "length (insert_chained ns m n k) = length ns"
    by (simp add: insert_chained_def Let_def)
  have tgt: "j < length ns \<and> (j = n \<or> i_key (ns ! j) \<noteq> TNil)" if "(i, j) \<in> ?N'" for i j
    using that links_okD(1,2) [OF ok] n m
    by (fastforce simp: N' nrel_iff split: option.splits)
  have inj: "i = i'" if "(i, j) \<in> ?N'" "(i', j) \<in> ?N'" for i i' j
    using that links_okD(4) [OF ok] nn m
    by (auto simp: N' split: option.splits) (metis nrel_iff)+
  have nxt: "nk_next (insert_chained ns m n k ! i) = None"
    if "i < length ns" "i_key (insert_chained ns m n k ! i) = TNil" for i
    using that keys k occ links_okD(3) [OF ok] m n mn
    by (auto simp: insert_chained_def chain_free_def Let_def nth_list_update split: if_splits)
  show "links_ok (insert_chained ns m n k)"
    unfolding links_ok_def len
    using tgt inj nxt acy keys k by auto
qed

text \<open>Moving the colliding node \<open>m\<close> to the free node \<open>n\<close> renames \<open>m\<close> to \<open>n\<close> in the links.\<close>

definition insert_moved :: "Node list \<Rightarrow> nat \<Rightarrow> nat \<Rightarrow> nat \<Rightarrow> TValue \<Rightarrow> Node list" where
  "insert_moved ns m p n k = (let ns = move_colliding ns m p n in ns[m := (ns ! m)\<lparr>i_key := k\<rparr>])"

lemma length_insert_moved [simp]: "length (insert_moved ns m p n k) = length ns"
  by (simp add: insert_moved_def move_colliding_def Let_def)

lemma insert_moved_nth:
  assumes "m < length ns" "n < length ns" "p < length ns" "m \<noteq> n" "p \<noteq> m" "p \<noteq> n" "i < length ns"
  shows "insert_moved ns m p n k ! i =
    (if i = m then (ns ! m)\<lparr>nk_next := None, i_val := TNil, i_key := k\<rparr>
     else if i = n then ns ! m
     else if i = p then (ns ! p)\<lparr>nk_next := Some n\<rparr> else ns ! i)"
  using assms by (auto simp: insert_moved_def move_colliding_def Let_def nth_list_update)

definition ren :: "nat \<Rightarrow> nat \<Rightarrow> nat \<Rightarrow> nat" where
  "ren m n x = (if x = m then n else x)"

lemma move_case:
  assumes ok: "links_ok ns" and n: "n < length ns" and free: "i_key (ns ! n) = TNil"
    and occ: "m < length ns" "i_key (ns ! m) \<noteq> TNil" and p: "(p, m) \<in> nrel ns"
  shows "m \<noteq> n" "p \<noteq> m" "p \<noteq> n" "p < length ns"
proof -
  show "p < length ns" using p by (simp add: nrel_iff)
  show "m \<noteq> n" using free occ by auto
  show "p \<noteq> m" using p links_okD(5) [OF ok] by (auto simp: acyclic_def)
  show "p \<noteq> n" using p links_okD(3) [OF ok n free] by (auto simp: nrel_iff)
qed

lemma nrel_insert_moved:
  assumes ok: "links_ok ns" and n: "n < length ns" and free: "i_key (ns ! n) = TNil"
    and occ: "m < length ns" "i_key (ns ! m) \<noteq> TNil" and p: "(p, m) \<in> nrel ns"
  shows "nrel (insert_moved ns m p n k) = (\<lambda>(i, j). (ren m n i, ren m n j)) ` nrel ns"
proof -
  note c = move_case [OF ok n free occ p]
  note nth = insert_moved_nth [OF occ(1) n c(4) c(1-3)]
  have nm: "(m, m) \<notin> nrel ns" using links_okD(5) [OF ok] by (auto simp: acyclic_def)
  have nn: "nk_next (ns ! n) = None" by (rule links_okD(3) [OF ok n free])
  have pm: "nk_next (ns ! i) = Some m \<Longrightarrow> i < length ns \<Longrightarrow> i = p" for i
    using links_okD(4) [OF ok _ p] by (simp add: nrel_iff)
  have "(i, j) \<in> nrel (insert_moved ns m p n k) \<longleftrightarrow>
    (\<exists>a b. (a, b) \<in> nrel ns \<and> i = ren m n a \<and> j = ren m n b)" for i j
  proof
    assume "(i, j) \<in> nrel (insert_moved ns m p n k)"
    then consider "i = n" "nk_next (ns ! m) = Some j" | "i = p" "j = n"
      | "i \<noteq> m" "i \<noteq> n" "i \<noteq> p" "i < length ns" "nk_next (ns ! i) = Some j"
      by (auto simp: nrel_iff nth split: if_splits)
    then show "\<exists>a b. (a, b) \<in> nrel ns \<and> i = ren m n a \<and> j = ren m n b"
    proof cases
      case 1
      with occ nm show ?thesis by (intro exI [of _ m] exI [of _ j]) (auto simp: nrel_iff ren_def)
    next
      case 2
      with p c show ?thesis by (intro exI [of _ p] exI [of _ m]) (auto simp: ren_def)
    next
      case 3
      with pm have "j \<noteq> m" by auto
      with 3 show ?thesis by (intro exI [of _ i] exI [of _ j]) (auto simp: nrel_iff ren_def)
    qed
  next
    assume "\<exists>a b. (a, b) \<in> nrel ns \<and> i = ren m n a \<and> j = ren m n b"
    then obtain a b where ab: "a < length ns" "nk_next (ns ! a) = Some b" "i = ren m n a" "j = ren m n b"
      by (auto simp: nrel_iff)
    show "(i, j) \<in> nrel (insert_moved ns m p n k)"
    proof (cases "a = m")
      case True
      with ab nm occ have "b \<noteq> m" by (auto simp: nrel_iff)
      with True ab c n show ?thesis by (simp add: nrel_iff nth ren_def)
    next
      case False
      with ab nn have "a \<noteq> n" by auto
      show ?thesis
      proof (cases "a = p")
        case True
        then have "b = m" using ab p by (simp add: nrel_iff)
        with True ab c show ?thesis by (simp add: nrel_iff nth ren_def)
      next
        case ap: False
        then have "b \<noteq> m" using pm [of a] ab by auto
        with ap False \<open>a \<noteq> n\<close> ab show ?thesis by (simp add: nrel_iff nth ren_def)
      qed
    qed
  qed
  then show ?thesis by force
qed

lemma links_ok_insert_moved:
  assumes ok: "links_ok ns" and n: "n < length ns" and free: "i_key (ns ! n) = TNil"
    and occ: "m < length ns" "i_key (ns ! m) \<noteq> TNil" and p: "(p, m) \<in> nrel ns" and k: "k \<noteq> TNil"
  shows "links_ok (insert_moved ns m p n k)"
    "(a, b) \<in> (nrel ns)\<^sup>* \<Longrightarrow> (ren m n a, ren m n b) \<in> (nrel (insert_moved ns m p n k))\<^sup>*"
proof -
  let ?N = "nrel ns" and ?N' = "nrel (insert_moved ns m p n k)"
  note N' = nrel_insert_moved [OF ok n free occ p, of k]
  note c = move_case [OF ok n free occ p]
  note nth = insert_moved_nth [OF occ(1) n c(4) c(1-3)]
  have nn: "(a, n) \<notin> ?N" "(n, b) \<notin> ?N" for a b
    using links_okD(2) [OF ok, of a n] links_okD(3) [OF ok n free] free by (auto simp: nrel_iff)
  show "(a, b) \<in> ?N\<^sup>* \<Longrightarrow> (ren m n a, ren m n b) \<in> ?N'\<^sup>*"
    by (induction rule: rtrancl_induct) (auto simp: N' intro: rtrancl_into_rtrancl)
  have inv_edge: "(ren n m a, ren n m b) \<in> ?N" if "(a, b) \<in> ?N'" for a b
    using that nn by (auto simp: N' ren_def split: if_splits)
  have "(ren n m a, ren n m b) \<in> ?N\<^sup>+" if "(a, b) \<in> ?N'\<^sup>+" for a b
    using that by (induction rule: trancl_induct) (auto dest: inv_edge intro: trancl_into_trancl)
  with links_okD(5) [OF ok] have acy: "acyclic ?N'" by (fastforce simp: acyclic_def)
  have inj: "i = i'" if "(i, j) \<in> ?N'" "(i', j) \<in> ?N'" for i i' j
  proof -
    have "ren n m i = ren n m i'" using links_okD(4) [OF ok inv_edge [OF that(1)] inv_edge [OF that(2)]] .
    moreover have "i \<noteq> m" "i' \<noteq> m" using that c nn by (auto simp: N' ren_def split: if_splits)
    ultimately show ?thesis by (auto simp: ren_def split: if_splits)
  qed
  have tgt: "j < length ns \<and> i_key (insert_moved ns m p n k ! j) \<noteq> TNil" if "(i, j) \<in> ?N'" for i j
  proof -
    have r: "ren n m j < length ns" "i_key (ns ! ren n m j) \<noteq> TNil"
      using links_okD(1,2) [OF ok inv_edge [OF that]] by auto
    with n have "j < length ns" by (auto simp: ren_def split: if_splits)
    with r k occ show ?thesis by (auto simp: nth ren_def split: if_splits)
  qed
  have nxt: "nk_next (insert_moved ns m p n k ! i) = None"
    if "i < length ns" "i_key (insert_moved ns m p n k ! i) = TNil" for i
    using that k occ links_okD(3) [OF ok c(4)] p links_okD(3) [OF ok, of i]
    by (auto simp: nth nrel_iff split: if_splits)
  show "links_ok (insert_moved ns m p n k)"
    unfolding links_ok_def length_insert_moved using tgt inj nxt acy by blast
qed

section \<open>Keys\<close>

text \<open>The live bindings of a node vector.\<close>

definition binds :: "Node list \<Rightarrow> (TValue \<times> TValue) set" where
  "binds ns = {(i_key (ns ! i), i_val (ns ! i)) |i. i < length ns \<and> i_val (ns ! i) \<noteq> TNil}"

definition proper_key :: "TValue \<Rightarrow> bool" where
  "proper_key k \<longleftrightarrow> valid_key k \<and> (\<forall>p. k \<noteq> TDeadKey p)"

definition absent :: "Node list \<Rightarrow> TValue \<Rightarrow> bool" where
  "absent ns k \<longleftrightarrow> (\<forall>j < length ns. keyed (ns ! j) \<longrightarrow> \<not> luaO_rawequalObj (i_key (ns ! j)) k)"

lemma rawequal_keyed: "luaO_rawequalObj (i_key nd) k \<Longrightarrow> proper_key k \<Longrightarrow> keyed nd"
  by (cases k) (auto simp: rawequal_iff keyed_def proper_key_def valid_key_def split: TValue.splits)

locale scatter =
  fixes mp :: "TValue \<Rightarrow> nat"
    and sz :: nat
  assumes mp_less: "mp k < sz"
    and mp_eq: "luaO_rawequalObj k k' \<Longrightarrow> mp k = mp k'"
begin

text \<open>Brent's invariant: a key is on the chain that starts at its main position, and the key stored at
  that position belongs there.\<close>

definition home :: "Node list \<Rightarrow> TValue \<Rightarrow> nat \<Rightarrow> bool" where
  "home ns k j \<longleftrightarrow> (mp k, j) \<in> (nrel ns)\<^sup>* \<and> i_key (ns ! mp k) \<noteq> TNil \<and>
     (keyed (ns ! mp k) \<longrightarrow> mp (i_key (ns ! mp k)) = mp k)"

definition wf :: "Node list \<Rightarrow> bool" where
  "wf ns \<longleftrightarrow> length ns = sz \<and> links_ok ns \<and>
     (\<forall>j < sz. keyed (ns ! j) \<longrightarrow> valid_key (i_key (ns ! j)) \<and> home ns (i_key (ns ! j)) j) \<and>
     (\<forall>i < sz. \<forall>j < sz. keyed (ns ! i) \<longrightarrow> keyed (ns ! j) \<longrightarrow>
        luaO_rawequalObj (i_key (ns ! i)) (i_key (ns ! j)) \<longrightarrow> i = j) \<and>
     (\<forall>j < sz. \<not> keyed (ns ! j) \<longrightarrow> i_val (ns ! j) = TNil)"

lemma wfD:
  assumes "wf ns"
  shows "length ns = sz" "links_ok ns"
    "j < sz \<Longrightarrow> keyed (ns ! j) \<Longrightarrow> valid_key (i_key (ns ! j))"
    "j < sz \<Longrightarrow> keyed (ns ! j) \<Longrightarrow> home ns (i_key (ns ! j)) j"
    "i < sz \<Longrightarrow> j < sz \<Longrightarrow> keyed (ns ! i) \<Longrightarrow> keyed (ns ! j) \<Longrightarrow>
       luaO_rawequalObj (i_key (ns ! i)) (i_key (ns ! j)) \<Longrightarrow> i = j"
    "j < sz \<Longrightarrow> \<not> keyed (ns ! j) \<Longrightarrow> i_val (ns ! j) = TNil"
  using assms unfolding wf_def by blast+

lemma search_found:
  assumes "wf ns" "j < sz" "keyed (ns ! j)" "luaO_rawequalObj (i_key (ns ! j)) k" "proper_key k"
  shows "chain_find (length ns) ns (\<lambda>n. luaO_rawequalObj (i_key n) k) (mp k) = Inr (Some j)"
proof -
  note w = wfD [OF assms(1)]
  have m: "mp k < length ns" using mp_less w(1) by simp
  obtain r where r: "chain_find (length ns) ns (\<lambda>n. luaO_rawequalObj (i_key n) k) (mp k) = Inr r"
    "case r of Some l \<Rightarrow> l \<in> reach ns (mp k) \<and> luaO_rawequalObj (i_key (ns ! l)) k
     | None \<Rightarrow> \<forall>l \<in> reach ns (mp k). \<not> luaO_rawequalObj (i_key (ns ! l)) k"
    using chain_find_spec [OF w(2) m card_reach [OF w(2) m]] by blast
  have "j \<in> reach ns (mp k)"
    using w(4) [OF assms(2,3)] mp_eq [OF assms(4)] by (simp add: home_def reach_def)
  with r(2) assms(4) obtain l where l: "r = Some l" "l \<in> reach ns (mp k)"
    "luaO_rawequalObj (i_key (ns ! l)) k"
    by (auto split: option.splits)
  have "l < sz" using reach_bounded [OF w(2) m] l(2) w(1) by auto
  moreover have "luaO_rawequalObj (i_key (ns ! l)) (i_key (ns ! j))"
    using l(3) assms(4) rawequal_sym rawequal_trans by blast
  ultimately have "l = j"
    using w(5) assms(2,3) rawequal_keyed [OF l(3) assms(5)] by blast
  with l r show ?thesis by simp
qed

lemma search_absent:
  assumes "wf ns" "absent ns k" "k \<noteq> TNil" "\<And>p. k \<noteq> TDeadKey p"
  shows "chain_find (length ns) ns (\<lambda>n. luaO_rawequalObj (i_key n) k) (mp k) = Inr None"
proof -
  note w = wfD [OF assms(1)]
  have m: "mp k < length ns" using mp_less w(1) by simp
  obtain r where r: "chain_find (length ns) ns (\<lambda>n. luaO_rawequalObj (i_key n) k) (mp k) = Inr r"
    "case r of Some l \<Rightarrow> l \<in> reach ns (mp k) \<and> luaO_rawequalObj (i_key (ns ! l)) k
     | None \<Rightarrow> \<forall>l \<in> reach ns (mp k). \<not> luaO_rawequalObj (i_key (ns ! l)) k"
    using chain_find_spec [OF w(2) m card_reach [OF w(2) m]] by blast
  have "r = None"
  proof (cases r)
    case (Some l)
    with r(2) have l: "l \<in> reach ns (mp k)" "luaO_rawequalObj (i_key (ns ! l)) k" by simp_all
    then have "l < length ns" using reach_bounded [OF w(2) m] by auto
    moreover have "proper_key k"
      using rawequal_valid [of k] l(2) assms(3,4) rawequal_sym by (auto simp: proper_key_def)
    ultimately show ?thesis
      using assms(2) l(2) rawequal_keyed by (auto simp: absent_def)
  qed
  with r show ?thesis by simp
qed


text \<open>What placing a new key achieves: the invariant, the bindings and the occupied nodes are kept,
  and the key has a slot whose value is nil; only node \<open>n\<close> may be newly occupied.\<close>

definition placed :: "Node list \<Rightarrow> TValue \<Rightarrow> Node list \<Rightarrow> nat \<Rightarrow> nat \<Rightarrow> bool" where
  "placed ns k ns' j n \<longleftrightarrow> wf ns' \<and> j < sz \<and> i_key (ns' ! j) = k \<and> i_val (ns' ! j) = TNil \<and>
     binds ns' = binds ns \<and> (\<forall>i < sz. i_key (ns ! i) \<noteq> TNil \<longrightarrow> i_key (ns' ! i) \<noteq> TNil) \<and>
     (\<forall>i < sz. i_key (ns' ! i) = k \<or> (\<exists>l < sz. i_key (ns' ! i) = i_key (ns ! l))) \<and>
     i_key (ns' ! n) \<noteq> TNil \<and> (\<forall>i < sz. i \<noteq> n \<longrightarrow> i_key (ns' ! i) \<noteq> TNil \<longrightarrow> i_key (ns ! i) \<noteq> TNil)"

lemma proper_keyD: "proper_key k \<Longrightarrow> k \<noteq> TNil" "proper_key k \<Longrightarrow> i_key nd = k \<Longrightarrow> keyed nd"
  "proper_key k \<Longrightarrow> valid_key k"
  by (auto simp: proper_key_def valid_key_def keyed_def)

lemma keyed_not_nil: "keyed nd \<Longrightarrow> i_key nd \<noteq> TNil"
  by (simp add: keyed_def)

lemma home_not_nil: "home ns k j \<Longrightarrow> i_key (ns ! mp k) \<noteq> TNil"
  by (simp add: home_def)

lemma wf_placeI:
  assumes wf: "wf ns" and len: "length ns' = sz" and links: "links_ok ns'" and k: "proper_key k"
    and j: "j < sz" "i_key (ns' ! j) = k" "home ns' k j" "i_val (ns' ! j) = TNil"
    and abs: "absent ns k"
    and f: "\<And>i. i < sz \<Longrightarrow> i \<noteq> j \<Longrightarrow> f i < sz \<and> i_key (ns' ! i) = i_key (ns ! f i) \<and> i_val (ns' ! i) = i_val (ns ! f i)"
    and inj: "\<And>i i'. i < sz \<Longrightarrow> i' < sz \<Longrightarrow> i \<noteq> j \<Longrightarrow> i' \<noteq> j \<Longrightarrow> keyed (ns' ! i) \<Longrightarrow> f i = f i' \<Longrightarrow> i = i'"
    and home: "\<And>i. i < sz \<Longrightarrow> i \<noteq> j \<Longrightarrow> keyed (ns' ! i) \<Longrightarrow> home ns (i_key (ns' ! i)) (f i) \<Longrightarrow> home ns' (i_key (ns' ! i)) i"
  shows "wf ns'"
proof -
  note w = wfD [OF wf]
  have kf: "keyed (ns' ! i) = keyed (ns ! f i)" if "i < sz" "i \<noteq> j" for i
    using f [OF that] by (simp add: keyed_def)
  have 1: "valid_key (i_key (ns' ! i)) \<and> home ns' (i_key (ns' ! i)) i"
    if "i < sz" "keyed (ns' ! i)" for i
  proof (cases "i = j")
    case True
    with j k show ?thesis by (simp add: proper_keyD(3))
  next
    case False
    with that have "keyed (ns ! f i)" "f i < sz" "i_key (ns' ! i) = i_key (ns ! f i)"
      using kf f by auto
    with w(3,4) home [OF that(1) False that(2)] show ?thesis by auto
  qed
  have abs': "\<not> luaO_rawequalObj (i_key (ns' ! i)) k" if "i < sz" "i \<noteq> j" "keyed (ns' ! i)" for i
    using abs kf [OF that(1,2)] that(3) f [OF that(1,2)] w(1) by (auto simp: absent_def)
  have 2: "a = b" if "a < sz" "b < sz" "keyed (ns' ! a)" "keyed (ns' ! b)"
    "luaO_rawequalObj (i_key (ns' ! a)) (i_key (ns' ! b))" for a b
  proof (cases "a = j \<or> b = j")
    case True
    with abs' that j rawequal_sym show ?thesis by metis
  next
    case False
    then have "f a = f b"
      using w(5) [of "f a" "f b"] f [OF that(1)] f [OF that(2)] kf that by auto
    with inj that False show ?thesis by blast
  qed
  have 3: "i_val (ns' ! i) = TNil" if "i < sz" "\<not> keyed (ns' ! i)" for i
  proof (cases "i = j")
    case True
    with j show ?thesis by simp
  next
    case False
    with that kf w(6) f show ?thesis by metis
  qed
  show ?thesis
    unfolding wf_def using len links 1 2 3 by blast
qed

lemma binds_placeI:
  assumes "length ns = sz" "length ns' = sz"
    and "\<And>i. i < sz \<Longrightarrow> i_val (ns' ! i) \<noteq> TNil \<Longrightarrow> f i < sz \<and> i_key (ns' ! i) = i_key (ns ! f i) \<and> i_val (ns' ! i) = i_val (ns ! f i)"
    and "\<And>i. i < sz \<Longrightarrow> i_val (ns ! i) \<noteq> TNil \<Longrightarrow> g i < sz \<and> i_key (ns ! i) = i_key (ns' ! g i) \<and> i_val (ns ! i) = i_val (ns' ! g i)"
  shows "binds ns' = binds ns"
proof
  show "binds ns' \<subseteq> binds ns"
    unfolding binds_def assms(1,2) using assms(3) by (clarsimp, metis)
  show "binds ns \<subseteq> binds ns'"
    unfolding binds_def assms(1,2) using assms(4) by (clarsimp, metis)
qed

lemma placed_here:
  assumes wf: "wf ns" and k: "proper_key k" and abs: "absent ns k" and v: "i_val (ns ! mp k) = TNil"
  shows "placed ns k (ns[mp k := (ns ! mp k)\<lparr>i_key := k\<rparr>]) (mp k) (mp k)"
proof -
  note w = wfD [OF wf]
  let ?ns = "ns[mp k := (ns ! mp k)\<lparr>i_key := k\<rparr>]"
  have m: "mp k < length ns" "mp k < sz" using mp_less w(1) by simp_all
  have nth: "?ns ! i = (if i = mp k then (ns ! mp k)\<lparr>i_key := k\<rparr> else ns ! i)" if "i < sz" for i
    using m by (simp add: nth_list_update)
  have N: "nrel ?ns = nrel ns"
    by (rule nrel_same_next) (use m in \<open>simp_all add: nth_list_update\<close>)
  have hm: "i_key (?ns ! mp q) \<noteq> TNil \<and> (keyed (?ns ! mp q) \<longrightarrow> mp (i_key (?ns ! mp q)) = mp q)"
    if "home ns q i" for q i
    using that nth [OF mp_less, of q] proper_keyD(1) [OF k] by (auto simp: home_def)
  have "wf ?ns"
  proof (rule wf_placeI [OF wf _ _ k m(2) _ _ _ abs, of _ id])
    show "links_ok ?ns" by (rule links_ok_put_key [OF w(2) m(1) proper_keyD(1) [OF k]])
    show "home ?ns k (mp k)" using nth [OF m(2)] proper_keyD(1) [OF k] by (simp add: home_def)
    show "home ?ns (i_key (?ns ! i)) i" if "home ns (i_key (?ns ! i)) (id i)" for i
      using that hm [OF that] N by (simp add: home_def)
  qed (use w(1) nth v m in auto)
  moreover have "binds ?ns = binds ns"
    by (rule binds_placeI [where f = id and g = id]) (use w(1) m nth v in \<open>auto simp: nth_list_update split: if_splits\<close>)
  moreover have "\<forall>i < sz. i \<noteq> mp k \<longrightarrow> i_key (?ns ! i) \<noteq> TNil \<longrightarrow> i_key (ns ! i) \<noteq> TNil"
    using nth by auto
  moreover have "\<forall>i < sz. i_key (ns ! i) \<noteq> TNil \<longrightarrow> i_key (?ns ! i) \<noteq> TNil"
    using nth proper_keyD(1) [OF k] by auto
  moreover have "\<forall>i < sz. i_key (?ns ! i) = k \<or> (\<exists>l < sz. i_key (?ns ! i) = i_key (ns ! l))"
    using nth by auto
  ultimately show ?thesis
    unfolding placed_def using m v proper_keyD(1) [OF k] by simp
qed

lemma placed_chained:
  assumes wf: "wf ns" and k: "proper_key k" and abs: "absent ns k"
    and live: "keyed (ns ! mp k)" and own: "mp (i_key (ns ! mp k)) = mp k"
    and n: "n < sz" "i_key (ns ! n) = TNil"
  shows "placed ns k (insert_chained ns (mp k) n k) n n"
proof -
  note w = wfD [OF wf]
  let ?ns = "insert_chained ns (mp k) n k"
  have m: "mp k < length ns" and n': "n < length ns" using mp_less n w(1) by simp_all
  have mn: "mp k \<noteq> n" using live n keyed_not_nil by auto
  note L = links_ok_insert_chained [OF w(2) m n' n(2) keyed_not_nil [OF live] proper_keyD(1) [OF k]]
  have len: "length ?ns = sz" using w(1) by (simp add: insert_chained_def Let_def)
  have vn: "i_val (ns ! n) = TNil" using w(6) [OF n(1)] n(2) by (simp add: keyed_def)
  have key: "i_key (?ns ! i) = (if i = n then k else i_key (ns ! i))"
    and val: "i_val (?ns ! i) = i_val (ns ! i)" if "i < sz" for i
    using that m n' mn w(1) by (simp_all add: insert_chained_def Let_def nth_list_update chain_free_nth)
  have "wf ?ns"
  proof (rule wf_placeI [OF wf len L(1) k n(1) _ _ _ abs, of id])
    show "home ?ns k n"
      using L(3) live own mn key [OF mp_less, of k] by (auto simp: home_def keyed_def)
    show "home ?ns (i_key (?ns ! i)) i"
      if h: "home ns (i_key (?ns ! i)) (id i)" for i
    proof -
      have "mp (i_key (?ns ! i)) \<noteq> n" using home_not_nil [OF h] n(2) by auto
      with h L(2) key [OF mp_less, of "i_key (?ns ! i)"] show ?thesis by (auto simp: home_def keyed_def)
    qed
  qed (use key val vn n in auto)
  moreover have "binds ?ns = binds ns"
    by (rule binds_placeI [where f = id and g = id]) (use w(1) len key val vn in auto)
  moreover have "\<forall>i < sz. i \<noteq> n \<longrightarrow> i_key (?ns ! i) \<noteq> TNil \<longrightarrow> i_key (ns ! i) \<noteq> TNil"
    using key by auto
  moreover have "\<forall>i < sz. i_key (?ns ! i) = k \<or> (\<exists>l < sz. i_key (?ns ! i) = i_key (ns ! l))"
    using key by (metis (full_types))
  ultimately show ?thesis
    unfolding placed_def using n vn key val proper_keyD(1) [OF k] by auto
qed

lemma placed_moved:
  assumes wf: "wf ns" and k: "proper_key k" and abs: "absent ns k"
    and live: "keyed (ns ! mp k)" and other: "mp (i_key (ns ! mp k)) \<noteq> mp k"
    and n: "n < sz" "i_key (ns ! n) = TNil" and p: "(p, mp k) \<in> nrel ns"
  shows "placed ns k (insert_moved ns (mp k) p n k) (mp k) n"
proof -
  note w = wfD [OF wf]
  let ?m = "mp k" and ?ns = "insert_moved ns (mp k) p n k"
  have m: "?m < length ns" "?m < sz" and n': "n < length ns" using mp_less n w(1) by simp_all
  note knil = keyed_not_nil [OF live]
  note c = move_case [OF w(2) n' n(2) m(1) knil p]
  note L = links_ok_insert_moved [OF w(2) n' n(2) m(1) knil p proper_keyD(1) [OF k]]
  note nth = insert_moved_nth [OF m(1) n' c(4) c(1-3)]
  have len: "length ?ns = sz" using w(1) by simp
  have key: "i_key (?ns ! i) = (if i = ?m then k else i_key (ns ! ren n ?m i))"
    and val: "i_val (?ns ! i) = (if i = ?m then TNil else i_val (ns ! ren n ?m i))" if "i < sz" for i
    using that w(1) by (simp_all add: nth ren_def)
  have vn: "i_val (ns ! n) = TNil" using w(6) [OF n(1)] n(2) by (simp add: keyed_def)
  have inj: "ren n ?m a = ren n ?m b \<Longrightarrow> a \<noteq> ?m \<Longrightarrow> b \<noteq> ?m \<Longrightarrow> a = b" for a b
    by (auto simp: ren_def split: if_splits)
  have unren: "ren ?m n (ren n ?m i) = i" if "i \<noteq> ?m" for i
    using that by (simp add: ren_def)
  have wf': "wf ?ns"
  proof (rule wf_placeI [OF wf len L(1) k m(2) _ _ _ abs, of "ren n ?m"])
    show "home ?ns k ?m" using key [OF m(2)] proper_keyD(1) [OF k] by (simp add: home_def)
    show "home ?ns (i_key (?ns ! i)) i"
      if i: "i < sz" "i \<noteq> ?m" "keyed (?ns ! i)" and h: "home ns (i_key (?ns ! i)) (ren n ?m i)" for i
    proof -
      let ?q = "mp (i_key (?ns ! i))"
      have q: "?q \<noteq> n" "?q \<noteq> ?m" using h n(2) live other by (auto simp: home_def)
      then have "(?q, i) \<in> (nrel ?ns)\<^sup>*"
        using L(2) [of ?q "ren n ?m i"] h unren [OF i(2)] by (simp add: home_def ren_def)
      with q h key [OF mp_less, of "i_key (?ns ! i)"] show ?thesis
        by (simp add: home_def keyed_def ren_def)
    qed
    show "a = b" if "a \<noteq> ?m" "b \<noteq> ?m" "ren n ?m a = ren n ?m b" for a b
      using inj that by blast
  qed (use key val m n in \<open>auto simp: ren_def\<close>)
  have "binds ?ns = binds ns"
    by (rule binds_placeI [where f = "ren n ?m" and g = "ren ?m n"])
      (use w(1) len key val vn n m c in \<open>auto simp: ren_def split: if_splits\<close>)
  moreover have "\<forall>i < sz. i \<noteq> n \<longrightarrow> i_key (?ns ! i) \<noteq> TNil \<longrightarrow> i_key (ns ! i) \<noteq> TNil"
    using key knil by (auto simp: ren_def)
  moreover have "i_key (?ns ! n) \<noteq> TNil" using key [OF n(1)] knil c(1) by (simp add: ren_def)
  moreover have "\<forall>i < sz. i_key (ns ! i) \<noteq> TNil \<longrightarrow> i_key (?ns ! i) \<noteq> TNil"
    using key knil proper_keyD(1) [OF k] n by (auto simp: ren_def)
  moreover have "\<forall>i < sz. i_key (?ns ! i) = k \<or> (\<exists>l < sz. i_key (?ns ! i) = i_key (ns ! l))"
    using key m by (auto simp: ren_def)
  ultimately show ?thesis
    unfolding placed_def using wf' m key val by auto
qed

text \<open>The colliding key of another chain has a predecessor.\<close>

lemma find_previous_ok:
  assumes wf: "wf ns" and live: "keyed (ns ! m)" "m < sz" and other: "mp (i_key (ns ! m)) \<noteq> m"
  shows "\<exists>p. find_previous (length ns) ns m (mp (i_key (ns ! m))) = Inr p \<and> (p, m) \<in> nrel ns"
proof -
  note w = wfD [OF wf]
  have q: "mp (i_key (ns ! m)) < length ns" using mp_less w(1) by simp
  have "m \<in> reach ns (mp (i_key (ns ! m)))"
    using w(4) [OF live(2,1)] by (simp add: home_def reach_def)
  with find_previous_spec [OF w(2) _ q card_reach [OF w(2) q] _ other] live w(1)
  show ?thesis by simp
qed

text \<open>Writing a value.\<close>

lemma wf_put_val:
  assumes wf: "wf ns" and j: "j < sz" "keyed (ns ! j)"
  shows "wf (ns[j := (ns ! j)\<lparr>i_val := v\<rparr>])"
proof -
  note w = wfD [OF wf]
  let ?ns = "ns[j := (ns ! j)\<lparr>i_val := v\<rparr>]"
  have key: "i_key (?ns ! i) = i_key (ns ! i)" for i
    using j w(1) by (cases "i = j") simp_all
  have N: "nrel ?ns = nrel ns"
    by (rule nrel_same_next) (use j w(1) in \<open>auto simp: nth_list_update\<close>)
  have nx: "nk_next (?ns ! i) = nk_next (ns ! i)" for i
    using j w(1) by (cases "i = j") simp_all
  have kd: "keyed (?ns ! i) = keyed (ns ! i)" for i by (simp add: keyed_def key)
  have "home ?ns = home ns" by (intro ext) (simp add: home_def N kd key)
  moreover have "links_ok ?ns" using w(2) by (simp add: links_ok_def N key nx)
  moreover have "i_val (?ns ! i) = TNil" if "i < sz" "\<not> keyed (ns ! i)" for i
    using that w j by (auto simp: nth_list_update)
  ultimately show ?thesis
    using wf by (simp add: wf_def key kd)
qed

end

end
