(* ===== verification/TableProps.thy ===== *)
theory TableProps
  imports Chains
begin

text \<open>
  Correctness of \<^verbatim>\<open>src/lua/ltable.c\<close>: a table is a finite map from keys, up to raw equality, to
  values.  The interpretation of \<open>scatter\<close> on \<open>mainposition\<close> gives the hash part; the invariant
  \<open>table_ok\<close> adds the array part, the free pointer and the sizes.
\<close>

section \<open>The hash function\<close>

lemma hashmod_less: "hashmod ls n < 2 ^ ls"
proof -
  let ?d = "(2 ^ ls - 1) OR 1 :: u32"
  have d: "?d \<noteq> 0" by (metis bit_1_0 bit_or_iff zero_neq_one bit_0_eq bot_apply bot_bool_def)
  have "unat (n mod ?d) < unat ?d"
    using d by (simp add: unat_mod unat_gt_0)
  moreover have "unat ?d \<le> 2 ^ ls"
  proof (cases "ls < 32")
    case True
    have "?d = (if ls = 0 then 1 else 2 ^ ls - 1)"
    proof (cases "ls = 0")
      case False
      then have "odd (2 ^ ls - 1 :: u32)" by simp
      with False show ?thesis by (simp add: or_one_eq)
    qed simp
    moreover have "unat (2 ^ ls - 1 :: u32) < 2 ^ ls"
    proof -
      have "(2 ^ ls - 1 :: u32) = take_bit ls (- 1)"
        by (simp add: take_bit_minus_one_eq_mask mask_eq_exp_minus_1)
      then show ?thesis by (simp only: unsigned_take_bit_eq take_bit_nat_less_exp)
    qed
    ultimately show ?thesis by auto
  next
    case False
    have "unat ?d < 2 ^ 32" using unsigned_less [of ?d] by simp
    also have "(2::nat) ^ 32 \<le> 2 ^ ls" using False by (intro power_increasing) auto
    finally show ?thesis by simp
  qed
  ultimately show ?thesis by (simp add: hashmod_def)
qed

lemma hashpow2_less: "hashpow2 ls n < 2 ^ ls"
proof (cases "ls \<le> 31")
  case True
  then show ?thesis by (simp add: hashpow2_def lmod_less)
next
  case False
  have "hashpow2 ls n < 2 ^ 32"
    unfolding hashpow2_def lmod_def using unsigned_less [of "n AND (of_int (2 ^ ls) - 1)"] by simp
  also have "(2::nat) ^ 32 \<le> 2 ^ ls" using False by (intro power_increasing) auto
  finally show ?thesis .
qed

lemma mainposition_less: "mainposition ls k < 2 ^ ls"
  by (cases k) (simp_all add: hashpow2_less hashpointer_def hashnum_def hashmod_less)

lemma hashnum_eq: "luai_numeq a b \<Longrightarrow> hashnum ls a = hashnum ls b"
  by (auto simp: hashnum_def luai_numeq_def)

lemma mainposition_eq: "luaO_rawequalObj k k' \<Longrightarrow> mainposition ls k = mainposition ls k'"
  by (cases k) (auto simp: rawequal_iff intro: hashnum_eq)

interpretation sc: scatter "mainposition l" "2 ^ l" for l
  by unfold_locales (rule mainposition_less, rule mainposition_eq)


lemma luaH_getnum_generic:
  "chain_find fuel ns (\<lambda>n. case i_key n of TNumber m \<Rightarrow> luai_numeq m nk | _ \<Rightarrow> False) =
   chain_find fuel ns (\<lambda>n. luaO_rawequalObj (i_key n) (TNumber nk))"
  by (rule arg_cong [where f = "chain_find fuel ns"]) (auto simp: rawequal_iff split: TValue.splits)

lemma luaH_getstr_generic:
  "chain_find fuel ns (\<lambda>n. case i_key n of TString s \<Rightarrow> s = k | _ \<Rightarrow> False) =
   chain_find fuel ns (\<lambda>n. luaO_rawequalObj (i_key n) (TString k))"
  by (rule arg_cong [where f = "chain_find fuel ns"]) (auto simp: rawequal_iff split: TValue.splits)

lemma rawequal_left: "luaO_rawequalObj x a \<Longrightarrow> luaO_rawequalObj x b \<Longrightarrow> luaO_rawequalObj a b"
  using rawequal_trans [of a x b] rawequal_sym [of x a] by simp

lemma rawequal_right: "luaO_rawequalObj a x \<Longrightarrow> luaO_rawequalObj b x \<Longrightarrow> luaO_rawequalObj a b"
  using rawequal_trans [of a x b] rawequal_sym [of x b] by simp

section \<open>The invariant\<close>

definition in_array :: "Table \<Rightarrow> TValue \<Rightarrow> bool" where
  "in_array t k \<longleftrightarrow> 0 < arrayindex k \<and> arrayindex k \<le> int (length (t_array t))"

definition table_ok :: "Table \<Rightarrow> bool" where
  "table_ok t \<longleftrightarrow>
     t_lsizenode t \<le> MAXBITS \<and> int (length (t_array t)) \<le> MAXASIZE \<and>
     scatter.wf (mainposition (t_lsizenode t)) (2 ^ t_lsizenode t) (t_node t) \<and>
     (\<forall>i < length (t_node t). t_lastfree t \<le> int i \<longrightarrow> \<not> t_isdummy t \<longrightarrow> i_key (t_node t ! i) \<noteq> TNil) \<and>
     t_lastfree t \<le> 2 ^ t_lsizenode t \<and>
     (t_isdummy t \<longrightarrow> t_lsizenode t = 0 \<and> t_node t = [dummynode] \<and> t_lastfree t \<le> 0) \<and>
     (\<forall>i < length (t_node t). keyed (t_node t ! i) \<longrightarrow> \<not> in_array t (i_key (t_node t ! i)))"

lemma table_okD:
  assumes "table_ok t"
  shows "t_lsizenode t \<le> MAXBITS" "int (length (t_array t)) \<le> MAXASIZE"
    "sc.wf (t_lsizenode t) (t_node t)"
    "i < length (t_node t) \<Longrightarrow> t_lastfree t \<le> int i \<Longrightarrow> \<not> t_isdummy t \<Longrightarrow> i_key (t_node t ! i) \<noteq> TNil"
    "t_lastfree t \<le> 2 ^ t_lsizenode t"
    "t_isdummy t \<Longrightarrow> t_lsizenode t = 0 \<and> t_node t = [dummynode] \<and> t_lastfree t \<le> 0"
    "i < length (t_node t) \<Longrightarrow> keyed (t_node t ! i) \<Longrightarrow> \<not> in_array t (i_key (t_node t ! i))"
    "length (t_node t) = 2 ^ t_lsizenode t"
  using assms sc.wfD(1) [of "t_lsizenode t" "t_node t"] unfolding table_ok_def by blast+

text \<open>An entry of the hash part that holds a key.\<close>

definition node_of :: "Table \<Rightarrow> TValue \<Rightarrow> nat \<Rightarrow> bool" where
  "node_of t k j \<longleftrightarrow> j < length (t_node t) \<and> keyed (t_node t ! j) \<and> luaO_rawequalObj (i_key (t_node t ! j)) k"

definition slot_of :: "Table \<Rightarrow> TValue \<Rightarrow> slot \<Rightarrow> bool" where
  "slot_of t k s \<longleftrightarrow> (case s of
       NilObject \<Rightarrow> \<not> in_array t k \<and> absent (t_node t) k
     | ArraySlot i \<Rightarrow> in_array t k \<and> i = nat (arrayindex k - 1)
     | NodeSlot j \<Rightarrow> \<not> in_array t k \<and> node_of t k j)"

definition live_key :: "TValue \<Rightarrow> bool" where
  "live_key k \<longleftrightarrow> (\<forall>p. k \<noteq> TDeadKey p)"

lemma arrayindex_number:
  "arrayindex (TNumber n) = (let k = lua_number2int n in if luai_numeq (cast_num k) n then k else - 1)"
  by (simp add: arrayindex_def)

lemma arrayindex_cast_num [simp]: "fits_int k \<Longrightarrow> arrayindex (TNumber (cast_num k)) = k"
  by (simp add: arrayindex_number)

lemma arrayindex_eq: "luaO_rawequalObj a b \<Longrightarrow> arrayindex a = arrayindex b"
proof (cases a)
  case (TNumber n)
  assume e: "luaO_rawequalObj a b"
  with TNumber obtain m where m: "b = TNumber m" "luai_numeq n m" by (auto simp: rawequal_iff)
  have "luai_numeq x n \<longleftrightarrow> luai_numeq x m" for x
    using m(2) luai_numeq_trans luai_numeq_sym by blast
  with TNumber m luai_numeq_number2int [OF m(2)] show ?thesis by (simp add: arrayindex_number)
qed (auto simp: rawequal_iff)

lemma in_array_eq: "luaO_rawequalObj a b \<Longrightarrow> in_array t a = in_array t b"
  by (simp add: in_array_def arrayindex_eq)

lemma arrayindex_rawequal:
  assumes "0 < arrayindex a" "arrayindex a = arrayindex b"
  shows "luaO_rawequalObj a b"
proof -
  obtain n where a: "a = TNumber n" using assms(1) by (cases a) (auto simp: arrayindex_def)
  obtain m where b: "b = TNumber m" using assms by (cases b) (auto simp: arrayindex_def)
  have "luai_numeq (cast_num (arrayindex a)) n" "luai_numeq (cast_num (arrayindex a)) m"
    using assms a b by (auto simp: arrayindex_number Let_def split: if_splits)
  then have "luai_numeq n m" using luai_numeq_sym luai_numeq_trans by blast
  with a b show ?thesis by (simp add: rawequal_iff)
qed

lemma absent_or_node: "absent (t_node t) k \<longleftrightarrow> (\<nexists>j. node_of t k j)"
  by (auto simp: absent_def node_of_def)

lemma live_absent: "live_key k \<Longrightarrow> k = TNil \<Longrightarrow> absent ns k"
  by (auto simp: absent_def keyed_def rawequal_iff split: TValue.splits)

lemma generic_search:
  assumes ok: "table_ok t" and k: "live_key k" "k \<noteq> TNil" and na: "\<not> in_array t k"
  shows "\<exists>s. bindE (chain_find (length (t_node t)) (t_node t) (\<lambda>n. luaO_rawequalObj (i_key n) k)
     (mainposition (t_lsizenode t) k)) (\<lambda>r. Inr (chain_slot r)) = Inr s \<and> slot_of t k s"
proof (cases "absent (t_node t) k")
  case True
  with k sc.search_absent [OF table_okD(3) [OF ok] True] na show ?thesis
    by (auto simp: live_key_def chain_slot_def slot_of_def)
next
  case False
  then obtain j where j: "node_of t k j" by (auto simp: absent_or_node)
  then have "keyed (t_node t ! j)" "luaO_rawequalObj (i_key (t_node t ! j)) k" "j < 2 ^ t_lsizenode t"
    using table_okD(8) [OF ok] by (auto simp: node_of_def)
  moreover from this k have "proper_key k"
    using rawequal_valid [of "i_key (t_node t ! j)" k] by (simp add: proper_key_def live_key_def keyed_def)
  ultimately show ?thesis
    using sc.search_found [OF table_okD(3) [OF ok], of j k] j na
    by (auto simp: chain_slot_def slot_of_def)
qed

lemma unsigned_index_test:
  assumes "fits_int k" "length arr \<le> 2 ^ 26"
  shows "(of_int (k - 1) :: u32) < of_nat (length arr) \<longleftrightarrow> 0 < k \<and> k \<le> int (length arr)"
proof -
  have "(of_int (k - 1) :: u32) < of_nat (length arr) \<longleftrightarrow>
      uint (of_int (k - 1) :: u32) < uint (of_nat (length arr) :: u32)"
    by (simp add: word_less_def)
  also have "\<dots> \<longleftrightarrow> (k - 1) mod 2 ^ 32 < int (length arr) mod 2 ^ 32"
    by (simp only: uint_word_of_int unsigned_of_nat take_bit_eq_mod zmod_int) simp
  also have "\<dots> \<longleftrightarrow> (k - 1) mod 2 ^ 32 < int (length arr)"
    using assms(2) by (simp add: zmod_trivial_iff)
  also have "\<dots> \<longleftrightarrow> 0 < k \<and> k \<le> int (length arr)"
  proof (cases "0 < k")
    case True
    with assms(1) have "(k - 1) mod 2 ^ 32 = k - 1" by (simp add: fits_int_def)
    with True show ?thesis by auto
  next
    case False
    with assms(1) have "(k - 1) mod 2 ^ 32 = k - 1 + 2 ^ 32"
      by (intro int_mod_pos_eq [of _ _ "- 1"]) (auto simp: fits_int_def)
    with False assms show ?thesis by (simp add: fits_int_def)
  qed
  finally show ?thesis .
qed

lemma getnum_spec:
  assumes ok: "table_ok t" and k: "fits_int k"
  shows "\<exists>s. luaH_getnum t k = Inr s \<and> slot_of t (TNumber (cast_num k)) s"
proof -
  have t: "(of_int (k - 1) :: u32) < of_nat (length (t_array t)) \<longleftrightarrow> in_array t (TNumber (cast_num k))"
    using unsigned_index_test [OF k] table_okD(2) [OF ok] k by (simp add: MAXASIZE_def in_array_def)
  show ?thesis
  proof (cases "in_array t (TNumber (cast_num k))")
    case True
    with t k show ?thesis by (simp add: luaH_getnum_def slot_of_def)
  next
    case False
    from generic_search [OF ok _ _ False] t False show ?thesis
      by (simp add: luaH_getnum_def luaH_getnum_generic live_key_def Let_def)
  qed
qed

lemma slot_of_eq: "luaO_rawequalObj a b \<Longrightarrow> slot_of t a s \<longleftrightarrow> slot_of t b s"
proof -
  assume e: "luaO_rawequalObj a b"
  then have "luaO_rawequalObj x a \<longleftrightarrow> luaO_rawequalObj x b" for x
    using rawequal_trans rawequal_sym by blast
  with e show ?thesis
    by (simp add: slot_of_def absent_def node_of_def in_array_eq arrayindex_eq split: slot.splits)
qed

lemma get_spec:
  assumes ok: "table_ok t" and k: "live_key k"
  shows "\<exists>s. luaH_get t k = Inr s \<and> slot_of t k s"
proof -
  have gen: "\<exists>s. get_generic t k = Inr s \<and> slot_of t k s" if "k \<noteq> TNil" "\<not> in_array t k"
    using generic_search [OF ok k that] by (simp add: get_generic_def)
  show ?thesis
  proof (cases k)
    case TNil
    then show ?thesis
      using live_absent [OF k] by (simp add: luaH_get_def slot_of_def in_array_def arrayindex_def)
  next
    case (TString s)
    then show ?thesis
      using gen by (simp add: luaH_get_def luaH_getstr_def luaH_getstr_generic get_generic_def in_array_def arrayindex_def)
  next
    case (TNumber n)
    show ?thesis
    proof (cases "luai_numeq (cast_num (lua_number2int n)) n")
      case True
      with TNumber have "luaO_rawequalObj (TNumber (cast_num (lua_number2int n))) k"
        by (simp add: rawequal_iff)
      with True TNumber getnum_spec [OF ok, of "lua_number2int n"] show ?thesis
        by (simp add: luaH_get_def Let_def slot_of_eq)
    next
      case False
      with TNumber gen show ?thesis
        by (simp add: luaH_get_def Let_def in_array_def arrayindex_number)
    qed
  next
    case (TDeadKey p)
    with k show ?thesis by (simp add: live_key_def)
  qed (use gen in \<open>simp_all add: luaH_get_def in_array_def arrayindex_def\<close>)
qed


section \<open>A table as a map\<close>

definition tmap :: "Table \<Rightarrow> TValue \<Rightarrow> TValue" where
  "tmap t k = (case luaH_get t k of Inr s \<Rightarrow> deref t s | Inl e \<Rightarrow> TNil)"

lemma slot_of_unique:
  assumes ok: "table_ok t" and s: "slot_of t k s" and s': "slot_of t k s'"
  shows "s = s'"
proof -
  have "i = j" if "node_of t k i" "node_of t k j" for i j
    using that sc.wfD(5) [OF table_okD(3) [OF ok], of i j] table_okD(8) [OF ok]
      rawequal_right [of _ k] by (simp add: node_of_def)
  with s s' show ?thesis
    by (auto simp: slot_of_def absent_or_node split: slot.splits)
qed

lemma tmap_slot:
  assumes "table_ok t" "live_key k" "slot_of t k s"
  shows "tmap t k = deref t s" "luaH_get t k = Inr s"
proof -
  obtain s' where "luaH_get t k = Inr s'" "slot_of t k s'" using get_spec [OF assms(1,2)] by blast
  with slot_of_unique [OF assms(1,3)] show "tmap t k = deref t s" "luaH_get t k = Inr s"
    by (auto simp: tmap_def)
qed

text \<open>Two tables with the same array and the same live bindings are the same map.\<close>

lemma node_of_val:
  assumes "table_ok t" "node_of t k j" "\<not> in_array t k" "live_key k"
  shows "tmap t k = i_val (t_node t ! j)"
  using tmap_slot(1) [OF assms(1,4), of "NodeSlot j"] assms by (simp add: slot_of_def deref_def)

lemma tmap_array:
  assumes "table_ok t" "in_array t k" "live_key k"
  shows "tmap t k = t_array t ! nat (arrayindex k - 1)"
  using tmap_slot(1) [OF assms(1,3), of "ArraySlot (nat (arrayindex k - 1))"] assms
  by (simp add: slot_of_def deref_def)

lemma tmap_hash:
  assumes ok: "table_ok t" and k: "live_key k" and na: "\<not> in_array t k"
  shows "v \<noteq> TNil \<Longrightarrow> tmap t k = v \<longleftrightarrow> (\<exists>k'. (k', v) \<in> binds (t_node t) \<and> luaO_rawequalObj k' k)"
proof -
  assume v: "v \<noteq> TNil"
  have key: "keyed (t_node t ! j)" if "j < length (t_node t)" "i_val (t_node t ! j) \<noteq> TNil" for j
    using that sc.wfD(6) [OF table_okD(3) [OF ok], of j] table_okD(8) [OF ok] by auto
  show ?thesis
  proof
    assume "tmap t k = v"
    moreover obtain s where s: "slot_of t k s" using get_spec [OF ok k] by blast
    ultimately obtain j where "s = NodeSlot j" "node_of t k j" "i_val (t_node t ! j) = v"
      using v na tmap_slot(1) [OF ok k s] by (auto simp: slot_of_def deref_def split: slot.splits)
    with v show "\<exists>k'. (k', v) \<in> binds (t_node t) \<and> luaO_rawequalObj k' k"
      by (auto simp: binds_def node_of_def)
  next
    assume "\<exists>k'. (k', v) \<in> binds (t_node t) \<and> luaO_rawequalObj k' k"
    then obtain j where "j < length (t_node t)" "i_val (t_node t ! j) = v"
      "luaO_rawequalObj (i_key (t_node t ! j)) k"
      by (auto simp: binds_def)
    with v key have "node_of t k j" "i_val (t_node t ! j) = v" by (auto simp: node_of_def)
    with node_of_val [OF ok _ na k] show "tmap t k = v" by simp
  qed
qed

lemma tmap_same_binds:
  assumes "table_ok t" "table_ok t'" "live_key k"
    and "t_array t' = t_array t" "binds (t_node t') = binds (t_node t)"
  shows "tmap t' k = tmap t k"
proof (cases "in_array t k")
  case True
  with assms tmap_array [of t k] tmap_array [of t' k] show ?thesis by (simp add: in_array_def)
next
  case False
  then have "\<not> in_array t' k" using assms by (simp add: in_array_def)
  with False tmap_hash [OF assms(1,3)] tmap_hash [OF assms(2,3)] assms(5) show ?thesis
    by (metis (full_types))
qed

section \<open>Writing through a slot\<close>

lemma setslot_simps [simp]:
  "length (t_array (setslot t s v)) = length (t_array t)"
  "length (t_node (setslot t s v)) = length (t_node t)"
  "t_lsizenode (setslot t s v) = t_lsizenode t" "t_isdummy (setslot t s v) = t_isdummy t"
  "t_lastfree (setslot t s v) = t_lastfree t" "in_array (setslot t s v) k = in_array t k"
  by (cases s; simp add: setslot_def in_array_def)+

lemma setslot_key [simp]: "i_key (t_node (setslot t s v) ! i) = i_key (t_node t ! i)"
proof (cases s)
  case (NodeSlot j)
  then show ?thesis
    by (cases "j < length (t_node t)"; cases "i = j") (simp_all add: setslot_def list_update_beyond)
qed (simp_all add: setslot_def)

lemma setslot_keyed [simp]: "keyed (t_node (setslot t s v) ! i) = keyed (t_node t ! i)"
  by (simp add: keyed_def)

lemma setslot_slot_of [simp]: "slot_of (setslot t s v) q s' = slot_of t q s'"
  by (simp add: slot_of_def node_of_def absent_def split: slot.splits)

lemma table_ok_setslot:
  assumes ok: "table_ok t" and s: "slot_of t k s"
  shows "table_ok (setslot t s v)"
proof -
  note w = table_okD [OF ok]
  have "sc.wf (t_lsizenode t) (t_node (setslot t s v))"
    using sc.wf_put_val [OF w(3)] w(3,8) s by (cases s) (simp_all add: setslot_def slot_of_def node_of_def)
  moreover have "t_node (setslot t s v) = [dummynode]" if "t_isdummy t"
    using w(6) [OF that] s by (cases s) (auto simp: setslot_def slot_of_def node_of_def dummynode_def keyed_def)
  ultimately show ?thesis
    using ok unfolding table_ok_def by simp
qed

lemma deref_setslot:
  assumes "slot_of t k s" "s \<noteq> NilObject"
  shows "deref (setslot t s v) s' = (if s' = s then v else deref t s')"
  using assms
  by (cases s; cases s') (auto simp: deref_def setslot_def slot_of_def node_of_def in_array_def nth_list_update)

lemma tmap_setslot:
  assumes ok: "table_ok t" and s: "slot_of t k s" "s \<noteq> NilObject" and q: "live_key q"
    and k: "valid_key k"
  shows "tmap (setslot t s v) q = (if luaO_rawequalObj q k then v else tmap t q)"
proof -
  obtain s' where s': "slot_of t q s'" using get_spec [OF ok q] by blast
  have "s' = s \<longleftrightarrow> luaO_rawequalObj q k"
  proof
    assume "luaO_rawequalObj q k"
    with s' slot_of_eq slot_of_unique [OF ok s(1)] show "s' = s" by blast
  next
    assume e: "s' = s"
    then show "luaO_rawequalObj q k"
    proof (cases s)
      case (ArraySlot i)
      with e s s' have "arrayindex q = arrayindex k" "0 < arrayindex q"
        by (auto simp: slot_of_def in_array_def)
      then show ?thesis by (rule arrayindex_rawequal [rotated])
    next
      case (NodeSlot j)
      with e s s' show ?thesis
        using rawequal_left [of "i_key (t_node t ! j)" q k] by (simp add: slot_of_def node_of_def)
    qed (use s in simp)
  qed
  then show ?thesis
    using tmap_slot(1) [OF table_ok_setslot [OF ok s(1), of v] q, of s'] tmap_slot(1) [OF ok q s'] s'
      deref_setslot [OF s] by simp
qed


section \<open>Inserting a key where there is room\<close>

definition used :: "Table \<Rightarrow> nat" where
  "used t = card {i. i < length (t_node t) \<and> i_key (t_node t ! i) \<noteq> TNil}"

definition inserted :: "Table \<Rightarrow> TValue \<Rightarrow> Table \<Rightarrow> slot \<Rightarrow> bool" where
  "inserted t k t' s \<longleftrightarrow> table_ok t' \<and> slot_of t' k s \<and> s \<noteq> NilObject \<and> (\<forall>q. live_key q \<longrightarrow> tmap t' q = tmap t q)"

text \<open>The parts of a table that insertion without a rehash leaves alone.\<close>

definition same_shape :: "Table \<Rightarrow> Table \<Rightarrow> bool" where
  "same_shape t t' \<longleftrightarrow> t_array t' = t_array t \<and> t_lsizenode t' = t_lsizenode t \<and> t_isdummy t' = t_isdummy t"

lemma used_setslot [simp]: "used (setslot t s v) = used t"
  by (simp add: used_def)

lemma free_node:
  assumes "used t < length (t_node t)"
  shows "\<exists>i < length (t_node t). i_key (t_node t ! i) = TNil"
proof (rule ccontr)
  assume "\<not> ?thesis"
  then have "{i. i < length (t_node t) \<and> i_key (t_node t ! i) \<noteq> TNil} = {..<length (t_node t)}" by auto
  with assms show False by (simp add: used_def)
qed

lemma getfreepos_loop_spec:
  "case getfreepos_loop ns m of
     None \<Rightarrow> \<forall>i < m. i_key (ns ! i) \<noteq> TNil
   | Some n \<Rightarrow> n < m \<and> i_key (ns ! n) = TNil \<and> (\<forall>i < m. n < i \<longrightarrow> i_key (ns ! i) \<noteq> TNil)"
proof (induction m)
  case (Suc m)
  then show ?case by (auto simp: ttisnil_def less_Suc_eq split: option.splits)
qed simp

lemma getfreepos_spec:
  assumes ok: "table_ok t" and nd: "\<not> t_isdummy t" and room: "used t < 2 ^ t_lsizenode t"
  shows "\<exists>n. getfreepos t = (t\<lparr>t_lastfree := int n\<rparr>, Some n) \<and> n < 2 ^ t_lsizenode t \<and>
    i_key (t_node t ! n) = TNil \<and> (\<forall>i < 2 ^ t_lsizenode t. n < i \<longrightarrow> i_key (t_node t ! i) \<noteq> TNil)"
proof -
  note w = table_okD [OF ok]
  obtain i where i: "i < length (t_node t)" "i_key (t_node t ! i) = TNil"
    using free_node [of t] room w(8) by auto
  with w(4) [OF i(1) _ nd] have lf: "int i < t_lastfree t" by force
  with getfreepos_loop_spec [where ns = "t_node t" and m = "nat (t_lastfree t)"] i
  obtain n where n: "getfreepos_loop (t_node t) (nat (t_lastfree t)) = Some n" "n < nat (t_lastfree t)"
    "i_key (t_node t ! n) = TNil" "\<forall>i < nat (t_lastfree t). n < i \<longrightarrow> i_key (t_node t ! i) \<noteq> TNil"
    by (force split: option.splits)
  have "i_key (t_node t ! j) \<noteq> TNil" if "j < 2 ^ t_lsizenode t" "n < j" for j
    using n(4) that w(4) [of j] nd w(8) by (cases "j < nat (t_lastfree t)") auto
  moreover have "nat (t_lastfree t) \<le> 2 ^ t_lsizenode t" using w(5) by (simp add: nat_le_iff)
  with n(2) have "n < 2 ^ t_lsizenode t" by linarith
  ultimately show ?thesis
    using n lf by (auto simp: getfreepos_def)
qed

lemma placed_inserted:
  assumes ok: "table_ok t" and k: "proper_key k" and na: "\<not> in_array t k" and nd: "\<not> t_isdummy t"
    and pl: "sc.placed (t_lsizenode t) (t_node t) k ns j n"
    and lf: "lf \<le> 2 ^ t_lsizenode t"
      "\<And>i. i < 2 ^ t_lsizenode t \<Longrightarrow> lf \<le> int i \<Longrightarrow> i \<noteq> n \<Longrightarrow> i_key (t_node t ! i) \<noteq> TNil"
  defines "t' \<equiv> t\<lparr>t_lastfree := lf, t_node := ns\<rparr>"
  shows "inserted t k t' (NodeSlot j)" "same_shape t t'" "used t' \<le> Suc (used t)"
proof -
  note w = table_okD [OF ok]
  note p = pl [unfolded sc.placed_def]
  have len: "length ns = 2 ^ t_lsizenode t" using p sc.wfD(1) by blast
  show "same_shape t t'" by (simp add: same_shape_def t'_def)
  have keys: "\<not> in_array t (i_key (ns ! i))" if i: "i < length ns" "keyed (ns ! i)" for i
  proof (cases "i = j")
    case True
    with na p show ?thesis by simp
  next
    case False
    from p i len consider "i_key (ns ! i) = k"
      | l where "l < 2 ^ t_lsizenode t" "i_key (ns ! i) = i_key (t_node t ! l)" by metis
    then show ?thesis
    proof cases
      case 2
      then have "keyed (t_node t ! l)" using i(2) by (simp add: keyed_def)
      with 2 w(7) [of l] w(8) show ?thesis by simp
    qed (use na in simp)
  qed
  have "i_key (ns ! i) \<noteq> TNil" if "i < 2 ^ t_lsizenode t" "lf \<le> int i" for i
    using that p lf(2) by (cases "i = n") auto
  with keys w p lf(1) len nd have ok': "table_ok t'"
    by (simp add: table_ok_def t'_def in_array_def)
  moreover have "tmap t' q = tmap t q" if "live_key q" for q
    using p by (intro tmap_same_binds [OF ok ok' that]) (simp_all add: t'_def)
  moreover have "slot_of t' k (NodeSlot j)"
    using p len na sc.proper_keyD [OF k] by (simp add: slot_of_def node_of_def t'_def in_array_def)
  ultimately show "inserted t k t' (NodeSlot j)" by (simp add: inserted_def)
  have "{i. i < length (t_node t') \<and> i_key (t_node t' ! i) \<noteq> TNil} \<subseteq>
    insert n {i. i < length (t_node t) \<and> i_key (t_node t ! i) \<noteq> TNil}"
    using p len w(8) by (auto simp: t'_def)
  then have "used t' \<le> card (insert n {i. i < length (t_node t) \<and> i_key (t_node t ! i) \<noteq> TNil})"
    unfolding used_def by (rule card_mono [rotated]) simp
  then show "used t' \<le> Suc (used t)"
    by (simp add: used_def card_insert_if split: if_splits)
qed


lemma slot_of_nil: "slot_of t k NilObject \<longleftrightarrow> \<not> in_array t k \<and> absent (t_node t) k"
  by (simp add: slot_of_def)

lemma live_keyed:
  "table_ok t \<Longrightarrow> j < 2 ^ t_lsizenode t \<Longrightarrow> \<not> ttisnil (i_val (t_node t ! j)) \<Longrightarrow> keyed (t_node t ! j)"
  using sc.wfD(6) [OF table_okD(3)] by (auto simp: ttisnil_def)

lemma put_key_chained:
  "put_key t (chain_free ns m n) n k = (t\<lparr>t_node := insert_chained ns m n k\<rparr>, NodeSlot n)"
  by (simp add: put_key_def insert_chained_def Let_def)

lemma put_key_moved:
  "put_key t (move_colliding ns m p n) m k = (t\<lparr>t_node := insert_moved ns m p n k\<rparr>, NodeSlot m)"
  by (simp add: put_key_def insert_moved_def Let_def)

lemma newkey_room:
  assumes ok: "table_ok t" and k: "proper_key k" and ab: "slot_of t k NilObject"
    and nd: "\<not> t_isdummy t" and room: "used t < 2 ^ t_lsizenode t"
  shows "\<exists>t' s. newkey (Suc d) t k = Inr (t', s) \<and> inserted t k t' s \<and> same_shape t t' \<and> used t' \<le> Suc (used t)"
proof -
  note w = table_okD [OF ok]
  let ?m = "mainposition (t_lsizenode t) k" and ?ns = "t_node t"
  have na: "\<not> in_array t k" and ab': "absent ?ns k" using ab by (simp_all add: slot_of_nil)
  have m: "?m < 2 ^ t_lsizenode t" by (rule mainposition_less)
  note ins = placed_inserted [OF ok k na nd]
  show ?thesis
  proof (cases "ttisnil (i_val (?ns ! ?m))")
    case True
    then have pl: "sc.placed (t_lsizenode t) ?ns k (?ns[?m := (?ns ! ?m)\<lparr>i_key := k\<rparr>]) ?m ?m"
      using sc.placed_here [OF w(3) k ab'] by (simp add: ttisnil_def)
    have lf: "i_key (?ns ! i) \<noteq> TNil" if "i < 2 ^ t_lsizenode t" "t_lastfree t \<le> int i" for i
      using w(4) [of i] that nd w(8) by simp
    from ins [OF pl w(5) lf] True nd show ?thesis
      by (simp add: put_key_def Let_def)
  next
    case False
    from getfreepos_spec [OF ok nd room]
    obtain n where n: "getfreepos t = (t\<lparr>t_lastfree := int n\<rparr>, Some n)" "n < 2 ^ t_lsizenode t"
      "i_key (?ns ! n) = TNil" "\<And>i. i < 2 ^ t_lsizenode t \<Longrightarrow> n < i \<Longrightarrow> i_key (?ns ! i) \<noteq> TNil"
      by blast
    note kd = live_keyed [OF ok m False]
    have lf: "int n \<le> 2 ^ t_lsizenode t"
      using n(2) by (metis of_nat_numeral of_nat_power nat_less_le of_nat_le_iff)
    have lf': "i_key (?ns ! i) \<noteq> TNil" if "i < 2 ^ t_lsizenode t" "int n \<le> int i" "i \<noteq> n" for i
      using n(4) [OF that(1)] that by simp
    show ?thesis
    proof (cases "mainposition (t_lsizenode t) (i_key (?ns ! ?m)) = ?m")
      case True
      from ins [OF sc.placed_chained [OF w(3) k ab' kd True n(2,3)] lf lf'] n(1) False True
      show ?thesis by (simp add: put_key_chained)
    next
      case other: False
      obtain p where p: "find_previous (length ?ns) ?ns ?m (mainposition (t_lsizenode t) (i_key (?ns ! ?m))) = Inr p"
        "(p, ?m) \<in> nrel ?ns"
        using sc.find_previous_ok [OF w(3) kd m other] by blast
      from ins [OF sc.placed_moved [OF w(3) k ab' kd other n(2,3) p(2)] lf lf'] n(1) False other p(1)
      show ?thesis by (simp add: put_key_moved Let_def)
    qed
  qed
qed

text \<open>\<open>luaH_set\<close> and \<open>luaH_setnum\<close> clear the cached metamethod flags.\<close>

lemma flags_simps [simp]:
  "table_ok (t\<lparr>t_flags := f\<rparr>) = table_ok t" "slot_of (t\<lparr>t_flags := f\<rparr>) = slot_of t"
  "used (t\<lparr>t_flags := f\<rparr>) = used t" "in_array (t\<lparr>t_flags := f\<rparr>) = in_array t"
  "luaH_get (t\<lparr>t_flags := f\<rparr>) = luaH_get t" "tmap (t\<lparr>t_flags := f\<rparr>) = tmap t"
  "same_shape (t\<lparr>t_flags := f\<rparr>) t' = same_shape t t'"
  "inserted (t\<lparr>t_flags := f\<rparr>) k t' s = inserted t k t' s"
proof -
  have g: "luaH_get (t\<lparr>t_flags := f\<rparr>) = luaH_get t"
    by (intro ext)
      (simp add: luaH_get_def luaH_getnum_def luaH_getstr_def get_generic_def Let_def split: TValue.split)
  then show "luaH_get (t\<lparr>t_flags := f\<rparr>) = luaH_get t" .
  show tm: "tmap (t\<lparr>t_flags := f\<rparr>) = tmap t"
    by (intro ext) (simp add: tmap_def g deref_def split: sum.splits slot.splits)
  show ia: "in_array (t\<lparr>t_flags := f\<rparr>) = in_array t" by (intro ext) (simp add: in_array_def)
  show "table_ok (t\<lparr>t_flags := f\<rparr>) = table_ok t" by (simp add: table_ok_def ia)
  show "slot_of (t\<lparr>t_flags := f\<rparr>) = slot_of t"
    by (intro ext) (simp add: slot_of_def ia node_of_def split: slot.splits)
  show "used (t\<lparr>t_flags := f\<rparr>) = used t" by (simp add: used_def)
  show "same_shape (t\<lparr>t_flags := f\<rparr>) t' = same_shape t t'" by (simp add: same_shape_def)
  show "inserted (t\<lparr>t_flags := f\<rparr>) k t' s = inserted t k t' s" by (simp add: inserted_def tm)
qed

lemma proper_live: "proper_key k \<Longrightarrow> live_key k"
  by (simp add: proper_key_def live_key_def)

lemma proper_set_guards:
  assumes "proper_key k"
  shows "\<not> ttisnil k" "\<not> (case k of TNumber n \<Rightarrow> luai_numisnan n | _ \<Rightarrow> False)"
  using assms by (auto simp: proper_key_def valid_key_def ttisnil_def luai_numisnan_def split: TValue.splits)

text \<open>The contract of \<open>newkey\<close> as its callers use it.\<close>

lemma set_with_cases:
  assumes ok: "table_ok t" and k: "proper_key k"
  obtains s where "set_with nk t k = Inr (t\<lparr>t_flags := 0\<rparr>, s)" "inserted t k (t\<lparr>t_flags := 0\<rparr>) s"
  | "set_with nk t k = nk (t\<lparr>t_flags := 0\<rparr>) k" "slot_of t k NilObject"
proof -
  obtain s where s: "luaH_get t k = Inr s" "slot_of t k s" using get_spec [OF ok proper_live [OF k]] by blast
  show thesis
  proof (cases "s = NilObject")
    case True
    with s proper_set_guards [OF k] have "set_with nk t k = nk (t\<lparr>t_flags := 0\<rparr>) k"
      by (simp add: set_with_def)
    with True s(2) that(2) show thesis by simp
  next
    case False
    with s ok that(1) [of s] show thesis by (simp add: set_with_def inserted_def)
  qed
qed

lemma setnum_with_cases:
  assumes ok: "table_ok t" and i: "fits_int i"
  obtains s where "setnum_with nk t i = Inr (t, s)" "inserted t (TNumber (cast_num i)) t s"
  | "setnum_with nk t i = nk t (TNumber (cast_num i))" "slot_of t (TNumber (cast_num i)) NilObject"
proof -
  obtain s where s: "luaH_getnum t i = Inr s" "slot_of t (TNumber (cast_num i)) s"
    using getnum_spec [OF ok i] by blast
  show thesis
  proof (cases "s = NilObject")
    case True
    with s that(2) show thesis by (simp add: setnum_with_def)
  next
    case False
    with s ok that(1) [of s] show thesis by (simp add: setnum_with_def inserted_def)
  qed
qed

end
