(* ===== verification/TableSizes.thy ===== *)
theory TableSizes
  imports TableProps
begin

text \<open>
  The sizes \<open>rehash\<close> computes (\<open>computesizes\<close>, \<open>countint\<close>, \<open>numusearray\<close>, \<open>numusehash\<close> of
  \<^verbatim>\<open>src/lua/ltable.c\<close>): \<open>nums\<close> holds, for each \<open>i\<close>, the number of integer keys in
  \<open>(2^(i-1), 2^i]\<close>, and the array size chosen leaves enough nodes for every other key.
\<close>

section \<open>Tallies\<close>

text \<open>The candidates for the array part among the keys counted so far.\<close>

definition tallies :: "nat list \<Rightarrow> int list \<Rightarrow> bool" where
  "tallies xs nums \<longleftrightarrow> length nums = MAXBITS + 1 \<and> (\<forall>x \<in> set xs. 0 < x \<and> x \<le> 2 ^ MAXBITS) \<and>
     (\<forall>i \<le> MAXBITS. nums ! i = int (length (filter (\<lambda>x. nat (ceillog2 x) = i) xs)))"

definition upto_count :: "nat list \<Rightarrow> nat \<Rightarrow> nat" where
  "upto_count xs n = length (filter (\<lambda>x. x \<le> n) xs)"

lemma tallies_empty: "tallies [] (replicate (MAXBITS + 1) 0)"
  unfolding tallies_def by (simp add: nth_replicate del: replicate_Suc)

lemma ceillog2_le_iff: "0 < x \<Longrightarrow> nat (ceillog2 x) \<le> k \<longleftrightarrow> x \<le> 2 ^ k"
proof
  assume "0 < x" "nat (ceillog2 x) \<le> k"
  have "x \<le> 2 ^ nat (ceillog2 x)" using ceillog2_bounds(2) [OF \<open>0 < x\<close>] .
  also have "\<dots> \<le> 2 ^ k" using \<open>nat (ceillog2 x) \<le> k\<close> by (intro power_increasing) auto
  finally show "x \<le> 2 ^ k" .
qed (use ceillog2_le [of x k] in simp)

lemma tallies_add:
  assumes "tallies xs nums" "0 < x" "x \<le> 2 ^ MAXBITS"
  shows "tallies (x # xs) (nums[nat (ceillog2 x) := nums ! nat (ceillog2 x) + 1])"
  using assms ceillog2_le_iff [OF assms(2), of MAXBITS]
  by (auto simp: tallies_def nth_list_update)

lemma sum_tallies:
  assumes "tallies xs nums" "i \<le> MAXBITS"
  shows "(\<Sum>j\<le>i. nums ! j) = int (upto_count xs (2 ^ i))"
proof -
  have "(\<Sum>j\<le>i. nums ! j) = (\<Sum>j\<le>i. int (length (filter (\<lambda>x. nat (ceillog2 x) = j) xs)))"
    using assms by (intro sum.cong) (auto simp: tallies_def)
  also have "\<dots> = int (length (filter (\<lambda>x. nat (ceillog2 x) \<le> i) xs))"
  proof (induction xs)
    case (Cons x xs)
    have "(\<Sum>j\<le>i. int (length (filter (\<lambda>x. nat (ceillog2 x) = j) (x # xs)))) =
      (\<Sum>j\<le>i. (if nat (ceillog2 x) = j then 1 else 0) + int (length (filter (\<lambda>x. nat (ceillog2 x) = j) xs)))"
      by (intro sum.cong) auto
    also have "\<dots> = (if nat (ceillog2 x) \<le> i then 1 else 0) + int (length (filter (\<lambda>x. nat (ceillog2 x) \<le> i) xs))"
      by (simp add: sum.distrib Cons.IH)
    finally show ?case by simp
  qed simp
  also have "filter (\<lambda>x. nat (ceillog2 x) \<le> i) xs = filter (\<lambda>x. x \<le> 2 ^ i) xs"
    using assms(1) by (intro filter_cong) (auto simp: tallies_def ceillog2_le_iff)
  finally show ?thesis by (simp add: upto_count_def)
qed

section \<open>The array size\<close>

text \<open>Invariant of the loop of \<open>computesizes\<close>: \<open>na\<close> candidates fit the size \<open>n\<close>, which is 0 or a power of two more
  than half of whose slots they fill.\<close>

definition good_size :: "nat list \<Rightarrow> int \<Rightarrow> int \<Rightarrow> bool" where
  "good_size xs na n \<longleftrightarrow> (na = 0 \<and> n = 0) \<or>
     (\<exists>i \<le> MAXBITS. n = 2 ^ i \<and> na = int (upto_count xs (2 ^ i)) \<and> n < 2 * na)"

lemma computesizes_loop_spec:
  assumes T: "tallies xs nums"
  shows "drop i nums = ns \<Longrightarrow> i \<le> MAXBITS + 1 \<Longrightarrow> twotoi = 2 ^ i \<Longrightarrow> a = (\<Sum>j<i. nums ! j) \<Longrightarrow>
    good_size xs na n \<Longrightarrow> computesizes_loop ns twotoi a na n narray = (na'', n'') \<Longrightarrow> good_size xs na'' n''"
proof (induction ns arbitrary: i twotoi a na n)
  case (Cons x ns)
  have i: "i < length nums" "nums ! i = x" "drop (Suc i) nums = ns"
    using Cons.prems(1) by (metis drop_all linorder_not_less list.distinct(1), metis hd_drop_conv_nth
      drop_all linorder_not_less list.distinct(1) list.sel(1), metis drop_Suc list.sel(3) tl_drop)
  then have iM: "i \<le> MAXBITS" using T by (simp add: tallies_def)
  have x: "0 \<le> x" using T iM i(2) by (auto simp: tallies_def)
  have sum: "a + x = int (upto_count xs (2 ^ i))"
    using sum_tallies [OF T iM] Cons.prems(4) i(2) by (simp add: lessThan_Suc_atMost [symmetric])
  define a' na' n' where "a' = a + x"
    and "na' = (if x > 0 \<and> a + x > twotoi div 2 then a + x else na)"
    and "n' = (if x > 0 \<and> a + x > twotoi div 2 then twotoi else n)"
  have gs: "good_size xs na' n'"
    using Cons.prems(5) iM sum Cons.prems(3) by (auto simp: good_size_def na'_def n'_def)
  have step: "computesizes_loop (x # ns) twotoi a na n narray =
    (if twotoi div 2 < narray then if a' = narray then (na', n')
       else computesizes_loop ns (twotoi * 2) a' na' n' narray else (na, n))"
    using x by (auto simp: a'_def na'_def n'_def Let_def)
  have a': "a' = (\<Sum>j<Suc i. nums ! j)" using Cons.prems(4) i(2) by (simp add: a'_def)
  from Cons.IH [OF i(3) _ _ a' gs, of "twotoi * 2"] iM Cons.prems(3,5,6) gs show ?case
    unfolding step by (auto split: if_splits)
qed simp


lemma computesizes_spec:
  "tallies xs nums \<Longrightarrow> computesizes nums narray = (na, n) \<Longrightarrow> good_size xs na n"
  unfolding computesizes_def
  by (rule computesizes_loop_spec [where i = 0]) (auto simp: good_size_def)

section \<open>Counting\<close>

text \<open>The candidate indices of a list of keys.\<close>

definition candidates :: "TValue list \<Rightarrow> nat list" where
  "candidates ks = map (\<lambda>k. nat (arrayindex k)) (filter (\<lambda>k. 0 < arrayindex k \<and> arrayindex k \<le> MAXASIZE) ks)"

lemma countint_spec:
  assumes "tallies xs nums" "countint k nums = (nums', c)"
  shows "tallies (candidates [k] @ xs) nums'" "c = int (length (candidates [k]))"
proof -
  have "nat (arrayindex k) \<le> 2 ^ MAXBITS" if "arrayindex k \<le> MAXASIZE"
    using that by (simp add: MAXASIZE_def MAXBITS_def)
  then show "tallies (candidates [k] @ xs) nums'" "c = int (length (candidates [k]))"
    using assms tallies_add [OF assms(1), of "nat (arrayindex k)"]
    by (auto simp: countint_def candidates_def Let_def split: if_splits)
qed

lemma candidates_Cons: "candidates (k # ks) = candidates [k] @ candidates ks"
  by (simp add: candidates_def)

lemma candidates_append: "candidates (ks @ ks') = candidates ks @ candidates ks'"
  by (simp add: candidates_def)

lemma tallies_perm: "mset xs = mset ys \<Longrightarrow> tallies xs nums = tallies ys nums"
proof -
  assume e: "mset xs = mset ys"
  then have "length (filter P xs) = length (filter P ys)" for P
    by (metis mset_filter size_mset)
  with mset_eq_setD [OF e] show ?thesis by (simp add: tallies_def)
qed

definition live_keys :: "Node list \<Rightarrow> TValue list" where
  "live_keys ns = map i_key (filter (\<lambda>n. \<not> ttisnil (i_val n)) ns)"

lemma numusehash_loop_spec:
  "tallies xs nums \<Longrightarrow> numusehash_loop ns nums ause tot = (nums', ause', tot') \<Longrightarrow>
   tallies (candidates (live_keys ns) @ xs) nums' \<and>
   ause' = ause + int (length (candidates (live_keys ns))) \<and> tot' = tot + int (length (live_keys ns))"
proof (induction ns arbitrary: xs nums ause tot)
  case (Cons n ns)
  show ?case
  proof (cases "ttisnil (i_val n)")
    case True
    with Cons show ?thesis by (simp add: live_keys_def)
  next
    case False
    obtain nums1 c where c: "countint (i_key n) nums = (nums1, c)" by fastforce
    note cs = countint_spec [OF Cons.prems(1) c]
    have lk: "live_keys (n # ns) = i_key n # live_keys ns" using False by (simp add: live_keys_def)
    have "numusehash_loop ns nums1 (ause + c) (tot + 1) = (nums', ause', tot')"
      using Cons.prems(2) c False by simp
    note ih = Cons.IH [OF cs(1) this]
    have "mset (candidates (live_keys ns) @ candidates [i_key n] @ xs) =
      mset (candidates (live_keys (n # ns)) @ xs)"
      unfolding lk candidates_Cons [of "i_key n" "live_keys ns"] by simp
    with ih have "tallies (candidates (live_keys (n # ns)) @ xs) nums'"
      using tallies_perm by blast
    with ih cs(2) show ?thesis
      unfolding lk candidates_Cons [of "i_key n" "live_keys ns"] by simp
  qed
qed (simp add: live_keys_def candidates_def)


text \<open>The array part: indices of live slots.\<close>

definition arr_live :: "TValue list \<Rightarrow> nat \<Rightarrow> nat \<Rightarrow> nat list" where
  "arr_live arr i m = filter (\<lambda>j. \<not> ttisnil (arr ! (j - 1))) [i..<Suc m]"

lemma count_slice_spec: "count_slice arr i lim lc = (lc + int (length (arr_live arr i lim)), max i (Suc lim))"
proof (induction arr i lim lc rule: count_slice.induct)
  case (1 arr i lim lc)
  show ?case
  proof (cases "i \<le> lim")
    case True
    then have "[i..<Suc lim] = i # [Suc i..<Suc lim]" by (simp add: upt_conv_Cons)
    with True 1 show ?thesis
      by (subst count_slice.simps) (simp add: arr_live_def max_def)
  next
    case False
    then show ?thesis by (subst count_slice.simps) (simp add: arr_live_def)
  qed
qed

lemma arr_live_append: "i \<le> Suc m \<Longrightarrow> m \<le> n \<Longrightarrow> arr_live arr i n = arr_live arr i m @ arr_live arr (Suc m) n"
  unfolding arr_live_def by (metis Suc_le_mono filter_append le_Suc_ex upt_add_eq_append)

lemma tallies_slice:
  assumes "tallies xs nums" "lg \<le> MAXBITS" "\<forall>y \<in> set ys. 0 < y \<and> y \<le> 2 ^ MAXBITS \<and> nat (ceillog2 y) = lg"
  shows "tallies (xs @ ys) (nums[lg := nums ! lg + int (length ys)])"
proof -
  have "filter (\<lambda>x. nat (ceillog2 x) = lg) ys = ys" using assms(3) by (simp add: filter_id_conv)
  moreover have "filter (\<lambda>x. nat (ceillog2 x) = i) ys = []" if "i \<noteq> lg" for i
    using assms(3) that by (auto simp: filter_empty_conv)
  ultimately show ?thesis
    using assms by (auto simp: tallies_def nth_list_update)
qed

lemma slice_log:
  assumes "lg \<le> MAXBITS" "(if lg = 0 then 0 else 2 ^ (lg - 1)) < x" "x \<le> 2 ^ lg"
  shows "0 < x \<and> x \<le> 2 ^ MAXBITS \<and> nat (ceillog2 x) = lg"
proof -
  have x: "0 < x" using assms(2) by (auto split: if_splits)
  have "nat (ceillog2 x) \<le> lg" using ceillog2_le_iff [OF x] assms(3) by blast
  moreover have "\<not> nat (ceillog2 x) \<le> lg - 1" if "lg \<noteq> 0"
    using ceillog2_le_iff [OF x, of "lg - 1"] assms(2) that by simp
  moreover have "(2::nat) ^ lg \<le> 2 ^ MAXBITS" using assms(1) by (intro power_increasing) auto
  then have "x \<le> 2 ^ MAXBITS" using assms(3) by linarith
  ultimately show ?thesis using x by (cases "lg = 0") auto
qed

definition slices_below :: "TValue list \<Rightarrow> nat \<Rightarrow> nat" where
  "slices_below arr lg = min (if lg = 0 then 0 else 2 ^ (lg - 1)) (length arr)"

lemma numusearray_loop_spec:
  "lg \<le> MAXBITS + 1 \<Longrightarrow> length arr \<le> 2 ^ MAXBITS \<Longrightarrow> ttlg = 2 ^ lg \<Longrightarrow> i = Suc (slices_below arr lg) \<Longrightarrow>
   tallies (arr_live arr 1 (i - 1)) nums \<Longrightarrow> ause = int (length (arr_live arr 1 (i - 1))) \<Longrightarrow>
   numusearray_loop arr lg ttlg i nums ause = (nums', ause') \<Longrightarrow>
   tallies (arr_live arr 1 (length arr)) nums' \<and> ause' = int (length (arr_live arr 1 (length arr)))"
proof (induction arr lg ttlg i nums ause rule: numusearray_loop.induct)
  case (1 arr lg ttlg i nums ause)
  let ?lim = "if ttlg > length arr then length arr else ttlg"
  consider (out) "lg = MAXBITS + 1" | (brk) "lg \<le> MAXBITS" "ttlg > length arr" "i > ?lim"
    | (go) "lg \<le> MAXBITS" "\<not> (ttlg > length arr \<and> i > ?lim)"
    using 1(2) by linarith
  then show ?case
  proof cases
    case out
    then have "i = Suc (length arr)" using 1 by (simp add: slices_below_def MAXBITS_def)
    with out 1 show ?thesis by (subst (asm) numusearray_loop.simps) simp
  next
    case brk
    then have "i = Suc (length arr)" using 1 by (auto simp: slices_below_def)
    with brk 1 show ?thesis by (subst (asm) numusearray_loop.simps) simp
  next
    case go
    have lim: "?lim = slices_below arr (Suc lg)" using 1 by (simp add: slices_below_def)
    have le: "slices_below arr lg \<le> slices_below arr (Suc lg)"
      by (cases lg) (auto simp: slices_below_def)
    have cs: "count_slice arr i ?lim 0 = (int (length (arr_live arr i ?lim)), Suc ?lim)"
      using le lim 1(5) by (simp add: count_slice_spec)
    have split: "arr_live arr 1 ?lim = arr_live arr 1 (i - 1) @ arr_live arr i ?lim"
      using arr_live_append [of 1 "i - 1" ?lim arr] le lim 1(5) by simp
    have "\<forall>y \<in> set (arr_live arr i ?lim). 0 < y \<and> y \<le> 2 ^ MAXBITS \<and> nat (ceillog2 y) = lg"
    proof
      fix y assume "y \<in> set (arr_live arr i ?lim)"
      then have y: "slices_below arr lg < y" "y \<le> slices_below arr (Suc lg)"
        unfolding lim using 1(5) by (auto simp: arr_live_def)
      then have "(if lg = 0 then 0 else 2 ^ (lg - 1)) < y" "y \<le> 2 ^ lg"
        by (auto simp: slices_below_def)
      then show "0 < y \<and> y \<le> 2 ^ MAXBITS \<and> nat (ceillog2 y) = lg" by (rule slice_log [OF go(1)])
    qed
    with tallies_slice [OF 1(6) go(1)] have t:
      "tallies (arr_live arr 1 ?lim) (nums[lg := nums ! lg + int (length (arr_live arr i ?lim))])"
      by (simp only: split)
    have eq: "numusearray_loop arr lg ttlg i nums ause = numusearray_loop arr (lg + 1) (ttlg * 2) (Suc ?lim)
      (nums[lg := nums ! lg + int (length (arr_live arr i ?lim))]) (ause + int (length (arr_live arr i ?lim)))"
      using go cs by (subst numusearray_loop.simps) (simp only: if_True if_False Let_def split_conv)
    show ?thesis
      by (rule 1(1) [OF go(1) refl go(2) cs [symmetric] refl _ 1(3)])
        (use go 1 t split lim eq in simp_all)
  qed
qed

lemma numusearray_spec:
  assumes "int (length (t_array t)) \<le> MAXASIZE" "numusearray t (replicate (MAXBITS + 1) 0) = (nums, ause)"
  shows "tallies (arr_live (t_array t) 1 (length (t_array t))) nums"
    "ause = int (length (arr_live (t_array t) 1 (length (t_array t))))"
proof -
  have "length (t_array t) \<le> 2 ^ MAXBITS" using assms(1) by (simp add: MAXASIZE_def MAXBITS_def)
  moreover have "tallies (arr_live (t_array t) 1 (1 - 1)) (replicate (MAXBITS + 1) 0)"
    using tallies_empty by (simp add: arr_live_def)
  ultimately show "tallies (arr_live (t_array t) 1 (length (t_array t))) nums"
    "ause = int (length (arr_live (t_array t) 1 (length (t_array t))))"
    using numusearray_loop_spec [of 0 "t_array t" 1 1 "replicate (MAXBITS + 1) 0" 0 nums ause] assms(2)
    by (simp_all add: numusearray_def slices_below_def arr_live_def)
qed


section \<open>Enough room\<close>

text \<open>The keys of a table: those of its live array slots and those of its live nodes.\<close>

definition array_keys :: "Table \<Rightarrow> TValue list" where
  "array_keys t = map (\<lambda>i. TNumber (cast_num (int i))) (arr_live (t_array t) 1 (length (t_array t)))"

definition table_keys :: "Table \<Rightarrow> TValue list" where
  "table_keys t = array_keys t @ live_keys (t_node t)"

definition hash_bound :: "nat \<Rightarrow> TValue list \<Rightarrow> nat" where
  "hash_bound n ks = length (filter (\<lambda>k. \<not> (0 < arrayindex k \<and> arrayindex k \<le> int n)) ks)"

lemma small_fits: "0 \<le> i \<Longrightarrow> i \<le> MAXASIZE \<Longrightarrow> fits_int i"
  by (simp add: fits_int_def MAXASIZE_def)

lemma candidates_array_keys:
  assumes "int (length (t_array t)) \<le> MAXASIZE"
  shows "candidates (array_keys t) = arr_live (t_array t) 1 (length (t_array t))"
proof -
  have "arrayindex (TNumber (cast_num (int i))) = int i" "0 < i" "int i \<le> MAXASIZE"
    if "i \<in> set (arr_live (t_array t) 1 (length (t_array t)))" for i
  proof -
    show "0 < i" "int i \<le> MAXASIZE" using that assms by (auto simp: arr_live_def)
    then show "arrayindex (TNumber (cast_num (int i))) = int i" by (simp add: small_fits)
  qed
  then show ?thesis
    unfolding candidates_def array_keys_def filter_map map_map o_def
    by (subst filter_True) (auto intro: map_idI)
qed

lemma upto_candidates:
  assumes "n \<le> 2 ^ MAXBITS"
  shows "upto_count (candidates ks) n + hash_bound n ks = length ks"
proof -
  have M: "int (2 ^ MAXBITS) = MAXASIZE" by (simp add: MAXASIZE_def MAXBITS_def)
  have "int n \<le> MAXASIZE" using assms by (simp only: M [symmetric] of_nat_le_iff)
  then show ?thesis
    by (induction ks) (auto simp: upto_count_def candidates_def hash_bound_def nat_le_iff)
qed

lemma good_size_room:
  assumes "good_size (candidates ks) na n"
  shows "int (hash_bound (nat n) ks) = int (length ks) - na" "0 \<le> n" "n \<le> MAXASIZE"
proof -
  show n: "0 \<le> n" using assms by (auto simp: good_size_def)
  show m: "n \<le> MAXASIZE"
    using assms power_increasing [of _ MAXBITS "2::int"] by (auto simp: good_size_def MAXASIZE_def MAXBITS_def)
  from assms consider "na = 0" "n = 0" | i where "i \<le> MAXBITS" "n = 2 ^ i" "na = int (upto_count (candidates ks) (2 ^ i))"
    by (auto simp: good_size_def)
  then show "int (hash_bound (nat n) ks) = int (length ks) - na"
  proof cases
    case 1
    then show ?thesis by (simp add: hash_bound_def)
  next
    case 2
    then have "nat n = 2 ^ i" by (simp add: nat_power_eq)
    moreover have "(2::nat) ^ i \<le> 2 ^ MAXBITS" using 2(1) by (intro power_increasing) auto
    then have "upto_count (candidates ks) (2 ^ i) + hash_bound (2 ^ i) ks = length ks" by (rule upto_candidates)
    ultimately show ?thesis unfolding 2(3) by (simp only:)
  qed
qed

lemma live_keys_rev: "mset (live_keys (rev ns)) = mset (live_keys ns)"
  by (simp add: live_keys_def rev_filter [symmetric] rev_map [symmetric])

lemma candidates_mset: "mset ks = mset ks' \<Longrightarrow> mset (candidates ks) = mset (candidates ks')"
  by (simp add: candidates_def)

lemma hash_bound_mset: "mset ks = mset ks' \<Longrightarrow> hash_bound n ks = hash_bound n ks'"
  unfolding hash_bound_def by (metis (no_types) mset_filter size_mset)

lemma rehash_sizes_room:
  assumes arr: "int (length (t_array t)) \<le> MAXASIZE" and r: "rehash_sizes t ek = (nasize, nhsize)"
  shows "nhsize = hash_bound nasize (ek # table_keys t)" "int nasize \<le> MAXASIZE"
proof -
  obtain nums1 n1 where u1: "numusearray t (replicate (MAXBITS + 1) 0) = (nums1, n1)" by fastforce
  obtain nums2 n2 tot where u2: "numusehash t nums1 = (nums2, n2, tot)" by (metis prod_cases3)
  obtain nums3 c where u3: "countint ek nums2 = (nums3, c)" by fastforce
  obtain na n where u4: "computesizes nums3 (n1 + n2 + c) = (na, n)" by fastforce
  note s1 = numusearray_spec [OF arr u1]
  note s2 = numusehash_loop_spec [OF s1(1) u2 [unfolded numusehash_def]]
  note s3 = countint_spec [OF s2 [THEN conjunct1] u3]
  have lk: "length (live_keys (rev (t_node t))) = length (live_keys (t_node t))"
    using arg_cong [OF live_keys_rev, of size] by simp
  have "mset (candidates [ek] @ candidates (live_keys (rev (t_node t))) @ arr_live (t_array t) 1 (length (t_array t)))
    = mset (candidates (ek # table_keys t))"
    unfolding candidates_Cons [of ek "table_keys t"] unfolding table_keys_def candidates_append
    using candidates_mset [OF live_keys_rev [of "t_node t"]] candidates_array_keys [OF arr] by simp
  from tallies_perm [OF this] s3(1) have "tallies (candidates (ek # table_keys t)) nums3" by (rule iffD1)
  from computesizes_spec [OF this u4] have gs: "good_size (candidates (ek # table_keys t)) na n" .
  have eq: "nasize = nat n" "nhsize = nat (n1 + tot + 1 - na)"
    using r u1 u2 u3 u4 by (simp_all add: rehash_sizes_def)
  have "n1 + tot + 1 = int (length (ek # table_keys t))"
    using s1(2) s2 lk by (simp add: table_keys_def array_keys_def)
  with good_size_room [OF gs] eq show "nhsize = hash_bound nasize (ek # table_keys t)" "int nasize \<le> MAXASIZE"
    by simp_all
qed

end
