(* ===== verification/TableMap.thy ===== *)
theory TableMap
  imports TableSizes
begin

text \<open>
  Growing a table and the correctness of \<open>luaH_set\<close> (\<^verbatim>\<open>src/lua/ltable.c\<close>).  The locale \<open>filler\<close>
  states what \<open>resize\<close> needs of the \<open>newkey\<close> it calls: a new key finds a slot as long as there
  is \<open>room\<close> for the keys still to come.  It is interpreted twice: on a \<open>newkey\<close> that inserts into a
  table with enough free nodes, and on the full \<open>newkey\<close>, which may rehash.
\<close>

definition table_overflow :: lua_error where
  "table_overflow = ErrRun ''table overflow''"

text \<open>The effect of storing a list of keys and values.\<close>

definition stored :: "(TValue \<times> TValue) list \<Rightarrow> Table \<Rightarrow> Table \<Rightarrow> bool" where
  "stored kvs t t' \<longleftrightarrow> table_ok t' \<and> (\<forall>(k, v) \<in> set kvs. tmap t' k = v) \<and>
     (\<forall>q. live_key q \<longrightarrow> (\<forall>(k, v) \<in> set kvs. \<not> luaO_rawequalObj q k) \<longrightarrow> tmap t' q = tmap t q)"

lemma storedD:
  assumes "stored kvs t t'"
  shows "table_ok t'" "(k, v) \<in> set kvs \<Longrightarrow> tmap t' k = v"
    "live_key q \<Longrightarrow> (\<And>k v. (k, v) \<in> set kvs \<Longrightarrow> \<not> luaO_rawequalObj q k) \<Longrightarrow> tmap t' q = tmap t q"
  using assms unfolding stored_def by fastforce+

lemma stored_Nil: "table_ok t \<Longrightarrow> stored [] t t"
  by (simp add: stored_def)

lemma stored_Cons:
  assumes "stored [(k, v)] t t1" "stored kvs t1 t'" "live_key k"
    and "\<And>k' v'. (k', v') \<in> set kvs \<Longrightarrow> \<not> luaO_rawequalObj k k'"
  shows "stored ((k, v) # kvs) t t'"
proof -
  have "tmap t' k = v" using storedD(3) [OF assms(2,3,4)] storedD(2) [OF assms(1)] by simp
  with assms show ?thesis by (auto simp: stored_def)
qed

lemma stored_setslot:
  assumes ins: "inserted t k t' s" and k: "proper_key k"
  shows "stored [(k, v)] t (setslot t' s v)"
proof -
  have i: "table_ok t'" "slot_of t' k s" "s \<noteq> NilObject" "\<And>q. live_key q \<Longrightarrow> tmap t' q = tmap t q"
    using ins by (simp_all add: inserted_def)
  have v: "valid_key k" using k by (simp add: proper_key_def)
  from tmap_setslot [OF i(1-3) _ v] table_ok_setslot [OF i(1,2)] i(4) proper_live [OF k] v
  show ?thesis by (simp add: stored_def)
qed

text \<open>The keys and values the two loops of \<open>resize\<close> re-insert.\<close>

definition node_pairs :: "Node list \<Rightarrow> (TValue \<times> TValue) list" where
  "node_pairs ns = map (\<lambda>n. (i_key n, i_val n)) (filter (\<lambda>n. \<not> ttisnil (i_val n)) ns)"

fun slice_pairs :: "int \<Rightarrow> TValue list \<Rightarrow> (TValue \<times> TValue) list" where
  "slice_pairs i [] = []"
| "slice_pairs i (v # vs) =
     (if ttisnil v then slice_pairs (i + 1) vs else (TNumber (cast_num (i + 1)), v) # slice_pairs (i + 1) vs)"

definition unequal_keys :: "TValue list \<Rightarrow> bool" where
  "unequal_keys ks \<longleftrightarrow> sorted_wrt (\<lambda>a b. \<not> luaO_rawequalObj a b) ks"

lemma slice_pairs_nth:
  "(k, v) \<in> set (slice_pairs i vs) \<longleftrightarrow>
   (\<exists>j < length vs. k = TNumber (cast_num (i + int j + 1)) \<and> v = vs ! j \<and> v \<noteq> TNil)"
proof (induction vs arbitrary: i)
  case (Cons w vs)
  have "(\<exists>j < length (w # vs). k = TNumber (cast_num (i + int j + 1)) \<and> v = (w # vs) ! j \<and> v \<noteq> TNil) \<longleftrightarrow>
    (k = TNumber (cast_num (i + 1)) \<and> v = w \<and> v \<noteq> TNil) \<or>
    (\<exists>j < length vs. k = TNumber (cast_num (i + int (Suc j) + 1)) \<and> v = vs ! j \<and> v \<noteq> TNil)"
    by (auto simp: Ex_less_Suc2)
  with Cons [of "i + 1"] show ?case by (auto simp: ttisnil_def algebra_simps)
qed simp

lemma slice_pairs_index:
  assumes "(k, v) \<in> set (slice_pairs i vs)" "0 \<le> i" "i + int (length vs) \<le> MAXASIZE"
  shows "i < arrayindex k \<and> arrayindex k \<le> i + int (length vs)"
  using assms by (auto simp: slice_pairs_nth small_fits)

section \<open>A fresh node vector\<close>

lemma wf_replicate: "sc.wf l (replicate (2 ^ l) dummynode)"
proof -
  have "nrel (replicate (2 ^ l) dummynode) = {}" by (auto simp: nrel_def dummynode_def)
  then show ?thesis
    unfolding sc.wf_def by (auto simp: links_ok_def dummynode_def keyed_def acyclic_def)
qed

definition fresh_nodes :: "Table \<Rightarrow> bool" where
  "fresh_nodes t \<longleftrightarrow> t_node t = replicate (2 ^ t_lsizenode t) dummynode \<and>
     (if t_isdummy t then t_lsizenode t = 0 \<and> t_lastfree t = 0 else t_lastfree t = 2 ^ t_lsizenode t)"

lemma fresh_nodesD:
  assumes "fresh_nodes t" "t_lsizenode t \<le> MAXBITS" "int (length (t_array t)) \<le> MAXASIZE"
  shows "table_ok t" "used t = 0" "binds (t_node t) = {}"
proof -
  have kn: "i_key (t_node t ! i) = TNil" if "i < length (t_node t)" for i
    using assms(1) that by (simp add: fresh_nodes_def dummynode_def)
  then show "used t = 0" by (simp add: used_def)
  show "binds (t_node t) = {}" using assms(1) by (auto simp: binds_def fresh_nodes_def dummynode_def)
  have "keyed (t_node t ! i) = False" if "i < length (t_node t)" for i
    using kn [OF that] by (simp add: keyed_def)
  with assms wf_replicate [of "t_lsizenode t"] show "table_ok t"
    by (auto simp: table_ok_def fresh_nodes_def split: if_splits)
qed

lemma setnodevector_cases:
  obtains t' where "setnodevector t n = Inr t'" "fresh_nodes t'" "t_lsizenode t' \<le> MAXBITS"
    "t_array t' = t_array t" "n \<le> 2 ^ t_lsizenode t'" "t_isdummy t' = (n = 0)"
  | "setnodevector t n = Inl table_overflow" "2 ^ MAXBITS < n"
proof (cases "n = 0")
  case True
  with that(1) [of "t\<lparr>t_node := [dummynode], t_isdummy := True, t_lsizenode := 0, t_lastfree := 0\<rparr>"]
  show thesis by (simp add: setnodevector_def fresh_nodes_def)
next
  case False
  let ?l = "nat (ceillog2 n)"
  show thesis
  proof (cases "?l > MAXBITS")
    case True
    moreover have "2 ^ MAXBITS < n"
      using True ceillog2_le_iff [of n MAXBITS] False by auto
    ultimately show thesis
      using False that(2) by (simp add: setnodevector_def table_overflow_def)
  next
    case small: False
    have "n \<le> 2 ^ ?l" using ceillog2_bounds(2) False by simp
    with False small that(1) [of "t\<lparr>t_node := replicate (2 ^ ?l) dummynode, t_isdummy := False,
        t_lsizenode := ?l, t_lastfree := 2 ^ ?l\<rparr>"]
    show thesis by (simp add: setnodevector_def fresh_nodes_def Let_def)
  qed
qed

lemma tmap_fresh:
  assumes "fresh_nodes t" "t_lsizenode t \<le> MAXBITS" "int (length (t_array t)) \<le> MAXASIZE" "live_key q"
  shows "tmap t q = (if in_array t q then t_array t ! nat (arrayindex q - 1) else TNil)"
  using tmap_array [OF fresh_nodesD(1) [OF assms(1-3)] _ assms(4)]
    tmap_hash [OF fresh_nodesD(1) [OF assms(1-3)] assms(4)] fresh_nodesD(3) [OF assms(1-3)]
  by auto

lemma tmap_eq: "table_ok t \<Longrightarrow> luaO_rawequalObj q k \<Longrightarrow> live_key q \<Longrightarrow> live_key k \<Longrightarrow> tmap t q = tmap t k"
  using get_spec [of t q] tmap_slot(1) [of t q] tmap_slot(1) [of t k] slot_of_eq [of q k t] by auto

text \<open>Re-inserting every key of the old table into a table with the new array gives the old map back.\<close>

definition new_array :: "TValue list \<Rightarrow> nat \<Rightarrow> TValue list" where
  "new_array arr n = take n arr @ replicate (n - length arr) TNil"

lemma length_new_array [simp]: "length (new_array arr n) = n"
  by (simp add: new_array_def)

lemma tmap_live_node:
  assumes ok: "table_ok t" and q: "live_key q" and na: "\<not> in_array t q"
  shows "tmap t q \<noteq> TNil \<Longrightarrow> \<exists>k. (k, tmap t q) \<in> set (node_pairs (t_node t)) \<and> luaO_rawequalObj q k"
proof -
  assume "tmap t q \<noteq> TNil"
  with tmap_hash [OF ok q na] obtain k' where k: "(k', tmap t q) \<in> binds (t_node t)" "luaO_rawequalObj k' q"
    by blast
  then show ?thesis
    by (auto simp: binds_def node_pairs_def ttisnil_def rawequal_sym [of q] in_set_conv_nth image_iff Bex_def)
qed

lemma node_pairs_keys:
  assumes ok: "table_ok t" and k: "(k, v) \<in> set (node_pairs (t_node t))"
  shows "proper_key k" "\<not> in_array t k" "v \<noteq> TNil" "tmap t k = v"
proof -
  from k obtain j where j: "j < length (t_node t)" "k = i_key (t_node t ! j)" "v = i_val (t_node t ! j)" "v \<noteq> TNil"
    by (auto simp: node_pairs_def ttisnil_def in_set_conv_nth)
  note w = table_okD [OF ok]
  have kd: "keyed (t_node t ! j)" using sc.wfD(6) [OF w(3)] j w(8) by auto
  have vk: "valid_key k" using sc.wfD(3) [OF w(3) _ kd] j w(8) by simp
  show "v \<noteq> TNil" by fact
  show na: "\<not> in_array t k" using w(7) [OF j(1) kd] j(2) by simp
  show pk: "proper_key k" using vk kd j(2) by (auto simp: proper_key_def keyed_def)
  have "node_of t k j" using j kd vk by (simp add: node_of_def)
  from node_of_val [OF ok this na proper_live [OF pk]] j(3) show "tmap t k = v" by simp
qed

lemma sorted_wrt_filter_pred:
  "sorted_wrt (\<lambda>a b. P b \<longrightarrow> P a \<longrightarrow> R a b) xs \<Longrightarrow> sorted_wrt R (filter P xs)"
  by (induction xs) auto

lemma unequal_node_pairs:
  assumes ok: "table_ok t"
  shows "unequal_keys (map fst (node_pairs (rev (t_node t))))"
proof -
  let ?ns = "t_node t" and ?P = "\<lambda>n. \<not> ttisnil (i_val n)"
  have "sorted_wrt (\<lambda>a b. ?P a \<longrightarrow> ?P b \<longrightarrow> \<not> luaO_rawequalObj (i_key b) (i_key a)) ?ns"
    unfolding sorted_wrt_iff_nth_less
  proof (intro allI impI)
    fix i j assume ij: "i < j" "j < length ?ns" and live: "?P (?ns ! i)" "?P (?ns ! j)"
    then have "keyed (?ns ! i)" "keyed (?ns ! j)" using live_keyed [OF ok] table_okD(8) [OF ok] by auto
    then show "\<not> luaO_rawequalObj (i_key (?ns ! j)) (i_key (?ns ! i))"
      using sc.wfD(5) [OF table_okD(3) [OF ok], of j i] ij table_okD(8) [OF ok] by auto
  qed
  then have "sorted_wrt (\<lambda>b a. ?P a \<longrightarrow> ?P b \<longrightarrow> \<not> luaO_rawequalObj (i_key b) (i_key a)) (rev ?ns)"
    by (simp only: sorted_wrt_rev)
  then have "sorted_wrt (\<lambda>b a. \<not> luaO_rawequalObj (i_key b) (i_key a)) (filter ?P (rev ?ns))"
    by (rule sorted_wrt_filter_pred) 
  then show ?thesis by (simp add: unequal_keys_def node_pairs_def sorted_wrt_map o_def)
qed

text \<open>The table \<open>resize\<close> re-inserts into.\<close>

definition resize_base :: "Table \<Rightarrow> nat \<Rightarrow> Table \<Rightarrow> nat \<Rightarrow> bool" where
  "resize_base t nasize t0 nhsize \<longleftrightarrow> fresh_nodes t0 \<and> t_lsizenode t0 \<le> MAXBITS \<and>
     t_array t0 = new_array (t_array t) nasize \<and> nhsize \<le> 2 ^ t_lsizenode t0 \<and> t_isdummy t0 = (nhsize = 0)"

lemma resize_with_eq:
  "resize_with nk t nasize nhsize =
     bindE (setnodevector (if nasize > length (t_array t) then setarrayvector t nasize else t) nhsize) (\<lambda>t2.
     bindE (reinsert_array nk (t2\<lparr>t_array := new_array (t_array t) nasize\<rparr>) (int nasize) (drop nasize (t_array t)))
       (\<lambda>t3. reinsert_nodes nk t3 (rev (t_node t))))"
proof -
  let ?t1 = "if nasize > length (t_array t) then setarrayvector t nasize else t"
  show ?thesis
  proof (cases "setnodevector ?t1 nhsize")
    case (Inl e)
    then show ?thesis by (simp only: resize_with_def Let_def bindE_Inl)
  next
    case (Inr t2)
    then have arr: "t_array t2 = t_array ?t1"
      by (rule_tac setnodevector_cases [of ?t1 nhsize]) simp_all
    show ?thesis
    proof (cases "nasize < length (t_array t)")
      case True
      with arr Inr show ?thesis by (simp add: resize_with_def Let_def new_array_def)
    next
      case False
      then have "t_array t2 = new_array (t_array t) nasize"
        using arr by (simp add: new_array_def setarrayvector_def)
      then have "t2\<lparr>t_array := new_array (t_array t) nasize\<rparr> = t2" by simp
      moreover have "drop nasize (t_array t) = []" using False by simp
      ultimately show ?thesis
        using False Inr by (simp only: resize_with_def Let_def bindE_Inr if_False reinsert_array.simps)
    qed
  qed
qed

locale filler =
  fixes nk :: newkey_fn
    and room :: "Table \<Rightarrow> TValue list \<Rightarrow> bool"
    and may_fail :: bool
  assumes fill: "table_ok t \<Longrightarrow> proper_key k \<Longrightarrow> slot_of t k NilObject \<Longrightarrow> room t (k # ks) \<Longrightarrow>
      (may_fail \<and> nk t k = Inl table_overflow) \<or>
      (\<exists>t' s. nk t k = Inr (t', s) \<and> inserted t k t' s \<and> room t' ks)"
    and room_skip: "room t (k # ks) \<Longrightarrow> room t ks"
    and room_setslot: "room t ks \<Longrightarrow> room (setslot t s v) ks"
    and room_flags: "room (t\<lparr>t_flags := f\<rparr>) ks = room t ks"
begin

lemma set_with_fill:
  assumes "table_ok t" "proper_key k" "room t (k # ks)"
  shows "(may_fail \<and> set_with nk t k = Inl table_overflow) \<or>
    (\<exists>t' s. set_with nk t k = Inr (t', s) \<and> inserted t k t' s \<and> room t' ks)"
  using assms(1,2)
proof (cases rule: set_with_cases [where nk = nk])
  case 1
  with room_skip [OF assms(3)] show ?thesis by (auto simp: room_flags)
next
  case 2
  with fill [of "t\<lparr>t_flags := 0\<rparr>" k ks] assms show ?thesis by (simp add: room_flags)
qed

lemma setnum_with_fill:
  assumes "table_ok t" "fits_int i" "room t (TNumber (cast_num i) # ks)"
  shows "(may_fail \<and> setnum_with nk t i = Inl table_overflow) \<or>
    (\<exists>t' s. setnum_with nk t i = Inr (t', s) \<and> inserted t (TNumber (cast_num i)) t' s \<and> room t' ks)"
  using assms(1,2)
proof (cases rule: setnum_with_cases [where nk = nk])
  case 1
  with room_skip [OF assms(3)] show ?thesis by auto
next
  case 2
  moreover have "proper_key (TNumber (cast_num i))"
    using assms(2) by (simp add: proper_key_def valid_key_def)
  ultimately show ?thesis using fill [OF assms(1), of "TNumber (cast_num i)" ks] assms(3) by simp
qed

text \<open>What re-inserting achieves; the keys \<open>ks\<close> are still to come.\<close>

definition outcome :: "Table res \<Rightarrow> (TValue \<times> TValue) list \<Rightarrow> Table \<Rightarrow> TValue list \<Rightarrow> bool" where
  "outcome r kvs t ks \<longleftrightarrow> (may_fail \<and> r = Inl table_overflow) \<or> (\<exists>t'. r = Inr t' \<and> stored kvs t t' \<and> room t' ks)"

lemma outcome_step:
  assumes step: "(may_fail \<and> f = Inl table_overflow) \<or> (\<exists>t' s. f = Inr (t', s) \<and> inserted t k t' s \<and> room t' ks')"
    and k: "proper_key k" and fresh: "\<And>k' v'. (k', v') \<in> set kvs \<Longrightarrow> \<not> luaO_rawequalObj k k'"
    and rest: "\<And>t' s. stored [(k, v)] t (setslot t' s v) \<Longrightarrow> room (setslot t' s v) ks' \<Longrightarrow>
      outcome (g (setslot t' s v)) kvs (setslot t' s v) ks"
  shows "outcome (bindE f (\<lambda>(t', s). g (setslot t' s v))) ((k, v) # kvs) t ks"
  using step
proof
  assume "\<exists>t' s. f = Inr (t', s) \<and> inserted t k t' s \<and> room t' ks'"
  then obtain t' s where f: "f = Inr (t', s)" "inserted t k t' s" "room t' ks'" by blast
  have st: "stored [(k, v)] t (setslot t' s v)" by (rule stored_setslot [OF f(2) k])
  from rest [OF st room_setslot [OF f(3)]] f(1) stored_Cons [OF st _ proper_live [OF k] fresh]
  show ?thesis by (auto simp: outcome_def)
next
  assume "may_fail \<and> f = Inl table_overflow"
  then show ?thesis unfolding outcome_def by simp
qed

lemma reinsert_nodes_spec:
  "table_ok t \<Longrightarrow> room t (map fst (node_pairs ns) @ ks) \<Longrightarrow> list_all proper_key (map fst (node_pairs ns)) \<Longrightarrow>
   unequal_keys (map fst (node_pairs ns)) \<Longrightarrow> outcome (reinsert_nodes nk t ns) (node_pairs ns) t ks"
proof (induction ns arbitrary: t)
  case Nil
  then show ?case by (simp add: outcome_def node_pairs_def stored_Nil)
next
  case (Cons n ns)
  show ?case
  proof (cases "ttisnil (i_val n)")
    case True
    with Cons show ?thesis by (simp add: node_pairs_def)
  next
    case False
    then have np: "node_pairs (n # ns) = (i_key n, i_val n) # node_pairs ns" by (simp add: node_pairs_def)
    have k: "proper_key (i_key n)" and rest: "list_all proper_key (map fst (node_pairs ns))"
      "unequal_keys (map fst (node_pairs ns))"
      and fresh: "\<And>k' v'. (k', v') \<in> set (node_pairs ns) \<Longrightarrow> \<not> luaO_rawequalObj (i_key n) k'"
      using Cons.prems(3,4) unfolding np by (auto simp: unequal_keys_def)
    have "outcome (bindE (set_with nk t (i_key n)) (\<lambda>(t', s). reinsert_nodes nk (setslot t' s (i_val n)) ns))
      ((i_key n, i_val n) # node_pairs ns) t ks"
      using Cons.prems(2) unfolding np
      by (intro outcome_step [OF set_with_fill [OF Cons.prems(1) k] k fresh] Cons.IH storedD(1) rest) auto
    with False show ?thesis by (simp add: np)
  qed
qed

lemma reinsert_array_spec:
  "table_ok t \<Longrightarrow> room t (map fst (slice_pairs i vs) @ ks) \<Longrightarrow> 0 \<le> i \<Longrightarrow> i + int (length vs) \<le> MAXASIZE \<Longrightarrow>
   outcome (reinsert_array nk t i vs) (slice_pairs i vs) t ks"
proof (induction vs arbitrary: t i)
  case Nil
  then show ?case by (simp add: outcome_def stored_Nil)
next
  case (Cons v vs)
  show ?case
  proof (cases "ttisnil v")
    case True
    with Cons show ?thesis by simp
  next
    case False
    have i: "fits_int (i + 1)" using Cons.prems(3,4) by (intro small_fits) auto
    let ?k = "TNumber (cast_num (i + 1))"
    have k: "proper_key ?k" using i by (simp add: proper_key_def valid_key_def)
    have fresh: "\<not> luaO_rawequalObj ?k k'" if "(k', v') \<in> set (slice_pairs (i + 1) vs)" for k' v'
      using slice_pairs_index [OF that] arrayindex_eq [of ?k k'] i Cons.prems(3,4) by auto
    have "outcome (bindE (setnum_with nk t (i + 1)) (\<lambda>(t', s). reinsert_array nk (setslot t' s v) (i + 1) vs))
      ((?k, v) # slice_pairs (i + 1) vs) t ks"
      using Cons.prems False
      by (intro outcome_step [OF setnum_with_fill [OF Cons.prems(1) i] k fresh] Cons.IH storedD(1)) auto
    with False show ?thesis by simp
  qed
qed

definition vanishing_pairs :: "Table \<Rightarrow> nat \<Rightarrow> (TValue \<times> TValue) list" where
  "vanishing_pairs t nasize = slice_pairs (int nasize) (drop nasize (t_array t))"

lemma resize_spec:
  assumes ok: "table_ok t" and n: "int nasize \<le> MAXASIZE"
    and rm: "\<And>t0. resize_base t nasize t0 nhsize \<Longrightarrow>
      room t0 (map fst (vanishing_pairs t nasize) @ map fst (node_pairs (rev (t_node t))) @ ks)"
  shows "(resize_with nk t nasize nhsize = Inl table_overflow \<and> (may_fail \<or> 2 ^ MAXBITS < nhsize)) \<or>
    (\<exists>t0 t1 t'. resize_base t nasize t0 nhsize \<and> stored (vanishing_pairs t nasize) t0 t1 \<and>
       stored (node_pairs (rev (t_node t))) t1 t' \<and> resize_with nk t nasize nhsize = Inr t' \<and> room t' ks)"
proof -
  let ?t1 = "if nasize > length (t_array t) then setarrayvector t nasize else t"
  show ?thesis
  proof (rule setnodevector_cases [of ?t1 nhsize])
    assume "setnodevector ?t1 nhsize = Inl table_overflow" "2 ^ MAXBITS < nhsize"
    then show ?thesis by (simp add: resize_with_eq)
  next
    fix t2 assume t2: "setnodevector ?t1 nhsize = Inr t2" "fresh_nodes t2" "t_lsizenode t2 \<le> MAXBITS"
      "nhsize \<le> 2 ^ t_lsizenode t2" "t_isdummy t2 = (nhsize = 0)"
    define t0 where "t0 = t2\<lparr>t_array := new_array (t_array t) nasize\<rparr>"
    have base: "resize_base t nasize t0 nhsize"
      using t2 by (simp add: resize_base_def t0_def fresh_nodes_def)
    have len: "int (length (t_array t0)) \<le> MAXASIZE"
      using n by (simp add: t0_def new_array_def)
    have ok0: "table_ok t0"
      using fresh_nodesD(1) [OF _ _ len] base by (simp add: resize_base_def)
    have b: "int nasize + int (length (drop nasize (t_array t))) \<le> MAXASIZE"
      using n table_okD(2) [OF ok] by simp
    have eq: "resize_with nk t nasize nhsize =
      bindE (reinsert_array nk t0 (int nasize) (drop nasize (t_array t)))
        (\<lambda>t3. reinsert_nodes nk t3 (rev (t_node t)))"
      by (simp add: resize_with_eq t2(1) t0_def)
    have pk: "list_all proper_key (map fst (node_pairs (rev (t_node t))))"
      using node_pairs_keys(1) [OF ok] by (auto simp: list_all_iff node_pairs_def)
    from reinsert_array_spec [OF ok0 rm [OF base, unfolded vanishing_pairs_def] _ b]
    consider "may_fail" "reinsert_array nk t0 (int nasize) (drop nasize (t_array t)) = Inl table_overflow"
      | t3 where "reinsert_array nk t0 (int nasize) (drop nasize (t_array t)) = Inr t3"
          "stored (vanishing_pairs t nasize) t0 t3" "room t3 (map fst (node_pairs (rev (t_node t))) @ ks)"
      unfolding outcome_def vanishing_pairs_def by auto
    then show ?thesis
    proof cases
      case 1
      then show ?thesis by (simp add: eq)
    next
      case 2
      from reinsert_nodes_spec [OF storedD(1) [OF 2(2)] 2(3) pk unequal_node_pairs [OF ok]] base 2
      show ?thesis unfolding outcome_def eq by auto
    qed
  qed
qed

end

text \<open>The re-inserted table is the same map as the old one.\<close>

lemma resize_same_map:
  assumes ok: "table_ok t" and n: "int nasize \<le> MAXASIZE" and base: "resize_base t nasize t0 nhsize"
    and s1: "stored (slice_pairs (int nasize) (drop nasize (t_array t))) t0 t1"
    and s2: "stored (node_pairs (rev (t_node t))) t1 t'" and q: "live_key q"
  shows "tmap t' q = tmap t q"
proof -
  let ?vp = "slice_pairs (int nasize) (drop nasize (t_array t))" and ?np = "node_pairs (rev (t_node t))"
  have setnp: "set ?np = set (node_pairs (t_node t))" by (auto simp: node_pairs_def)
  have arr0: "t_array t0 = new_array (t_array t) nasize" using base by (simp add: resize_base_def)
  have t0: "tmap t0 q = (if in_array t0 q then t_array t0 ! nat (arrayindex q - 1) else TNil)"
    using base n by (intro tmap_fresh) (auto simp: resize_base_def new_array_def q)
  have b: "int nasize + int (length (drop nasize (t_array t))) \<le> MAXASIZE"
    using n table_okD(2) [OF ok] by simp
  have vp: "int nasize < arrayindex k \<and> arrayindex k \<le> int (length (t_array t)) \<and> tmap t k = v"
    if "(k, v) \<in> set ?vp" for k v
  proof -
    from that obtain j where j: "j < length (t_array t) - nasize" "k = TNumber (cast_num (int (nasize + j) + 1))"
      "v = t_array t ! (nasize + j)"
      by (auto simp: slice_pairs_nth add.assoc)
    have "fits_int (int (nasize + j) + 1)" using j table_okD(2) [OF ok] by (intro small_fits) auto
    then have "arrayindex k = int (nasize + j) + 1" by (simp add: j(2))
    with j tmap_array [OF ok, of k] show ?thesis by (simp add: in_array_def live_key_def nat_add_distrib)
  qed
  show ?thesis
  proof (cases "\<exists>k v. (k, v) \<in> set ?np \<and> luaO_rawequalObj q k")
    case True
    then obtain k v where k: "(k, v) \<in> set ?np" "luaO_rawequalObj q k" by blast
    note nk = node_pairs_keys [OF ok, of k v]
    have "tmap t' q = tmap t' k" "tmap t q = tmap t k"
      using tmap_eq [OF storedD(1) [OF s2] k(2) q] tmap_eq [OF ok k(2) q] nk(1) k(1) setnp
      by (auto simp: proper_live)
    with storedD(2) [OF s2 k(1)] nk(4) k(1) setnp show ?thesis by simp
  next
    case nnp: False
    then have t1: "tmap t' q = tmap t1 q" using storedD(3) [OF s2 q] by blast
    have nilh: "tmap t q = TNil" if "\<not> in_array t q"
      using tmap_live_node [OF ok q that] nnp setnp by blast
    show ?thesis
    proof (cases "int nasize < arrayindex q \<and> arrayindex q \<le> int (length (t_array t)) \<and> tmap t q \<noteq> TNil")
      case True
      let ?k = "TNumber (cast_num (arrayindex q))" and ?j = "nat (arrayindex q - 1) - nasize"
      have fit: "fits_int (arrayindex q)" using True table_okD(2) [OF ok] by (intro small_fits) auto
      then have eq: "luaO_rawequalObj q ?k" using True by (intro arrayindex_rawequal) auto
      have v: "tmap t q = t_array t ! nat (arrayindex q - 1)"
        using True by (intro tmap_array [OF ok _ q]) (simp add: in_array_def)
      have j: "?j < length (drop nasize (t_array t))" "int nasize + int ?j + 1 = arrayindex q"
        "drop nasize (t_array t) ! ?j = tmap t q"
        using True v by (auto simp: nat_diff_distrib)
      then have "(?k, tmap t q) \<in> set ?vp"
        unfolding slice_pairs_nth using True by (intro exI [of _ ?j]) simp
      from storedD(2) [OF s1 this] tmap_eq [OF storedD(1) [OF s1] eq q] t1 show ?thesis
        by (simp add: live_key_def)
    next
      case False
      have "\<not> luaO_rawequalObj q k" if "(k, v) \<in> set ?vp" for k v
      proof
        assume e: "luaO_rawequalObj q k"
        have "live_key k" "v \<noteq> TNil" using that by (auto simp: slice_pairs_nth live_key_def)
        with tmap_eq [OF ok e q] arrayindex_eq [OF e] vp [OF that] False show False by simp
      qed
      then have t1': "tmap t1 q = tmap t0 q" by (rule storedD(3) [OF s1 q])
      have ia: "in_array t0 q \<longleftrightarrow> 0 < arrayindex q \<and> arrayindex q \<le> int nasize"
        by (simp add: in_array_def arr0)
      consider "in_array t0 q" "in_array t q" | "in_array t0 q" "\<not> in_array t q"
        | "\<not> in_array t0 q" "in_array t q" | "\<not> in_array t0 q" "\<not> in_array t q" by blast
      then have "tmap t0 q = tmap t q"
      proof cases
        case 1
        then have "nat (arrayindex q - 1) < nasize" "nat (arrayindex q - 1) < length (t_array t)"
          by (auto simp: in_array_def arr0)
        with 1 t0 tmap_array [OF ok 1(2) q] show ?thesis by (simp add: arr0 new_array_def nth_append)
      next
        case 2
        then have i: "length (t_array t) \<le> nat (arrayindex q - 1)" "nat (arrayindex q - 1) < nasize"
          by (auto simp: in_array_def arr0)
        then have "new_array (t_array t) nasize ! nat (arrayindex q - 1) = TNil"
          by (simp add: new_array_def nth_append)
        with 2 t0 nilh show ?thesis by (simp add: arr0)
      next
        case 3
        with False t0 show ?thesis by (auto simp: in_array_def arr0)
      next
        case 4
        with t0 nilh show ?thesis by simp
      qed
      with t1 t1' show ?thesis by simp
    qed
  qed
qed


section \<open>Re-inserting into a table with enough nodes\<close>

definition room_free :: "Table \<Rightarrow> TValue list \<Rightarrow> bool" where
  "room_free t ks \<longleftrightarrow> used t + hash_bound (length (t_array t)) ks \<le> 2 ^ t_lsizenode t \<and>
     (hash_bound (length (t_array t)) ks \<noteq> 0 \<longrightarrow> \<not> t_isdummy t)"

lemma hash_bound_Cons: "hash_bound (length (t_array t)) (k # ks) = (if in_array t k then 0 else 1) + hash_bound (length (t_array t)) ks"
  by (simp add: hash_bound_def in_array_def)

interpretation refill: filler "newkey (Suc d)" room_free False for d
proof
  fix t k ks
  assume t: "table_ok t" "proper_key k" "slot_of t k NilObject" "room_free t (k # ks)"
  then have na: "\<not> in_array t k" by (simp add: slot_of_nil)
  with t(4) have r: "\<not> t_isdummy t" "used t < 2 ^ t_lsizenode t"
    "Suc (used t) + hash_bound (length (t_array t)) ks \<le> 2 ^ t_lsizenode t"
    by (auto simp: room_free_def hash_bound_Cons)
  from newkey_room [OF t(1-3) r(1,2), of d]
  obtain t' s where n: "newkey (Suc d) t k = Inr (t', s)" "inserted t k t' s" "same_shape t t'" "used t' \<le> Suc (used t)"
    by blast
  moreover have "room_free t' ks" using r n(3,4) by (simp add: room_free_def same_shape_def)
  ultimately show "(False \<and> newkey (Suc d) t k = Inl table_overflow) \<or>
    (\<exists>t' s. newkey (Suc d) t k = Inr (t', s) \<and> inserted t k t' s \<and> room_free t' ks)" by blast
qed (auto simp: room_free_def hash_bound_Cons used_def split: if_splits)

text \<open>The keys \<open>resize\<close> re-inserts are those the sizes were computed for.\<close>

lemma slice_keys:
  assumes "i \<le> length arr"
  shows "map fst (slice_pairs (int i) (drop i arr)) = map (\<lambda>j. TNumber (cast_num (int j))) (arr_live arr (Suc i) (length arr))"
  using assms
proof (induction "length arr - i" arbitrary: i)
  case 0
  then show ?case by (simp add: arr_live_def)
next
  case (Suc n)
  then have i: "i < length arr" by simp
  then have d: "drop i arr = arr ! i # drop (Suc i) arr" by (simp add: Cons_nth_drop_Suc)
  have u: "[Suc i..<Suc (length arr)] = Suc i # [Suc (Suc i)..<Suc (length arr)]"
    using i by (simp add: upt_conv_Cons del: upt_Suc)
  have "int (Suc i) = int i + 1" by simp
  with Suc(1) [of "Suc i"] Suc(2) i show ?case
    unfolding d by (simp add: arr_live_def u ac_simps del: upt_Suc)
qed

lemma hash_bound_append: "hash_bound n (ks @ ks') = hash_bound n ks + hash_bound n ks'"
  by (simp add: hash_bound_def)

lemma hash_bound_vanishing:
  assumes "int (length (t_array t)) \<le> MAXASIZE"
  shows "hash_bound nasize (map fst (slice_pairs (int nasize) (drop nasize (t_array t)))) = hash_bound nasize (array_keys t)"
proof -
  let ?arr = "t_array t" and ?key = "\<lambda>j. TNumber (cast_num (int j))"
  have inside: "hash_bound nasize (map ?key (arr_live ?arr 1 m)) = 0" if "m \<le> nasize" "m \<le> length ?arr" for m
  proof -
    have "arrayindex (?key j) = int j" if "j \<in> set (arr_live ?arr 1 m)" for j
      using that assms \<open>m \<le> length ?arr\<close> by (intro arrayindex_cast_num small_fits) (auto simp: arr_live_def)
    with that show ?thesis by (fastforce simp: hash_bound_def arr_live_def filter_empty_conv)
  qed
  show ?thesis
  proof (cases "nasize \<le> length ?arr")
    case True
    then have "arr_live ?arr 1 (length ?arr) = arr_live ?arr 1 nasize @ arr_live ?arr (Suc nasize) (length ?arr)"
      by (intro arr_live_append) auto
    with inside [OF order_refl True] slice_keys [OF True] show ?thesis
      by (simp add: array_keys_def hash_bound_append)
  next
    case False
    with inside [of "length ?arr"] show ?thesis by (simp add: array_keys_def hash_bound_def)
  qed
qed

lemma room_after_resize:
  assumes arr: "int (length (t_array t)) \<le> MAXASIZE" and sz: "rehash_sizes t k = (nasize, nhsize)"
    and base: "resize_base t nasize t0 nhsize"
  shows "room_free t0 (map fst (refill.vanishing_pairs t nasize) @ map fst (node_pairs (rev (t_node t))) @ [k])"
proof -
  note r = rehash_sizes_room [OF arr sz]
  have "hash_bound nasize (map fst (node_pairs (rev (t_node t)))) = hash_bound nasize (live_keys (t_node t))"
    by (intro hash_bound_mset) (simp add: node_pairs_def live_keys_def rev_filter [symmetric] rev_map [symmetric] o_def)
  then have "hash_bound nasize (map fst (refill.vanishing_pairs t nasize) @ map fst (node_pairs (rev (t_node t))) @ [k]) = nhsize"
    unfolding r(1) refill.vanishing_pairs_def using hash_bound_vanishing [OF arr]
    by (simp add: hash_bound_append table_keys_def hash_bound_def)
  moreover have "used t0 = 0" "length (t_array t0) = nasize"
    using base r(2) fresh_nodesD(2) [of t0] by (auto simp: resize_base_def)
  ultimately show ?thesis
    using base by (simp add: room_free_def resize_base_def)
qed


section \<open>Inserting with a rehash\<close>

lemma lastfree_simps [simp]:
  "slot_of (t\<lparr>t_lastfree := f\<rparr>) = slot_of t" "in_array (t\<lparr>t_lastfree := f\<rparr>) = in_array t"
  "luaH_get (t\<lparr>t_lastfree := f\<rparr>) = luaH_get t" "tmap (t\<lparr>t_lastfree := f\<rparr>) = tmap t"
proof -
  have g: "luaH_get (t\<lparr>t_lastfree := f\<rparr>) = luaH_get t"
    by (intro ext)
      (simp add: luaH_get_def luaH_getnum_def luaH_getstr_def get_generic_def Let_def split: TValue.split)
  then show "luaH_get (t\<lparr>t_lastfree := f\<rparr>) = luaH_get t" .
  show "tmap (t\<lparr>t_lastfree := f\<rparr>) = tmap t"
    by (intro ext) (simp add: tmap_def g deref_def split: sum.splits slot.splits)
  show ia: "in_array (t\<lparr>t_lastfree := f\<rparr>) = in_array t" by (intro ext) (simp add: in_array_def)
  show "slot_of (t\<lparr>t_lastfree := f\<rparr>) = slot_of t"
    by (intro ext) (simp add: slot_of_def ia node_of_def split: slot.splits)
qed

definition full_table :: "Table \<Rightarrow> bool" where
  "full_table t \<longleftrightarrow> t_isdummy t \<or> (\<forall>i < length (t_node t). i_key (t_node t ! i) \<noteq> TNil)"

lemma full_or_room: "table_ok t \<Longrightarrow> full_table t \<or> (\<not> t_isdummy t \<and> used t < 2 ^ t_lsizenode t)"
proof -
  assume ok: "table_ok t"
  have "used t < length (t_node t)" if "i < length (t_node t)" "i_key (t_node t ! i) = TNil" for i
  proof -
    have "{i. i < length (t_node t) \<and> i_key (t_node t ! i) \<noteq> TNil} \<subset> {..<length (t_node t)}" using that by auto
    from psubset_card_mono [OF _ this] show ?thesis by (simp add: used_def)
  qed
  then show ?thesis using table_okD(8) [OF ok] by (auto simp: full_table_def)
qed

lemma getfreepos_full:
  assumes ok: "table_ok t" and full: "full_table t"
  obtains lf where "getfreepos t = (t\<lparr>t_lastfree := lf\<rparr>, None)" "table_ok (t\<lparr>t_lastfree := lf\<rparr>)"
proof -
  note w = table_okD [OF ok]
  have le: "table_ok (t\<lparr>t_lastfree := lf\<rparr>)" if "lf \<le> 0" for lf
  proof -
    have "lf \<le> 2 ^ t_lsizenode t" by (rule order_trans [OF that]) simp
    with ok full that show ?thesis by (auto simp: table_ok_def full_table_def)
  qed
  show thesis
  proof (cases "t_lastfree t > 0")
    case True
    then have nd: "\<not> t_isdummy t" using w(6) by auto
    have b: "nat (t_lastfree t) \<le> length (t_node t)" using w(5,8) by (simp add: nat_le_iff)
    have "getfreepos_loop (t_node t) (nat (t_lastfree t)) = None"
      using getfreepos_loop_spec [where ns = "t_node t" and m = "nat (t_lastfree t)"] full nd b
      by (auto simp: full_table_def split: option.splits)
    with True le [of "-1"] that show thesis by (simp add: getfreepos_def)
  next
    case False
    with le [of "t_lastfree t - 1"] that show thesis by (simp add: getfreepos_def)
  qed
qed

lemma newkey_in_place:
  assumes ok: "table_ok t" and k: "proper_key k" and ab: "slot_of t k NilObject" and nd: "\<not> t_isdummy t"
    and v: "ttisnil (i_val (t_node t ! mainposition (t_lsizenode t) k))"
  shows "\<exists>t' s. newkey (Suc d) t k = Inr (t', s) \<and> inserted t k t' s"
proof -
  note w = table_okD [OF ok]
  let ?m = "mainposition (t_lsizenode t) k" and ?ns = "t_node t"
  have pl: "sc.placed (t_lsizenode t) ?ns k (?ns[?m := (?ns ! ?m)\<lparr>i_key := k\<rparr>]) ?m ?m"
    using sc.placed_here [OF w(3) k] ab v by (simp add: ttisnil_def slot_of_nil)
  have lf: "i_key (?ns ! i) \<noteq> TNil" if "i < 2 ^ t_lsizenode t" "t_lastfree t \<le> int i" for i
    using w(4) [of i] that nd w(8) by simp
  from placed_inserted(1) [OF ok k _ nd pl w(5) lf] ab v nd show ?thesis
    by (simp add: put_key_def Let_def slot_of_nil)
qed

lemma hash_bound_le: "hash_bound n ks \<le> length ks"
  by (simp add: hash_bound_def)

lemma rehash_spec:
  assumes ok: "table_ok t" and k: "proper_key k"
  shows "(rehash_with (newkey (Suc d)) t k = Inl table_overflow \<and> 2 ^ MAXBITS \<le> length (table_keys t)) \<or>
    (\<exists>t'. rehash_with (newkey (Suc d)) t k = Inr t' \<and> table_ok t' \<and>
       (\<forall>q. live_key q \<longrightarrow> tmap t' q = tmap t q) \<and> room_free t' [k])"
proof -
  obtain nasize nhsize where sz: "rehash_sizes t k = (nasize, nhsize)" by fastforce
  note arr = table_okD(2) [OF ok]
  note n = rehash_sizes_room [OF arr sz]
  have "nhsize \<le> Suc (length (table_keys t))"
    using hash_bound_le [of nasize "k # table_keys t"] n(1) by simp
  moreover have eq: "rehash_with (newkey (Suc d)) t k = resize_with (newkey (Suc d)) t nasize nhsize"
    by (simp add: rehash_with_def sz)
  moreover have "(resize_with (newkey (Suc d)) t nasize nhsize = Inl table_overflow \<and> (False \<or> 2 ^ MAXBITS < nhsize)) \<or>
    (\<exists>t0 t1 t'. resize_base t nasize t0 nhsize \<and> stored (refill.vanishing_pairs t nasize) t0 t1 \<and>
       stored (node_pairs (rev (t_node t))) t1 t' \<and> resize_with (newkey (Suc d)) t nasize nhsize = Inr t' \<and>
       room_free t' [k])"
    by (rule refill.resize_spec [OF ok n(2) room_after_resize [OF arr sz]])
  ultimately show ?thesis
    unfolding refill.vanishing_pairs_def using resize_same_map [OF ok n(2)] storedD(1) by fastforce
qed

lemma newkey_total:
  assumes ok: "table_ok t" and k: "proper_key k" and ab: "slot_of t k NilObject"
  shows "(newkey (Suc (Suc d)) t k = Inl table_overflow \<and> 2 ^ MAXBITS \<le> length (table_keys t)) \<or>
    (\<exists>t' s. newkey (Suc (Suc d)) t k = Inr (t', s) \<and> inserted t k t' s)"
proof -
  let ?live = "\<not> ttisnil (i_val (t_node t ! mainposition (t_lsizenode t) k)) \<or> t_isdummy t"
  consider (room) "\<not> t_isdummy t" "used t < 2 ^ t_lsizenode t" | (place) "\<not> ?live" | (full) "full_table t" "?live"
    using full_or_room [OF ok] by blast
  then show ?thesis
  proof cases
    case room
    with newkey_room [OF ok k ab room, of "Suc d"] show ?thesis by blast
  next
    case place
    with newkey_in_place [OF ok k ab, of "Suc d"] show ?thesis by blast
  next
    case full
    obtain lf where lf: "getfreepos t = (t\<lparr>t_lastfree := lf\<rparr>, None)" "table_ok (t\<lparr>t_lastfree := lf\<rparr>)"
      using getfreepos_full [OF ok full(1)] .
    let ?t = "t\<lparr>t_lastfree := lf\<rparr>" and ?nk = "newkey (Suc d)"
    have eq: "newkey (Suc (Suc d)) t k = bindE (rehash_with ?nk ?t k) (\<lambda>t. set_with ?nk t k)"
      using full(2) lf(1) by simp
    have keys: "table_keys ?t = table_keys t" by (simp add: table_keys_def array_keys_def)
    from rehash_spec [OF lf(2) k, of d, unfolded keys] show ?thesis
    proof
      assume "\<exists>t'. rehash_with ?nk ?t k = Inr t' \<and> table_ok t' \<and>
        (\<forall>q. live_key q \<longrightarrow> tmap t' q = tmap ?t q) \<and> room_free t' [k]"
      then obtain t' where t': "rehash_with ?nk ?t k = Inr t'" "table_ok t'" "room_free t' [k]"
        "\<And>q. live_key q \<Longrightarrow> tmap t' q = tmap t q" by auto
      from refill.set_with_fill [OF t'(2) k t'(3), of d] t' show ?thesis
        unfolding eq by (auto simp: inserted_def)
    next
      assume "rehash_with ?nk ?t k = Inl table_overflow \<and> 2 ^ MAXBITS \<le> length (table_keys t)"
      then show ?thesis unfolding eq by simp
    qed
  qed
qed

interpretation anyfill: filler "newkey (Suc (Suc d))" "\<lambda>t ks. True" True for d
  by unfold_locales (use newkey_total in blast)+

lemma newkey_2: "newkey 2 = newkey (Suc (Suc 0))"
  by (simp add: numeral_2_eq_2)

section \<open>Properties of tables\<close>

text \<open>Property C1.  Storing into a table, \<open>*luaH_set(L, t, k) = v\<close>: on every well-formed table and for every key that
  is neither nil nor NaN, either the table already has \<open>2^26\<close> entries and the call raises ``table overflow'',
  or it returns a slot; writing any value \<open>v\<close> there keeps the table well-formed, makes \<open>luaH_get\<close> read \<open>v\<close> at every
  key that is raw-equal to \<open>k\<close>, and leaves what is read at every other key as it was.  This covers the
  collision handling of \<open>newkey\<close>, growing the node vector, and moving entries between the
  array part and the hash part.\<close>

theorem luaH_set_get:
  assumes "table_ok t" "proper_key k"
  shows "(luaH_set t k = Inl (ErrRun ''table overflow'') \<and> 2 ^ 26 \<le> length (table_keys t)) \<or>
    (\<exists>t' s. luaH_set t k = Inr (t', s) \<and>
       (\<forall>v. table_ok (setslot t' s v) \<and>
          (\<forall>q. live_key q \<longrightarrow> tmap (setslot t' s v) q = (if luaO_rawequalObj q k then v else tmap t q))))"
proof -
  have ins: "\<exists>t' s. luaH_set t k = Inr (t', s) \<and>
       (\<forall>v. table_ok (setslot t' s v) \<and>
          (\<forall>q. live_key q \<longrightarrow> tmap (setslot t' s v) q = (if luaO_rawequalObj q k then v else tmap t q)))"
    if "luaH_set t k = Inr (t', s)" "inserted t k t' s" for t' s
    using that tmap_setslot [of t' k s] table_ok_setslot [of t' k s] proper_key_def [of k] assms(2)
    by (simp add: inserted_def)
  from assms show ?thesis
  proof (cases rule: set_with_cases [where nk = "newkey 2"])
    case 1
    then show ?thesis using ins by (simp add: luaH_set_def)
  next
    case 2
    have keys: "table_keys (t\<lparr>t_flags := 0\<rparr>) = table_keys t" by (simp add: table_keys_def array_keys_def)
    show ?thesis
      using newkey_total [of "t\<lparr>t_flags := 0\<rparr>" k 0] assms 2 ins
      by (auto simp: luaH_set_def newkey_2 keys table_overflow_def MAXBITS_def)
  qed
qed


definition empty_table :: Table where
  "empty_table = \<lparr>t_flags = NOT 0, t_lsizenode = 0, t_metatable = None, t_array = [],
     t_node = [dummynode], t_isdummy = True, t_lastfree = 0\<rparr>"

lemma empty_table_ok: "table_ok empty_table" "live_key q \<Longrightarrow> tmap empty_table q = TNil" "table_keys empty_table = []"
proof -
  have f: "fresh_nodes empty_table" "t_lsizenode empty_table \<le> MAXBITS" "int (length (t_array empty_table)) \<le> MAXASIZE"
    by (simp_all add: fresh_nodes_def empty_table_def MAXASIZE_def)
  show "table_ok empty_table" by (rule fresh_nodesD(1) [OF f])
  show "live_key q \<Longrightarrow> tmap empty_table q = TNil"
    using tmap_fresh [OF f] by (auto simp: in_array_def empty_table_def split: if_splits)
  show "table_keys empty_table = []"
    by (simp add: table_keys_def array_keys_def arr_live_def live_keys_def empty_table_def dummynode_def ttisnil_def)
qed

lemma proper_string: "proper_key (TString s)" "live_key (TString s)"
  by (simp_all add: proper_key_def valid_key_def live_key_def)

theorem luaH_set_get_witness:
  "table_ok empty_table \<and> proper_key (TString ''x'') \<and>
   (\<exists>t' s. luaH_set empty_table (TString ''x'') = Inr (t', s) \<and>
      tmap (setslot t' s (TBoolean True)) (TString ''x'') = TBoolean True \<and>
      tmap (setslot t' s (TBoolean True)) (TString ''y'') = TNil)"
proof -
  have "(luaH_set empty_table (TString ''x'') = Inl (ErrRun ''table overflow'') \<and> 2 ^ 26 \<le> length (table_keys empty_table)) \<or>
    (\<exists>t' s. luaH_set empty_table (TString ''x'') = Inr (t', s) \<and>
       (\<forall>v. table_ok (setslot t' s v) \<and>
          (\<forall>q. live_key q \<longrightarrow> tmap (setslot t' s v) q = (if luaO_rawequalObj q (TString ''x'') then v else tmap empty_table q))))"
    by (rule luaH_set_get [OF empty_table_ok(1) proper_string(1)])
  then obtain t' s where t': "luaH_set empty_table (TString ''x'') = Inr (t', s)"
    "\<And>v q. live_key q \<Longrightarrow> tmap (setslot t' s v) q = (if luaO_rawequalObj q (TString ''x'') then v else tmap empty_table q)"
    by (auto simp: empty_table_ok(3))
  then have "tmap (setslot t' s (TBoolean True)) (TString ''x'') = TBoolean True"
    "tmap (setslot t' s (TBoolean True)) (TString ''y'') = TNil"
    using empty_table_ok(2) proper_string by (simp_all add: rawequal_iff)
  with t'(1) empty_table_ok(1) proper_string show ?thesis by blast
qed

end
