(* ===== verification/TableOps.thy ===== *)
theory TableOps
  imports TableMap
begin

text \<open>
  The remaining operations of \<^verbatim>\<open>src/lua/ltable.c\<close> over the map view of a table: creation, the
  specialised setters, \<open>luaH_resizearray\<close>, the traversal \<open>luaH_next\<close> and the length \<open>luaH_getn\<close>.
\<close>

section \<open>Creation and the setters\<close>

lemma setnum_total:
  assumes ok: "table_ok t" and i: "fits_int i"
  shows "luaH_setnum t i = Inl table_overflow \<or>
    (\<exists>t' s. luaH_setnum t i = Inr (t', s) \<and> inserted t (TNumber (cast_num i)) t' s)"
  using anyfill.setnum_with_fill [OF ok i, of 0] by (simp add: luaH_setnum_def newkey_2)

lemma setstr_total:
  assumes ok: "table_ok t"
  shows "luaH_setstr t k = Inl table_overflow \<or>
    (\<exists>t' s. luaH_setstr t k = Inr (t', s) \<and> inserted t (TString k) t' s)"
proof -
  obtain s where s: "luaH_getstr t k = Inr s" "slot_of t (TString k) s"
    using get_spec [OF ok proper_string(2), of k] by (auto simp: luaH_get_def)
  show ?thesis
  proof (cases "s = NilObject")
    case True
    with s newkey_total [OF ok proper_string(1), of k 0] show ?thesis
      by (auto simp: luaH_setstr_def newkey_2)
  next
    case False
    with s ok show ?thesis by (auto simp: luaH_setstr_def inserted_def)
  qed
qed

lemma resizearray_total:
  assumes ok: "table_ok t" and n: "int nasize \<le> MAXASIZE"
  shows "luaH_resizearray t nasize = Inl table_overflow \<or>
    (\<exists>t'. luaH_resizearray t nasize = Inr t' \<and> table_ok t' \<and> (\<forall>q. live_key q \<longrightarrow> tmap t' q = tmap t q))"
proof -
  let ?nh = "if t_isdummy t then 0 else 2 ^ t_lsizenode t :: nat"
  have "(resize_with (newkey (Suc (Suc 0))) t nasize ?nh = Inl table_overflow \<and> (True \<or> 2 ^ MAXBITS < ?nh)) \<or>
    (\<exists>t0 t1 t'. resize_base t nasize t0 ?nh \<and> stored (anyfill.vanishing_pairs t nasize) t0 t1 \<and>
       stored (node_pairs (rev (t_node t))) t1 t' \<and> resize_with (newkey (Suc (Suc 0))) t nasize ?nh = Inr t' \<and> True)"
    by (rule anyfill.resize_spec [OF ok n]) simp
  with resize_same_map [OF ok n] storedD(1) show ?thesis
    unfolding luaH_resizearray_def newkey_2 anyfill.vanishing_pairs_def by blast
qed

section \<open>Traversal\<close>

text \<open>The order in which a traversal visits the entries.\<close>

definition entries :: "Table \<Rightarrow> (TValue \<times> TValue) list" where
  "entries t = slice_pairs 0 (t_array t) @ node_pairs (t_node t)"

lemma next_node_pairs: "next_node ns = (case node_pairs ns of [] \<Rightarrow> None | p # _ \<Rightarrow> Some p)"
  by (induction ns) (auto simp: node_pairs_def)

lemma next_array_pairs:
  "map_option (\<lambda>(j, v). (TNumber (cast_num (int j + 1)), v)) (next_array vs i) =
   (case slice_pairs (int i) vs of [] \<Rightarrow> None | p # _ \<Rightarrow> Some p)"
proof (induction vs arbitrary: i)
  case (Cons v vs)
  from Cons [of "Suc i"] show ?case by (simp add: ac_simps)
qed simp

text \<open>The entries still to visit after the slot with index \<open>i - 1\<close>.\<close>

definition entries_from :: "Table \<Rightarrow> nat \<Rightarrow> (TValue \<times> TValue) list" where
  "entries_from t i = slice_pairs (int i) (drop i (t_array t)) @ node_pairs (drop (i - length (t_array t)) (t_node t))"

lemma luaH_next_from:
  assumes "findindex saddr t k = Inr (int i - 1)"
  shows "luaH_next saddr t k = Inr (case entries_from t i of [] \<Rightarrow> None | p # _ \<Rightarrow> Some p)"
proof -
  have n: "nat (int i - 1 + 1) = i" by simp
  show ?thesis
    using next_array_pairs [of "drop i (t_array t)" i] assms
    unfolding luaH_next_def Let_def n entries_from_def
    by (auto simp: next_node_pairs Let_def split: option.splits list.splits)
qed


lemma slice_pairs_drop:
  "n < length (slice_pairs i vs) \<Longrightarrow>
   \<exists>j < length vs. slice_pairs i vs ! n = (TNumber (cast_num (i + int j + 1)), vs ! j) \<and>
     drop (Suc n) (slice_pairs i vs) = slice_pairs (i + int (Suc j)) (drop (Suc j) vs)"
proof (induction vs arbitrary: i n)
  case (Cons v vs)
  show ?case
  proof (cases "\<not> ttisnil v \<and> n = 0")
    case True
    then show ?thesis by (intro exI [of _ 0]) simp
  next
    case False
    define n' where "n' = (if ttisnil v then n else n - 1)"
    have "n' < length (slice_pairs (i + 1) vs)"
      using Cons.prems False by (auto simp: n'_def split: if_splits)
    from Cons.IH [OF this] obtain j where j: "j < length vs"
      "slice_pairs (i + 1) vs ! n' = (TNumber (cast_num (i + 1 + int j + 1)), vs ! j)"
      "drop (Suc n') (slice_pairs (i + 1) vs) = slice_pairs (i + 1 + int (Suc j)) (drop (Suc j) vs)"
      by blast
    have e: "slice_pairs i (v # vs) ! n = slice_pairs (i + 1) vs ! n'"
      "drop (Suc n) (slice_pairs i (v # vs)) = drop (Suc n') (slice_pairs (i + 1) vs)"
      using False by (auto simp: n'_def nth_Cons drop_Cons split: nat.split)
    show ?thesis
      unfolding e j(2,3) using j(1) by (intro exI [of _ "Suc j"]) (simp add: algebra_simps)
  qed
qed simp

lemma node_pairs_drop:
  "n < length (node_pairs ns) \<Longrightarrow>
   \<exists>j < length ns. node_pairs ns ! n = (i_key (ns ! j), i_val (ns ! j)) \<and> i_val (ns ! j) \<noteq> TNil \<and>
     drop (Suc n) (node_pairs ns) = node_pairs (drop (Suc j) ns)"
proof (induction ns arbitrary: n)
  case (Cons nd ns)
  show ?case
  proof (cases "\<not> ttisnil (i_val nd) \<and> n = 0")
    case True
    then show ?thesis by (intro exI [of _ 0]) (simp add: node_pairs_def ttisnil_def)
  next
    case False
    define n' where "n' = (if ttisnil (i_val nd) then n else n - 1)"
    have "n' < length (node_pairs ns)"
      using Cons.prems False by (auto simp: n'_def node_pairs_def split: if_splits)
    from Cons.IH [OF this] obtain j where j: "j < length ns"
      "node_pairs ns ! n' = (i_key (ns ! j), i_val (ns ! j))" "i_val (ns ! j) \<noteq> TNil"
      "drop (Suc n') (node_pairs ns) = node_pairs (drop (Suc j) ns)" by blast
    have e: "node_pairs (nd # ns) ! n = node_pairs ns ! n'"
      "drop (Suc n) (node_pairs (nd # ns)) = drop (Suc n') (node_pairs ns)"
      using False by (auto simp: n'_def nth_Cons drop_Cons node_pairs_def split: nat.split)
    show ?thesis
      unfolding e j(2,4) using j(1,3) by (intro exI [of _ "Suc j"]) simp
  qed
qed (simp add: node_pairs_def)

definition no_dead_alias :: "(string \<Rightarrow> ptr) \<Rightarrow> Table \<Rightarrow> bool" where
  "no_dead_alias saddr t \<longleftrightarrow> (\<forall>n \<in> set (t_node t). \<forall>m \<in> set (t_node t).
     \<forall>p. i_key n = TDeadKey p \<longrightarrow> keyed m \<longrightarrow> gcvalue saddr (i_key m) \<noteq> Some p)"

lemma findindex_node:
  assumes ok: "table_ok t" and nd: "no_dead_alias saddr t" and j: "j < length (t_node t)" "i_val (t_node t ! j) \<noteq> TNil"
  shows "findindex saddr t (i_key (t_node t ! j)) = Inr (int (length (t_array t) + Suc j) - 1)"
proof -
  note w = table_okD [OF ok]
  let ?ns = "t_node t" and ?k = "i_key (t_node t ! j)"
  let ?P = "\<lambda>n. luaO_rawequalObj (i_key n) ?k \<or>
    (case i_key n of TDeadKey p \<Rightarrow> gcvalue saddr ?k = Some p | _ \<Rightarrow> False)"
  let ?m = "mainposition (t_lsizenode t) ?k"
  have kd: "keyed (?ns ! j)" using live_keyed [OF ok] j w(8) by (simp add: ttisnil_def)
  have na: "\<not> in_array t ?k" by (rule w(7) [OF j(1) kd])
  have vk: "valid_key ?k" using sc.wfD(3) [OF w(3) _ kd] j w(8) by simp
  have pk: "proper_key ?k" using vk kd by (auto simp: proper_key_def keyed_def)
  have m: "?m < length ?ns" using mainposition_less w(8) by simp
  have links: "links_ok ?ns" by (rule sc.wfD(2) [OF w(3)])
  have jr: "j \<in> reach ?ns ?m"
    using sc.wfD(4) [OF w(3) _ kd] j w(8) by (simp add: sc.home_def reach_def)
  obtain r where r: "chain_find (length ?ns) ?ns ?P ?m = Inr r"
    "case r of Some l \<Rightarrow> l \<in> reach ?ns ?m \<and> ?P (?ns ! l) | None \<Rightarrow> \<forall>l \<in> reach ?ns ?m. \<not> ?P (?ns ! l)"
    using chain_find_spec [OF links m card_reach [OF links m]] by blast
  with jr vk obtain l where l: "r = Some l" "l \<in> reach ?ns ?m" "?P (?ns ! l)"
    by (auto split: option.splits)
  have ll: "l < length ?ns" using reach_bounded [OF links m] l(2) by auto
  have "gcvalue saddr ?k \<noteq> Some p" if "i_key (?ns ! l) = TDeadKey p" for p
    using nd that kd nth_mem [OF ll] nth_mem [OF j(1)] unfolding no_dead_alias_def by blast
  with l(3) have "luaO_rawequalObj (i_key (?ns ! l)) ?k" by (auto split: TValue.splits)
  then have "l = j"
    using sc.wfD(5) [OF w(3), of l j] ll j(1) w(8) kd rawequal_keyed [OF _ pk] by auto
  with r(1) l(1) na vk show ?thesis
    by (auto simp: findindex_def ttisnil_def valid_key_def in_array_def Let_def)
qed

lemma entry_step:
  assumes ok: "table_ok t" and nd: "no_dead_alias saddr t" and n: "n < length (entries t)"
  shows "\<exists>i. findindex saddr t (fst (entries t ! n)) = Inr (int i - 1) \<and> entries_from t i = drop (Suc n) (entries t)"
proof -
  let ?A = "slice_pairs 0 (t_array t)" and ?N = "node_pairs (t_node t)"
  show ?thesis
  proof (cases "n < length ?A")
    case True
    from slice_pairs_drop [OF this] obtain j where j: "j < length (t_array t)"
      "?A ! n = (TNumber (cast_num (0 + int j + 1)), t_array t ! j)"
      "drop (Suc n) ?A = slice_pairs (0 + int (Suc j)) (drop (Suc j) (t_array t))" by blast
    have "fits_int (int j + 1)" using j(1) table_okD(2) [OF ok] by (intro small_fits) auto
    then have "findindex saddr t (fst (entries t ! n)) = Inr (int (Suc j) - 1)"
      using j(1,2) True by (simp add: findindex_def entries_def nth_append ttisnil_def)
    moreover have "entries_from t (Suc j) = drop (Suc n) (entries t)"
      using True j(1,3) by (simp add: entries_from_def entries_def)
    ultimately show ?thesis by blast
  next
    case False
    let ?n = "n - length ?A"
    have n': "?n < length ?N" using n False by (simp add: entries_def)
    from node_pairs_drop [OF this] obtain j where j: "j < length (t_node t)"
      "?N ! ?n = (i_key (t_node t ! j), i_val (t_node t ! j))" "i_val (t_node t ! j) \<noteq> TNil"
      "drop (Suc ?n) ?N = node_pairs (drop (Suc j) (t_node t))" by blast
    have "findindex saddr t (fst (entries t ! n)) = Inr (int (length (t_array t) + Suc j) - 1)"
      using findindex_node [OF ok nd j(1,3)] j(2) False by (simp add: entries_def nth_append)
    moreover have "entries_from t (length (t_array t) + Suc j) = drop (Suc n) (entries t)"
      using False j(4) by (simp add: entries_from_def entries_def Suc_diff_le)
    ultimately show ?thesis by blast
  qed
qed


lemma array_entry:
  assumes ok: "table_ok t" and k: "(k, v) \<in> set (slice_pairs 0 (t_array t))"
  shows "in_array t k" "live_key k" "tmap t k = v"
proof -
  from k obtain j where j: "j < length (t_array t)" "k = TNumber (cast_num (int j + 1))" "v = t_array t ! j"
    by (auto simp: slice_pairs_nth)
  have "fits_int (int j + 1)" using j(1) table_okD(2) [OF ok] by (intro small_fits) auto
  then have ai: "arrayindex k = int j + 1" by (simp add: j(2))
  with j(1) show ia: "in_array t k" by (simp add: in_array_def)
  show lk: "live_key k" by (simp add: j(2) live_key_def)
  show "tmap t k = v" using tmap_array [OF ok ia lk] ai j(3) by simp
qed

lemma entries_complete:
  assumes ok: "table_ok t" and q: "live_key q" and v: "v \<noteq> TNil"
  shows "tmap t q = v \<longleftrightarrow> (\<exists>k. (k, v) \<in> set (entries t) \<and> luaO_rawequalObj q k)"
proof
  assume m: "tmap t q = v"
  show "\<exists>k. (k, v) \<in> set (entries t) \<and> luaO_rawequalObj q k"
  proof (cases "in_array t q")
    case True
    let ?j = "nat (arrayindex q - 1)" and ?k = "TNumber (cast_num (arrayindex q))"
    have "fits_int (arrayindex q)" using True table_okD(2) [OF ok] by (intro small_fits) (auto simp: in_array_def)
    then have "luaO_rawequalObj q ?k" using True by (intro arrayindex_rawequal) (auto simp: in_array_def)
    moreover have "(?k, v) \<in> set (slice_pairs 0 (t_array t))"
      unfolding slice_pairs_nth using True tmap_array [OF ok True q] m v
      by (intro exI [of _ ?j]) (auto simp: in_array_def)
    ultimately show ?thesis by (auto simp: entries_def)
  next
    case False
    with tmap_live_node [OF ok q False] m v show ?thesis by (auto simp: entries_def)
  qed
next
  assume "\<exists>k. (k, v) \<in> set (entries t) \<and> luaO_rawequalObj q k"
  then obtain k where k: "(k, v) \<in> set (entries t)" "luaO_rawequalObj q k" by blast
  then have "live_key k \<and> tmap t k = v"
    using array_entry [OF ok, of k v] node_pairs_keys [OF ok, of k v] proper_live by (auto simp: entries_def)
  with tmap_eq [OF ok k(2) q] show "tmap t q = v" by simp
qed

lemma unequal_slice:
  "0 \<le> i \<Longrightarrow> i + int (length vs) \<le> MAXASIZE \<Longrightarrow> unequal_keys (map fst (slice_pairs i vs))"
proof (induction vs arbitrary: i)
  case (Cons v vs)
  have "\<not> luaO_rawequalObj (TNumber (cast_num (i + 1))) k" if "(k, w) \<in> set (slice_pairs (i + 1) vs)" for k w
  proof
    assume "luaO_rawequalObj (TNumber (cast_num (i + 1))) k"
    from arrayindex_eq [OF this] slice_pairs_index [OF that] Cons.prems small_fits [of "i + 1"]
    show False by simp
  qed
  with Cons show ?case by (auto simp: unequal_keys_def)
qed (simp add: unequal_keys_def)

lemma unequal_entries:
  assumes ok: "table_ok t"
  shows "unequal_keys (map fst (entries t))"
proof -
  have "sorted_wrt (\<lambda>a b. \<not> luaO_rawequalObj b a) (rev (map fst (node_pairs (rev (t_node t)))))"
    using unequal_node_pairs [OF ok] by (simp add: unequal_keys_def sorted_wrt_rev)
  then have "sorted_wrt (\<lambda>a b. \<not> luaO_rawequalObj a b) (map fst (node_pairs (t_node t)))"
    by (simp add: node_pairs_def rev_map rev_filter rawequal_sym)
  moreover have "\<not> luaO_rawequalObj k k'" if "(k, v) \<in> set (slice_pairs 0 (t_array t))"
    "(k', v') \<in> set (node_pairs (t_node t))" for k v k' v'
    using array_entry(1) [OF ok that(1)] node_pairs_keys(2) [OF ok that(2)] in_array_eq by blast
  ultimately show ?thesis
    using unequal_slice [of 0 "t_array t"] table_okD(2) [OF ok]
    by (auto simp: unequal_keys_def entries_def sorted_wrt_append)
qed

section \<open>Length\<close>

definition tnum :: "Table \<Rightarrow> nat \<Rightarrow> TValue" where
  "tnum t n = tmap t (TNumber (cast_num (int n)))"

definition boundary :: "Table \<Rightarrow> nat \<Rightarrow> bool" where
  "boundary t n \<longleftrightarrow> (n = 0 \<or> tnum t n \<noteq> TNil) \<and> tnum t (Suc n) = TNil"

lemma array_search_spec:
  "i < j \<Longrightarrow> (i = 0 \<or> arr ! (i - 1) \<noteq> TNil) \<Longrightarrow> arr ! (j - 1) = TNil \<Longrightarrow>
   array_search arr i j < j \<and> (array_search arr i j = 0 \<or> arr ! (array_search arr i j - 1) \<noteq> TNil) \<and>
   arr ! array_search arr i j = TNil"
proof (induction arr i j rule: array_search.induct)
  case (1 arr i j)
  show ?case
  proof (cases "j - i > 1")
    case True
    let ?m = "(i + j) div 2"
    have m: "i < ?m" "?m < j" using True by auto
    show ?thesis
    proof (cases "ttisnil (arr ! (?m - 1))")
      case nil: True
      have "array_search arr i j = array_search arr i ?m"
        using True nil by (subst array_search.simps) (simp add: Let_def)
      with 1(1) [OF True refl nil m(1) 1(4)] nil m show ?thesis by (simp add: ttisnil_def)
    next
      case nnil: False
      have "array_search arr i j = array_search arr ?m j"
        using True nnil by (subst array_search.simps) (simp add: Let_def)
      with 1(2) [OF True refl nnil m(2)] 1(5) nnil show ?thesis by (simp add: ttisnil_def)
    qed
  next
    case False
    then have "array_search arr i j = i" by (subst array_search.simps) simp
    moreover have "j = Suc i" using False 1(3) by simp
    ultimately show ?thesis using 1(4,5) by simp
  qed
qed

lemma nat_fits: "n \<le> nat MAX_INT \<Longrightarrow> fits_int (int n)"
  by (simp add: fits_int_def MAX_INT_def)

lemma isnil_at_spec: "table_ok t \<Longrightarrow> n \<le> nat MAX_INT \<Longrightarrow> isnil_at t n = Inr (tnum t n = TNil)"
  using getnum_spec [OF _ nat_fits, of t n] tmap_slot(1) [of t "TNumber (cast_num (int n))"]
  by (auto simp: isnil_at_def tnum_def ttisnil_def live_key_def)

lemma hash_search_spec:
  "table_ok t \<Longrightarrow> i < j \<Longrightarrow> j \<le> nat MAX_INT \<Longrightarrow> (i = 0 \<or> tnum t i \<noteq> TNil) \<Longrightarrow> tnum t j = TNil \<Longrightarrow>
   \<exists>n. hash_search t i j = Inr n \<and> boundary t n"
proof (induction t i j rule: hash_search.induct)
  case (1 t i j)
  show ?case
  proof (cases "j - i > 1")
    case True
    let ?m = "(i + j) div 2"
    have m: "i < ?m" "?m < j" "?m \<le> nat MAX_INT" using True 1(5) by auto
    note at = isnil_at_spec [OF 1(3) m(3)]
    have eq: "hash_search t i j = (if tnum t ?m = TNil then hash_search t i ?m else hash_search t ?m j)"
      using True at by (subst hash_search.simps) (simp add: Let_def)
    show ?thesis
    proof (cases "tnum t ?m = TNil")
      case nil: True
      then have "\<exists>n. hash_search t i ?m = Inr n \<and> boundary t n"
        by (intro "1.IH"(1) [OF True refl at]) (use "1.prems" m in auto)
      with nil eq show ?thesis by simp
    next
      case nnil: False
      then have "\<exists>n. hash_search t ?m j = Inr n \<and> boundary t n"
        by (intro "1.IH"(2) [OF True refl at]) (use "1.prems" m in auto)
      with nnil eq show ?thesis by simp
    qed
  next
    case False
    then have "hash_search t i j = Inr i" by (subst hash_search.simps) simp
    moreover have "j = Suc i" using False 1(4) by simp
    ultimately show ?thesis using 1(6,7) by (simp add: boundary_def)
  qed
qed

lemma slot_of_same_index:
  assumes "slot_of t a s" "slot_of t b s" "s \<in> ArraySlot ` A \<union> NodeSlot ` B"
  shows "arrayindex a = arrayindex b"
proof (cases s)
  case (NodeSlot j)
  with assms(1,2) have "luaO_rawequalObj (i_key (t_node t ! j)) a" "luaO_rawequalObj (i_key (t_node t ! j)) b"
    by (simp_all add: slot_of_def node_of_def)
  from arrayindex_eq [OF rawequal_left [OF this]] show ?thesis .
qed (use assms in \<open>auto simp: slot_of_def in_array_def\<close>)

text \<open>A table holds at most \<open>2^27\<close> entries, so one of the first \<open>2^27 + 1\<close> indices is free.\<close>

lemma free_index:
  assumes ok: "table_ok t"
  shows "\<exists>n \<in> {1..2 ^ 27 + 1}. tnum t n = TNil"
proof (rule ccontr)
  assume no: "\<not> ?thesis"
  let ?S = "ArraySlot ` {..<2 ^ 26} \<union> NodeSlot ` {..<2 ^ 26}" and ?k = "\<lambda>n. TNumber (cast_num (int n))"
  note w = table_okD [OF ok]
  have lim: "length (t_array t) \<le> 2 ^ 26" "length (t_node t) \<le> 2 ^ 26"
  proof -
    show "length (t_array t) \<le> 2 ^ 26" using w(2) by (simp add: MAXASIZE_def)
    show "length (t_node t) \<le> 2 ^ 26" unfolding w(8) using w(1) by (intro power_increasing) (auto simp: MAXBITS_def)
  qed
  have "\<exists>s \<in> ?S. slot_of t (?k n) s" if n: "n \<in> {1..2 ^ 27 + 1}" for n
  proof -
    have "live_key (?k n)" by (simp add: live_key_def)
    from get_spec [OF ok this] obtain s where s: "slot_of t (?k n) s" by blast
    have "tnum t n \<noteq> TNil" using no n by blast
    with s tmap_slot(1) [OF ok \<open>live_key (?k n)\<close> s] have "s \<noteq> NilObject"
      by (auto simp: tnum_def deref_def)
    with s lim have "s \<in> ?S" by (cases s) (auto simp: slot_of_def in_array_def node_of_def)
    with s show ?thesis by blast
  qed
  then obtain f where f: "\<And>n. n \<in> {1..2 ^ 27 + 1} \<Longrightarrow> f n \<in> ?S \<and> slot_of t (?k n) (f n)" by metis
  have "inj_on f {1..2 ^ 27 + 1}"
  proof (rule inj_onI)
    fix a b assume ab: "a \<in> {1..2 ^ 27 + 1}" "b \<in> {1..2 ^ 27 + 1}" "f a = f b"
    have fit: "fits_int (int a)" "fits_int (int b)" using ab by (auto simp: fits_int_def)
    have "slot_of t (?k a) (f a)" "slot_of t (?k b) (f a)" using f ab by metis+
    then have "arrayindex (?k a) = arrayindex (?k b)"
      using f [OF ab(1)] slot_of_same_index by blast
    with fit show "a = b" by simp
  qed
  moreover have "f ` {1..2 ^ 27 + 1} \<subseteq> ?S" using f by blast
  ultimately have "card {1..2 ^ 27 + 1 :: nat} \<le> card ?S" by (intro card_inj_on_le) auto
  also have "card ?S \<le> 2 ^ 26 + 2 ^ 26"
    by (rule order_trans [OF card_Un_le]) (intro add_mono order_trans [OF card_image_le]; simp)
  finally show False by simp
qed

lemma linear_search_spec:
  "table_ok t \<Longrightarrow> d < fuel \<Longrightarrow> 0 < i \<Longrightarrow> i + d \<le> nat MAX_INT \<Longrightarrow> (i = 1 \<or> tnum t (i - 1) \<noteq> TNil) \<Longrightarrow>
   tnum t (i + d) = TNil \<Longrightarrow> \<exists>n. linear_search fuel t i = Inr n \<and> boundary t n"
proof (induction fuel arbitrary: i d)
  case (Suc fuel)
  have at: "isnil_at t i = Inr (tnum t i = TNil)" using isnil_at_spec Suc.prems(1,4) by simp
  show ?case
  proof (cases "tnum t i = TNil")
    case True
    with at Suc.prems(3,5) show ?thesis by (auto simp: boundary_def)
  next
    case False
    with Suc.prems have "d \<noteq> 0" by (metis add_0_right)
    with Suc.IH [of "d - 1" "Suc i"] Suc.prems False at show ?thesis by simp
  qed
qed simp

lemma double_search_spec:
  "table_ok t \<Longrightarrow> i < j \<Longrightarrow> j \<le> nat MAX_INT \<Longrightarrow> (i = 0 \<or> tnum t i \<noteq> TNil) \<Longrightarrow>
   \<exists>n. double_search t i j = Inr n \<and> boundary t n"
proof (induction t i j rule: double_search.induct)
  case (1 t i j)
  have at: "isnil_at t j = Inr (tnum t j = TNil)" by (rule isnil_at_spec [OF 1(2,4)])
  have eq: "double_search t i j = (if tnum t j = TNil then hash_search t i j
     else if j * 2 > nat MAX_INT then linear_search (2 ^ 31) t 1 else double_search t j (j * 2))"
    using 1(3,4) at by (subst double_search.simps) simp
  consider "tnum t j = TNil" | "tnum t j \<noteq> TNil" "j * 2 > nat MAX_INT" | "tnum t j \<noteq> TNil" "\<not> j * 2 > nat MAX_INT"
    by blast
  then show ?case
  proof cases
    case 1
    with hash_search_spec [OF "1.prems"(1,2,3,4)] eq show ?thesis by simp
  next
    case 2
    obtain n where n: "1 \<le> n" "n \<le> 2 ^ 27 + 1" "tnum t n = TNil" using free_index [OF "1.prems"(1)] by auto
    have "\<exists>n. linear_search (2 ^ 31) t 1 = Inr n \<and> boundary t n"
      by (rule linear_search_spec [OF "1.prems"(1), of "n - 1"]) (use n in \<open>auto simp: MAX_INT_def\<close>)
    with 2 eq show ?thesis by simp
  next
    case 3
    have "\<exists>n. double_search t j (j * 2) = Inr n \<and> boundary t n"
      by (rule "1.IH") (use "1.prems" 3 at in auto)
    with 3 eq show ?thesis by simp
  qed
qed

lemma tnum_array: "table_ok t \<Longrightarrow> 0 < n \<Longrightarrow> n \<le> length (t_array t) \<Longrightarrow> tnum t n = t_array t ! (n - 1)"
proof -
  assume ok: "table_ok t" and n: "0 < n" "n \<le> length (t_array t)"
  have "fits_int (int n)" using n table_okD(2) [OF ok] by (intro small_fits) auto
  with n tmap_array [OF ok, of "TNumber (cast_num (int n))"] show ?thesis
    by (simp add: tnum_def in_array_def live_key_def nat_diff_distrib)
qed

lemma getn_spec:
  assumes ok: "table_ok t"
  shows "\<exists>n. luaH_getn t = Inr n \<and> boundary t n"
proof -
  note w = table_okD [OF ok]
  let ?j = "length (t_array t)"
  have lim: "?j < nat MAX_INT" using w(2) by (simp add: MAXASIZE_def MAX_INT_def)
  consider (arr) "?j > 0" "t_array t ! (?j - 1) = TNil" | (dummy) "?j = 0 \<or> t_array t ! (?j - 1) \<noteq> TNil" "t_isdummy t"
    | (hash) "?j = 0 \<or> t_array t ! (?j - 1) \<noteq> TNil" "\<not> t_isdummy t" by blast
  then show ?thesis
  proof cases
    case arr
    let ?n = "array_search (t_array t) 0 ?j"
    have s: "?n < ?j" "?n = 0 \<or> t_array t ! (?n - 1) \<noteq> TNil" "t_array t ! ?n = TNil"
      using array_search_spec [OF arr(1) _ arr(2)] by auto
    then have "boundary t ?n" using tnum_array [OF ok, of ?n] tnum_array [OF ok, of "Suc ?n"] by (auto simp: boundary_def)
    with arr show ?thesis by (simp add: luaH_getn_def ttisnil_def)
  next
    case dummy
    have fit: "fits_int (int (Suc ?j))" using lim by (intro nat_fits) simp
    have "\<not> in_array t (TNumber (cast_num (int (Suc ?j))))" using fit by (simp add: in_array_def del: of_nat_Suc)
    then have "slot_of t (TNumber (cast_num (int (Suc ?j)))) NilObject"
      using w(6) [OF dummy(2)] by (simp add: slot_of_nil absent_def dummynode_def keyed_def)
    from tmap_slot(1) [OF ok _ this] have "tnum t (Suc ?j) = TNil" by (simp add: tnum_def deref_def live_key_def)
    moreover have "?j = 0 \<or> tnum t ?j \<noteq> TNil" using dummy(1) tnum_array [OF ok, of ?j] by auto
    ultimately have "boundary t ?j" unfolding boundary_def by blast
    with dummy show ?thesis by (auto simp: luaH_getn_def ttisnil_def)
  next
    case hash
    have "\<exists>n. unbound_search t ?j = Inr n \<and> boundary t n"
      unfolding unbound_search_def
      using hash(1) tnum_array [OF ok, of ?j] lim by (intro double_search_spec [OF ok]) auto
    with hash show ?thesis by (auto simp: luaH_getn_def ttisnil_def)
  qed
qed


section \<open>Properties\<close>

text \<open>Property C7.  Traversal with \<open>luaH_next\<close>: starting from nil, each call returns the next of the live entries of the
  table (the array part in index order, then the hash part), the call at the last one reports the end, the
  entries are exactly the non-nil bindings of the map, and no key is visited twice.  A dead key is matched by
  address, so the property assumes that no dead key holds the address of a live one.\<close>

theorem luaH_next_enumerates:
  assumes "table_ok t" "no_dead_alias saddr t"
  shows "luaH_next saddr t TNil = Inr (case entries t of [] \<Rightarrow> None | p # _ \<Rightarrow> Some p) \<and>
    (\<forall>n < length (entries t). luaH_next saddr t (fst (entries t ! n)) =
       Inr (if Suc n < length (entries t) then Some (entries t ! Suc n) else None)) \<and>
    (\<forall>q v. live_key q \<longrightarrow> v \<noteq> TNil \<longrightarrow>
       (tmap t q = v \<longleftrightarrow> (\<exists>k. (k, v) \<in> set (entries t) \<and> luaO_rawequalObj q k))) \<and>
    unequal_keys (map fst (entries t))"
proof (intro conjI allI impI)
  have "findindex saddr t TNil = Inr (int 0 - 1)" by (simp add: findindex_def ttisnil_def)
  from luaH_next_from [OF this] show "luaH_next saddr t TNil = Inr (case entries t of [] \<Rightarrow> None | p # _ \<Rightarrow> Some p)"
    by (simp add: entries_from_def entries_def)
next
  fix n assume n: "n < length (entries t)"
  obtain i where i: "findindex saddr t (fst (entries t ! n)) = Inr (int i - 1)" "entries_from t i = drop (Suc n) (entries t)"
    using entry_step [OF assms n] by blast
  have "(case drop (Suc n) (entries t) of [] \<Rightarrow> None | p # _ \<Rightarrow> Some p) =
    (if Suc n < length (entries t) then Some (entries t ! Suc n) else None)"
    by (cases "Suc n < length (entries t)") (simp_all add: Cons_nth_drop_Suc [symmetric])
  with luaH_next_from [OF i(1)] i(2) show "luaH_next saddr t (fst (entries t ! n)) =
     Inr (if Suc n < length (entries t) then Some (entries t ! Suc n) else None)" by simp
next
  fix q v assume q: "live_key q" and v: "v \<noteq> TNil"
  show "tmap t q = v \<longleftrightarrow> (\<exists>k. (k, v) \<in> set (entries t) \<and> luaO_rawequalObj q k)"
    by (rule entries_complete [OF assms(1) q v])
next
  show "unequal_keys (map fst (entries t))" by (rule unequal_entries [OF assms(1)])
qed


definition sample_table :: Table where
  "sample_table = empty_table\<lparr>t_array := [TBoolean True, TNil, TBoolean False]\<rparr>"

lemma sample_table_ok: "table_ok sample_table" "no_dead_alias saddr sample_table"
  "entries sample_table = [(TNumber (cast_num 1), TBoolean True), (TNumber (cast_num 3), TBoolean False)]"
proof -
  show "table_ok sample_table"
    by (rule fresh_nodesD(1)) (simp_all add: fresh_nodes_def sample_table_def empty_table_def MAXASIZE_def)
  show "no_dead_alias saddr sample_table"
    by (simp add: no_dead_alias_def sample_table_def empty_table_def dummynode_def)
  show "entries sample_table = [(TNumber (cast_num 1), TBoolean True), (TNumber (cast_num 3), TBoolean False)]"
    by (simp add: entries_def sample_table_def empty_table_def dummynode_def node_pairs_def ttisnil_def)
qed

theorem luaH_next_enumerates_witness:
  "table_ok sample_table \<and> no_dead_alias (\<lambda>_. 0) sample_table \<and>
   luaH_next (\<lambda>_. 0) sample_table TNil = Inr (Some (TNumber (cast_num 1), TBoolean True)) \<and>
   luaH_next (\<lambda>_. 0) sample_table (TNumber (cast_num 1)) = Inr (Some (TNumber (cast_num 3), TBoolean False)) \<and>
   luaH_next (\<lambda>_. 0) sample_table (TNumber (cast_num 3)) = Inr None"
proof -
  note e = luaH_next_enumerates [OF sample_table_ok(1) sample_table_ok(2) [of "\<lambda>_. 0"], unfolded sample_table_ok(3)]
  from e [THEN conjunct2, THEN conjunct1, rule_format, of 0] e [THEN conjunct2, THEN conjunct1, rule_format, of 1]
    e [THEN conjunct1] sample_table_ok show ?thesis by simp
qed

text \<open>Property C20.  The length operator: \<open>luaH_getn\<close> always returns, and its result is a border of the table: 0 or an index with a non-nil value,
  whose successor holds nil.  This covers the binary search in the array part, the doubling search in the
  hash part and the linear search that \<open>unbound_search\<close> falls back to.\<close>

theorem luaH_getn_border:
  assumes "table_ok t"
  shows "\<exists>n. luaH_getn t = Inr n \<and> (n = 0 \<or> tmap t (TNumber (cast_num (int n))) \<noteq> TNil) \<and>
    tmap t (TNumber (cast_num (int n + 1))) = TNil"
proof -
  obtain n where n: "luaH_getn t = Inr n" "boundary t n" using getn_spec [OF assms] by blast
  moreover have "int (Suc n) = int n + 1" by simp
  ultimately show ?thesis unfolding boundary_def tnum_def by metis
qed

theorem luaH_getn_border_witness:
  "table_ok sample_table \<and>
   (\<exists>n. luaH_getn sample_table = Inr n \<and> tmap sample_table (TNumber (cast_num (int n + 1))) = TNil)"
  using luaH_getn_border [OF sample_table_ok(1)] sample_table_ok(1) by blast

text \<open>The specialised setters: \<open>luaH_setnum\<close> for any C int and \<open>luaH_setstr\<close> for any string return a slot of the key in a
  table that is the same map as before, or raise ``table overflow''; a write through the slot changes the map at
  that key only.\<close>

theorem luaH_setnum_setstr:
  assumes "table_ok t" "fits_int i"
  shows "(luaH_setnum t i = Inl (ErrRun ''table overflow'') \<or>
     (\<exists>t' s. luaH_setnum t i = Inr (t', s) \<and> stored [(TNumber (cast_num i), v)] t (setslot t' s v))) \<and>
    (luaH_setstr t k = Inl (ErrRun ''table overflow'') \<or>
     (\<exists>t' s. luaH_setstr t k = Inr (t', s) \<and> stored [(TString k, v)] t (setslot t' s v)))"
proof -
  have "proper_key (TNumber (cast_num i))" using assms(2) by (simp add: proper_key_def valid_key_def)
  with setnum_total [OF assms] setstr_total [OF assms(1), of k] stored_setslot proper_string(1) [of k]
  show ?thesis unfolding table_overflow_def by blast
qed

theorem luaH_setnum_setstr_witness:
  "table_ok sample_table \<and> fits_int 2 \<and>
   (luaH_setnum sample_table 2 = Inl (ErrRun ''table overflow'') \<or>
     (\<exists>t' s. luaH_setnum sample_table 2 = Inr (t', s) \<and>
        stored [(TNumber (cast_num 2), TString ''v'')] sample_table (setslot t' s (TString ''v''))))"
  using luaH_setnum_setstr [OF sample_table_ok(1), of 2 "TString ''v''"] sample_table_ok(1)
  by (simp add: fits_int_def)

text \<open>Resizing the array part: \<open>luaH_resizearray\<close> keeps every binding of the table, also when the array shrinks and its
  tail has to move into the hash part, unless it raises ``table overflow''.\<close>

theorem luaH_resizearray_same_map:
  assumes "table_ok t" "nasize \<le> 2 ^ 26"
  shows "luaH_resizearray t nasize = Inl (ErrRun ''table overflow'') \<or>
    (\<exists>t'. luaH_resizearray t nasize = Inr t' \<and> table_ok t' \<and> (\<forall>q. live_key q \<longrightarrow> tmap t' q = tmap t q))"
  using resizearray_total [OF assms(1), of nasize] assms(2) by (simp add: table_overflow_def MAXASIZE_def)

theorem luaH_resizearray_same_map_witness:
  "table_ok sample_table \<and>
   (luaH_resizearray sample_table 1 = Inl (ErrRun ''table overflow'') \<or>
    (\<exists>t'. luaH_resizearray sample_table 1 = Inr t' \<and>
       tmap t' (TNumber (cast_num 3)) = tmap sample_table (TNumber (cast_num 3))))"
  using luaH_resizearray_same_map [OF sample_table_ok(1), of 1] sample_table_ok(1)
  by (auto simp: live_key_def)

text \<open>Errors of \<open>luaH_set\<close>: a nil key and a NaN key are refused with the messages of the code, on every
  well-formed table, and reading them gives nil.\<close>

theorem luaH_set_bad_keys:
  assumes "table_ok t" "num_isnan n"
  shows "luaH_set t TNil = Inl (ErrRun ''table index is nil'') \<and>
    luaH_set t (TNumber n) = Inl (ErrRun ''table index is NaN'') \<and> tmap t TNil = TNil \<and> tmap t (TNumber n) = TNil"
proof -
  have lk: "live_key TNil" "live_key (TNumber n)" by (simp_all add: live_key_def)
  have na: "\<not> in_array t (TNumber n)"
    using luai_numeq_nan [OF assms(2)] by (simp add: in_array_def arrayindex_number)
  have "absent (t_node t) (TNumber n)"
    using luai_numeq_nan [OF assms(2)] by (auto simp: absent_def rawequal_iff split: TValue.splits)
  with na have s: "slot_of t (TNumber n) NilObject" by (simp add: slot_of_nil)
  have s0: "slot_of t TNil NilObject"
    using live_absent [OF lk(1)] by (simp add: slot_of_nil in_array_def arrayindex_def)
  note g = tmap_slot [OF assms(1) lk(1) s0] tmap_slot [OF assms(1) lk(2) s]
  show ?thesis
    using g assms(2) by (simp add: luaH_set_def set_with_def deref_def ttisnil_def luai_numisnan_def)
qed

theorem luaH_set_bad_keys_witness:
  "table_ok sample_table \<and> num_isnan 0x7FF8000000000000 \<and>
   luaH_set sample_table (TNumber 0x7FF8000000000000) = Inl (ErrRun ''table index is NaN'')"
proof -
  have n: "num_isnan 0x7FF8000000000000" by (simp add: num_isnan_def num_exp_def num_frac_def)
  from luaH_set_bad_keys [OF sample_table_ok(1) n] n sample_table_ok(1) show ?thesis by blast
qed

text \<open>A new table: \<open>luaH_new\<close> gives a well-formed table that maps every key to nil, or raises ``table overflow'' when the
  requested hash size exceeds \<open>2^26\<close>.\<close>

theorem luaH_new_empty:
  assumes "narray \<le> 2 ^ 26"
  shows "(luaH_new narray nhash = Inl (ErrRun ''table overflow'') \<and> 2 ^ 26 < nhash) \<or>
    (\<exists>t. luaH_new narray nhash = Inr t \<and> table_ok t \<and> length (t_array t) = narray \<and> (\<forall>q. live_key q \<longrightarrow> tmap t q = TNil))"
proof (cases rule: setnodevector_cases [of "setarrayvector empty_table narray" nhash])
  case (1 t)
  have arr: "t_array t = replicate narray TNil" using 1(4) by (simp add: setarrayvector_def empty_table_def)
  then have lim: "int (length (t_array t)) \<le> MAXASIZE" using assms by (simp add: MAXASIZE_def)
  have "tmap t q = TNil" if "live_key q" for q
    using tmap_fresh [OF 1(2,3) lim that] arr by (auto simp: in_array_def)
  moreover have "luaH_new narray nhash = Inr t" using 1(1) by (simp add: luaH_new_def empty_table_def)
  ultimately show ?thesis using fresh_nodesD(1) [OF 1(2,3) lim] arr by simp
next
  case 2
  then show ?thesis by (simp add: luaH_new_def empty_table_def table_overflow_def MAXBITS_def)
qed

theorem luaH_new_empty_witness:
  "\<exists>t. luaH_new 2 4 = Inr t \<and> table_ok t \<and> tmap t (TString ''x'') = TNil"
  using luaH_new_empty [of 2 4] proper_string(2) by auto

end
