(* ===== verification/Bytes.thy ===== *)
theory Bytes
  imports Prelude
begin

text \<open>
  Machine integers as byte strings, shared by the precompiled chunks of \<^verbatim>\<open>src/lua\<close> and the wire formats of
  \<^verbatim>\<open>src/muduo/net\<close>.  Bytes are characters; \<open>le_bytes n x\<close> are the \<open>n\<close> low bytes of \<open>x\<close> as they are in the memory
  of a little-endian machine, and \<open>be_bytes n x\<close> the same in network order, as
  \<open>hostToNetwork16/32/64\<close> (\<^verbatim>\<open>src/muduo/net/Endian.h\<close>) lay them out.
\<close>

primrec le_bytes :: "nat \<Rightarrow> nat \<Rightarrow> string" where
  "le_bytes 0 x = []"
| "le_bytes (Suc n) x = char_of (x mod 256) # le_bytes n (x div 256)"

primrec le_value :: "string \<Rightarrow> nat" where
  "le_value [] = 0"
| "le_value (c # cs) = of_char c + 256 * le_value cs"

lemma length_le_bytes [simp]: "length (le_bytes n x) = n"
  by (induction n arbitrary: x) simp_all

lemma le_value_bytes: "le_value (le_bytes n x) = x mod 256 ^ n"
proof (induction n arbitrary: x)
  case (Suc n)
  have "x mod (256 * 256 ^ n) = 256 * (x div 256 mod 256 ^ n) + x mod 256"
    by (rule mod_mult2_eq)
  with Suc show ?case by simp
qed simp


definition be_bytes :: "nat \<Rightarrow> int \<Rightarrow> string" where
  "be_bytes n x = rev (le_bytes n (nat (x mod 256 ^ n)))"

definition be_value :: "string \<Rightarrow> nat" where
  "be_value s = le_value (rev s)"

text \<open>The value of an \<open>n\<close>-byte two's complement integer.\<close>

definition as_signed :: "nat \<Rightarrow> nat \<Rightarrow> int" where
  "as_signed n v = (if 2 * v < 256 ^ n then int v else int v - 256 ^ n)"

definition fits_bytes :: "nat \<Rightarrow> int \<Rightarrow> bool" where
  "fits_bytes n x \<longleftrightarrow> - (256 ^ n) \<le> 2 * x \<and> 2 * x < 256 ^ n"

lemma length_be_bytes [simp]: "length (be_bytes n x) = n"
  by (simp add: be_bytes_def)

lemma be_value_bytes: "int (be_value (be_bytes n x)) = x mod 256 ^ n"
  by (simp add: be_bytes_def be_value_def le_value_bytes zmod_int)

lemma as_signed_be_bytes: "fits_bytes n x \<Longrightarrow> as_signed n (be_value (be_bytes n x)) = x"
proof -
  assume f: "fits_bytes n x"
  define v where "v = be_value (be_bytes n x)"
  have v: "int v = x mod 256 ^ n" by (simp add: v_def be_value_bytes)
  have c: "2 * v < 256 ^ n \<longleftrightarrow> 2 * int v < 256 ^ n"
    by (metis of_nat_less_iff of_nat_mult of_nat_numeral of_nat_power)
  show ?thesis
  proof (cases "0 \<le> x")
    case True
    with f have "x mod 256 ^ n = x" by (intro mod_pos_pos_trivial) (auto simp: fits_bytes_def)
    with f True v show ?thesis unfolding as_signed_def v_def [symmetric] c by (simp add: fits_bytes_def)
  next
    case False
    have "x mod 256 ^ n = (x + 256 ^ n) mod 256 ^ n" by simp
    also have "\<dots> = x + 256 ^ n" using f False by (intro mod_pos_pos_trivial) (auto simp: fits_bytes_def)
    finally show ?thesis using f False v unfolding as_signed_def v_def [symmetric] c by (simp add: fits_bytes_def)
  qed
qed

end
