(* ===== verification/Zio.thy ===== *)
theory Zio
  imports Prelude
begin

text \<open>
  Buffered input streams: \<^verbatim>\<open>src/lua/lzio.h\<close> and \<^verbatim>\<open>src/lua/lzio.c\<close>.  The \<open>lua_Reader\<close> is a callback of the
  host; the model knows it by the list \<open>z_blocks\<close> of blocks it will deliver, after which it returns \<open>NULL\<close>.  A
  block of size 0 also ends the stream.  \<open>z_buf\<close> is the unread part of the current block (\<open>n\<close> bytes at \<open>p\<close>).
\<close>

record Zio =
  z_buf :: string
  z_blocks :: "string list"

definition luaZ_init :: "string list \<Rightarrow> Zio" where
  "luaZ_init reader = \<lparr>z_buf = [], z_blocks = reader\<rparr>"

text \<open>\<open>None\<close> is \<open>EOZ\<close>.\<close>

definition luaZ_fill :: "Zio \<Rightarrow> char option \<times> Zio" where
  "luaZ_fill z = (case z_blocks z of
       [] \<Rightarrow> (None, z)
     | [] # bs \<Rightarrow> (None, z\<lparr>z_blocks := bs\<rparr>)
     | (c # cs) # bs \<Rightarrow> (Some c, z\<lparr>z_buf := cs, z_blocks := bs\<rparr>))"

definition luaZ_lookahead :: "Zio \<Rightarrow> char option \<times> Zio" where
  "luaZ_lookahead z = (case z_buf z of
       c # cs \<Rightarrow> (Some c, z)
     | [] \<Rightarrow> (case luaZ_fill z of
                (None, z) \<Rightarrow> (None, z)
              | (Some c, z) \<Rightarrow> (Some c, z\<lparr>z_buf := c # z_buf z\<rparr>)))"

text \<open>\<open>luaZ_read\<close> copies up to \<open>n\<close> bytes and returns them with the number of missing bytes.\<close>

lemma lookahead_buf: "luaZ_lookahead z = (Some c, z') \<Longrightarrow> \<exists>cs. z_buf z' = c # cs"
  by (auto simp: luaZ_lookahead_def luaZ_fill_def split: list.splits)

function luaZ_read :: "Zio \<Rightarrow> nat \<Rightarrow> string \<times> nat \<times> Zio" where
  "luaZ_read z n =
     (if n = 0 then ([], 0, z)
      else case luaZ_lookahead z of
        (None, z) \<Rightarrow> ([], n, z)
      | (Some c, z) \<Rightarrow>
          (let m = (if n \<le> length (z_buf z) then n else length (z_buf z));
               b = take m (z_buf z);
               (b', r, z') = luaZ_read (z\<lparr>z_buf := drop m (z_buf z)\<rparr>) (n - m)
           in (b @ b', r, z')))"
  by pat_completeness auto
termination by (relation "measure snd") (auto dest!: sym [of _ "luaZ_lookahead _"] lookahead_buf)

declare luaZ_read.simps [simp del]

definition LUA_MINBUFFER :: nat where "LUA_MINBUFFER = 32"

text \<open>The size of the buffer after \<open>luaZ_openspace\<close>.\<close>

definition luaZ_openspace :: "nat \<Rightarrow> nat \<Rightarrow> nat" where
  "luaZ_openspace buffsize n =
     (if n > buffsize then (if n < LUA_MINBUFFER then LUA_MINBUFFER else n) else buffsize)"

section \<open>The bytes of a stream\<close>

fun zblocks_bytes :: "string list \<Rightarrow> string" where
  "zblocks_bytes [] = []"
| "zblocks_bytes (b # bs) = (if b = [] then [] else b @ zblocks_bytes bs)"

definition zbytes :: "Zio \<Rightarrow> string" where
  "zbytes z = z_buf z @ zblocks_bytes (z_blocks z)"

lemma zblocks_bytes_nonempty: "[] \<notin> set bs \<Longrightarrow> zblocks_bytes bs = concat bs"
  by (induction bs) auto

lemma lookahead_spec:
  "luaZ_lookahead z = (r, z') \<Longrightarrow> (case r of None \<Rightarrow> zbytes z = [] | Some c \<Rightarrow> zbytes z' = zbytes z \<and> z_buf z' \<noteq> [])"
  by (auto simp: luaZ_lookahead_def luaZ_fill_def zbytes_def split: list.splits)

lemma luaZ_read_spec:
  "luaZ_read z n = (b, r, z') \<Longrightarrow> b = take n (zbytes z) \<and> r = n - length (zbytes z) \<and>
     (n \<le> length (zbytes z) \<longrightarrow> zbytes z' = drop n (zbytes z))"
proof (induction z n arbitrary: b r z' rule: luaZ_read.induct)
  case (1 z n)
  show ?case
  proof (cases "n = 0")
    case True
    with "1.prems" show ?thesis by (subst (asm) luaZ_read.simps) auto
  next
    case False
    obtain la z1 where la: "luaZ_lookahead z = (la, z1)" by fastforce
    show ?thesis
    proof (cases la)
      case None
      with la lookahead_spec [OF la] "1.prems" False show ?thesis by (subst (asm) luaZ_read.simps) auto
    next
      case (Some c)
      let ?m = "if n \<le> length (z_buf z1) then n else length (z_buf z1)"
      obtain b' where b': "luaZ_read (z1\<lparr>z_buf := drop ?m (z_buf z1)\<rparr>) (n - ?m) = (b', r, z')" "b = take ?m (z_buf z1) @ b'"
        using "1.prems" False la Some by (subst (asm) luaZ_read.simps) (auto simp: Let_def split: prod.splits)
      have zb: "zbytes z1 = zbytes z" using lookahead_spec [OF la] Some by simp
      have d: "zbytes (z1\<lparr>z_buf := drop ?m (z_buf z1)\<rparr>) = drop ?m (zbytes z)"
        unfolding zb [symmetric] by (simp add: zbytes_def)
      have t: "take ?m (z_buf z1) = take ?m (zbytes z)" "?m \<le> length (zbytes z)" "?m \<le> n"
        unfolding zb [symmetric] by (auto simp: zbytes_def)
      have ih: "b' = take (n - ?m) (drop ?m (zbytes z)) \<and> r = (n - ?m) - (length (zbytes z) - ?m) \<and>
         (n - ?m \<le> length (zbytes z) - ?m \<longrightarrow> zbytes z' = drop (n - ?m) (drop ?m (zbytes z)))"
        using "1.IH" [OF False la [symmetric] Some refl refl b'(1)] d by simp
      have "take ?m (zbytes z) @ take (n - ?m) (drop ?m (zbytes z)) = take n (zbytes z)"
        by (metis t(3) take_add le_add_diff_inverse)
      with ih b'(2) t show ?thesis by (simp add: le_add_diff_inverse2)
    qed
  qed
qed

end
