(* ===== verification/CodeChecker.thy ===== *)
theory CodeChecker
  imports Objects
begin

text \<open>
  The bytecode verifier of \<^verbatim>\<open>src/lua/ldebug.c\<close>: \<open>precheck\<close>, \<open>luaG_checkopenop\<close>, \<open>checkArgMode\<close>,
  \<open>symbexec\<close> and \<open>luaG_checkcode\<close>.  The macro \<open>check\<close> leaves \<open>symbexec\<close> with the instruction 0; the
  model is an error monad whose \<open>Reject\<close> is that exit.  A read of \<open>pt->code\<close> or \<open>pt->k\<close> outside the
  vector is the value \<open>BadRead\<close>; the theorems show that it never happens.
\<close>

datatype check_exit = Reject | BadRead

type_synonym 'a chk = "check_exit + 'a"

definition check :: "bool \<Rightarrow> unit chk" where
  "check x = guardE x Reject"

definition code_at :: "Proto \<Rightarrow> int \<Rightarrow> Instruction chk" where
  "code_at pt pc = (if 0 \<le> pc \<and> pc < sizecode pt then Inr (p_code pt ! nat pc) else Inl BadRead)"

definition k_at :: "Proto \<Rightarrow> int \<Rightarrow> TValue chk" where
  "k_at pt b = (if 0 \<le> b \<and> b < sizek pt then Inr (p_k pt ! nat b) else Inl BadRead)"

definition MAXSTACK :: int where "MAXSTACK = 250"
definition LUA_MULTRET :: int where "LUA_MULTRET = -1"
definition VARARG_HASARG :: lu_byte where "VARARG_HASARG = 1"
definition VARARG_ISVARARG :: lu_byte where "VARARG_ISVARARG = 2"
definition VARARG_NEEDSARG :: lu_byte where "VARARG_NEEDSARG = 4"

definition maxstack :: "Proto \<Rightarrow> int" where
  "maxstack pt = uint (p_maxstacksize pt)"

definition checkreg :: "Proto \<Rightarrow> int \<Rightarrow> unit chk" where
  "checkreg pt reg = check (reg < maxstack pt)"

definition precheck :: "Proto \<Rightarrow> unit chk" where
  "precheck pt =
     bindE (check (maxstack pt \<le> MAXSTACK)) (\<lambda>_.
     bindE (check (uint (p_numparams pt) + uint (p_is_vararg pt AND VARARG_HASARG) \<le> maxstack pt)) (\<lambda>_.
     bindE (check (p_is_vararg pt AND VARARG_NEEDSARG = 0 \<or> p_is_vararg pt AND VARARG_HASARG \<noteq> 0)) (\<lambda>_.
     bindE (check (sizeupvalues pt \<le> uint (p_nups pt))) (\<lambda>_.
     bindE (check (sizelineinfo pt = sizecode pt \<or> sizelineinfo pt = 0)) (\<lambda>_.
     bindE (check (sizecode pt > 0)) (\<lambda>_.
     bindE (code_at pt (sizecode pt - 1)) (\<lambda>i. check (GET_OPCODE i = Some OP_RETURN))))))))"

definition luaG_checkopenop :: "Instruction \<Rightarrow> bool" where
  "luaG_checkopenop i =
     (case GET_OPCODE i of
        Some OP_CALL \<Rightarrow> GETARG_B i = 0
      | Some OP_TAILCALL \<Rightarrow> GETARG_B i = 0
      | Some OP_RETURN \<Rightarrow> GETARG_B i = 0
      | Some OP_SETLIST \<Rightarrow> GETARG_B i = 0
      | _ \<Rightarrow> False)"

definition checkopenop :: "Proto \<Rightarrow> int \<Rightarrow> unit chk" where
  "checkopenop pt pc = bindE (code_at pt (pc + 1)) (\<lambda>i. check (luaG_checkopenop i))"

definition checkArgMode :: "Proto \<Rightarrow> int \<Rightarrow> OpArgMask \<Rightarrow> bool" where
  "checkArgMode pt r mode = (case mode of
       OpArgN \<Rightarrow> r = 0
     | OpArgU \<Rightarrow> True
     | OpArgR \<Rightarrow> r < maxstack pt
     | OpArgK \<Rightarrow> if ISK r then INDEXK r < sizek pt else r < maxstack pt)"

text \<open>The backward scan over words that look like a \<open>SETLIST\<close> followed by a count: the final \<open>j\<close>.\<close>

definition looks_setlist :: "Instruction \<Rightarrow> bool" where
  "looks_setlist d \<longleftrightarrow> GET_OPCODE d = Some OP_SETLIST \<and> GETARG_C d = 0"

function setlist_run :: "Proto \<Rightarrow> int \<Rightarrow> int \<Rightarrow> int chk" where
  "setlist_run pt dest j =
     (if j < dest then
        bindE (code_at pt (dest - 1 - j)) (\<lambda>d.
          if looks_setlist d then setlist_run pt dest (j + 1) else Inr j)
      else Inr j)"
  by pat_completeness auto
termination by (relation "measure (\<lambda>(pt, dest, j). nat (dest - j))") auto

declare setlist_run.simps [simp del]

definition check_jump :: "Proto \<Rightarrow> int \<Rightarrow> unit chk" where
  "check_jump pt dest =
     bindE (check (0 \<le> dest \<and> dest < sizecode pt)) (\<lambda>_.
       if dest > 0 then bindE (setlist_run pt dest 0) (\<lambda>j. check (j AND 1 = 0)) else Inr ())"

text \<open>The first \<open>switch\<close>: the operands \<open>b\<close> and \<open>c\<close>, checked against the modes of the opcode.\<close>

definition symb_args :: "Proto \<Rightarrow> int \<Rightarrow> Instruction \<Rightarrow> OpCode \<Rightarrow> (int \<times> int) chk" where
  "symb_args pt pc i oc = (case getOpMode oc of
       iABC \<Rightarrow>
         bindE (check (checkArgMode pt (GETARG_B i) (getBMode oc))) (\<lambda>_.
         bindE (check (checkArgMode pt (GETARG_C i) (getCMode oc))) (\<lambda>_.
         Inr (GETARG_B i, GETARG_C i)))
     | iABx \<Rightarrow>
         bindE (if getBMode oc = OpArgK then check (GETARG_Bx i < sizek pt) else Inr ()) (\<lambda>_.
         Inr (GETARG_Bx i, 0))
     | iAsBx \<Rightarrow>
         bindE (if getBMode oc = OpArgR then check_jump pt (pc + 1 + GETARG_sBx i) else Inr ()) (\<lambda>_.
         Inr (GETARG_sBx i, 0)))"

fun check_upvals :: "Proto \<Rightarrow> int \<Rightarrow> nat \<Rightarrow> unit chk" where
  "check_upvals pt pc 0 = Inr ()"
| "check_upvals pt pc (Suc nup) =
     bindE (code_at pt (pc + 1)) (\<lambda>i.
     bindE (check (GET_OPCODE i = Some OP_GETUPVAL \<or> GET_OPCODE i = Some OP_MOVE)) (\<lambda>_.
     check_upvals pt (pc + 1) nup))"

text \<open>The second \<open>switch\<close>; the result is the new \<open>pc\<close> (before the \<open>pc++\<close> of the loop) and \<open>last\<close>.\<close>

definition symb_jump :: "int \<Rightarrow> int \<Rightarrow> int \<Rightarrow> int \<Rightarrow> int" where
  "symb_jump lastpc reg pc b =
     (let dest = pc + 1 + b in if reg \<noteq> NO_REG \<and> pc < dest \<and> dest \<le> lastpc then pc + b else pc)"

definition symb_call :: "Proto \<Rightarrow> int \<Rightarrow> int \<Rightarrow> int \<Rightarrow> int \<Rightarrow> int \<Rightarrow> int \<Rightarrow> (int \<times> int) chk" where
  "symb_call pt reg pc lst a b c =
     bindE (if b \<noteq> 0 then checkreg pt (a + b - 1) else Inr ()) (\<lambda>_.
     let c = c - 1 in
     bindE (if c = LUA_MULTRET then checkopenop pt pc
            else if c \<noteq> 0 then checkreg pt (a + c - 1) else Inr ()) (\<lambda>_.
     Inr (pc, if reg \<ge> a then pc else lst)))"

definition symb_op :: "Proto \<Rightarrow> int \<Rightarrow> int \<Rightarrow> int \<Rightarrow> int \<Rightarrow> OpCode \<Rightarrow> int \<Rightarrow> int \<Rightarrow> int \<Rightarrow> (int \<times> int) chk" where
  "symb_op pt lastpc reg pc lst oc a b c = (case oc of
       OP_LOADBOOL \<Rightarrow>
         if c = 1 then
           bindE (check (pc + 2 < sizecode pt)) (\<lambda>_.
           bindE (code_at pt (pc + 1)) (\<lambda>i.
           bindE (check (GET_OPCODE i \<noteq> Some OP_SETLIST \<or> GETARG_C i \<noteq> 0)) (\<lambda>_. Inr (pc, lst))))
         else Inr (pc, lst)
     | OP_LOADNIL \<Rightarrow> Inr (pc, if a \<le> reg \<and> reg \<le> b then pc else lst)
     | OP_GETUPVAL \<Rightarrow> bindE (check (b < uint (p_nups pt))) (\<lambda>_. Inr (pc, lst))
     | OP_SETUPVAL \<Rightarrow> bindE (check (b < uint (p_nups pt))) (\<lambda>_. Inr (pc, lst))
     | OP_GETGLOBAL \<Rightarrow> bindE (k_at pt b) (\<lambda>k. bindE (check (ttisstring k)) (\<lambda>_. Inr (pc, lst)))
     | OP_SETGLOBAL \<Rightarrow> bindE (k_at pt b) (\<lambda>k. bindE (check (ttisstring k)) (\<lambda>_. Inr (pc, lst)))
     | OP_SELF \<Rightarrow> bindE (checkreg pt (a + 1)) (\<lambda>_. Inr (pc, if reg = a + 1 then pc else lst))
     | OP_CONCAT \<Rightarrow> bindE (check (b < c)) (\<lambda>_. Inr (pc, lst))
     | OP_TFORLOOP \<Rightarrow>
         bindE (check (c \<ge> 1)) (\<lambda>_. bindE (checkreg pt (a + 2 + c)) (\<lambda>_.
         Inr (pc, if reg \<ge> a + 2 then pc else lst)))
     | OP_FORLOOP \<Rightarrow> bindE (checkreg pt (a + 3)) (\<lambda>_. Inr (symb_jump lastpc reg pc b, lst))
     | OP_FORPREP \<Rightarrow> bindE (checkreg pt (a + 3)) (\<lambda>_. Inr (symb_jump lastpc reg pc b, lst))
     | OP_JMP \<Rightarrow> Inr (symb_jump lastpc reg pc b, lst)
     | OP_CALL \<Rightarrow> symb_call pt reg pc lst a b c
     | OP_TAILCALL \<Rightarrow> symb_call pt reg pc lst a b c
     | OP_RETURN \<Rightarrow>
         (let b = b - 1 in
          bindE (if b > 0 then checkreg pt (a + b - 1) else Inr ()) (\<lambda>_. Inr (pc, lst)))
     | OP_SETLIST \<Rightarrow>
         bindE (if b > 0 then checkreg pt (a + b) else Inr ()) (\<lambda>_.
         if c = 0 then bindE (check (pc + 1 < sizecode pt - 1)) (\<lambda>_. Inr (pc + 1, lst)) else Inr (pc, lst))
     | OP_CLOSURE \<Rightarrow>
         bindE (check (b < sizep pt)) (\<lambda>_.
         let nup = uint (p_nups (p_p pt ! nat b)) in
         bindE (check (pc + nup < sizecode pt)) (\<lambda>_.
         bindE (check_upvals pt pc (nat nup)) (\<lambda>_.
         Inr (if reg \<noteq> NO_REG then pc + nup else pc, lst))))
     | OP_VARARG \<Rightarrow>
         bindE (check (p_is_vararg pt AND VARARG_ISVARARG \<noteq> 0 \<and> p_is_vararg pt AND VARARG_NEEDSARG = 0)) (\<lambda>_.
         let b = b - 1 in
         bindE (if b = LUA_MULTRET then checkopenop pt pc else Inr ()) (\<lambda>_.
         bindE (checkreg pt (a + b - 1)) (\<lambda>_. Inr (pc, lst))))
     | _ \<Rightarrow> Inr (pc, lst))"

text \<open>One iteration of the loop.\<close>

definition symb_step :: "Proto \<Rightarrow> int \<Rightarrow> int \<Rightarrow> int \<Rightarrow> int \<Rightarrow> (int \<times> int) chk" where
  "symb_step pt lastpc reg pc lst =
     bindE (code_at pt pc) (\<lambda>i.
     case GET_OPCODE i of
       None \<Rightarrow> Inl Reject
     | Some oc \<Rightarrow>
         let a = GETARG_A i in
         bindE (checkreg pt a) (\<lambda>_.
         bindE (symb_args pt pc i oc) (\<lambda>(b, c).
         let lst = (if testAMode oc \<and> a = reg then pc else lst) in
         bindE (if testTMode oc
                then bindE (check (pc + 2 < sizecode pt)) (\<lambda>_.
                     bindE (code_at pt (pc + 1)) (\<lambda>i. check (GET_OPCODE i = Some OP_JMP)))
                else Inr ()) (\<lambda>_.
         symb_op pt lastpc reg pc lst oc a b c))))"

lemma check_eq_Inr [simp]: "check x = Inr u \<longleftrightarrow> x"
  by (cases x) (auto simp: check_def)

lemma checkreg_eq_Inr [simp]: "checkreg pt r = Inr u \<longleftrightarrow> r < maxstack pt"
  by (simp add: checkreg_def)

lemma if_chk_eq_Inr: "(if b then m else Inr x) = Inr y \<longleftrightarrow> (if b then m = Inr y else x = y)"
  by simp

lemma symb_op_pc: "symb_op pt lastpc reg pc lst oc a b c = Inr (pc', lst') \<Longrightarrow> pc \<le> pc'"
  by (cases oc)
    (auto simp: symb_op_def symb_call_def symb_jump_def bindE_eq_Inr Let_def split: if_splits)

lemma symb_step_pc: "symb_step pt lastpc reg pc lst = Inr (pc', lst') \<Longrightarrow> pc \<le> pc'"
  by (auto simp: symb_step_def bindE_eq_Inr Let_def split: option.splits dest!: symb_op_pc)

function symbexec_loop :: "Proto \<Rightarrow> int \<Rightarrow> int \<Rightarrow> int \<Rightarrow> int \<Rightarrow> int chk" where
  "symbexec_loop pt lastpc reg pc lst =
     (if pc < lastpc then
        bindE (symb_step pt lastpc reg pc lst) (\<lambda>r.
          symbexec_loop pt lastpc reg (fst r + 1) (snd r))
      else Inr lst)"
  by pat_completeness auto
termination
proof (relation "measure (\<lambda>(pt, lastpc, reg, pc, lst). nat (lastpc - pc))")
  fix pt lastpc reg pc lst r
  assume "pc < lastpc" "symb_step pt lastpc reg pc lst = Inr r"
  then show "((pt, lastpc, reg, fst r + 1, snd r), pt, lastpc, reg, pc, lst)
    \<in> measure (\<lambda>(pt, lastpc, reg, pc, lst). nat (lastpc - pc))"
    using symb_step_pc [of pt lastpc reg pc lst "fst r" "snd r"] by simp
qed simp

declare symbexec_loop.simps [simp del]

text \<open>\<open>symbexec\<close> returns the instruction that last set \<open>reg\<close>, or 0 when a check fails.\<close>

definition symbexec_chk :: "Proto \<Rightarrow> int \<Rightarrow> int \<Rightarrow> Instruction chk" where
  "symbexec_chk pt lastpc reg =
     bindE (precheck pt) (\<lambda>_.
     bindE (symbexec_loop pt lastpc reg 0 (sizecode pt - 1)) (\<lambda>lst. code_at pt lst))"

definition symbexec :: "Proto \<Rightarrow> int \<Rightarrow> int \<Rightarrow> Instruction" where
  "symbexec pt lastpc reg = (case symbexec_chk pt lastpc reg of Inl _ \<Rightarrow> 0 | Inr i \<Rightarrow> i)"

definition luaG_checkcode :: "Proto \<Rightarrow> bool" where
  "luaG_checkcode pt \<longleftrightarrow> symbexec pt (sizecode pt) NO_REG \<noteq> 0"


section \<open>What accepted code may do\<close>

text \<open>The program counters the virtual machine may go to from \<open>pc\<close>: how the cases of \<open>luaV_execute\<close>
  (\<^verbatim>\<open>src/lua/lvm.c\<close>) advance \<open>pc\<close>.\<close>

definition instr :: "Proto \<Rightarrow> int \<Rightarrow> Instruction" where
  "instr pt pc = p_code pt ! nat pc"

definition vm_succs :: "Proto \<Rightarrow> int \<Rightarrow> int list" where
  "vm_succs pt pc = (let i = instr pt pc in case GET_OPCODE i of
       None \<Rightarrow> []
     | Some oc \<Rightarrow> (case oc of
         OP_LOADBOOL \<Rightarrow> [if GETARG_C i \<noteq> 0 then pc + 2 else pc + 1]
       | OP_JMP \<Rightarrow> [pc + 1 + GETARG_sBx i]
       | OP_EQ \<Rightarrow> [pc + 2, pc + 2 + GETARG_sBx (instr pt (pc + 1))]
       | OP_LT \<Rightarrow> [pc + 2, pc + 2 + GETARG_sBx (instr pt (pc + 1))]
       | OP_LE \<Rightarrow> [pc + 2, pc + 2 + GETARG_sBx (instr pt (pc + 1))]
       | OP_TEST \<Rightarrow> [pc + 2, pc + 2 + GETARG_sBx (instr pt (pc + 1))]
       | OP_TESTSET \<Rightarrow> [pc + 2, pc + 2 + GETARG_sBx (instr pt (pc + 1))]
       | OP_TFORLOOP \<Rightarrow> [pc + 2, pc + 2 + GETARG_sBx (instr pt (pc + 1))]
       | OP_FORLOOP \<Rightarrow> [pc + 1, pc + 1 + GETARG_sBx i]
       | OP_FORPREP \<Rightarrow> [pc + 1 + GETARG_sBx i]
       | OP_RETURN \<Rightarrow> []
       | OP_SETLIST \<Rightarrow> [if GETARG_C i = 0 then pc + 2 else pc + 1]
       | OP_CLOSURE \<Rightarrow> [pc + 1 + uint (p_nups (p_p pt ! nat (GETARG_Bx i)))]
       | _ \<Rightarrow> [pc + 1]))"

inductive vm_reach :: "Proto \<Rightarrow> int \<Rightarrow> bool" for pt where
  entry: "vm_reach pt 0"
| step: "vm_reach pt pc \<Longrightarrow> pc' \<in> set (vm_succs pt pc) \<Longrightarrow> vm_reach pt pc'"

text \<open>The registers of its own frame and the constants an instruction names.  (The call of a \<open>TFORLOOP\<close> also uses
  three slots above its base, which the \<open>EXTRA_STACK\<close> reserve of every frame provides.)\<close>

definition rk_reg :: "int \<Rightarrow> int list" where
  "rk_reg r = (if ISK r then [] else [r])"

definition rk_const :: "int \<Rightarrow> int list" where
  "rk_const r = (if ISK r then [INDEXK r] else [])"

definition regs_used :: "Instruction \<Rightarrow> int list" where
  "regs_used i = (let a = GETARG_A i; b = GETARG_B i; c = GETARG_C i in case GET_OPCODE i of
       None \<Rightarrow> []
     | Some oc \<Rightarrow> (case oc of
         OP_MOVE \<Rightarrow> [a, b] | OP_UNM \<Rightarrow> [a, b] | OP_NOT \<Rightarrow> [a, b] | OP_LEN \<Rightarrow> [a, b] | OP_TESTSET \<Rightarrow> [a, b]
       | OP_LOADNIL \<Rightarrow> [a..b]
       | OP_GETTABLE \<Rightarrow> a # b # rk_reg c
       | OP_SETTABLE \<Rightarrow> a # rk_reg b @ rk_reg c
       | OP_SELF \<Rightarrow> a # (a + 1) # b # rk_reg c
       | OP_ADD \<Rightarrow> a # rk_reg b @ rk_reg c | OP_SUB \<Rightarrow> a # rk_reg b @ rk_reg c
       | OP_MUL \<Rightarrow> a # rk_reg b @ rk_reg c | OP_DIV \<Rightarrow> a # rk_reg b @ rk_reg c
       | OP_MOD \<Rightarrow> a # rk_reg b @ rk_reg c | OP_POW \<Rightarrow> a # rk_reg b @ rk_reg c
       | OP_EQ \<Rightarrow> rk_reg b @ rk_reg c | OP_LT \<Rightarrow> rk_reg b @ rk_reg c | OP_LE \<Rightarrow> rk_reg b @ rk_reg c
       | OP_CONCAT \<Rightarrow> a # [b..c]
       | OP_JMP \<Rightarrow> []
       | OP_CALL \<Rightarrow> a # [a..a + b - 1] @ [a..a + c - 2]
       | OP_TAILCALL \<Rightarrow> a # [a..a + b - 1] @ [a..a + c - 2]
       | OP_RETURN \<Rightarrow> [a..a + b - 2]
       | OP_FORLOOP \<Rightarrow> [a..a + 3] | OP_FORPREP \<Rightarrow> [a..a + 3]
       | OP_TFORLOOP \<Rightarrow> [a..a + 2 + c]
       | OP_SETLIST \<Rightarrow> [a..a + b]
       | OP_VARARG \<Rightarrow> [a..a + b - 2]
       | _ \<Rightarrow> [a]))"

definition consts_used :: "Instruction \<Rightarrow> int list" where
  "consts_used i = (let b = GETARG_B i; c = GETARG_C i in case GET_OPCODE i of
       None \<Rightarrow> []
     | Some oc \<Rightarrow> (case oc of
         OP_LOADK \<Rightarrow> [GETARG_Bx i] | OP_GETGLOBAL \<Rightarrow> [GETARG_Bx i] | OP_SETGLOBAL \<Rightarrow> [GETARG_Bx i]
       | OP_GETTABLE \<Rightarrow> rk_const c | OP_SELF \<Rightarrow> rk_const c
       | OP_SETTABLE \<Rightarrow> rk_const b @ rk_const c
       | OP_ADD \<Rightarrow> rk_const b @ rk_const c | OP_SUB \<Rightarrow> rk_const b @ rk_const c
       | OP_MUL \<Rightarrow> rk_const b @ rk_const c | OP_DIV \<Rightarrow> rk_const b @ rk_const c
       | OP_MOD \<Rightarrow> rk_const b @ rk_const c | OP_POW \<Rightarrow> rk_const b @ rk_const c
       | OP_EQ \<Rightarrow> rk_const b @ rk_const c | OP_LT \<Rightarrow> rk_const b @ rk_const c | OP_LE \<Rightarrow> rk_const b @ rk_const c
       | _ \<Rightarrow> []))"

lemma mode_tables:
  "getOpMode oc = (case oc of OP_LOADK \<Rightarrow> iABx | OP_GETGLOBAL \<Rightarrow> iABx | OP_SETGLOBAL \<Rightarrow> iABx | OP_CLOSURE \<Rightarrow> iABx
     | OP_JMP \<Rightarrow> iAsBx | OP_FORLOOP \<Rightarrow> iAsBx | OP_FORPREP \<Rightarrow> iAsBx | _ \<Rightarrow> iABC)"
  "testTMode oc = (case oc of OP_EQ \<Rightarrow> True | OP_LT \<Rightarrow> True | OP_LE \<Rightarrow> True | OP_TEST \<Rightarrow> True | OP_TESTSET \<Rightarrow> True
     | OP_TFORLOOP \<Rightarrow> True | _ \<Rightarrow> False)"
  by (cases oc; simp add: getOpMode_def testTMode_def opmode_def)+

lemma bmode_table:
  "getBMode oc = (case oc of OP_MOVE \<Rightarrow> OpArgR | OP_LOADK \<Rightarrow> OpArgK | OP_LOADNIL \<Rightarrow> OpArgR | OP_GETGLOBAL \<Rightarrow> OpArgK
     | OP_GETTABLE \<Rightarrow> OpArgR | OP_SETGLOBAL \<Rightarrow> OpArgK | OP_SETTABLE \<Rightarrow> OpArgK | OP_SELF \<Rightarrow> OpArgR
     | OP_ADD \<Rightarrow> OpArgK | OP_SUB \<Rightarrow> OpArgK | OP_MUL \<Rightarrow> OpArgK | OP_DIV \<Rightarrow> OpArgK | OP_MOD \<Rightarrow> OpArgK
     | OP_POW \<Rightarrow> OpArgK | OP_UNM \<Rightarrow> OpArgR | OP_NOT \<Rightarrow> OpArgR | OP_LEN \<Rightarrow> OpArgR | OP_CONCAT \<Rightarrow> OpArgR
     | OP_JMP \<Rightarrow> OpArgR | OP_EQ \<Rightarrow> OpArgK | OP_LT \<Rightarrow> OpArgK | OP_LE \<Rightarrow> OpArgK | OP_TEST \<Rightarrow> OpArgR
     | OP_TESTSET \<Rightarrow> OpArgR | OP_FORLOOP \<Rightarrow> OpArgR | OP_FORPREP \<Rightarrow> OpArgR
     | OP_TFORLOOP \<Rightarrow> OpArgN | OP_CLOSE \<Rightarrow> OpArgN | _ \<Rightarrow> OpArgU)"
  by (cases oc; simp add: getBMode_def opmode_def argmask_of_def)

lemma cmode_table:
  "getCMode oc = (case oc of OP_LOADBOOL \<Rightarrow> OpArgU | OP_GETTABLE \<Rightarrow> OpArgK | OP_SETTABLE \<Rightarrow> OpArgK
     | OP_NEWTABLE \<Rightarrow> OpArgU | OP_SELF \<Rightarrow> OpArgK | OP_ADD \<Rightarrow> OpArgK | OP_SUB \<Rightarrow> OpArgK | OP_MUL \<Rightarrow> OpArgK
     | OP_DIV \<Rightarrow> OpArgK | OP_MOD \<Rightarrow> OpArgK | OP_POW \<Rightarrow> OpArgK | OP_CONCAT \<Rightarrow> OpArgR | OP_EQ \<Rightarrow> OpArgK
     | OP_LT \<Rightarrow> OpArgK | OP_LE \<Rightarrow> OpArgK | OP_TEST \<Rightarrow> OpArgU | OP_TESTSET \<Rightarrow> OpArgU
     | OP_CALL \<Rightarrow> OpArgU | OP_TAILCALL \<Rightarrow> OpArgU | OP_TFORLOOP \<Rightarrow> OpArgU | OP_SETLIST \<Rightarrow> OpArgU | _ \<Rightarrow> OpArgN)"
  by (cases oc; simp add: getCMode_def opmode_def argmask_of_def)


section \<open>One checked instruction\<close>

text \<open>The facts a successful iteration establishes.\<close>

lemma symb_stepD:
  assumes "symb_step pt n reg pc lst = Inr r"
  obtains oc b c lst' where "0 \<le> pc" "pc < sizecode pt" "GET_OPCODE (instr pt pc) = Some oc"
    "GETARG_A (instr pt pc) < maxstack pt" "symb_args pt pc (instr pt pc) oc = Inr (b, c)"
    "testTMode oc \<Longrightarrow> pc + 2 < sizecode pt \<and> GET_OPCODE (instr pt (pc + 1)) = Some OP_JMP"
    "symb_op pt n reg pc lst' oc (GETARG_A (instr pt pc)) b c = Inr r"
  using assms
  by (auto simp: symb_step_def bindE_eq_Inr code_at_def instr_def Let_def split: if_splits option.splits)

lemma INDEXK_nonneg: "0 \<le> r \<Longrightarrow> 0 \<le> INDEXK r"
  by (simp add: INDEXK_def)

lemma arg_ok:
  assumes "checkArgMode pt r OpArgK" "0 \<le> r"
  shows "set (rk_reg r) \<subseteq> {0..<maxstack pt}" "set (rk_const r) \<subseteq> {0..<sizek pt}"
  using assms INDEXK_nonneg [of r] by (auto simp: checkArgMode_def rk_reg_def rk_const_def split: if_splits)

lemmas step_simps = symb_args_def symb_op_def symb_call_def bindE_eq_Inr Let_def mode_tables bmode_table cmode_table

lemma checked_regs:
  assumes "symb_step pt n reg pc lst = Inr r"
  shows "set (regs_used (instr pt pc)) \<subseteq> {0..<maxstack pt}" "set (consts_used (instr pt pc)) \<subseteq> {0..<sizek pt}"
proof -
  let ?i = "instr pt pc"
  obtain oc b c lst' where o: "GET_OPCODE ?i = Some oc" "GETARG_A ?i < maxstack pt"
    "symb_args pt pc ?i oc = Inr (b, c)" "symb_op pt n reg pc lst' oc (GETARG_A ?i) b c = Inr r"
    using symb_stepD [OF assms] by metis
  define a' b' c' where d: "a' = GETARG_A ?i" "b' = GETARG_B ?i" "c' = GETARG_C ?i"
  have bd: "0 \<le> a'" "0 \<le> b'" "0 \<le> c'" by (simp_all add: d)
  note o' = o(2-4) [unfolded symb_args_def, folded d]
  show "set (regs_used ?i) \<subseteq> {0..<maxstack pt}"
    using o(1) o' bd arg_ok(1) [OF _ bd(2), of pt] arg_ok(1) [OF _ bd(3), of pt]
    by (cases oc) (auto simp: regs_used_def d [symmetric] step_simps checkArgMode_def [of _ _ OpArgR] LUA_MULTRET_def
      split: if_splits)
  show "set (consts_used ?i) \<subseteq> {0..<sizek pt}"
    using o(1) o' bd arg_ok(2) [OF _ bd(2), of pt] arg_ok(2) [OF _ bd(3), of pt]
    by (cases oc) (auto simp: consts_used_def d [symmetric] step_simps split: if_splits)
qed

section \<open>Instruction boundaries\<close>

text \<open>The positions that hold instructions, as opposed to the count that follows a \<open>SETLIST\<close> with \<open>C = 0\<close>.\<close>

definition next_start :: "Proto \<Rightarrow> int \<Rightarrow> int" where
  "next_start pt pc = (if looks_setlist (instr pt pc) then pc + 2 else pc + 1)"

inductive start :: "Proto \<Rightarrow> int \<Rightarrow> bool" for pt where
  zero: "start pt 0"
| nxt: "start pt pc \<Longrightarrow> pc < sizecode pt \<Longrightarrow> start pt (next_start pt pc)"

lemma start_nonneg: "start pt pc \<Longrightarrow> 0 \<le> pc"
  by (induction rule: start.induct) (auto simp: next_start_def)

lemma symb_step_next:
  assumes "symb_step pt n NO_REG pc lst = Inr (pc', lst')"
  shows "pc' + 1 = next_start pt pc"
proof -
  let ?i = "instr pt pc"
  obtain oc b c l where o: "GET_OPCODE ?i = Some oc" "symb_args pt pc ?i oc = Inr (b, c)"
    "symb_op pt n NO_REG pc l oc (GETARG_A ?i) b c = Inr (pc', lst')"
    using symb_stepD [OF assms] by metis
  then show ?thesis
    by (cases oc) (auto simp: step_simps symb_jump_def next_start_def looks_setlist_def split: if_splits)
qed

lemma next_start_gt: "pc < next_start pt pc"
  by (simp add: next_start_def)

lemma start_funpow: "start pt s \<Longrightarrow> \<exists>k. s = (next_start pt ^^ k) 0"
proof (induction rule: start.induct)
  case zero
  show ?case by (rule exI [of _ 0]) simp
next
  case (nxt pc)
  then obtain k where "pc = (next_start pt ^^ k) 0" by blast
  then show ?case by (intro exI [of _ "Suc k"]) simp
qed

lemma start_gap:
  assumes "start pt pc" "start pt s" "pc < s"
  shows "next_start pt pc \<le> s"
proof -
  let ?f = "\<lambda>k. (next_start pt ^^ k) 0"
  obtain j k where jk: "pc = ?f j" "s = ?f k" using start_funpow assms by metis
  have mono: "strict_mono ?f" by (simp add: strict_mono_Suc_iff next_start_gt)
  have "j < k" using strict_mono_less [OF mono, of j k] jk assms(3) by simp
  then have "?f (Suc j) \<le> ?f k" using strict_mono_less_eq [OF mono, of "Suc j" k] by simp
  with jk show ?thesis by simp
qed

lemma full_check_visits:
  "symbexec_loop pt n reg pc lst = Inr l \<Longrightarrow> reg = NO_REG \<Longrightarrow> n = sizecode pt \<Longrightarrow> start pt s \<Longrightarrow> start pt pc \<Longrightarrow>
   pc \<le> s \<Longrightarrow> s < n \<Longrightarrow> \<exists>lst r. symb_step pt n NO_REG s lst = Inr r"
proof (induction pt n reg pc lst rule: symbexec_loop.induct)
  case (1 pt n reg pc lst)
  have lt: "pc < n" using "1.prems" by linarith
  with "1.prems"(1) obtain r where r: "symb_step pt n reg pc lst = Inr r"
    "symbexec_loop pt n reg (fst r + 1) (snd r) = Inr l"
    by (subst (asm) symbexec_loop.simps) (auto simp: bindE_eq_Inr)
  have nx: "fst r + 1 = next_start pt pc"
    using symb_step_next [of pt n pc lst "fst r" "snd r"] r(1) "1.prems"(2) by simp
  show ?case
  proof (cases "s = pc")
    case True
    with r "1.prems"(2) show ?thesis by blast
  next
    case False
    with "1.prems" have "next_start pt pc \<le> s" by (intro start_gap) auto
    moreover have "start pt (next_start pt pc)" using "1.prems" lt by (intro start.nxt) auto
    ultimately show ?thesis
      using "1.IH" [OF lt r(1)] r(2) "1.prems" unfolding nx by blast
  qed
qed


text \<open>Every position is a start or the count of a preceding \<open>SETLIST\<close>.\<close>

lemma start_or_count:
  "int n \<le> sizecode pt \<Longrightarrow> start pt (int n) \<or> (0 < n \<and> start pt (int n - 1) \<and> looks_setlist (instr pt (int n - 1)))"
proof (induction n)
  case 0
  show ?case by (simp add: start.zero)
next
  case (Suc n)
  then have lt: "int n < sizecode pt" and le: "int n \<le> sizecode pt" by simp_all
  from Suc.IH [OF le] show ?case
  proof
    assume s: "start pt (int n)"
    from start.nxt [OF s lt] s show ?thesis by (auto simp: next_start_def add.commute split: if_splits)
  next
    assume c: "0 < n \<and> start pt (int n - 1) \<and> looks_setlist (instr pt (int n - 1))"
    with start.nxt [of pt "int n - 1"] lt show ?thesis by (simp add: next_start_def)
  qed
qed

lemma setlist_run_spec:
  "setlist_run pt dest j = Inr j' \<Longrightarrow> 0 \<le> j \<Longrightarrow> j \<le> dest \<Longrightarrow>
   j \<le> j' \<and> j' \<le> dest \<and> (\<forall>i. j \<le> i \<and> i < j' \<longrightarrow> looks_setlist (instr pt (dest - 1 - i))) \<and>
   (j' = dest \<or> \<not> looks_setlist (instr pt (dest - 1 - j')))"
proof (induction pt dest j rule: setlist_run.induct)
  case (1 pt dest j)
  show ?case
  proof (cases "j < dest")
    case True
    with "1.prems"(1) obtain d where d: "code_at pt (dest - 1 - j) = Inr d"
      "(if looks_setlist d then setlist_run pt dest (j + 1) else Inr j) = Inr j'"
      by (subst (asm) setlist_run.simps) (auto simp: bindE_eq_Inr)
    have di: "d = instr pt (dest - 1 - j)" using d(1) by (auto simp: code_at_def instr_def split: if_splits)
    show ?thesis
    proof (cases "looks_setlist d")
      case look: True
      have ih: "j + 1 \<le> j' \<and> j' \<le> dest \<and> (\<forall>i. j + 1 \<le> i \<and> i < j' \<longrightarrow> looks_setlist (instr pt (dest - 1 - i))) \<and>
        (j' = dest \<or> \<not> looks_setlist (instr pt (dest - 1 - j')))"
        using "1.IH" [OF True d(1) look] d(2) look "1.prems"(2) True by simp
      moreover have "looks_setlist (instr pt (dest - 1 - i))" if "j \<le> i" "i < j'" for i
        using ih that look di by (cases "i = j") auto
      ultimately show ?thesis by auto
    next
      case False
      with d(2) di "1.prems"(2) True show ?thesis by auto
    qed
  next
    case False
    with "1.prems" show ?thesis by (subst (asm) setlist_run.simps) auto
  qed
qed

lemma start_run:
  "start pt q \<Longrightarrow> q + 2 * int m \<le> sizecode pt \<Longrightarrow> (\<forall>p. q \<le> p \<and> p < q + 2 * int m \<longrightarrow> looks_setlist (instr pt p)) \<Longrightarrow>
   start pt (q + 2 * int m)"
proof (induction m)
  case (Suc m)
  then have "start pt (q + 2 * int m)" by simp
  from start.nxt [OF this] Suc.prems show ?case by (simp add: next_start_def algebra_simps)
qed simp

lemma check_jump_start:
  assumes "check_jump pt dest = Inr ()"
  shows "start pt dest" "0 \<le> dest" "dest < sizecode pt"
proof -
  from assms show r: "0 \<le> dest" "dest < sizecode pt" by (auto simp: check_jump_def bindE_eq_Inr)
  show "start pt dest"
  proof (cases "dest = 0")
    case True
    then show ?thesis by (simp add: start.zero)
  next
    case False
    with assms r obtain j where j: "setlist_run pt dest 0 = Inr j" "j AND 1 = 0"
      by (auto simp: check_jump_def bindE_eq_Inr)
    have sp: "0 \<le> j" "j \<le> dest" "\<And>i. 0 \<le> i \<Longrightarrow> i < j \<Longrightarrow> looks_setlist (instr pt (dest - 1 - i))"
      "j = dest \<or> \<not> looks_setlist (instr pt (dest - 1 - j))"
      using setlist_run_spec [OF j(1)] r by auto
    define q where "q = dest - j"
    have "even j" using j(2) by (simp add: and_one_eq even_iff_mod_2_eq_zero)
    then obtain m where m: "j = 2 * int m" using sp(1) by (metis evenE nonneg_int_cases zero_le_mult_iff zero_less_numeral not_le order_less_le)
    have "start pt q"
    proof (cases "j = dest")
      case True
      then show ?thesis by (simp add: q_def start.zero)
    next
      case ne: False
      then have q: "int (nat q) = q" "dest - 1 - j = q - 1" "q \<le> sizecode pt"
        using sp(1,2) r by (simp_all add: q_def)
      have "\<not> looks_setlist (instr pt (q - 1))" using sp(4) ne unfolding q(2) by blast
      with start_or_count [of "nat q" pt, unfolded q(1)] q(3) show ?thesis by blast
    qed
    moreover have "looks_setlist (instr pt p)" if "q \<le> p" "p < q + 2 * int m" for p
      using sp(3) [of "dest - 1 - p"] that m by (simp add: q_def)
    ultimately have "start pt (q + 2 * int m)" using r m by (intro start_run) (auto simp: q_def)
    with m show ?thesis by (simp add: q_def)
  qed
qed


section \<open>Properties\<close>

lemma check_upvals_spec:
  "check_upvals pt pc nup = Inr () \<Longrightarrow> j < nup \<Longrightarrow>
   GET_OPCODE (instr pt (pc + 1 + int j)) \<in> {Some OP_GETUPVAL, Some OP_MOVE}"
proof (induction pt pc nup arbitrary: j rule: check_upvals.induct)
  case (2 pt pc nup)
  show ?case
  proof (cases j)
    case 0
    with "2.prems" show ?thesis by (auto simp: bindE_eq_Inr code_at_def instr_def split: if_splits)
  next
    case (Suc j')
    with "2.prems" "2.IH" [of _ "()" j'] show ?thesis by (auto simp: bindE_eq_Inr algebra_simps)
  qed
qed simp

lemma start_step1: "start pt pc \<Longrightarrow> pc < sizecode pt \<Longrightarrow> \<not> looks_setlist (instr pt pc) \<Longrightarrow> start pt (pc + 1)"
  using start.nxt [of pt pc] by (simp add: next_start_def)

lemma start_steps:
  "start pt pc \<Longrightarrow> pc + int n \<le> sizecode pt \<Longrightarrow> (\<And>j. j < n \<Longrightarrow> \<not> looks_setlist (instr pt (pc + int j))) \<Longrightarrow> start pt (pc + int n)"
proof (induction n)
  case (Suc n)
  then have "start pt (pc + int n)" by simp
  from start_step1 [OF this] Suc.prems(2,3) show ?case by (simp add: algebra_simps)
qed simp

text \<open>The verified code: \<open>precheck\<close> and every instruction.\<close>

lemma checkcode_all:
  assumes "luaG_checkcode pt"
  shows "GET_OPCODE (instr pt (sizecode pt - 1)) = Some OP_RETURN" "0 < sizecode pt"
    "start pt s \<Longrightarrow> s < sizecode pt \<Longrightarrow> \<exists>lst r. symb_step pt (sizecode pt) NO_REG s lst = Inr r"
proof -
  from assms obtain i where "symbexec_chk pt (sizecode pt) NO_REG = Inr i"
    by (auto simp: luaG_checkcode_def symbexec_def split: sum.splits)
  then obtain l where p: "precheck pt = Inr ()" and l: "symbexec_loop pt (sizecode pt) NO_REG 0 (sizecode pt - 1) = Inr l"
    by (auto simp: symbexec_chk_def bindE_eq_Inr)
  from p show "GET_OPCODE (instr pt (sizecode pt - 1)) = Some OP_RETURN" "0 < sizecode pt"
    by (auto simp: precheck_def bindE_eq_Inr code_at_def instr_def split: if_splits)
  show "start pt s \<Longrightarrow> s < sizecode pt \<Longrightarrow> \<exists>lst r. symb_step pt (sizecode pt) NO_REG s lst = Inr r"
    by (rule full_check_visits [OF l]) (auto simp: start.zero start_nonneg)
qed

definition canonical_loadbool :: "Proto \<Rightarrow> bool" where
  "canonical_loadbool pt \<longleftrightarrow> (\<forall>i \<in> set (p_code pt). GET_OPCODE i = Some OP_LOADBOOL \<longrightarrow> GETARG_C i \<le> 1)"

text \<open>Jumps of verified code.\<close>

lemma jump_ok:
  assumes ck: "luaG_checkcode pt" and s: "start pt pc" "pc < sizecode pt"
    and oc: "GET_OPCODE (instr pt pc) \<in> {Some OP_JMP, Some OP_FORLOOP, Some OP_FORPREP}"
  shows "start pt (pc + 1 + GETARG_sBx (instr pt pc))" "pc + 1 + GETARG_sBx (instr pt pc) < sizecode pt"
proof -
  obtain lst r where "symb_step pt (sizecode pt) NO_REG pc lst = Inr r" using checkcode_all(3) [OF ck s] by blast
  then obtain oc b c where o: "GET_OPCODE (instr pt pc) = Some oc" "symb_args pt pc (instr pt pc) oc = Inr (b, c)"
    using symb_stepD by metis
  with oc have "check_jump pt (pc + 1 + GETARG_sBx (instr pt pc)) = Inr ()"
    by (auto simp: symb_args_def mode_tables bmode_table bindE_eq_Inr)
  from check_jump_start [OF this] show "start pt (pc + 1 + GETARG_sBx (instr pt pc))"
    "pc + 1 + GETARG_sBx (instr pt pc) < sizecode pt" by simp_all
qed

lemma succ_ok:
  assumes ck: "luaG_checkcode pt" and lb: "canonical_loadbool pt" and s: "start pt pc" "pc < sizecode pt"
    and nx: "pc' \<in> set (vm_succs pt pc)"
  shows "start pt pc' \<and> pc' < sizecode pt"
proof -
  let ?i = "instr pt pc"
  note ca = checkcode_all [OF ck]
  obtain lst r where "symb_step pt (sizecode pt) NO_REG pc lst = Inr r" using ca(3) [OF s] by blast
  then obtain oc b c l where o: "GET_OPCODE ?i = Some oc" "symb_args pt pc ?i oc = Inr (b, c)"
    "testTMode oc \<Longrightarrow> pc + 2 < sizecode pt \<and> GET_OPCODE (instr pt (pc + 1)) = Some OP_JMP"
    "symb_op pt (sizecode pt) NO_REG pc l oc (GETARG_A ?i) b c = Inr r"
    using symb_stepD by metis
  have s0: "0 \<le> pc" by (rule start_nonneg [OF s(1)])
  have nlast: "pc + 1 < sizecode pt" if "oc \<noteq> OP_RETURN"
    using ca(1) o(1) that s(2) by (cases "pc = sizecode pt - 1") auto
  have n1: "start pt (pc + 1)" if "oc \<noteq> OP_SETLIST"
    using start_step1 [OF s] o(1) that by (simp add: looks_setlist_def)
  consider (test) "testTMode oc" | (loadbool) "oc = OP_LOADBOOL" | (setlist) "oc = OP_SETLIST" | (closure) "oc = OP_CLOSURE"
    | (jump) "oc \<in> {OP_JMP, OP_FORLOOP, OP_FORPREP}" | (ret) "oc = OP_RETURN"
    | (plain) "vm_succs pt pc = [pc + 1]" "oc \<noteq> OP_SETLIST" "oc \<noteq> OP_RETURN"
    using o(1) by (cases oc) (simp_all add: mode_tables vm_succs_def)
  then show ?thesis
  proof cases
    case test
    have ns: "oc \<noteq> OP_SETLIST" using test by (auto simp: mode_tables)
    have j: "pc + 2 < sizecode pt" "GET_OPCODE (instr pt (pc + 1)) = Some OP_JMP" using o(3) [OF test] by auto
    have "pc' = pc + 2 \<or> pc' = pc + 1 + 1 + GETARG_sBx (instr pt (pc + 1))"
      using nx o(1) test by (cases oc) (auto simp: vm_succs_def mode_tables)
    moreover have "start pt (pc + 1 + 1)"
      using start_step1 [OF n1 [OF ns]] j by (simp add: looks_setlist_def)
    moreover note jump_ok [OF ck n1 [OF ns]]
    ultimately show ?thesis using j by (auto simp: ac_simps)
  next
    case loadbool
    have "?i \<in> set (p_code pt)" using s(2) s0 by (simp add: instr_def)
    with lb o(1) loadbool have "GETARG_C ?i \<le> 1" by (auto simp: canonical_loadbool_def)
    then consider "GETARG_C ?i = 0" | "GETARG_C ?i = 1" using GETARG_bounds(5) [of ?i] by linarith
    then show ?thesis
    proof cases
      case 1
      with nx o(1) loadbool n1 nlast show ?thesis by (simp add: vm_succs_def)
    next
      case 2
      with o(2,4) loadbool have j: "pc + 2 < sizecode pt" "\<not> looks_setlist (instr pt (pc + 1))"
        by (auto simp: step_simps code_at_def instr_def looks_setlist_def split: if_splits)
      with start_step1 [OF n1] loadbool nlast have "start pt (pc + 1 + 1)" by simp
      with nx o(1) loadbool 2 j(1) show ?thesis by (simp add: vm_succs_def add.commute)
    qed
  next
    case setlist
    with o(2,4) have c0: "GETARG_C ?i = 0 \<Longrightarrow> pc + 2 < sizecode pt" by (auto simp: step_simps split: if_splits)
    have "pc' = next_start pt pc" using nx o(1) setlist by (simp add: vm_succs_def next_start_def looks_setlist_def split: if_splits)
    with start.nxt [OF s] c0 nlast setlist o(1) show ?thesis
      by (auto simp: next_start_def looks_setlist_def split: if_splits)
  next
    case closure
    define nup where "nup = nat (uint (p_nups (p_p pt ! nat (GETARG_Bx ?i))))"
    have nu: "int nup = uint (p_nups (p_p pt ! nat (GETARG_Bx ?i)))" by (simp add: nup_def)
    from o(2,4) closure have c: "pc + int nup < sizecode pt" "check_upvals pt pc nup = Inr ()"
      by (auto simp: step_simps nu nup_def split: if_splits)
    have up: "GET_OPCODE (instr pt (pc + 1 + int j)) \<in> {Some OP_GETUPVAL, Some OP_MOVE}" if "j < nup" for j
      by (rule check_upvals_spec [OF c(2) that])
    have lt: "pc + 1 + int nup < sizecode pt"
    proof (cases nup)
      case 0
      with nlast closure show ?thesis by simp
    next
      case (Suc n)
      have "pc + 1 + int n \<noteq> sizecode pt - 1"
      proof
        assume e: "pc + 1 + int n = sizecode pt - 1"
        from up [of n] ca(1) Suc show False unfolding e by simp
      qed
      with c(1) Suc show ?thesis by simp
    qed
    have "start pt (pc + 1 + int nup)"
    proof (intro start_steps n1)
      show "\<not> looks_setlist (instr pt (pc + 1 + int j))" if "j < nup" for j
        using up [OF that] by (auto simp: looks_setlist_def)
    qed (use lt closure in auto)
    moreover have "pc' = pc + 1 + int nup" using nx o(1) closure by (simp add: vm_succs_def nu)
    ultimately show ?thesis using lt by simp
  next
    case jump
    then have "pc' = pc + 1 \<or> pc' = pc + 1 + GETARG_sBx ?i"
      using nx o(1) by (auto simp: vm_succs_def)
    with jump jump_ok [OF ck s] o(1) n1 nlast show ?thesis by auto
  next
    case ret
    with nx o(1) show ?thesis by (simp add: vm_succs_def)
  next
    case plain
    with nx n1 nlast show ?thesis by simp
  qed
qed

text \<open>Property C3.  Soundness of the bytecode verifier: when \<open>luaG_checkcode\<close> accepts a function (whose \<open>LOADBOOL\<close> instructions have \<open>C\<close> 0 or 1),
  every program counter the virtual machine can reach from its entry, along fall-through, jumps, skips and the
  pseudo-instructions of \<open>CLOSURE\<close>, lies inside the code, is never the count word of a \<open>SETLIST\<close>, and the
  instruction there names only registers below \<open>maxstacksize\<close> and constants inside \<open>k\<close>.\<close>

theorem luaG_checkcode_sound:
  assumes "luaG_checkcode pt" "canonical_loadbool pt" "vm_reach pt pc"
  shows "0 \<le> pc \<and> pc < sizecode pt \<and> start pt pc \<and>
    (\<forall>r \<in> set (regs_used (instr pt pc)). 0 \<le> r \<and> r < maxstack pt) \<and>
    (\<forall>k \<in> set (consts_used (instr pt pc)). 0 \<le> k \<and> k < sizek pt)"
proof -
  from assms(3) have "start pt pc \<and> pc < sizecode pt"
  proof (induction rule: vm_reach.induct)
    case entry
    then show ?case using checkcode_all(2) [OF assms(1)] by (simp add: start.zero)
  next
    case (step pc pc')
    then show ?case using succ_ok [OF assms(1,2)] by blast
  qed
  moreover from this obtain lst r where "symb_step pt (sizecode pt) NO_REG pc lst = Inr r"
    using checkcode_all(3) [OF assms(1)] by blast
  from checked_regs [OF this] have "\<forall>r \<in> set (regs_used (instr pt pc)). 0 \<le> r \<and> r < maxstack pt"
    "\<forall>k \<in> set (consts_used (instr pt pc)). 0 \<le> k \<and> k < sizek pt" by auto
  ultimately show ?thesis using start_nonneg by auto
qed


definition sample_proto :: "int \<Rightarrow> Proto" where
  "sample_proto c = Proto [] [CREATE_ABC OP_LOADBOOL 0 1 c, CREATE_ABC OP_RETURN 0 1 0] [] [] [] [] None 0 0 0 0 0 2"

lemma sample_proto_checked: "luaG_checkcode (sample_proto 0)" "luaG_checkcode (sample_proto 2)"
  by code_simp+

lemma sample_proto_code:
  "canonical_loadbool (sample_proto 0)" "vm_succs (sample_proto 0) 0 = [1]" "vm_succs (sample_proto 2) 0 = [2]"
  "sizecode (sample_proto c) = 2"
  by code_simp (code_simp | simp add: sample_proto_def)+

theorem luaG_checkcode_sound_witness:
  "luaG_checkcode (sample_proto 0) \<and> canonical_loadbool (sample_proto 0) \<and> vm_reach (sample_proto 0) 1 \<and>
   start (sample_proto 0) 1"
proof -
  have r: "vm_reach (sample_proto 0) 1"
    by (rule vm_reach.step [OF vm_reach.entry]) (simp add: sample_proto_code)
  from luaG_checkcode_sound [OF sample_proto_checked(1) sample_proto_code(1) r] r sample_proto_checked(1) sample_proto_code(1)
  show ?thesis by blast
qed

text \<open>A gap in the verifier: \<open>symbexec\<close> checks the skip of a \<open>LOADBOOL\<close> only when \<open>C\<close> is exactly 1, but the virtual machine skips
  the next instruction for every non-zero \<open>C\<close>.  There is a function that \<open>luaG_checkcode\<close> accepts and whose
  execution runs past the end of its code.\<close>

theorem luaG_checkcode_loadbool_gap:
  "\<exists>pt pc. luaG_checkcode pt \<and> vm_reach pt pc \<and> pc \<ge> sizecode pt"
proof (intro exI conjI)
  show "luaG_checkcode (sample_proto 2)" by (rule sample_proto_checked(2))
  show "vm_reach (sample_proto 2) 2"
    by (rule vm_reach.step [OF vm_reach.entry]) (simp add: sample_proto_code)
  show "sizecode (sample_proto 2) \<le> 2" by (simp add: sample_proto_code)
qed

section \<open>The verifier reads inside the code\<close>

lemma check_not_BadRead [simp]: "check x \<noteq> Inl BadRead" "checkreg pt r \<noteq> Inl BadRead"
  by (cases x; simp add: check_def checkreg_def guardE_def)+

lemma code_at_ok: "0 \<le> pc \<Longrightarrow> pc < sizecode pt \<Longrightarrow> code_at pt pc = Inr (instr pt pc)"
  by (simp add: code_at_def instr_def)

lemma setlist_run_ok: "0 \<le> j \<Longrightarrow> dest \<le> sizecode pt \<Longrightarrow> setlist_run pt dest j \<noteq> Inl BadRead"
proof (induction pt dest j rule: setlist_run.induct)
  case (1 pt dest j)
  show ?case
  proof (cases "j < dest")
    case True
    have c: "code_at pt (dest - 1 - j) = Inr (instr pt (dest - 1 - j))"
      using True "1.prems" by (intro code_at_ok) auto
    with "1.IH" [OF True c] "1.prems" True show ?thesis by (subst setlist_run.simps) simp
  qed (subst setlist_run.simps, simp)
qed

lemma check_upvals_ok: "0 \<le> pc \<Longrightarrow> pc + int nup < sizecode pt \<Longrightarrow> check_upvals pt pc nup \<noteq> Inl BadRead"
  by (induction pt pc nup rule: check_upvals.induct) (auto simp: bindE_eq_Inl code_at_def)

lemma symb_args_ok: "symb_args pt pc i oc \<noteq> Inl BadRead"
  by (auto simp: symb_args_def check_jump_def bindE_eq_Inl dest!: setlist_run_ok [THEN notE, rotated 2]
    split: OpMode.splits if_splits)

lemma symb_op_lst: "symb_op pt n reg pc lst oc a b c = Inr (pc', lst') \<Longrightarrow> lst' = pc \<or> lst' = lst"
  by (cases oc) (auto simp: symb_op_def symb_call_def bindE_eq_Inr Let_def split: if_splits)

lemma symb_step_ok:
  assumes pc: "0 \<le> pc" "pc < sizecode pt" and lst: "0 \<le> lst" "lst < sizecode pt"
    and ret: "GET_OPCODE (instr pt (sizecode pt - 1)) = Some OP_RETURN"
  shows "symb_step pt n reg pc lst \<noteq> Inl BadRead"
    "symb_step pt n reg pc lst = Inr (pc', lst') \<Longrightarrow> 0 \<le> lst' \<and> lst' < sizecode pt"
proof -
  let ?i = "instr pt pc"
  have op: "symb_op pt n reg pc l oc (GETARG_A ?i) b c \<noteq> Inl BadRead"
    if "GET_OPCODE ?i = Some oc" "symb_args pt pc ?i oc = Inr (b, c)" for oc b c l
  proof -
    have nlast: "code_at pt (pc + 1) = Inr (instr pt (pc + 1))" if "oc \<noteq> OP_RETURN"
      using ret that \<open>GET_OPCODE ?i = Some oc\<close> pc by (intro code_at_ok) (cases "pc = sizecode pt - 1", auto)+
    show ?thesis
      using that(2) nlast pc check_upvals_ok [of pc _ pt] GETARG_bounds [of ?i]
      by (cases oc)
        (auto simp: step_simps bindE_eq_Inl checkopenop_def k_at_def split: if_splits)
  qed
  show "symb_step pt n reg pc lst \<noteq> Inl BadRead"
    using op pc symb_args_ok code_at_ok [of "pc + 1" pt]
    by (auto simp: symb_step_def code_at_ok [OF pc] bindE_eq_Inl Let_def split: option.splits if_splits)
  show "symb_step pt n reg pc lst = Inr (pc', lst') \<Longrightarrow> 0 \<le> lst' \<and> lst' < sizecode pt"
    using pc lst by (auto simp: symb_step_def bindE_eq_Inr Let_def split: option.splits if_splits dest!: symb_op_lst)
qed

lemma symbexec_loop_ok:
  "n \<le> sizecode pt \<Longrightarrow> GET_OPCODE (instr pt (sizecode pt - 1)) = Some OP_RETURN \<Longrightarrow> 0 \<le> pc \<Longrightarrow>
   0 \<le> lst \<Longrightarrow> lst < sizecode pt \<Longrightarrow>
   symbexec_loop pt n reg pc lst \<noteq> Inl BadRead \<and>
   (\<forall>l. symbexec_loop pt n reg pc lst = Inr l \<longrightarrow> 0 \<le> l \<and> l < sizecode pt)"
proof (induction pt n reg pc lst rule: symbexec_loop.induct)
  case (1 pt n reg pc lst)
  show ?case
  proof (cases "pc < n")
    case True
    then have pc: "pc < sizecode pt" using "1.prems"(1) by simp
    note ok = symb_step_ok [OF "1.prems"(3) pc "1.prems"(4,5,2), of n reg]
    have eq: "symbexec_loop pt n reg pc lst = bindE (symb_step pt n reg pc lst)
      (\<lambda>r. symbexec_loop pt n reg (fst r + 1) (snd r))" using True by (subst symbexec_loop.simps) simp
    show ?thesis
    proof (cases "symb_step pt n reg pc lst")
      case (Inl e)
      with ok(1) eq show ?thesis by simp
    next
      case (Inr r)
      have "pc \<le> fst r" using symb_step_pc [of pt n reg pc lst "fst r" "snd r"] Inr by simp
      with "1.IH" [OF True Inr] ok(2) [of "fst r" "snd r"] Inr "1.prems" eq show ?thesis by simp
    qed
  next
    case False
    then have "symbexec_loop pt n reg pc lst = Inr lst" by (subst symbexec_loop.simps) simp
    with "1.prems" show ?thesis by simp
  qed
qed

text \<open>The verifier itself is memory safe: on any function, well-formed or not, and for any register to trace, \<open>symbexec\<close> up to an
  instruction of the function never reads a word outside \<open>code\<close> or a constant outside \<open>k\<close>.\<close>

theorem symbexec_reads_inside:
  assumes "lastpc \<le> sizecode pt"
  shows "symbexec_chk pt lastpc reg \<noteq> Inl BadRead"
proof (cases "precheck pt")
  case (Inl e)
  have "precheck pt \<noteq> Inl BadRead" by (auto simp: precheck_def bindE_eq_Inl code_at_def)
  with Inl show ?thesis by (simp add: symbexec_chk_def)
next
  case (Inr u)
  then have ret: "GET_OPCODE (instr pt (sizecode pt - 1)) = Some OP_RETURN" "0 < sizecode pt"
    by (auto simp: precheck_def bindE_eq_Inr code_at_def instr_def split: if_splits)
  note l = symbexec_loop_ok [OF assms ret(1), of 0 "sizecode pt - 1" reg]
  show ?thesis
    using l ret(2) Inr by (auto simp: symbexec_chk_def bindE_eq_Inl code_at_def)
qed

theorem symbexec_reads_inside_witness:
  "2 \<le> sizecode (sample_proto 2) \<and> symbexec_chk (sample_proto 2) 2 NO_REG \<noteq> Inl BadRead"
  using symbexec_reads_inside [of 2 "sample_proto 2" NO_REG] by (simp add: sample_proto_code)

section \<open>Names for error messages\<close>

definition kname :: "Proto \<Rightarrow> int \<Rightarrow> string" where
  "kname p c = (if ISK c then (case p_k p ! nat (INDEXK c) of TString s \<Rightarrow> s | _ \<Rightarrow> ''?'') else ''?'')"

text \<open>When the traced instruction is a \<open>MOVE\<close>, it is one into the traced register.\<close>

definition move_traced :: "Proto \<Rightarrow> int \<Rightarrow> int \<Rightarrow> bool" where
  "move_traced pt reg l \<longleftrightarrow> (GET_OPCODE (instr pt l) = Some OP_MOVE \<longrightarrow> GETARG_A (instr pt l) = reg)"

lemma symb_step_traced:
  assumes "symb_step pt n reg pc lst = Inr (pc', lst')" "move_traced pt reg lst"
  shows "move_traced pt reg lst'"
proof -
  let ?i = "instr pt pc"
  from assms(1) obtain oc b c where o: "GET_OPCODE ?i = Some oc"
    "symb_op pt n reg pc (if testAMode oc \<and> GETARG_A ?i = reg then pc else lst) oc (GETARG_A ?i) b c = Inr (pc', lst')"
    by (auto simp: symb_step_def bindE_eq_Inr code_at_def instr_def Let_def split: if_splits option.splits)
  show ?thesis
  proof (cases "oc = OP_MOVE")
    case True
    with o assms(2) show ?thesis by (auto simp: symb_op_def move_traced_def split: if_splits)
  next
    case False
    with symb_op_lst [OF o(2)] o(1) assms(2) show ?thesis by (auto simp: move_traced_def split: if_splits)
  qed
qed

lemma symbexec_loop_traced:
  "symbexec_loop pt n reg pc lst = Inr l \<Longrightarrow> move_traced pt reg lst \<Longrightarrow> move_traced pt reg l"
proof (induction pt n reg pc lst rule: symbexec_loop.induct)
  case (1 pt n reg pc lst)
  show ?case
  proof (cases "pc < n")
    case True
    with "1.prems"(1) obtain r where r: "symb_step pt n reg pc lst = Inr r"
      "symbexec_loop pt n reg (fst r + 1) (snd r) = Inr l"
      by (subst (asm) symbexec_loop.simps) (auto simp: bindE_eq_Inr)
    from "1.IH" [OF True r(1) r(2)] symb_step_traced [of pt n reg pc lst "fst r" "snd r"] r(1) "1.prems"(2)
    show ?thesis by simp
  next
    case False
    with "1.prems" show ?thesis by (subst (asm) symbexec_loop.simps) simp
  qed
qed

lemma zero_instruction: "GETARG_A 0 = 0" "GETARG_B 0 = 0"
  by (simp_all add: arg_defs get_field_def)

lemma symbexec_move:
  assumes "GET_OPCODE (symbexec pt n reg) = Some OP_MOVE" "GETARG_B (symbexec pt n reg) < GETARG_A (symbexec pt n reg)"
  shows "GETARG_A (symbexec pt n reg) = reg"
proof -
  from assms(2) obtain i where i: "symbexec_chk pt n reg = Inr i" "symbexec pt n reg = i"
    by (auto simp: symbexec_def zero_instruction split: sum.splits)
  then obtain l where p: "precheck pt = Inr ()"
    and l: "symbexec_loop pt n reg 0 (sizecode pt - 1) = Inr l" "code_at pt l = Inr i"
    by (auto simp: symbexec_chk_def bindE_eq_Inr)
  from p have "GET_OPCODE (instr pt (sizecode pt - 1)) = Some OP_RETURN"
    by (auto simp: precheck_def bindE_eq_Inr code_at_def instr_def split: if_splits)
  then have "move_traced pt reg (sizecode pt - 1)" by (simp add: move_traced_def)
  from symbexec_loop_traced [OF l(1) this] l(2) i(2) assms(1) show ?thesis
    by (auto simp: move_traced_def code_at_def instr_def split: if_splits)
qed

text \<open>\<open>getobjname\<close> for a Lua function \<open>p\<close> at \<open>pc\<close>: the kind and the name of a stack position.  Its recursion goes to
  a lower register, so it ends.\<close>

function getobjname :: "Proto \<Rightarrow> int \<Rightarrow> int \<Rightarrow> (string \<times> string) option" where
  "getobjname p pc stackpos =
     (case luaF_getlocalname p (stackpos + 1) pc of
        Some name \<Rightarrow> Some (''local'', name)
      | None \<Rightarrow>
          (let i = symbexec p pc stackpos in
           if GET_OPCODE i = Some OP_GETGLOBAL then
             (case p_k p ! nat (GETARG_Bx i) of TString s \<Rightarrow> Some (''global'', s) | _ \<Rightarrow> None)
           else if GET_OPCODE i = Some OP_MOVE then
             (if GETARG_B i < GETARG_A i then getobjname p pc (GETARG_B i) else None)
           else if GET_OPCODE i = Some OP_GETTABLE then Some (''field'', kname p (GETARG_C i))
           else if GET_OPCODE i = Some OP_GETUPVAL then
             Some (''upvalue'', case p_upvalues p of [] \<Rightarrow> ''?'' | _ \<Rightarrow>
               (case p_upvalues p ! nat (GETARG_B i) of Some s \<Rightarrow> s | None \<Rightarrow> []))
           else if GET_OPCODE i = Some OP_SELF then Some (''method'', kname p (GETARG_C i))
           else None))"
  by pat_completeness auto
termination
proof (relation "measure (\<lambda>(p, pc, stackpos). nat stackpos)")
  fix p pc stackpos i
  assume "i = symbexec p pc stackpos" "GET_OPCODE i = Some OP_MOVE" "GETARG_B i < GETARG_A i"
  then show "((p, pc, GETARG_B i), p, pc, stackpos) \<in> measure (\<lambda>(p, pc, stackpos). nat stackpos)"
    using symbexec_move [of p pc stackpos] order_le_less_trans [OF GETARG_bounds(3) [of i]] by auto
qed simp

declare getobjname.simps [simp del]

end
