(* ===== verification/Precompiled.thy ===== *)
theory Precompiled
  imports Bytes Zio CodeChecker
begin

text \<open>
  Precompiled chunks: \<^verbatim>\<open>src/lua/ldump.c\<close> and \<^verbatim>\<open>src/lua/lundump.c\<close>.  Bytes are characters.  The \<open>lua_Writer\<close> is a
  callback of the host and a parameter of the dump: a function from a block and the \<open>data\<close> pointer's
  target to a status and the new target.  Loading is a reader over a \<open>Zio\<close> that may throw a syntax error.
  Allocation is assumed to succeed.
\<close>

text \<open>\<open>DumpVar\<close> writes the bytes of a variable as they are in memory: little endian on the target (\<open>le_bytes\<close>).\<close>

section \<open>Dumping\<close>

record 'd DumpState =
  d_writer :: "string \<Rightarrow> 'd \<Rightarrow> int \<times> 'd"
  d_data :: 'd
  d_strip :: bool
  d_status :: int

definition DumpBlock :: "string \<Rightarrow> 'd DumpState \<Rightarrow> 'd DumpState" where
  "DumpBlock b D = (if d_status D = 0
     then (let (st, dt) = d_writer D b (d_data D) in D\<lparr>d_status := st, d_data := dt\<rparr>) else D)"

definition DumpChar :: "nat \<Rightarrow> 'd DumpState \<Rightarrow> 'd DumpState" where
  "DumpChar y D = DumpBlock [char_of y] D"

definition int_bytes :: "int \<Rightarrow> string" where
  "int_bytes x = le_bytes 4 (nat (x mod 2 ^ 32))"

definition DumpInt :: "int \<Rightarrow> 'd DumpState \<Rightarrow> 'd DumpState" where
  "DumpInt x D = DumpBlock (int_bytes x) D"

definition DumpNumber :: "lua_Number \<Rightarrow> 'd DumpState \<Rightarrow> 'd DumpState" where
  "DumpNumber x D = DumpBlock (le_bytes 8 (unat x)) D"

definition DumpVector :: "string \<Rightarrow> int \<Rightarrow> 'd DumpState \<Rightarrow> 'd DumpState" where
  "DumpVector b n D = DumpBlock b (DumpInt n D)"

definition DumpSize :: "nat \<Rightarrow> 'd DumpState \<Rightarrow> 'd DumpState" where
  "DumpSize n D = DumpBlock (le_bytes 8 n) D"

definition DumpString :: "string option \<Rightarrow> 'd DumpState \<Rightarrow> 'd DumpState" where
  "DumpString s D = (case s of
       None \<Rightarrow> DumpSize 0 D
     | Some s \<Rightarrow> DumpBlock (s @ [CHR 0x00]) (DumpSize (length s + 1) D))"

definition code_bytes :: "Instruction list \<Rightarrow> string" where
  "code_bytes is = concat (map (\<lambda>i. le_bytes 4 (unat i)) is)"

definition DumpCode :: "Proto \<Rightarrow> 'd DumpState \<Rightarrow> 'd DumpState" where
  "DumpCode f D = DumpVector (code_bytes (p_code f)) (sizecode f) D"

definition DumpConstant :: "TValue \<Rightarrow> 'd DumpState \<Rightarrow> 'd DumpState" where
  "DumpConstant k D = (let D = DumpChar (ttype k) D in case k of
       TBoolean b \<Rightarrow> DumpChar (of_bool b) D
     | TNumber n \<Rightarrow> DumpNumber n D
     | TString s \<Rightarrow> DumpString (Some s) D
     | _ \<Rightarrow> D)"

definition DumpLocVar :: "LocVar \<Rightarrow> 'd DumpState \<Rightarrow> 'd DumpState" where
  "DumpLocVar v D = DumpInt (endpc v) (DumpInt (startpc v) (DumpString (varname v) D))"

definition DumpDebug :: "Proto \<Rightarrow> 'd DumpState \<Rightarrow> 'd DumpState" where
  "DumpDebug f D =
     (let n = (if d_strip D then 0 else length (p_lineinfo f));
          D = DumpVector (concat (map int_bytes (take n (p_lineinfo f)))) (int n) D;
          n = (if d_strip D then 0 else length (p_locvars f));
          D = fold DumpLocVar (take n (p_locvars f)) (DumpInt (int n) D);
          n = (if d_strip D then 0 else length (p_upvalues f))
      in fold DumpString (take n (p_upvalues f)) (DumpInt (int n) D))"

lemma size_nested_proto [termination_simp]: "g \<in> set (p_p f) \<Longrightarrow> size g < size f"
  by (cases f) (auto dest: size_list_estimation' [where f = size, OF _ order_refl])

fun DumpFunction :: "Proto \<Rightarrow> string option \<Rightarrow> 'd DumpState \<Rightarrow> 'd DumpState" where
  "DumpFunction f p D =
     (let D = DumpString (if p_source f = p \<or> d_strip D then None else p_source f) D;
          D = DumpInt (p_linedefined f) D;
          D = DumpInt (p_lastlinedefined f) D;
          D = DumpChar (unat (p_nups f)) D;
          D = DumpChar (unat (p_numparams f)) D;
          D = DumpChar (unat (p_is_vararg f)) D;
          D = DumpChar (unat (p_maxstacksize f)) D;
          D = DumpCode f D;
          D = fold DumpConstant (p_k f) (DumpInt (sizek f) D);
          D = fold (\<lambda>g D. DumpFunction g (p_source f) D) (p_p f) (DumpInt (sizep f) D)
      in DumpDebug f D)"

declare DumpFunction.simps [simp del]

definition LUAC_HEADERSIZE :: nat where "LUAC_HEADERSIZE = 12"

definition luaU_header :: string where
  "luaU_header = [CHR 0x1B] @ ''Lua'' @ [CHR 0x51, CHR 0x00, CHR 0x01, CHR 0x04, CHR 0x08, CHR 0x04, CHR 0x08, CHR 0x00]"

definition DumpHeader :: "'d DumpState \<Rightarrow> 'd DumpState" where
  "DumpHeader D = DumpBlock luaU_header D"

text \<open>The status and what the writer has made of its data.\<close>

definition luaU_dump :: "Proto \<Rightarrow> (string \<Rightarrow> 'd \<Rightarrow> int \<times> 'd) \<Rightarrow> 'd \<Rightarrow> bool \<Rightarrow> int \<times> 'd" where
  "luaU_dump f w dt strip =
     (let D = \<lparr>d_writer = w, d_data = dt, d_strip = strip, d_status = 0\<rparr>;
          D = DumpFunction f None (DumpHeader D)
      in (d_status D, d_data D))"

section \<open>Loading\<close>

type_synonym 'a loader = "Zio \<Rightarrow> ('a \<times> Zio) res"

definition retL :: "'a \<Rightarrow> 'a loader" where
  "retL x z = Inr (x, z)"

definition bindL :: "'a loader \<Rightarrow> ('a \<Rightarrow> 'b loader) \<Rightarrow> 'b loader" where
  "bindL m f z = bindE (m z) (\<lambda>r. f (fst r) (snd r))"

definition load_error :: "string \<Rightarrow> string \<Rightarrow> lua_error" where
  "load_error name why = ErrSyntax (name @ '': '' @ why @ '' in precompiled chunk'')"

definition IF_error :: "bool \<Rightarrow> string \<Rightarrow> string \<Rightarrow> unit loader" where
  "IF_error c name why z = (if c then Inl (load_error name why) else Inr ((), z))"

definition LoadBlock :: "string \<Rightarrow> nat \<Rightarrow> string loader" where
  "LoadBlock S n z = (let (b, r, z) = luaZ_read z n in
     if r \<noteq> 0 then Inl (load_error S ''unexpected end'') else Inr (b, z))"

definition LoadChar :: "string \<Rightarrow> nat loader" where
  "LoadChar S = bindL (LoadBlock S 1) (\<lambda>b. retL (le_value b))"

definition LoadByte :: "string \<Rightarrow> lu_byte loader" where
  "LoadByte S = bindL (LoadChar S) (\<lambda>x. retL (of_nat x))"

definition signed32 :: "nat \<Rightarrow> int" where
  "signed32 v = (if v < 2 ^ 31 then int v else int v - 2 ^ 32)"

definition LoadInt :: "string \<Rightarrow> int loader" where
  "LoadInt S = bindL (LoadBlock S 4) (\<lambda>b. let x = signed32 (le_value b) in
     bindL (IF_error (x < 0) S ''bad integer'') (\<lambda>_. retL x))"

definition LoadNumber :: "string \<Rightarrow> lua_Number loader" where
  "LoadNumber S = bindL (LoadBlock S 8) (\<lambda>b. retL (of_nat (le_value b)))"

definition LoadString :: "string \<Rightarrow> string option loader" where
  "LoadString S = bindL (LoadBlock S 8) (\<lambda>b. let n = le_value b in
     if n = 0 then retL None
     else bindL (LoadBlock S n) (\<lambda>s. retL (Some (take (n - 1) s))))"

text \<open>\<open>for (i=0; i<n; i++)\<close> over a loader.\<close>

primrec load_n :: "nat \<Rightarrow> 'a loader \<Rightarrow> 'a list loader" where
  "load_n 0 m = retL []"
| "load_n (Suc n) m = bindL m (\<lambda>x. bindL (load_n n m) (\<lambda>xs. retL (x # xs)))"

text \<open>\<open>LoadVector\<close> reads the bytes of all elements at once.\<close>

fun words_of :: "nat \<Rightarrow> string \<Rightarrow> nat list" where
  "words_of 0 b = []"
| "words_of (Suc n) b = le_value (take 4 b) # words_of n (drop 4 b)"

definition LoadCode :: "string \<Rightarrow> Instruction list loader" where
  "LoadCode S = bindL (LoadInt S) (\<lambda>n. bindL (LoadBlock S (nat n * 4)) (\<lambda>b.
     retL (map of_nat (words_of (nat n) b))))"

text \<open>A string constant of size 0 is stored as a null string pointer.\<close>

definition LoadConstant :: "string \<Rightarrow> TValue loader" where
  "LoadConstant S = bindL (LoadChar S) (\<lambda>t.
     if t = 0 then retL TNil
     else if t = 1 then bindL (LoadChar S) (\<lambda>c. retL (TBoolean (c \<noteq> 0)))
     else if t = 3 then bindL (LoadNumber S) (\<lambda>n. retL (TNumber n))
     else if t = 4 then bindL (LoadString S) (\<lambda>s. case s of
         Some s \<Rightarrow> retL (TString s) | None \<Rightarrow> (\<lambda>z. Inl (ErrUB ''null string constant'')))
     else (\<lambda>z. Inl (load_error S ''bad constant'')))"

definition LoadLocVar :: "string \<Rightarrow> LocVar loader" where
  "LoadLocVar S = bindL (LoadString S) (\<lambda>v. bindL (LoadInt S) (\<lambda>s. bindL (LoadInt S) (\<lambda>e.
     retL \<lparr>varname = v, startpc = s, endpc = e\<rparr>)))"

definition LoadDebug :: "string \<Rightarrow> (int list \<times> LocVar list \<times> string option list) loader" where
  "LoadDebug S =
     bindL (LoadInt S) (\<lambda>n. bindL (LoadBlock S (nat n * 4)) (\<lambda>b.
     bindL (LoadInt S) (\<lambda>m. bindL (load_n (nat m) (LoadLocVar S)) (\<lambda>ls.
     bindL (LoadInt S) (\<lambda>u. bindL (load_n (nat u) (LoadString S)) (\<lambda>us.
     retL (map signed32 (words_of (nat n) b), ls, us)))))))"

text \<open>The first argument is the number of nested calls that are left, \<open>LUAI_MAXCCALLS - L->nCcalls\<close>.\<close>

primrec LoadFunction :: "nat \<Rightarrow> string \<Rightarrow> string option \<Rightarrow> Proto loader" where
  "LoadFunction 0 S p = (\<lambda>z. Inl (load_error S ''code too deep''))"
| "LoadFunction (Suc d) S p =
     bindL (LoadString S) (\<lambda>s. let source = (case s of None \<Rightarrow> p | Some _ \<Rightarrow> s) in
     bindL (LoadInt S) (\<lambda>linedefined.
     bindL (LoadInt S) (\<lambda>lastlinedefined.
     bindL (LoadByte S) (\<lambda>nups.
     bindL (LoadByte S) (\<lambda>numparams.
     bindL (LoadByte S) (\<lambda>is_vararg.
     bindL (LoadByte S) (\<lambda>maxstacksize.
     bindL (LoadCode S) (\<lambda>code.
     bindL (LoadInt S) (\<lambda>n.
     bindL (load_n (nat n) (LoadConstant S)) (\<lambda>k.
     bindL (LoadInt S) (\<lambda>n.
     bindL (load_n (nat n) (LoadFunction d S source)) (\<lambda>ps.
     bindL (LoadDebug S) (\<lambda>(li, lv, uv).
     let f = Proto k code ps li lv uv source linedefined lastlinedefined nups numparams is_vararg maxstacksize in
     bindL (IF_error (\<not> luaG_checkcode f) S ''bad code'') (\<lambda>_. retL f))))))))))))))"

definition LoadHeader :: "string \<Rightarrow> unit loader" where
  "LoadHeader S = bindL (LoadBlock S LUAC_HEADERSIZE) (\<lambda>s. IF_error (s \<noteq> luaU_header) S ''bad header'')"

definition LUAI_MAXCCALLS :: nat where "LUAI_MAXCCALLS = 200"

definition load_name :: "string \<Rightarrow> string" where
  "load_name name = (case name of
       [] \<Rightarrow> name
     | c # cs \<Rightarrow> if c = CHR ''@'' \<or> c = CHR ''='' then cs
                else if c = CHR 0x1B then ''binary string'' else name)"

definition luaU_undump :: "nat \<Rightarrow> Zio \<Rightarrow> string \<Rightarrow> (Proto \<times> Zio) res" where
  "luaU_undump nCcalls Z name = (let S = load_name name in
     bindL (LoadHeader S) (\<lambda>_. LoadFunction (LUAI_MAXCCALLS - nCcalls) S (Some ''=?'')) Z)"


section \<open>The blocks a dump writes\<close>

text \<open>Every dump function feeds a list of blocks to \<open>DumpBlock\<close>; the list does not depend on the writer.\<close>

definition string_blocks :: "string option \<Rightarrow> string list" where
  "string_blocks s = (case s of None \<Rightarrow> [le_bytes 8 0] | Some s \<Rightarrow> [le_bytes 8 (length s + 1), s @ [CHR 0x00]])"

definition const_blocks :: "TValue \<Rightarrow> string list" where
  "const_blocks k = [char_of (ttype k)] # (case k of
       TBoolean b \<Rightarrow> [[char_of (of_bool b :: nat)]] | TNumber n \<Rightarrow> [le_bytes 8 (unat n)] | TString s \<Rightarrow> string_blocks (Some s) | _ \<Rightarrow> [])"

definition locvar_blocks :: "LocVar \<Rightarrow> string list" where
  "locvar_blocks v = string_blocks (varname v) @ [int_bytes (startpc v), int_bytes (endpc v)]"

definition debug_blocks :: "bool \<Rightarrow> Proto \<Rightarrow> string list" where
  "debug_blocks strip f =
     (let li = (if strip then [] else p_lineinfo f); lv = (if strip then [] else p_locvars f);
          uv = (if strip then [] else p_upvalues f)
      in [int_bytes (int (length li)), concat (map int_bytes li), int_bytes (int (length lv))] @
         concat (map locvar_blocks lv) @ [int_bytes (int (length uv))] @ concat (map string_blocks uv))"

fun function_blocks :: "bool \<Rightarrow> Proto \<Rightarrow> string option \<Rightarrow> string list" where
  "function_blocks strip f p =
     string_blocks (if p_source f = p \<or> strip then None else p_source f) @
     [int_bytes (p_linedefined f), int_bytes (p_lastlinedefined f), [char_of (unat (p_nups f))],
      [char_of (unat (p_numparams f))], [char_of (unat (p_is_vararg f))], [char_of (unat (p_maxstacksize f))],
      int_bytes (sizecode f), code_bytes (p_code f), int_bytes (sizek f)] @
     concat (map const_blocks (p_k f)) @ [int_bytes (sizep f)] @
     concat (map (\<lambda>g. function_blocks strip g (p_source f)) (p_p f)) @ debug_blocks strip f"

declare function_blocks.simps [simp del]

lemma DumpBlock_strip [simp]: "d_strip (DumpBlock b D) = d_strip D"
  by (simp add: DumpBlock_def Let_def split: prod.splits)

lemma fold_DumpBlock_strip [simp]: "d_strip (fold DumpBlock bs D) = d_strip D"
  by (induction bs arbitrary: D) simp_all

named_theorems dump_simps "dump functions as lists of blocks"

lemma fold_blocks:
  assumes "\<And>x D. x \<in> set xs \<Longrightarrow> d_strip D = strip \<Longrightarrow> F x D = fold DumpBlock (g x) D"
  shows "d_strip D = strip \<Longrightarrow> fold F xs D = fold DumpBlock (concat (map g xs)) D"
  using assms by (induction xs arbitrary: D) simp_all

lemma dump_scalar_blocks [dump_simps]:
  "DumpChar y D = fold DumpBlock [[char_of y]] D" "DumpInt x D = fold DumpBlock [int_bytes x] D"
  "DumpNumber n D = fold DumpBlock [le_bytes 8 (unat n)] D" "DumpSize m D = fold DumpBlock [le_bytes 8 m] D"
  by (simp_all add: DumpChar_def DumpInt_def DumpNumber_def DumpSize_def)

lemma DumpString_blocks [dump_simps]: "DumpString s D = fold DumpBlock (string_blocks s) D"
  by (simp add: DumpString_def string_blocks_def dump_simps split: option.splits)

lemma DumpConstant_blocks [dump_simps]: "DumpConstant k D = fold DumpBlock (const_blocks k) D"
  by (cases k) (simp_all add: DumpConstant_def const_blocks_def dump_simps Let_def)

lemma DumpLocVar_blocks [dump_simps]: "DumpLocVar v D = fold DumpBlock (locvar_blocks v) D"
  by (simp add: DumpLocVar_def locvar_blocks_def dump_simps)

lemma DumpDebug_blocks: "DumpDebug f D = fold DumpBlock (debug_blocks (d_strip D) f) D"
  unfolding DumpDebug_def debug_blocks_def Let_def DumpVector_def
  by (simp add: dump_simps fold_blocks [where g = locvar_blocks and strip = "d_strip D"]
    fold_blocks [where g = string_blocks and strip = "d_strip D"])

lemma DumpFunction_blocks:
  fixes D :: "'d DumpState"
  shows "DumpFunction f p D = fold DumpBlock (function_blocks (d_strip D) f p) D"
proof (induction f arbitrary: p D rule: measure_induct_rule [where f = size])
  case (less f)
  have IH: "fold (\<lambda>g D. DumpFunction g (p_source f) D) (p_p f) D' =
    fold DumpBlock (concat (map (\<lambda>g. function_blocks (d_strip D) g (p_source f)) (p_p f))) D'"
    if "d_strip D' = d_strip D" for D' :: "'d DumpState"
  proof (rule fold_blocks [where strip = "d_strip D"])
    fix g and E :: "'d DumpState"
    assume "g \<in> set (p_p f)" "d_strip E = d_strip D"
    then show "DumpFunction g (p_source f) E = fold DumpBlock (function_blocks (d_strip D) g (p_source f)) E"
      using less.IH [OF size_nested_proto, of g "p_source f" E] by simp
  qed (rule that)
  have k: "fold DumpConstant (p_k f) D' = fold DumpBlock (concat (map const_blocks (p_k f))) D'" for D'
    by (rule fold_blocks [where strip = "d_strip D'"]) (simp_all add: dump_simps)
  show ?case
    unfolding DumpFunction.simps [of f p D] function_blocks.simps [of _ f p] Let_def
    by (simp add: DumpDebug_blocks DumpCode_def DumpVector_def dump_simps k IH)
qed

end
