(* ===== verification/PrecompiledProps.thy ===== *)
theory PrecompiledProps
  imports Precompiled
begin

text \<open>
  Round trip of precompiled chunks: what \<open>luaU_dump\<close> (\<^verbatim>\<open>src/lua/ldump.c\<close>) writes, \<open>luaU_undump\<close>
  (\<^verbatim>\<open>src/lua/lundump.c\<close>) reads back, however the host cuts the bytes into blocks.
\<close>

section \<open>Loaders that consume a given string\<close>

definition reads :: "'a loader \<Rightarrow> 'a \<Rightarrow> string \<Rightarrow> bool" where
  "reads m x b \<longleftrightarrow> (\<forall>z rest. zbytes z = b @ rest \<longrightarrow> (\<exists>z'. m z = Inr (x, z') \<and> zbytes z' = rest))"

lemma readsD: "reads m x b \<Longrightarrow> zbytes z = b @ rest \<Longrightarrow> \<exists>z'. m z = Inr (x, z') \<and> zbytes z' = rest"
  by (simp add: reads_def)

lemma reads_ret: "reads (retL x) x []"
  by (simp add: reads_def retL_def)

lemma reads_bind: "reads m x b \<Longrightarrow> reads (f x) y b' \<Longrightarrow> reads (bindL m f) y (b @ b')"
  unfolding reads_def bindL_def
proof (intro allI impI)
  fix z rest
  assume m: "\<forall>z rest. zbytes z = b @ rest \<longrightarrow> (\<exists>z'. m z = Inr (x, z') \<and> zbytes z' = rest)"
    and f: "\<forall>z rest. zbytes z = b' @ rest \<longrightarrow> (\<exists>z'. f x z = Inr (y, z') \<and> zbytes z' = rest)"
    and z: "zbytes z = (b @ b') @ rest"
  from m z obtain z1 where z1: "m z = Inr (x, z1)" "zbytes z1 = b' @ rest" by (metis append.assoc)
  with f obtain z2 where "f x z1 = Inr (y, z2)" "zbytes z2 = rest" by blast
  with z1 show "\<exists>z'. bindE (m z) (\<lambda>r. f (fst r) (snd r)) = Inr (y, z') \<and> zbytes z' = rest" by simp
qed

lemma reads_bind_ret: "reads m x b \<Longrightarrow> reads (bindL m (\<lambda>x. retL (g x))) (g x) b"
  by (drule reads_bind [where f = "\<lambda>x. retL (g x)" and y = "g x" and b' = "[]"]) (simp_all add: reads_ret)

lemma reads_if: "\<not> c \<Longrightarrow> reads (IF_error c S w) () []"
  by (simp add: reads_def IF_error_def)

lemma reads_block: "length b = n \<Longrightarrow> reads (LoadBlock S n) b b"
  unfolding reads_def LoadBlock_def
proof (intro allI impI)
  fix z rest assume n: "length b = n" and z: "zbytes z = b @ rest"
  obtain b' r z' where r: "luaZ_read z n = (b', r, z')" by (metis prod_cases3)
  from luaZ_read_spec [OF r] n z have "b' = b" "r = 0" "zbytes z' = rest" by auto
  with r show "\<exists>z'. (let (b, r, z) = luaZ_read z n in
      if r \<noteq> 0 then Inl (load_error S ''unexpected end'') else Inr (b, z)) = Inr (b, z') \<and> zbytes z' = rest" by simp
qed

lemma reads_char: "n < 256 \<Longrightarrow> reads (LoadChar S) n [char_of n]"
  unfolding LoadChar_def
  using reads_bind_ret [OF reads_block [of "[char_of n]" 1 S], of le_value] by simp

lemma reads_byte: "reads (LoadByte S) w [char_of (unat w)]"
proof -
  have "unat w < 256" using unsigned_less [of w] by simp
  from reads_bind_ret [OF reads_char [OF this], of S "of_nat :: nat \<Rightarrow> lu_byte"] show ?thesis by (simp add: LoadByte_def)
qed

definition int31 :: "int \<Rightarrow> bool" where
  "int31 x \<longleftrightarrow> 0 \<le> x \<and> x < 2 ^ 31"

lemma signed32_bytes:
  assumes "fits_int x"
  shows "signed32 (le_value (int_bytes x)) = x"
proof -
  have "le_value (int_bytes x) = nat (x mod 2 ^ 32)"
    by (simp add: int_bytes_def le_value_bytes nat_mod_distrib)
  moreover have "x mod 2 ^ 32 = (if 0 \<le> x then x else x + 2 ^ 32)"
  proof (cases "0 \<le> x")
    case False
    with assms have "x mod 2 ^ 32 = x + 2 ^ 32"
      by (intro int_mod_pos_eq [of _ _ "- 1"]) (auto simp: fits_int_def)
    with False show ?thesis by simp
  qed (use assms in \<open>simp add: fits_int_def\<close>)
  ultimately show ?thesis using assms by (auto simp: signed32_def fits_int_def)
qed

lemma length_int_bytes [simp]: "length (int_bytes x) = 4"
  by (simp add: int_bytes_def)

lemma reads_int: "int31 x \<Longrightarrow> reads (LoadInt S) x (int_bytes x)"
proof -
  assume x: "int31 x"
  then have s: "signed32 (le_value (int_bytes x)) = x" "\<not> x < 0"
    by (auto simp: int31_def intro!: signed32_bytes simp: fits_int_def)
  have "reads (bindL (IF_error (x < 0) S ''bad integer'') (\<lambda>_. retL x)) x ([] @ [])"
    using s(2) by (intro reads_bind [OF reads_if reads_ret])
  then have "reads (LoadInt S) x (int_bytes x @ [])"
    unfolding LoadInt_def by (intro reads_bind [OF reads_block]) (simp_all add: s(1))
  then show ?thesis by simp
qed

lemma reads_number: "reads (LoadNumber S) n (le_bytes 8 (unat n))"
proof -
  have "of_nat (le_value (le_bytes 8 (unat n))) = n"
  proof -
    have "unat n < 2 ^ 64" by (rule order_less_le_trans [OF unsigned_less]) simp
    then show ?thesis by (simp add: le_value_bytes)
  qed
  with reads_bind_ret [OF reads_block [of "le_bytes 8 (unat n)" 8 S], of "\<lambda>b. of_nat (le_value b) :: lua_Number"]
  show ?thesis by (simp add: LoadNumber_def)
qed

definition string_ok :: "string option \<Rightarrow> bool" where
  "string_ok s \<longleftrightarrow> (case s of None \<Rightarrow> True | Some s \<Rightarrow> length s + 1 < 2 ^ 64)"

lemma reads_string:
  assumes "string_ok s"
  shows "reads (LoadString S) s (concat (string_blocks s))"
proof (cases s)
  case None
  have "reads (LoadString S) None (le_bytes 8 0 @ [])"
    unfolding LoadString_def by (intro reads_bind [OF reads_block]) (simp_all add: le_value_bytes reads_ret)
  with None show ?thesis by (simp add: string_blocks_def)
next
  case (Some t)
  let ?n = "length t + 1"
  have v: "le_value (le_bytes 8 ?n) = ?n" using assms Some by (simp add: le_value_bytes string_ok_def)
  have "reads (bindL (LoadBlock S ?n) (\<lambda>s. retL (Some (take (?n - 1) s)))) (Some (take (?n - 1) (t @ [CHR 0x00]))) (t @ [CHR 0x00])"
    by (rule reads_bind_ret [OF reads_block]) simp
  then have "reads (LoadString S) (Some t) (le_bytes 8 ?n @ (t @ [CHR 0x00]))"
    unfolding LoadString_def by (intro reads_bind [OF reads_block]) (simp_all add: v [simplified])
  with Some show ?thesis by (simp add: string_blocks_def)
qed

lemma reads_n: "(\<And>x. x \<in> set xs \<Longrightarrow> reads m (h x) (g x)) \<Longrightarrow> reads (load_n (length xs) m) (map h xs) (concat (map g xs))"
proof (induction xs)
  case (Cons x xs)
  then have "reads (bindL (load_n (length xs) m) (\<lambda>ys. retL (h x # ys))) (h x # map h xs) (concat (map g xs))"
    by (intro reads_bind_ret) auto
  with Cons.prems [of x] show ?case by (auto intro!: reads_bind)
qed (simp add: reads_ret)

lemma words_of_concat:
  "(\<And>x. length (g x) = 4) \<Longrightarrow> words_of (length xs) (concat (map g xs)) = map (\<lambda>x. le_value (g x)) xs"
  by (induction xs) simp_all

lemma reads_vector:
  assumes "\<And>x. length (g x) = 4" "int31 (int (length xs))" "\<And>x. x \<in> set xs \<Longrightarrow> h (le_value (g x)) = x"
  shows "reads (bindL (LoadInt S) (\<lambda>n. bindL (LoadBlock S (nat n * 4)) (\<lambda>b. retL (map h (words_of (nat n) b))))) xs
    (int_bytes (int (length xs)) @ concat (map g xs))"
proof (rule reads_bind [OF reads_int [OF assms(2)]])
  have "length (concat (map g xs)) = nat (int (length xs)) * 4"
    using assms(1) by (simp add: length_concat o_def sum_list_triv)
  from reads_bind_ret [OF reads_block [OF this, of S], of "\<lambda>b. map h (words_of (nat (int (length xs))) b)"]
  show "reads (bindL (LoadBlock S (nat (int (length xs)) * 4)) (\<lambda>b. retL (map h (words_of (nat (int (length xs))) b)))) xs
    (concat (map g xs))"
    using assms(3) by (simp add: words_of_concat [OF assms(1)] o_def map_idI cong: map_cong)
qed

definition const_ok :: "TValue \<Rightarrow> bool" where
  "const_ok k \<longleftrightarrow> (case k of TNil \<Rightarrow> True | TBoolean _ \<Rightarrow> True | TNumber _ \<Rightarrow> True | TString s \<Rightarrow> string_ok (Some s) | _ \<Rightarrow> False)"

lemma reads_constant:
  assumes "const_ok k"
  shows "reads (LoadConstant S) k (concat (const_blocks k))"
proof -
  have tag: "reads (LoadConstant S) k ([char_of (ttype k)] @ b)"
    if "reads ((\<lambda>t.
     if t = 0 then retL TNil
     else if t = 1 then bindL (LoadChar S) (\<lambda>c. retL (TBoolean (c \<noteq> 0)))
     else if t = 3 then bindL (LoadNumber S) (\<lambda>n. retL (TNumber n))
     else if t = 4 then bindL (LoadString S) (\<lambda>s. case s of
         Some s \<Rightarrow> retL (TString s) | None \<Rightarrow> (\<lambda>z. Inl (ErrUB ''null string constant'')))
     else (\<lambda>z. Inl (load_error S ''bad constant''))) (ttype k)) k b" for b
    unfolding LoadConstant_def using that by (intro reads_bind [OF reads_char]) (cases k, simp_all)
  show ?thesis
  proof (cases k)
    case TNil
    with tag [of "[]"] reads_ret [of TNil] show ?thesis by (simp add: const_blocks_def)
  next
    case (TBoolean b)
    have "reads (bindL (LoadChar S) (\<lambda>c. retL (TBoolean (c \<noteq> 0)))) (TBoolean (of_bool b \<noteq> (0::nat))) [char_of (of_bool b :: nat)]"
      by (rule reads_bind_ret [OF reads_char]) simp
    with TBoolean tag [of "[char_of (of_bool b :: nat)]"] show ?thesis by (simp add: const_blocks_def)
  next
    case (TNumber n)
    with tag [of "le_bytes 8 (unat n)"] reads_bind_ret [OF reads_number, of S TNumber] show ?thesis
      by (simp add: const_blocks_def)
  next
    case (TString s)
    have "reads (bindL (LoadString S) (\<lambda>s. case s of Some s \<Rightarrow> retL (TString s) | None \<Rightarrow> (\<lambda>z. Inl (ErrUB ''null string constant''))))
      (TString s) (concat (string_blocks (Some s)) @ [])"
      by (rule reads_bind [OF reads_string]) (use assms TString in \<open>simp_all add: const_ok_def reads_ret\<close>)
    with TString tag [of "concat (string_blocks (Some s))"] show ?thesis by (simp add: const_blocks_def)
  qed (use assms in \<open>simp_all add: const_ok_def\<close>)
qed


section \<open>The verifier does not look at debug information\<close>

definition same_body :: "Proto \<Rightarrow> Proto \<Rightarrow> bool" where
  "same_body f g \<longleftrightarrow> p_k g = p_k f \<and> p_code g = p_code f \<and> map p_nups (p_p g) = map p_nups (p_p f) \<and>
     p_nups g = p_nups f \<and> p_numparams g = p_numparams f \<and> p_is_vararg g = p_is_vararg f \<and>
     p_maxstacksize g = p_maxstacksize f \<and> (p_lineinfo g = p_lineinfo f \<or> p_lineinfo g = []) \<and>
     (p_upvalues g = p_upvalues f \<or> p_upvalues g = [])"

lemma same_body_code:
  assumes "same_body f g"
  shows "code_at g = code_at f" "k_at g = k_at f" "maxstack g = maxstack f" "checkreg g = checkreg f" "sizep g = sizep f"
proof -
  show "code_at g = code_at f" "k_at g = k_at f" "maxstack g = maxstack f" "checkreg g = checkreg f"
    using assms by (auto simp: same_body_def code_at_def k_at_def maxstack_def checkreg_def fun_eq_iff)
  have "length (map p_nups (p_p g)) = length (map p_nups (p_p f))" using assms by (simp only: same_body_def)
  then show "sizep g = sizep f" by simp
qed

lemma same_body_run: "same_body f g \<Longrightarrow> setlist_run g dest j = setlist_run f dest j"
proof (induction f dest j rule: setlist_run.induct)
  case (1 f dest j)
  note c = same_body_code(1) [OF "1.prems"]
  show ?case
  proof (cases "j < dest")
    case True
    show ?thesis
      by (subst (1 2) setlist_run.simps, cases "code_at f (dest - 1 - j)") (use True "1.IH" "1.prems" in \<open>auto simp: c\<close>)
  qed (subst (1 2) setlist_run.simps, simp)
qed

lemma same_body_upvals: "same_body f g \<Longrightarrow> check_upvals g pc n = check_upvals f pc n"
  by (induction n arbitrary: pc) (simp_all add: same_body_code)

lemma same_body_step: "same_body f g \<Longrightarrow> symb_step g n reg pc lst = symb_step f n reg pc lst"
proof -
  assume sb: "same_body f g"
  note c = same_body_code [OF sb]
  have sc: "sizecode g = sizecode f" "sizek g = sizek f" "p_nups g = p_nups f" "p_is_vararg g = p_is_vararg f"
    using sb by (simp_all add: same_body_def)
  have np: "p_nups (p_p g ! nat b) = p_nups (p_p f ! nat b)" if "b < sizep f" "0 \<le> b" for b
  proof -
    have "map p_nups (p_p g) ! nat b = map p_nups (p_p f) ! nat b" using sb by (simp add: same_body_def)
    with that c(5) show ?thesis by (simp add: nth_map)
  qed
  have args: "symb_args g pc i oc = symb_args f pc i oc" for i oc
    by (auto simp: symb_args_def check_jump_def checkArgMode_def same_body_run [OF sb] sc c fun_eq_iff
      split: OpMode.splits OpArgMask.splits)
  have op: "symb_op g n reg' pc l oc a b d = symb_op f n reg' pc l oc a b d"
    if "symb_args f pc i oc = Inr (b, d)" for i oc l a b d reg'
  proof (cases "oc = OP_CLOSURE")
    case True
    then have "0 \<le> b" using that by (auto simp: symb_args_def mode_tables bindE_eq_Inr)
    with True show ?thesis
      by (cases "b < sizep f") (simp_all add: symb_op_def c sc np same_body_upvals [OF sb] Let_def check_def)
  next
    case False
    then show ?thesis
      by (cases oc) (simp_all add: symb_op_def symb_call_def checkopenop_def c sc Let_def)
  qed
  show ?thesis
    unfolding symb_step_def c(1,4) sc(1) args Let_def
    by (intro bindE_cong refl option.case_cong) (auto intro!: bindE_cong simp: op)
qed

lemma same_body_loop: "same_body f g \<Longrightarrow> symbexec_loop g n reg pc lst = symbexec_loop f n reg pc lst"
proof (induction f n reg pc lst rule: symbexec_loop.induct)
  case (1 f n reg pc lst)
  show ?case
    by (subst (1 2) symbexec_loop.simps, cases "symb_step f n reg pc lst")
      (use "1.IH" "1.prems" in \<open>auto simp: same_body_step [OF "1.prems"]\<close>)
qed

lemma same_body_check:
  assumes sb: "same_body f g" and ck: "luaG_checkcode f"
  shows "luaG_checkcode g"
proof -
  have "precheck f = Inr () \<Longrightarrow> precheck g = Inr ()"
    using sb same_body_code(1,3) [OF sb] by (auto simp: precheck_def bindE_eq_Inr same_body_def)
  moreover have "sizecode g = sizecode f" using sb by (simp add: same_body_def)
  ultimately have "symbexec_chk f n reg = Inr i \<Longrightarrow> symbexec_chk g n reg = Inr i" for n reg i
    using same_body_loop [OF sb] same_body_code(1) [OF sb] by (auto simp: symbexec_chk_def bindE_eq_Inr)
  with ck \<open>sizecode g = sizecode f\<close> show ?thesis
    by (auto simp: luaG_checkcode_def symbexec_def split: sum.splits)
qed


section \<open>Functions\<close>

text \<open>What a chunk loads as: a missing source name is that of the enclosing function, and a stripped chunk has no debug
  information.\<close>

fun restored :: "bool \<Rightarrow> string option \<Rightarrow> string option \<Rightarrow> Proto \<Rightarrow> Proto" where
  "restored strip pd pl f =
     (let src = (if p_source f = pd \<or> strip \<or> p_source f = None then pl else p_source f) in
      Proto (p_k f) (p_code f) (map (restored strip (p_source f) src) (p_p f))
        (if strip then [] else p_lineinfo f) (if strip then [] else p_locvars f) (if strip then [] else p_upvalues f)
        src (p_linedefined f) (p_lastlinedefined f) (p_nups f) (p_numparams f) (p_is_vararg f) (p_maxstacksize f))"

declare restored.simps [simp del]

definition locvar_ok :: "LocVar \<Rightarrow> bool" where
  "locvar_ok v \<longleftrightarrow> string_ok (varname v) \<and> int31 (startpc v) \<and> int31 (endpc v)"

definition body_ok :: "Proto \<Rightarrow> bool" where
  "body_ok f \<longleftrightarrow> string_ok (p_source f) \<and> int31 (p_linedefined f) \<and> int31 (p_lastlinedefined f) \<and>
     int31 (sizecode f) \<and> int31 (sizek f) \<and> int31 (sizep f) \<and> int31 (sizelineinfo f) \<and> int31 (sizelocvars f) \<and>
     int31 (sizeupvalues f) \<and> list_all const_ok (p_k f) \<and> list_all fits_int (p_lineinfo f) \<and>
     list_all locvar_ok (p_locvars f) \<and> list_all string_ok (p_upvalues f) \<and> luaG_checkcode f"

primrec dumpable :: "nat \<Rightarrow> Proto \<Rightarrow> bool" where
  "dumpable 0 f = False"
| "dumpable (Suc d) f = (body_ok f \<and> (\<forall>g \<in> set (p_p f). dumpable d g))"

lemma restored_nups [simp]: "p_nups (restored strip pd pl f) = p_nups f"
  by (subst restored.simps) (simp add: Let_def)

lemma restored_same_body: "same_body f (restored strip pd pl f)"
  by (subst restored.simps) (simp add: same_body_def Let_def o_def)

lemma reads_locvar: "locvar_ok v \<Longrightarrow> reads (LoadLocVar S) v (concat (locvar_blocks v))"
proof -
  assume v: "locvar_ok v"
  have "reads (LoadLocVar S) \<lparr>varname = varname v, startpc = startpc v, endpc = endpc v\<rparr>
    (concat (string_blocks (varname v)) @ (int_bytes (startpc v) @ int_bytes (endpc v)))"
    unfolding LoadLocVar_def
    by (rule reads_bind [OF reads_string] reads_bind [OF reads_int] reads_bind_ret [OF reads_int]
      v [unfolded locvar_ok_def, THEN conjunct1] v [unfolded locvar_ok_def, THEN conjunct2, THEN conjunct1]
      v [unfolded locvar_ok_def, THEN conjunct2, THEN conjunct2])+
  then show ?thesis by (cases v) (simp add: locvar_blocks_def)
qed

lemma reads_n_self: "(\<And>x. x \<in> set xs \<Longrightarrow> reads m x (g x)) \<Longrightarrow> reads (load_n (nat (int (length xs))) m) xs (concat (map g xs))"
  using reads_n [of xs m id g] by simp

lemma concat_map_concat: "concat (concat (map g xs)) = concat (map (\<lambda>x. concat (g x)) xs)"
  by (induction xs) simp_all

lemma reads_debug:
  assumes "body_ok f"
  shows "reads (LoadDebug S) (if strip then [] else p_lineinfo f, if strip then [] else p_locvars f, if strip then [] else p_upvalues f)
    (concat (debug_blocks strip f))"
proof -
  let ?li = "if strip then [] else p_lineinfo f" and ?lv = "if strip then [] else p_locvars f"
  let ?uv = "if strip then [] else p_upvalues f"
  have ok: "int31 (int (length ?li))" "int31 (int (length ?lv))" "int31 (int (length ?uv))"
    "\<And>x. x \<in> set ?li \<Longrightarrow> fits_int x" "\<And>x. x \<in> set ?lv \<Longrightarrow> locvar_ok x" "\<And>x. x \<in> set ?uv \<Longrightarrow> string_ok x"
    using assms by (auto simp: body_ok_def list_all_iff int31_def split: if_splits)
  have len: "length (concat (map int_bytes ?li)) = nat (int (length ?li)) * 4"
    by (simp add: length_concat o_def sum_list_triv)
  have li: "map signed32 (words_of (nat (int (length ?li))) (concat (map int_bytes ?li))) = ?li"
    using ok(4) words_of_concat [of int_bytes ?li] by (simp add: o_def signed32_bytes map_idI cong: map_cong)
  have "reads (LoadDebug S) (map signed32 (words_of (nat (int (length ?li))) (concat (map int_bytes ?li))), ?lv, ?uv)
    (int_bytes (int (length ?li)) @ (concat (map int_bytes ?li) @ (int_bytes (int (length ?lv)) @
     (concat (map (\<lambda>v. concat (locvar_blocks v)) ?lv) @ (int_bytes (int (length ?uv)) @
      concat (map (\<lambda>s. concat (string_blocks s)) ?uv))))))"
    unfolding LoadDebug_def
    by (rule reads_bind [OF reads_int [OF ok(1)]] reads_bind [OF reads_block [OF len]] reads_bind [OF reads_int [OF ok(2)]]
        reads_bind [OF reads_n_self [where xs = ?lv]] reads_bind [OF reads_int [OF ok(3)]] reads_bind_ret [OF reads_n_self [where xs = ?uv]]
        reads_locvar ok(5) reads_string ok(6) | assumption)+
  then show ?thesis
    unfolding li by (simp add: debug_blocks_def Let_def concat_map_concat del: nat_int)
qed


lemma reads_code:
  assumes "int31 (int (length is))"
  shows "reads (LoadCode S) is (int_bytes (int (length is)) @ code_bytes is)"
  unfolding LoadCode_def code_bytes_def
proof (rule reads_vector [OF _ assms])
  fix i :: Instruction
  have "unat i < 2 ^ 32" by (rule order_less_le_trans [OF unsigned_less]) simp
  then show "of_nat (le_value (le_bytes 4 (unat i))) = i" by (simp add: le_value_bytes)
qed simp

lemma string_ok_source: "string_ok s \<Longrightarrow> string_ok (if c then None else s)"
  by (simp add: string_ok_def)

lemma reads_function:
  "dumpable d f \<Longrightarrow> reads (LoadFunction d S pl) (restored strip pd pl f) (concat (function_blocks strip f pd))"
proof (induction d arbitrary: f pd pl)
  case (Suc d)
  have ok: "body_ok f" and nested: "\<And>g. g \<in> set (p_p f) \<Longrightarrow> dumpable d g" using Suc.prems by auto
  let ?s = "if p_source f = pd \<or> strip then None else p_source f"
  let ?src = "case ?s of None \<Rightarrow> pl | Some _ \<Rightarrow> ?s"
  have src: "?src = (if p_source f = pd \<or> strip \<or> p_source f = None then pl else p_source f)"
    by (auto split: option.splits)
  note b = ok [unfolded body_ok_def]
  have rs: "reads (LoadString S) ?s (concat (string_blocks ?s))"
    using b by (intro reads_string string_ok_source) simp
  have ri: "reads (LoadInt S) (p_linedefined f) (int_bytes (p_linedefined f))"
    "reads (LoadInt S) (p_lastlinedefined f) (int_bytes (p_lastlinedefined f))"
    "reads (LoadInt S) (sizek f) (int_bytes (sizek f))" "reads (LoadInt S) (sizep f) (int_bytes (sizep f))"
    using b by (auto intro: reads_int)
  have rc: "reads (LoadCode S) (p_code f) (int_bytes (sizecode f) @ code_bytes (p_code f))"
    using b by (intro reads_code) simp
  have rk: "reads (load_n (nat (sizek f)) (LoadConstant S)) (p_k f) (concat (map (\<lambda>k. concat (const_blocks k)) (p_k f)))"
    using b by (intro reads_n_self reads_constant) (simp add: list_all_iff)
  have rp: "reads (load_n (nat (sizep f)) (LoadFunction d S ?src)) (map (restored strip (p_source f) ?src) (p_p f))
    (concat (map (\<lambda>g. concat (function_blocks strip g (p_source f))) (p_p f)))"
    using reads_n [of "p_p f" "LoadFunction d S ?src" "restored strip (p_source f) ?src"] Suc.IH nested by simp
  note rd = reads_debug [OF ok, of S strip]
  have ck: "\<not> \<not> luaG_checkcode (restored strip pd pl f)"
    using same_body_check [OF restored_same_body] b by simp
  have fin: "reads (bindL (IF_error (\<not> luaG_checkcode (restored strip pd pl f)) S ''bad code'')
    (\<lambda>_. retL (restored strip pd pl f))) (restored strip pd pl f) ([] @ [])"
    by (rule reads_bind [OF reads_if [OF ck] reads_ret])
  note eq = restored.simps [of strip pd pl f, unfolded Let_def, folded src, symmetric]
  have "reads (LoadFunction (Suc d) S pl) (restored strip pd pl f)
    (concat (string_blocks ?s) @ int_bytes (p_linedefined f) @ int_bytes (p_lastlinedefined f) @ [char_of (unat (p_nups f))] @
     [char_of (unat (p_numparams f))] @ [char_of (unat (p_is_vararg f))] @ [char_of (unat (p_maxstacksize f))] @
     (int_bytes (sizecode f) @ code_bytes (p_code f)) @ int_bytes (sizek f) @ concat (map (\<lambda>k. concat (const_blocks k)) (p_k f)) @
     int_bytes (sizep f) @ concat (map (\<lambda>g. concat (function_blocks strip g (p_source f))) (p_p f)) @
     concat (debug_blocks strip f) @ [] @ [])"
    unfolding LoadFunction.simps Let_def
    apply (rule reads_bind [OF rs] reads_bind [OF ri(1)] reads_bind [OF ri(2)] reads_bind [OF reads_byte]
      reads_bind [OF rc] reads_bind [OF ri(3)] reads_bind [OF rk] reads_bind [OF ri(4)] reads_bind [OF rp] reads_bind [OF rd])+
    unfolding split_conv eq
    by (rule fin)
  then show ?case by (subst function_blocks.simps) (simp add: concat_map_concat)
qed simp


section \<open>Properties\<close>

text \<open>A writer fed block by block until it fails.\<close>

fun run_writer :: "(string \<Rightarrow> 'd \<Rightarrow> int \<times> 'd) \<Rightarrow> string list \<Rightarrow> 'd \<Rightarrow> int \<times> 'd" where
  "run_writer w [] dt = (0, dt)"
| "run_writer w (b # bs) dt = (let (st, dt) = w b dt in if st = 0 then run_writer w bs dt else (st, dt))"

lemma run_writer_stop: "d_status D \<noteq> 0 \<Longrightarrow> fold DumpBlock bs D = D"
  by (induction bs) (simp_all add: DumpBlock_def)

lemma run_writer_fold:
  "d_status D = 0 \<Longrightarrow> d_writer D = w \<Longrightarrow>
   (d_status (fold DumpBlock bs D), d_data (fold DumpBlock bs D)) = run_writer w bs (d_data D)"
proof (induction bs arbitrary: D)
  case (Cons b bs)
  obtain st dt where w: "w b (d_data D) = (st, dt)" by fastforce
  have D: "DumpBlock b D = D\<lparr>d_status := st, d_data := dt\<rparr>"
    using Cons.prems w by (simp add: DumpBlock_def)
  show ?case
  proof (cases "st = 0")
    case True
    with Cons.IH [of "D\<lparr>d_status := st, d_data := dt\<rparr>"] Cons.prems(2) w show ?thesis by (simp add: D)
  next
    case False
    with w run_writer_stop [of "D\<lparr>d_status := st, d_data := dt\<rparr>" bs] show ?thesis by (simp add: D)
  qed
qed simp

lemma run_writer_append: "run_writer (\<lambda>b dt. (0, dt @ b)) bs dt = (0, dt @ concat bs)"
  by (induction bs arbitrary: dt) simp_all

lemma luaU_dump_run:
  "luaU_dump f w dt strip = run_writer w (luaU_header # function_blocks strip f None) dt"
proof -
  let ?D = "\<lparr>d_writer = w, d_data = dt, d_strip = strip, d_status = 0\<rparr>"
  have "DumpFunction f None (DumpHeader ?D) = fold DumpBlock (luaU_header # function_blocks strip f None) ?D"
    by (simp add: DumpFunction_blocks DumpHeader_def)
  with run_writer_fold [of ?D w "luaU_header # function_blocks strip f None"] show ?thesis
    by (simp add: luaU_dump_def Let_def del: fold_simps)
qed

lemma undump_restored:
  assumes "dumpable (LUAI_MAXCCALLS - nCcalls) f" "[] \<notin> set bs"
    "concat bs = luaU_header @ concat (function_blocks strip f None)"
  shows "\<exists>z'. luaU_undump nCcalls (luaZ_init bs) name = Inr (restored strip None (Some ''=?'') f, z')"
proof -
  have h: "reads (LoadHeader S) () (luaU_header @ [])" for S
    unfolding LoadHeader_def
    by (rule reads_bind [OF reads_block]) (simp_all add: LUAC_HEADERSIZE_def luaU_header_def reads_if)
  have r: "reads (bindL (LoadHeader S) (\<lambda>_. LoadFunction (LUAI_MAXCCALLS - nCcalls) S (Some ''=?'')))
    (restored strip None (Some ''=?'') f) ((luaU_header @ []) @ concat (function_blocks strip f None))" for S
    by (rule reads_bind [OF h reads_function [OF assms(1)]])
  have "zbytes (luaZ_init bs) = ((luaU_header @ []) @ concat (function_blocks strip f None)) @ []"
    using assms(2,3) by (simp add: zbytes_def luaZ_init_def zblocks_bytes_nonempty)
  from readsD [OF r this] show ?thesis by (auto simp: luaU_undump_def Let_def)
qed

fun sourced :: "Proto \<Rightarrow> bool" where
  "sourced f \<longleftrightarrow> p_source f \<noteq> None \<and> (\<forall>g \<in> set (p_p f). sourced g)"

declare sourced.simps [simp del]

lemma restored_id: "sourced f \<Longrightarrow> (p_source f = pd \<longrightarrow> pl = pd) \<Longrightarrow> restored False pd pl f = f"
proof (induction f arbitrary: pd pl rule: measure_induct_rule [where f = size])
  case (less f)
  have s: "p_source f \<noteq> None" "\<And>g. g \<in> set (p_p f) \<Longrightarrow> sourced g" using less.prems(1) by (simp_all add: sourced.simps [of f])
  have src: "(if p_source f = pd \<or> False \<or> p_source f = None then pl else p_source f) = p_source f"
    using less.prems(2) s(1) by auto
  have "map (restored False (p_source f) (p_source f)) (p_p f) = p_p f"
    using less.IH [OF size_nested_proto] s(2) by (intro map_idI) auto
  with src show ?case by (subst restored.simps) (simp only: Let_def if_False Proto.collapse)
qed

text \<open>Property C4.  Round trip of precompiled chunks: dumping a function without stripping, to a writer that collects the bytes, succeeds, and
  \<open>luaU_undump\<close> gives the very same function back, however the reader cuts the bytes into non-empty blocks.  The function
  must be one the compiler can produce: sizes and line numbers that fit the format, constants that are nil, booleans, numbers or
  strings, source names present, code that passes the verifier, and a nesting depth within \<open>LUAI_MAXCCALLS\<close>.\<close>

theorem luaU_dump_undump:
  assumes "dumpable (LUAI_MAXCCALLS - nCcalls) f" "sourced f"
  shows "\<exists>bytes. luaU_dump f (\<lambda>b dt. (0, dt @ b)) [] False = (0, bytes) \<and>
    (\<forall>bs. [] \<notin> set bs \<and> concat bs = bytes \<longrightarrow> (\<exists>z'. luaU_undump nCcalls (luaZ_init bs) name = Inr (f, z')))"
proof -
  have "restored False None (Some ''=?'') f = f"
    using assms(2) by (intro restored_id) (auto simp: sourced.simps [of f])
  with undump_restored [OF assms(1), of _ False name] show ?thesis
    by (simp add: luaU_dump_run run_writer_append del: run_writer.simps)
qed


definition sample_chunk :: Proto where
  "sample_chunk = Proto [TString ''x'', TBoolean True]
     [CREATE_ABC OP_LOADBOOL 0 1 0, CREATE_ABC OP_RETURN 0 1 0] [] [1, 1] [] [] (Some ''t'') 0 0 0 0 0 2"

lemma sample_chunk_ok: "dumpable (LUAI_MAXCCALLS - 199) sample_chunk" "sourced sample_chunk"
proof -
  have "luaG_checkcode sample_chunk" by code_simp
  then have "body_ok sample_chunk"
    by (simp add: body_ok_def sample_chunk_def int31_def string_ok_def const_ok_def fits_int_def)
  moreover have "p_p sample_chunk = []" "LUAI_MAXCCALLS - 199 = Suc 0"
    by (simp_all add: sample_chunk_def LUAI_MAXCCALLS_def)
  ultimately show "dumpable (LUAI_MAXCCALLS - 199) sample_chunk" by simp
  show "sourced sample_chunk" by (subst sourced.simps) (simp add: sample_chunk_def)
qed

lemma dump_nonempty: "luaU_dump f (\<lambda>b dt. (0, dt @ b)) [] strip = (0, bytes) \<Longrightarrow> bytes \<noteq> []"
  by (auto simp: luaU_dump_run run_writer_append luaU_header_def simp del: run_writer.simps)

theorem luaU_dump_undump_witness:
  "dumpable (LUAI_MAXCCALLS - 199) sample_chunk \<and> sourced sample_chunk \<and>
   (\<exists>bytes z'. luaU_dump sample_chunk (\<lambda>b dt. (0, dt @ b)) [] False = (0, bytes) \<and>
      luaU_undump 199 (luaZ_init [bytes]) ''=t'' = Inr (sample_chunk, z'))"
proof -
  from luaU_dump_undump [OF sample_chunk_ok, of "''=t''"]
  obtain bytes where b: "luaU_dump sample_chunk (\<lambda>b dt. (0, dt @ b)) [] False = (0, bytes)"
    "\<And>bs. [] \<notin> set bs \<Longrightarrow> concat bs = bytes \<Longrightarrow> \<exists>z'. luaU_undump 199 (luaZ_init bs) ''=t'' = Inr (sample_chunk, z')"
    by blast
  from b(2) [of "[bytes]"] dump_nonempty [OF b(1)] b(1) sample_chunk_ok show ?thesis by auto
qed

text \<open>Stripping: a chunk dumped with \<open>strip\<close> loads as the same code, constants and nested functions with every piece of debug
  information gone (line numbers, local names, upvalue names) and the source name of every function replaced by \<open>=?\<close>;
  it still passes the verifier.\<close>

theorem luaU_dump_strip:
  assumes "dumpable (LUAI_MAXCCALLS - nCcalls) f"
  shows "\<exists>bytes. luaU_dump f (\<lambda>b dt. (0, dt @ b)) [] True = (0, bytes) \<and>
    (\<exists>g z'. luaU_undump nCcalls (luaZ_init [bytes]) name = Inr (g, z') \<and> p_code g = p_code f \<and> p_k g = p_k f \<and>
       length (p_p g) = length (p_p f) \<and> p_lineinfo g = [] \<and> p_locvars g = [] \<and> p_upvalues g = [] \<and>
       p_source g = Some ''=?'' \<and> luaG_checkcode g)"
proof -
  let ?bytes = "luaU_header @ concat (function_blocks True f None)" and ?g = "restored True None (Some ''=?'') f"
  have d: "luaU_dump f (\<lambda>b dt. (0, dt @ b)) [] True = (0, ?bytes)"
    by (simp add: luaU_dump_run run_writer_append del: run_writer.simps)
  obtain z' where "luaU_undump nCcalls (luaZ_init [?bytes]) name = Inr (?g, z')"
    using undump_restored [OF assms, of "[?bytes]" True name] dump_nonempty [OF d] by auto
  moreover have "luaG_checkcode f" using assms by (cases "LUAI_MAXCCALLS - nCcalls") (auto simp: body_ok_def)
  then have "luaG_checkcode ?g" by (rule same_body_check [OF restored_same_body])
  moreover have "p_code ?g = p_code f" "p_k ?g = p_k f" "length (p_p ?g) = length (p_p f)" "p_lineinfo ?g = []"
    "p_locvars ?g = []" "p_upvalues ?g = []" "p_source ?g = Some ''=?''"
    by (subst restored.simps, simp add: Let_def)+
  ultimately show ?thesis using d by blast
qed

theorem luaU_dump_strip_witness:
  "dumpable (LUAI_MAXCCALLS - 199) sample_chunk \<and>
   (\<exists>bytes g z'. luaU_dump sample_chunk (\<lambda>b dt. (0, dt @ b)) [] True = (0, bytes) \<and>
      luaU_undump 199 (luaZ_init [bytes]) ''=t'' = Inr (g, z') \<and> p_lineinfo g = [])"
  using luaU_dump_strip [OF sample_chunk_ok(1), of "''=t''"] sample_chunk_ok(1) by blast

text \<open>The protocol with the writer: \<open>luaU_dump\<close> hands the writer the same sequence of blocks whatever the writer is, header first,
  until the writer returns a non-zero status; then it calls it no more and returns that status.\<close>

theorem luaU_dump_writer:
  "luaU_dump f w dt strip = run_writer w (luaU_header # function_blocks strip f None) dt"
  by (rule luaU_dump_run)

text \<open>Every function inside a loaded chunk has passed the verifier.\<close>

fun all_checked :: "Proto \<Rightarrow> bool" where
  "all_checked f \<longleftrightarrow> luaG_checkcode f \<and> (\<forall>g \<in> set (p_p f). all_checked g)"

declare all_checked.simps [simp del]

lemma bindL_Inr: "bindL m f z = Inr r \<longleftrightarrow> (\<exists>x z1. m z = Inr (x, z1) \<and> f x z1 = Inr r)"
  by (auto simp: bindL_def bindE_eq_Inr)

lemma load_n_all:
  "load_n n m z = Inr (xs, z') \<Longrightarrow> (\<And>x z z'. m z = Inr (x, z') \<Longrightarrow> P x) \<Longrightarrow> \<forall>x \<in> set xs. P x"
proof (induction n arbitrary: z xs z')
  case 0
  then show ?case by (simp add: retL_def)
next
  case (Suc n)
  from Suc.prems(1) obtain x z1 ys z2 where x: "m z = Inr (x, z1)" "load_n n m z1 = Inr (ys, z2)" "xs = x # ys"
    by (auto simp: bindL_Inr retL_def)
  have "P x" by (rule Suc.prems(2) [OF x(1)])
  moreover have "\<forall>y \<in> set ys. P y" by (rule Suc.IH [OF x(2) Suc.prems(2)])
  ultimately show ?case using x(3) by simp
qed

lemma LoadFunction_checked: "LoadFunction d S p z = Inr (f, z') \<Longrightarrow> all_checked f"
proof (induction d arbitrary: p z f z')
  case (Suc d)
  from Suc.prems obtain src zs n z1 ps z2 where ps: "load_n n (LoadFunction d S src) z1 = Inr (ps, z2)" "p_p f = ps"
    and ck: "luaG_checkcode f"
    by (auto simp: bindL_Inr retL_def IF_error_def Let_def split: if_splits prod.splits)
  from load_n_all [OF ps(1)] Suc.IH have "\<forall>g \<in> set ps. all_checked g" by blast
  with ck ps(2) show ?case by (simp add: all_checked.simps [of f])
qed simp

text \<open>Property C21.  Nothing unverified is loaded: whatever the bytes of the stream are, when \<open>luaU_undump\<close> returns a function, that function and
  every function nested in it, at any depth, has been accepted by \<open>luaG_checkcode\<close>.\<close>

theorem luaU_undump_verified:
  assumes "luaU_undump nCcalls z name = Inr (f, z')"
  shows "all_checked f"
  using assms LoadFunction_checked by (auto simp: luaU_undump_def bindL_Inr Let_def)

theorem luaU_undump_verified_witness: "\<exists>z z'. luaU_undump 199 z ''=t'' = Inr (sample_chunk, z') \<and> all_checked sample_chunk"
proof -
  let ?bytes = "luaU_header @ concat (function_blocks False sample_chunk None)"
  have "restored False None (Some ''=?'') sample_chunk = sample_chunk"
    using sample_chunk_ok(2) by (intro restored_id) (auto simp: sourced.simps [of sample_chunk])
  with undump_restored [OF sample_chunk_ok(1), of "[?bytes]" False "''=t''"]
  obtain z' where z': "luaU_undump 199 (luaZ_init [?bytes]) ''=t'' = Inr (sample_chunk, z')"
    by (auto simp: luaU_header_def)
  from luaU_undump_verified [OF z'] z' show ?thesis by blast
qed

text \<open>Foreign and truncated input: a stream with fewer bytes than a header is refused as \<open>unexpected end\<close>, and one whose first 12 bytes
  are not the header of this version, format and platform is refused as \<open>bad header\<close>, both as syntax errors that carry the chunk name.\<close>

theorem luaU_undump_bad_header:
  "(length (zbytes z) < 12 \<longrightarrow>
      luaU_undump nCcalls z name = Inl (ErrSyntax (load_name name @ '': '' @ ''unexpected end'' @ '' in precompiled chunk''))) \<and>
   (12 \<le> length (zbytes z) \<and> take 12 (zbytes z) \<noteq> luaU_header \<longrightarrow>
      luaU_undump nCcalls z name = Inl (ErrSyntax (load_name name @ '': '' @ ''bad header'' @ '' in precompiled chunk'')))"
proof -
  obtain b r z' where r: "luaZ_read z LUAC_HEADERSIZE = (b, r, z')" by (metis prod_cases3)
  from luaZ_read_spec [OF r] have "b = take 12 (zbytes z)" "r = 12 - length (zbytes z)"
    by (simp_all add: LUAC_HEADERSIZE_def)
  with r show ?thesis
    by (auto simp: luaU_undump_def LoadHeader_def bindL_def LoadBlock_def IF_error_def load_error_def Let_def)
qed

theorem luaU_undump_bad_header_witness:
  "luaU_undump 0 (luaZ_init [''abc'']) ''=t'' = Inl (ErrSyntax (''t'' @ '': '' @ ''unexpected end'' @ '' in precompiled chunk''))"
  using luaU_undump_bad_header [of "luaZ_init [''abc'']" 0 "''=t''"]
  by (simp add: zbytes_def luaZ_init_def load_name_def)

end
