(* ===== verification/NetBuffer.thy ===== *)
theory NetBuffer
  imports Bytes "HOL-Library.Sublist"
begin

text \<open>
  The byte buffer of the network library: \<^verbatim>\<open>src/muduo/net/Buffer.h\<close> and \<^verbatim>\<open>src/muduo/net/Buffer.cc\<close>.  The vector
  \<open>buffer_\<close> is a list of bytes and the indices are \<open>size_t\<close> values, natural numbers with the wrap-around of unsigned
  subtraction and addition written out (\<open>sub64\<close>, \<open>add64\<close>): \<open>decryptIndex_\<close> may lag behind
  \<open>readerIndex_\<close>, and then \<open>decryptedBytes\<close> does wrap.  An operation that asserts returns \<open>None\<close> when the assertion fails.
  The theory shows that the buffer implements a byte queue: \<open>content\<close> is the abstraction, \<open>buf_ok\<close> the invariant,
  and the locale \<open>byte_queue\<close> the interface that the codec relies on.  The sums of sizes of \<open>makeSpace\<close> and \<open>append\<close> are
  sums of lengths of vectors that are in memory, far below \<open>2 ^ 64\<close>, and do not wrap; a vector that cannot be allocated
  (an exception of \<open>std::vector\<close>) is not modelled.  The one narrowing conversion, that of \<open>toStringPiece\<close> to \<open>int\<close>, is.
\<close>

definition sub64 :: "nat \<Rightarrow> nat \<Rightarrow> nat" where
  "sub64 a b = (if b \<le> a then a - b else a + 2 ^ 64 - b)"

definition add64 :: "nat \<Rightarrow> nat \<Rightarrow> nat" where
  "add64 a b = (a + b) mod 2 ^ 64"

record Buffer =
  buffer :: string
  readerIndex :: nat
  writerIndex :: nat
  decryptIndex :: nat

definition kCheapPrepend :: nat where "kCheapPrepend = 8"
definition kInitialSize :: nat where "kInitialSize = 1024"
definition kCRLF :: string where "kCRLF = [CHR 0x0D, CHR 0x0A]"

definition newBuffer :: "nat \<Rightarrow> Buffer" where
  "newBuffer initialSize = \<lparr>buffer = replicate (kCheapPrepend + initialSize) (CHR 0x00),
     readerIndex = kCheapPrepend, writerIndex = kCheapPrepend, decryptIndex = kCheapPrepend\<rparr>"

definition readableBytes :: "Buffer \<Rightarrow> nat" where
  "readableBytes b = sub64 (writerIndex b) (readerIndex b)"

definition writableBytes :: "Buffer \<Rightarrow> nat" where
  "writableBytes b = sub64 (length (buffer b)) (writerIndex b)"

definition decryptedBytes :: "Buffer \<Rightarrow> nat" where
  "decryptedBytes b = sub64 (decryptIndex b) (readerIndex b)"

definition unDecryptedBytes :: "Buffer \<Rightarrow> nat" where
  "unDecryptedBytes b = sub64 (writerIndex b) (decryptIndex b)"

definition prependableBytes :: "Buffer \<Rightarrow> nat" where
  "prependableBytes b = readerIndex b"

text \<open>\<open>n\<close> bytes of the vector from index \<open>i\<close>, and the vector with the bytes \<open>d\<close> written from index \<open>i\<close> (\<open>std::copy\<close>).\<close>

definition bytes_at :: "Buffer \<Rightarrow> nat \<Rightarrow> nat \<Rightarrow> string" where
  "bytes_at b i n = take n (drop i (buffer b))"

definition poke :: "string \<Rightarrow> nat \<Rightarrow> string \<Rightarrow> string" where
  "poke v i d = take i v @ d @ drop (i + length d) v"

text \<open>The bytes from \<open>peek()\<close> up to \<open>beginWrite()\<close>.\<close>

definition content :: "Buffer \<Rightarrow> string" where
  "content b = bytes_at b (readerIndex b) (writerIndex b - readerIndex b)"

text \<open>Searching: \<open>search\<close> is \<open>std::search\<close> for \<open>kCRLF\<close>, \<open>memchr_at\<close> is \<open>memchr\<close>; positions are offsets from \<open>peek()\<close>.\<close>

fun search :: "string \<Rightarrow> string \<Rightarrow> nat option" where
  "search pat [] = (if pat = [] then Some 0 else None)"
| "search pat (c # cs) = (if take (length pat) (c # cs) = pat then Some 0 else map_option Suc (search pat cs))"

fun memchr_at :: "char \<Rightarrow> string \<Rightarrow> nat option" where
  "memchr_at x [] = None"
| "memchr_at x (c # cs) = (if c = x then Some 0 else map_option Suc (memchr_at x cs))"

definition findCRLF :: "Buffer \<Rightarrow> nat option" where
  "findCRLF b = search kCRLF (content b)"

definition findCRLF_from :: "Buffer \<Rightarrow> nat \<Rightarrow> nat option" where
  "findCRLF_from b start = map_option (\<lambda>i. start + i) (search kCRLF (drop start (content b)))"

definition findEOL :: "Buffer \<Rightarrow> nat option" where
  "findEOL b = memchr_at (CHR 0x0A) (content b)"

definition findEOL_from :: "Buffer \<Rightarrow> nat \<Rightarrow> nat option" where
  "findEOL_from b start = map_option (\<lambda>i. start + i) (memchr_at (CHR 0x0A) (drop start (content b)))"

section \<open>Taking bytes out\<close>

definition retrieveAll :: "Buffer \<Rightarrow> Buffer" where
  "retrieveAll b = b\<lparr>readerIndex := kCheapPrepend, writerIndex := kCheapPrepend, decryptIndex := kCheapPrepend\<rparr>"

definition retrieve :: "nat \<Rightarrow> Buffer \<Rightarrow> Buffer option" where
  "retrieve len b =
     (if \<not> len \<le> readableBytes b then None
      else if len < readableBytes b then Some (b\<lparr>readerIndex := readerIndex b + len\<rparr>)
      else Some (retrieveAll b))"

text \<open>\<open>retrieveUntil\<close>, with the end given as an offset from \<open>peek()\<close>.\<close>

definition retrieveUntil :: "nat \<Rightarrow> Buffer \<Rightarrow> Buffer option" where
  "retrieveUntil e b = (if e \<le> readableBytes b then retrieve e b else None)"

definition retrieveInt64 :: "Buffer \<Rightarrow> Buffer option" where "retrieveInt64 = retrieve 8"
definition retrieveInt32 :: "Buffer \<Rightarrow> Buffer option" where "retrieveInt32 = retrieve 4"
definition retrieveInt16 :: "Buffer \<Rightarrow> Buffer option" where "retrieveInt16 = retrieve 2"
definition retrieveInt8 :: "Buffer \<Rightarrow> Buffer option" where "retrieveInt8 = retrieve 1"

definition retrieveAsString :: "nat \<Rightarrow> Buffer \<Rightarrow> (string \<times> Buffer) option" where
  "retrieveAsString len b =
     (if len \<le> readableBytes b
      then map_option (Pair (bytes_at b (readerIndex b) len)) (retrieve len b)
      else None)"

definition retrieveAllAsString :: "Buffer \<Rightarrow> (string \<times> Buffer) option" where
  "retrieveAllAsString b = retrieveAsString (readableBytes b) b"

section \<open>Putting bytes in\<close>

definition makeSpace :: "nat \<Rightarrow> Buffer \<Rightarrow> Buffer option" where
  "makeSpace len b =
     (if writableBytes b + prependableBytes b < len + kCheapPrepend
      then Some (b\<lparr>buffer := buffer b @ replicate (writerIndex b + len - length (buffer b)) (CHR 0x00)\<rparr>)
      else if \<not> kCheapPrepend < readerIndex b then None
      else
        (let readable = readableBytes b;
             decrypted = decryptedBytes b
         in Some (b\<lparr>buffer := poke (buffer b) kCheapPrepend (content b),
                    readerIndex := kCheapPrepend,
                    writerIndex := kCheapPrepend + readable,
                    decryptIndex := add64 kCheapPrepend decrypted\<rparr>)))"

definition ensureWritableBytes :: "nat \<Rightarrow> Buffer \<Rightarrow> Buffer option" where
  "ensureWritableBytes len b =
     Option.bind (if writableBytes b < len then makeSpace len b else Some b)
       (\<lambda>b. if writableBytes b \<ge> len then Some b else None)"

definition hasWritten :: "nat \<Rightarrow> Buffer \<Rightarrow> Buffer option" where
  "hasWritten len b = (if len \<le> writableBytes b then Some (b\<lparr>writerIndex := writerIndex b + len\<rparr>) else None)"

definition unwrite :: "nat \<Rightarrow> Buffer \<Rightarrow> Buffer option" where
  "unwrite len b = (if len \<le> readableBytes b then Some (b\<lparr>writerIndex := writerIndex b - len\<rparr>) else None)"

definition append_bytes :: "string \<Rightarrow> Buffer \<Rightarrow> Buffer option" where
  "append_bytes d b =
     Option.bind (ensureWritableBytes (length d) b)
       (\<lambda>b. hasWritten (length d) (b\<lparr>buffer := poke (buffer b) (writerIndex b) d\<rparr>))"

definition prepend :: "string \<Rightarrow> Buffer \<Rightarrow> Buffer option" where
  "prepend d b =
     (if length d \<le> prependableBytes b
      then Some (b\<lparr>readerIndex := readerIndex b - length d,
                   buffer := poke (buffer b) (readerIndex b - length d) d\<rparr>)
      else None)"

definition hasDecrypt :: "nat \<Rightarrow> Buffer \<Rightarrow> Buffer option" where
  "hasDecrypt len b = (if len \<le> unDecryptedBytes b then Some (b\<lparr>decryptIndex := add64 (decryptIndex b) len\<rparr>) else None)"

text \<open>\<open>toStringPiece\<close> casts the number of bytes to \<open>int\<close>: the piece has the low 32 bits of it as its signed size.  \<open>None\<close> is
  a piece of negative size; appending it asks the vector for about \<open>2 ^ 64\<close> bytes, which throws.\<close>

definition toStringPiece :: "Buffer \<Rightarrow> string option" where
  "toStringPiece b =
     (let size = as_signed 4 (readableBytes b mod 2 ^ 32)
      in if size < 0 then None else Some (bytes_at b (readerIndex b) (nat size)))"

text \<open>\<open>shrink\<close> builds a fresh buffer with the bytes of \<open>toStringPiece\<close> and swaps it in.\<close>

definition shrink :: "nat \<Rightarrow> Buffer \<Rightarrow> Buffer option" where
  "shrink reserve b =
     Option.bind (ensureWritableBytes (readableBytes b + reserve) (newBuffer kInitialSize))
       (\<lambda>other. Option.bind (toStringPiece b) (\<lambda>str. append_bytes str other))"

text \<open>
  \<open>readFd\<close>: \<open>readv\<close> fills the writable part of the vector and then a 64 KB stack buffer, and the overflow is appended.
  The result of the system call is a parameter: \<open>None\<close> for an error, otherwise the bytes received.
\<close>

definition readFd :: "string option \<Rightarrow> Buffer \<Rightarrow> Buffer option" where
  "readFd received b = (case received of
       None \<Rightarrow> Some b
     | Some d \<Rightarrow>
         (let writable = writableBytes b in
          if length d \<le> writable
          then Some (b\<lparr>buffer := poke (buffer b) (writerIndex b) d, writerIndex := writerIndex b + length d\<rparr>)
          else append_bytes (drop writable d)
                 (b\<lparr>buffer := poke (buffer b) (writerIndex b) (take writable d), writerIndex := length (buffer b)\<rparr>)))"

text \<open>The number of bytes \<open>readv\<close> is asked for.\<close>

definition readFd_room :: "Buffer \<Rightarrow> nat" where
  "readFd_room b = (if writableBytes b < 65536 then writableBytes b + 65536 else writableBytes b)"

section \<open>Integers in network order\<close>

definition appendInt64 :: "int \<Rightarrow> Buffer \<Rightarrow> Buffer option" where "appendInt64 x = append_bytes (be_bytes 8 x)"
definition appendInt32 :: "int \<Rightarrow> Buffer \<Rightarrow> Buffer option" where "appendInt32 x = append_bytes (be_bytes 4 x)"
definition appendInt16 :: "int \<Rightarrow> Buffer \<Rightarrow> Buffer option" where "appendInt16 x = append_bytes (be_bytes 2 x)"
definition appendInt8 :: "int \<Rightarrow> Buffer \<Rightarrow> Buffer option" where "appendInt8 x = append_bytes (be_bytes 1 x)"

definition prependInt64 :: "int \<Rightarrow> Buffer \<Rightarrow> Buffer option" where "prependInt64 x = prepend (be_bytes 8 x)"
definition prependInt32 :: "int \<Rightarrow> Buffer \<Rightarrow> Buffer option" where "prependInt32 x = prepend (be_bytes 4 x)"
definition prependInt16 :: "int \<Rightarrow> Buffer \<Rightarrow> Buffer option" where "prependInt16 x = prepend (be_bytes 2 x)"
definition prependInt8 :: "int \<Rightarrow> Buffer \<Rightarrow> Buffer option" where "prependInt8 x = prepend (be_bytes 1 x)"

definition peekInt :: "nat \<Rightarrow> Buffer \<Rightarrow> int option" where
  "peekInt n b =
     (if readableBytes b \<ge> n then Some (as_signed n (be_value (bytes_at b (readerIndex b) n))) else None)"

definition peekInt64 :: "Buffer \<Rightarrow> int option" where "peekInt64 = peekInt 8"
definition peekInt32 :: "Buffer \<Rightarrow> int option" where "peekInt32 = peekInt 4"
definition peekInt16 :: "Buffer \<Rightarrow> int option" where "peekInt16 = peekInt 2"
definition peekInt8 :: "Buffer \<Rightarrow> int option" where "peekInt8 = peekInt 1"

definition readInt :: "nat \<Rightarrow> Buffer \<Rightarrow> (int \<times> Buffer) option" where
  "readInt n b = Option.bind (peekInt n b) (\<lambda>x. map_option (Pair x) (retrieve n b))"

definition readInt64 :: "Buffer \<Rightarrow> (int \<times> Buffer) option" where "readInt64 = readInt 8"
definition readInt32 :: "Buffer \<Rightarrow> (int \<times> Buffer) option" where "readInt32 = readInt 4"
definition readInt16 :: "Buffer \<Rightarrow> (int \<times> Buffer) option" where "readInt16 = readInt 2"
definition readInt8 :: "Buffer \<Rightarrow> (int \<times> Buffer) option" where "readInt8 = readInt 1"

section \<open>The buffer is a byte queue\<close>

definition buf_ok :: "Buffer \<Rightarrow> bool" where
  "buf_ok b \<longleftrightarrow> readerIndex b \<le> writerIndex b \<and> writerIndex b \<le> length (buffer b)"

lemma length_poke [simp]: "i + length d \<le> length v \<Longrightarrow> length (poke v i d) = length v"
  by (simp add: poke_def)

lemma take_poke: "j \<le> i \<Longrightarrow> i \<le> length v \<Longrightarrow> take j (poke v i d) = take j v"
  by (simp add: poke_def min_absorb1)

lemma slice_poke_before:
  "j + n \<le> i \<Longrightarrow> i \<le> length v \<Longrightarrow> take n (drop j (poke v i d)) = take n (drop j v)"
  using take_poke [of "j + n" i v d] by (simp add: take_drop add.commute)

lemma slice_poke_at: "i \<le> length v \<Longrightarrow> take (length d) (drop i (poke v i d)) = d"
  by (simp add: poke_def)

lemma slice_poke_after: "i + length d \<le> j \<Longrightarrow> i + length d \<le> length v \<Longrightarrow> drop j (poke v i d) = drop j v"
  by (simp add: poke_def)

lemma slice_split: "take (m + n) (drop i v) = take m (drop i v) @ take n (drop (i + m) v)"
  by (simp add: take_add add.commute)

lemma content_length: "buf_ok b \<Longrightarrow> length (content b) = writerIndex b - readerIndex b"
  by (auto simp: buf_ok_def content_def bytes_at_def)

lemma readable_content [simp]: "buf_ok b \<Longrightarrow> readableBytes b = length (content b)"
  by (simp add: content_length readableBytes_def sub64_def buf_ok_def)

lemma writable_eq [simp]: "buf_ok b \<Longrightarrow> writableBytes b = length (buffer b) - writerIndex b"
  by (simp add: writableBytes_def sub64_def buf_ok_def)

lemma bytes_at_content: "buf_ok b \<Longrightarrow> n \<le> length (content b) \<Longrightarrow> bytes_at b (readerIndex b) n = take n (content b)"
  by (simp add: content_length) (simp add: content_def bytes_at_def min_absorb1)

lemma bytes_at_inside:
  "buf_ok b \<Longrightarrow> i + n \<le> length (content b) \<Longrightarrow> bytes_at b (readerIndex b + i) n = take n (drop i (content b))"
  by (simp add: content_length) (simp add: content_def bytes_at_def drop_take add.commute min_absorb1)

lemma new_ok [simp]: "buf_ok (newBuffer n)" "content (newBuffer n) = []" "prependableBytes (newBuffer n) = 8"
  by (simp_all add: newBuffer_def buf_ok_def content_def bytes_at_def prependableBytes_def kCheapPrepend_def)

lemma retrieveAll_ok: "buf_ok b \<Longrightarrow> kCheapPrepend \<le> length (buffer b) \<Longrightarrow> buf_ok (retrieveAll b) \<and> content (retrieveAll b) = []"
  by (simp add: retrieveAll_def buf_ok_def content_def bytes_at_def)

text \<open>The vector never gets shorter than the cheap prepend area: a part of the invariant every operation keeps.\<close>

definition buf_inv :: "Buffer \<Rightarrow> bool" where
  "buf_inv b \<longleftrightarrow> buf_ok b \<and> kCheapPrepend \<le> length (buffer b)"

lemma buf_inv_ok [simp]: "buf_inv b \<Longrightarrow> buf_ok b"
  by (simp add: buf_inv_def)

lemma new_inv [simp]: "buf_inv (newBuffer n)"
  by (simp add: buf_inv_def) (simp add: newBuffer_def)

lemma retrieve_spec:
  assumes "buf_inv b" "n \<le> length (content b)"
  shows "\<exists>b'. retrieve n b = Some b' \<and> buf_inv b' \<and> content b' = drop n (content b) \<and>
    prependableBytes b' \<ge> min (prependableBytes b) kCheapPrepend"
proof (cases "n < length (content b)")
  case True
  let ?b = "b\<lparr>readerIndex := readerIndex b + n\<rparr>"
  from assms True have "buf_inv ?b" by (auto simp: buf_inv_def buf_ok_def content_length)
  moreover have "content ?b = drop n (content b)"
    by (simp add: content_def bytes_at_def drop_take add.commute)
  ultimately show ?thesis using True assms by (simp add: retrieve_def prependableBytes_def)
next
  case False
  with assms have "retrieve n b = Some (retrieveAll b)" by (simp add: retrieve_def)
  moreover have "buf_inv (retrieveAll b)" "content (retrieveAll b) = []"
    using assms retrieveAll_ok [of b] by (auto simp: buf_inv_def retrieveAll_def)
  ultimately show ?thesis using False assms by (simp add: retrieveAll_def prependableBytes_def)
qed

lemma makeSpace_spec:
  assumes "buf_inv b" "length (buffer b) - writerIndex b < len"
  shows "\<exists>b'. makeSpace len b = Some b' \<and> buf_inv b' \<and> content b' = content b \<and> writableBytes b' \<ge> len \<and>
    prependableBytes b' \<ge> min (prependableBytes b) kCheapPrepend"
proof (cases "writableBytes b + prependableBytes b < len + kCheapPrepend")
  case True
  let ?b = "b\<lparr>buffer := buffer b @ replicate (writerIndex b + len - length (buffer b)) (CHR 0x00)\<rparr>"
  have "buf_inv ?b" "content ?b = content b"
    using assms by (auto simp: buf_inv_def buf_ok_def content_def bytes_at_def)
  moreover from this(1) assms have "writableBytes ?b \<ge> len" by (simp add: buf_inv_def)
  ultimately show ?thesis using True by (simp add: makeSpace_def prependableBytes_def)
next
  case False
  with assms have r: "kCheapPrepend < readerIndex b" by (simp add: prependableBytes_def)
  let ?b = "b\<lparr>buffer := poke (buffer b) kCheapPrepend (content b), readerIndex := kCheapPrepend,
    writerIndex := kCheapPrepend + readableBytes b, decryptIndex := add64 kCheapPrepend (decryptedBytes b)\<rparr>"
  have ok: "readerIndex b \<le> writerIndex b" "writerIndex b \<le> length (buffer b)" "buf_ok b" "kCheapPrepend \<le> length (buffer b)"
    using assms(1) by (simp_all add: buf_inv_def buf_ok_def)
  with r have l: "kCheapPrepend + length (content b) \<le> length (buffer b)" by (simp add: content_length)
  with ok have "buf_inv ?b" by (simp add: buf_inv_def buf_ok_def)
  moreover have "content ?b = content b"
    using ok by (subst content_def) (simp add: bytes_at_def slice_poke_at)
  moreover have "writableBytes ?b \<ge> len"
  proof -
    have "buf_ok ?b" using \<open>buf_inv ?b\<close> by simp
    then have "writableBytes ?b = length (buffer b) - (kCheapPrepend + length (content b))" using l ok by simp
    with False ok r show ?thesis by (simp add: prependableBytes_def content_length)
  qed
  ultimately show ?thesis using False r by (simp add: makeSpace_def Let_def prependableBytes_def)
qed

lemma ensureWritable_spec:
  assumes "buf_inv b"
  shows "\<exists>b'. ensureWritableBytes len b = Some b' \<and> buf_inv b' \<and> content b' = content b \<and> writableBytes b' \<ge> len \<and>
    prependableBytes b' \<ge> min (prependableBytes b) kCheapPrepend"
proof (cases "length (buffer b) - writerIndex b < len")
  case True
  from makeSpace_spec [OF assms True] True assms show ?thesis by (auto simp: ensureWritableBytes_def)
next
  case False
  with assms show ?thesis by (simp add: ensureWritableBytes_def)
qed

lemma append_spec:
  assumes "buf_inv b"
  shows "\<exists>b'. append_bytes d b = Some b' \<and> buf_inv b' \<and> content b' = content b @ d \<and>
    prependableBytes b' \<ge> min (prependableBytes b) kCheapPrepend"
proof -
  obtain c where c: "ensureWritableBytes (length d) b = Some c" "buf_inv c" "content c = content b"
    "writableBytes c \<ge> length d" "prependableBytes c \<ge> min (prependableBytes b) kCheapPrepend"
    using ensureWritable_spec [OF assms] by blast
  let ?c = "c\<lparr>buffer := poke (buffer c) (writerIndex c) d\<rparr>"
  let ?e = "?c\<lparr>writerIndex := writerIndex c + length d\<rparr>"
  have ok: "readerIndex c \<le> writerIndex c" "writerIndex c \<le> length (buffer c)" "kCheapPrepend \<le> length (buffer c)"
    using c(2) by (simp_all add: buf_inv_def buf_ok_def)
  have w: "writerIndex c + length d \<le> length (buffer c)" using c(2,4) ok by simp
  have "buf_ok ?c" using ok w by (simp add: buf_ok_def)
  then have "writableBytes ?c \<ge> length d" using w by simp
  then have "append_bytes d b = Some ?e" using c by (simp add: append_bytes_def hasWritten_def)
  moreover have "buf_inv ?e" using ok w by (simp add: buf_inv_def buf_ok_def)
  moreover have "content ?e = content c @ d"
  proof -
    have "content ?e = take (writerIndex c - readerIndex c + length d) (drop (readerIndex c) (poke (buffer c) (writerIndex c) d))"
      using ok by (simp add: content_def bytes_at_def)
    also have "\<dots> = take (writerIndex c - readerIndex c) (drop (readerIndex c) (buffer c)) @ d"
      unfolding slice_split using ok by (simp add: slice_poke_before slice_poke_at)
    finally show ?thesis by (simp add: content_def bytes_at_def)
  qed
  ultimately show ?thesis using c by (simp add: prependableBytes_def)
qed

lemma prepend_spec:
  assumes "buf_inv b" "length d \<le> prependableBytes b"
  shows "\<exists>b'. prepend d b = Some b' \<and> buf_inv b' \<and> content b' = d @ content b"
proof -
  let ?i = "readerIndex b - length d"
  let ?b = "b\<lparr>readerIndex := ?i, buffer := poke (buffer b) ?i d\<rparr>"
  have ok: "readerIndex b \<le> writerIndex b" "writerIndex b \<le> length (buffer b)" "length d \<le> readerIndex b"
    using assms by (simp_all add: buf_inv_def buf_ok_def prependableBytes_def)
  have "buf_inv ?b" using assms ok by (simp add: buf_inv_def buf_ok_def)
  moreover have "content ?b = d @ content b"
  proof -
    have "content ?b = take (length d + (writerIndex b - readerIndex b)) (drop ?i (poke (buffer b) ?i d))"
      using ok by (simp add: content_def bytes_at_def add.commute)
    also have "\<dots> = d @ take (writerIndex b - readerIndex b) (drop (readerIndex b) (buffer b))"
      unfolding slice_split using ok by (simp add: slice_poke_at slice_poke_after)
    finally show ?thesis by (simp add: content_def bytes_at_def)
  qed
  ultimately show ?thesis using assms by (simp add: prepend_def)
qed

lemma unwrite_spec:
  assumes "buf_inv b" "n \<le> length (content b)"
  shows "\<exists>b'. unwrite n b = Some b' \<and> buf_inv b' \<and> content b' = take (length (content b) - n) (content b)"
proof -
  let ?b = "b\<lparr>writerIndex := writerIndex b - n\<rparr>"
  have "buf_inv ?b" using assms by (auto simp: buf_inv_def buf_ok_def content_length)
  moreover have "content ?b = take (length (content b) - n) (content b)"
    using assms by (simp add: content_length) (simp add: content_def bytes_at_def min_def add.commute)
  ultimately show ?thesis using assms by (simp add: unwrite_def)
qed

lemma readFd_spec:
  assumes "buf_inv b"
  shows "\<exists>b'. readFd (Some d) b = Some b' \<and> buf_inv b' \<and> content b' = content b @ d \<and>
    prependableBytes b' \<ge> min (prependableBytes b) kCheapPrepend"
proof -
  let ?w = "length (buffer b) - writerIndex b"
  define t where "t = take ?w d"
  let ?c = "b\<lparr>buffer := poke (buffer b) (writerIndex b) t, writerIndex := writerIndex b + length t\<rparr>"
  have ok: "readerIndex b \<le> writerIndex b" "writerIndex b \<le> length (buffer b)" "kCheapPrepend \<le> length (buffer b)"
    using assms by (simp_all add: buf_inv_def buf_ok_def)
  have w: "writerIndex b + length t \<le> length (buffer b)" using ok by (simp add: t_def)
  have inv: "buf_inv ?c" using ok w by (simp add: buf_inv_def buf_ok_def)
  have "content ?c = take ((writerIndex b - readerIndex b) + length t) (drop (readerIndex b) (poke (buffer b) (writerIndex b) t))"
    using ok by (simp add: content_def bytes_at_def)
  also have "\<dots> = content b @ t"
    unfolding slice_split using ok by (simp add: slice_poke_before slice_poke_at content_def bytes_at_def)
  finally have c: "content ?c = content b @ t" .
  show ?thesis
  proof (cases "length d \<le> ?w")
    case True
    then have "t = d" by (simp add: t_def)
    with inv c assms True show ?thesis by (simp add: readFd_def prependableBytes_def)
  next
    case False
    then have "writerIndex b + length t = length (buffer b)" using ok by (simp add: t_def)
    with False assms have "readFd (Some d) b = append_bytes (drop ?w d) ?c"
      by (simp add: readFd_def Let_def t_def [symmetric])
    with append_spec [OF inv, of "drop ?w d"] c show ?thesis
      by (auto simp: prependableBytes_def t_def)
  qed
qed

lemma toStringPiece_small:
  assumes "buf_inv b" "length (content b) < 2 ^ 31"
  shows "toStringPiece b = Some (content b)"
proof -
  have "2 * length (content b) < 256 ^ 4" using assms(2) by simp
  then have "as_signed 4 (readableBytes b mod 2 ^ 32) = int (length (content b))"
    using assms by (simp add: as_signed_def)
  with assms(1) show ?thesis by (simp add: toStringPiece_def bytes_at_content)
qed

text \<open>From \<open>2 ^ 31\<close> bytes on the size of the piece is negative, and from \<open>2 ^ 32\<close> on \<open>shrink\<close> keeps the first bytes only.\<close>

lemma toStringPiece_large:
  assumes "buf_inv b" "2 ^ 31 \<le> length (content b)" "length (content b) < 2 ^ 32"
  shows "toStringPiece b = None" "shrink n b = None"
proof -
  have "\<not> 2 * length (content b) < 256 ^ 4" "int (length (content b)) < 2 ^ 32" using assms(2,3) by simp_all
  then show "toStringPiece b = None" using assms by (simp add: toStringPiece_def as_signed_def)
  then show "shrink n b = None" by (cases "ensureWritableBytes (readableBytes b + n) (newBuffer kInitialSize)") (simp_all add: shrink_def)
qed

lemma shrink_spec:
  assumes "buf_inv b" "length (content b) < 2 ^ 31"
  shows "\<exists>b'. shrink n b = Some b' \<and> buf_inv b' \<and> content b' = content b"
proof -
  obtain c where "ensureWritableBytes (readableBytes b + n) (newBuffer kInitialSize) = Some c" "buf_inv c" "content c = []"
    using ensureWritable_spec [OF new_inv, of "readableBytes b + n" kInitialSize] by auto
  with append_spec [of c "content b"] toStringPiece_small [OF assms] show ?thesis by (auto simp: shrink_def)
qed

lemma peekInt_spec:
  assumes "buf_inv b" "content b = be_bytes n x @ s" "fits_bytes n x"
  shows "peekInt n b = Some x"
  using assms by (simp add: peekInt_def bytes_at_content as_signed_be_bytes)

lemma readInt_spec:
  assumes "buf_inv b" "content b = be_bytes n x @ s" "fits_bytes n x"
  shows "\<exists>b'. readInt n b = Some (x, b') \<and> buf_inv b' \<and> content b' = s"
  using retrieve_spec [of b n] assms peekInt_spec [OF assms] by (auto simp: readInt_def)

lemma search_Some:
  "search pat s = Some i \<longleftrightarrow> (\<exists>p q. s = p @ pat @ q \<and> length p = i \<and> (\<forall>j < i. take (length pat) (drop j s) \<noteq> pat))"
proof (induction s arbitrary: i)
  case Nil
  then show ?case by auto
next
  case (Cons c cs)
  show ?case
  proof (cases "take (length pat) (c # cs) = pat")
    case True
    then have "c # cs = [] @ pat @ drop (length pat) (c # cs)" by (metis append_Nil append_take_drop_id)
    with True show ?thesis by (cases i) (auto simp del: append_Nil)
  next
    case False
    have "search pat (c # cs) = Some i \<longleftrightarrow> (\<exists>k. i = Suc k \<and> search pat cs = Some k)" using False by auto
    also have "\<dots> \<longleftrightarrow> (\<exists>k p q. i = Suc k \<and> cs = p @ pat @ q \<and> length p = k \<and> (\<forall>j < k. take (length pat) (drop j cs) \<noteq> pat))"
      using Cons.IH by auto
    also have "\<dots> \<longleftrightarrow> (\<exists>p q. c # cs = p @ pat @ q \<and> length p = i \<and> (\<forall>j < i. take (length pat) (drop j (c # cs)) \<noteq> pat))"
      (is "?L \<longleftrightarrow> ?R")
    proof
      assume ?L
      then obtain k p q where "i = Suc k" "cs = p @ pat @ q" "length p = k" "\<forall>j < k. take (length pat) (drop j cs) \<noteq> pat"
        by blast
      with False show ?R by (intro exI [of _ "c # p"] exI [of _ q]) (auto simp: less_Suc_eq_0_disj)
    next
      assume ?R
      then obtain p q where pq: "c # cs = p @ pat @ q" "length p = i" "\<forall>j < i. take (length pat) (drop j (c # cs)) \<noteq> pat"
        by blast
      with False obtain p' where "p = c # p'" by (cases p) auto
      with pq show ?L by (intro exI [of _ "length p'"] exI [of _ p'] exI [of _ q]) auto
    qed
    finally show ?thesis .
  qed
qed

section \<open>The interface of a byte queue\<close>

text \<open>
  What the clients of a buffer rely on: an abstraction to the bytes not yet consumed, writing at the end, consuming
  from the front, and the number of bytes ready.
\<close>

locale byte_queue =
  fixes inv :: "'b \<Rightarrow> bool" and bytes :: "'b \<Rightarrow> 'a list" and ready :: "'b \<Rightarrow> nat"
    and put :: "'a list \<Rightarrow> 'b \<Rightarrow> 'b option" and drop_front :: "nat \<Rightarrow> 'b \<Rightarrow> 'b option"
  assumes ready_bytes: "inv b \<Longrightarrow> ready b = length (bytes b)"
    and put_law: "inv b \<Longrightarrow> \<exists>b'. put d b = Some b' \<and> inv b' \<and> bytes b' = bytes b @ d"
    and drop_law: "inv b \<Longrightarrow> n \<le> length (bytes b) \<Longrightarrow> \<exists>b'. drop_front n b = Some b' \<and> inv b' \<and> bytes b' = drop n (bytes b)"
begin

text \<open>A sequence of writes, in order.\<close>

primrec put_all :: "'a list list \<Rightarrow> 'b \<Rightarrow> 'b option" where
  "put_all [] b = Some b"
| "put_all (d # ds) b = Option.bind (put d b) (put_all ds)"

lemma put_all_bytes: "inv b \<Longrightarrow> \<exists>b'. put_all ds b = Some b' \<and> inv b' \<and> bytes b' = bytes b @ concat ds"
proof (induction ds arbitrary: b)
  case (Cons d ds)
  obtain c where c: "put d b = Some c" "inv c" "bytes c = bytes b @ d" using put_law [OF Cons.prems] by blast
  from Cons.IH [OF c(2)] c show ?case by auto
qed simp

text \<open>First in, first out: what is put into an empty queue comes out in order, in pieces of any size.\<close>

lemma fifo:
  assumes "inv b" "bytes b = []" "n \<le> length (concat ds)"
  shows "\<exists>c e. put_all ds b = Some c \<and> bytes c = concat ds \<and> drop_front n c = Some e \<and> inv e \<and> bytes e = drop n (concat ds)"
proof -
  obtain c where c: "put_all ds b = Some c" "inv c" "bytes c = concat ds"
    using put_all_bytes [OF assms(1)] assms(2) by auto
  with drop_law [OF c(2), of n] assms(3) show ?thesis by auto
qed

end

interpretation bq: byte_queue buf_inv content readableBytes append_bytes retrieve
proof (unfold_locales, goal_cases)
  case (1 b)
  then show ?case by simp
next
  case (2 b d)
  from append_spec [OF 2] show ?case by blast
next
  case (3 b n)
  from retrieve_spec [OF 3] show ?case by blast
qed

interpretation rq: byte_queue buf_inv content readableBytes "\<lambda>d. readFd (Some d)" retrieve
proof (unfold_locales, goal_cases)
  case (1 b)
  then show ?case by simp
next
  case (2 b d)
  from readFd_spec [OF 2] show ?case by blast
next
  case (3 b n)
  from retrieve_spec [OF 3] show ?case by blast
qed

section \<open>Properties\<close>

text \<open>Property C6.  The buffer refines a byte queue that grows as needed: from every state that satisfies the invariant, \<open>append\<close> and
  \<open>readFd\<close> put their bytes at the end of the content, whether the vector has room, has to be compacted or has to grow;
  \<open>retrieve\<close> removes exactly the first bytes, \<open>prepend\<close> puts bytes in front when there is prependable
  space, \<open>unwrite\<close> removes from the end and \<open>shrink\<close> keeps the content when it has fewer
  than \<open>2 ^ 31\<close> bytes (it copies through a piece whose size is an \<open>int\<close>).  None of the assertions of the code fails and the invariant is kept.\<close>

theorem Buffer_refines_queue:
  assumes "buf_inv b"
  shows "(readableBytes b = length (content b)) \<and>
    (\<exists>b'. append_bytes d b = Some b' \<and> buf_inv b' \<and> content b' = content b @ d) \<and>
    (\<exists>b'. readFd (Some d) b = Some b' \<and> buf_inv b' \<and> content b' = content b @ d) \<and>
    (n \<le> length (content b) \<longrightarrow> (\<exists>b'. retrieve n b = Some b' \<and> buf_inv b' \<and> content b' = drop n (content b))) \<and>
    (n \<le> length (content b) \<longrightarrow> (\<exists>b'. retrieveAsString n b = Some (take n (content b), b') \<and> buf_inv b' \<and> content b' = drop n (content b))) \<and>
    (length d \<le> prependableBytes b \<longrightarrow> (\<exists>b'. prepend d b = Some b' \<and> buf_inv b' \<and> content b' = d @ content b)) \<and>
    (n \<le> length (content b) \<longrightarrow> (\<exists>b'. unwrite n b = Some b' \<and> buf_inv b' \<and> content b' = take (length (content b) - n) (content b))) \<and>
    (length (content b) < 2 ^ 31 \<longrightarrow> (\<exists>b'. shrink n b = Some b' \<and> buf_inv b' \<and> content b' = content b))"
proof (intro conjI)
  show "readableBytes b = length (content b)" by (rule bq.ready_bytes [OF assms])
  show "\<exists>b'. append_bytes d b = Some b' \<and> buf_inv b' \<and> content b' = content b @ d" by (rule bq.put_law [OF assms])
  show "\<exists>b'. readFd (Some d) b = Some b' \<and> buf_inv b' \<and> content b' = content b @ d" by (rule rq.put_law [OF assms])
  show "n \<le> length (content b) \<longrightarrow> (\<exists>b'. retrieve n b = Some b' \<and> buf_inv b' \<and> content b' = drop n (content b))"
    using bq.drop_law [OF assms] by blast
  show "n \<le> length (content b) \<longrightarrow> (\<exists>b'. retrieveAsString n b = Some (take n (content b), b') \<and> buf_inv b' \<and> content b' = drop n (content b))"
    using bq.drop_law [OF assms, of n] assms by (auto simp: retrieveAsString_def bytes_at_content)
  show "length d \<le> prependableBytes b \<longrightarrow> (\<exists>b'. prepend d b = Some b' \<and> buf_inv b' \<and> content b' = d @ content b)"
    using prepend_spec [OF assms] by blast
  show "n \<le> length (content b) \<longrightarrow> (\<exists>b'. unwrite n b = Some b' \<and> buf_inv b' \<and> content b' = take (length (content b) - n) (content b))"
    using unwrite_spec [OF assms] by blast
  show "length (content b) < 2 ^ 31 \<longrightarrow> (\<exists>b'. shrink n b = Some b' \<and> buf_inv b' \<and> content b' = content b)"
    using shrink_spec [OF assms] by blast
qed

theorem Buffer_refines_queue_witness:
  "buf_inv (newBuffer 4) \<and>
    (\<exists>b1 b2 b3 b4. append_bytes ''hello'' (newBuffer 4) = Some b1 \<and> retrieve 2 b1 = Some b2 \<and>
      readFd (Some '' world'') b2 = Some b3 \<and> shrink 16 b3 = Some b4 \<and> content b4 = ''llo world'')"
proof -
  obtain b1 where b1: "append_bytes ''hello'' (newBuffer 4) = Some b1" "buf_inv b1" "content b1 = ''hello''"
    using Buffer_refines_queue [OF new_inv, of 4 "''hello''" 0] by auto
  obtain b2 where b2: "retrieve 2 b1 = Some b2" "buf_inv b2" "content b2 = ''llo''"
    using Buffer_refines_queue [OF b1(2), of "[]" 2] b1(3) by auto
  obtain b3 where b3: "readFd (Some '' world'') b2 = Some b3" "buf_inv b3" "content b3 = ''llo world''"
    using Buffer_refines_queue [OF b2(2), of "'' world''" 0] b2(3) by auto
  obtain b4 where "shrink 16 b3 = Some b4" "content b4 = ''llo world''"
    using Buffer_refines_queue [OF b3(2), of "[]" 16] b3(3) by auto
  with b1 b2 b3 new_inv show ?thesis by blast
qed

text \<open>Integers survive the buffer: an integer that fits its width, appended in network order with
  \<open>appendInt8\<close>, \<open>appendInt16\<close>, \<open>appendInt32\<close> or \<open>appendInt64\<close> to a drained buffer, is what the matching
  \<open>readInt\<close> returns, and the buffer is drained again.\<close>

theorem Buffer_int_roundtrip:
  assumes "buf_inv b" "content b = []"
  shows "(fits_bytes 8 x \<longrightarrow> (\<exists>c e. appendInt64 x b = Some c \<and> readInt64 c = Some (x, e) \<and> content e = [])) \<and>
    (fits_bytes 4 x \<longrightarrow> (\<exists>c e. appendInt32 x b = Some c \<and> readInt32 c = Some (x, e) \<and> content e = [])) \<and>
    (fits_bytes 2 x \<longrightarrow> (\<exists>c e. appendInt16 x b = Some c \<and> readInt16 c = Some (x, e) \<and> content e = [])) \<and>
    (fits_bytes 1 x \<longrightarrow> (\<exists>c e. appendInt8 x b = Some c \<and> readInt8 c = Some (x, e) \<and> content e = []))"
proof -
  have "\<exists>c e. append_bytes (be_bytes n x) b = Some c \<and> readInt n c = Some (x, e) \<and> content e = []" if "fits_bytes n x" for n
  proof -
    obtain c where c: "append_bytes (be_bytes n x) b = Some c" "buf_inv c" "content c = be_bytes n x @ []"
      using bq.put_law [OF assms(1), of "be_bytes n x"] assms(2) by auto
    from readInt_spec [OF c(2,3) that] c(1) show ?thesis by blast
  qed
  then show ?thesis
    by (simp add: appendInt64_def appendInt32_def appendInt16_def appendInt8_def readInt64_def readInt32_def readInt16_def readInt8_def)
qed

theorem Buffer_int_roundtrip_witness:
  "\<exists>c e. appendInt32 (- 2) (newBuffer 16) = Some c \<and> readInt32 c = Some (- 2, e) \<and> content e = []"
  using Buffer_int_roundtrip [OF new_inv, of 16 "- 2"] by (simp add: fits_bytes_def)

text \<open>\<open>findCRLF\<close> finds the first line end: it returns the offset \<open>i\<close> exactly when the content is a line of
  length \<open>i\<close> followed by CR LF and no earlier position starts one.\<close>

lemma findCRLF_first:
  "findCRLF b = Some i \<longleftrightarrow>
     (\<exists>line rest. content b = line @ kCRLF @ rest \<and> length line = i \<and> (\<forall>j < i. take 2 (drop j (content b)) \<noteq> kCRLF))"
  by (simp add: findCRLF_def search_Some kCRLF_def numeral_2_eq_2)

end
