(* ===== verification/ProtobufCodec.thy ===== *)
theory ProtobufCodec
  imports NetBuffer
begin

text \<open>
  The message framing of the servers: \<^verbatim>\<open>src/muduo/net/protobuf/ProtobufCodec.h\<close> and \<^verbatim>\<open>ProtobufCodec.cc\<close>, on top of the
  byte buffer.  The protobuf runtime, zlib's \<open>adler32\<close> and OpenSSL's AES are not part of the repository; they are the
  fields of the records \<open>protolib\<close> and \<open>aes\<close>, parameters of every definition that uses them.  What the codec
  relies on (a message serializes to bytes its own type parses back; deciphering inverts enciphering on blocks of 16 bytes) is
  stated where it is used.
\<close>

record 'm protolib =
  GetTypeName :: "'m \<Rightarrow> string"
  Serialize :: "'m \<Rightarrow> string"
  FindMessageType :: "string \<Rightarrow> bool"
  ParseFromArray :: "string \<Rightarrow> string \<Rightarrow> 'm option"
  adler32 :: "string \<Rightarrow> int"

record aes =
  encrypt :: "string \<Rightarrow> string"
  decrypt :: "string \<Rightarrow> string"

datatype ErrorCode = kNoError | kInvalidLength | kCheckSumError | kInvalidNameLen | kUnknownMessageType | kParseError

definition errorCodeToString :: "ErrorCode \<Rightarrow> string" where
  "errorCodeToString e = (case e of
       kNoError \<Rightarrow> ''NoError''
     | kInvalidLength \<Rightarrow> ''InvalidLength''
     | kCheckSumError \<Rightarrow> ''CheckSumError''
     | kInvalidNameLen \<Rightarrow> ''InvalidNameLen''
     | kUnknownMessageType \<Rightarrow> ''UnknownMessageType''
     | kParseError \<Rightarrow> ''ParseError'')"

definition kHeaderLen :: int where "kHeaderLen = 4"
definition kMinMessageLen :: int where "kMinMessageLen = 2 * kHeaderLen + 2"
definition kMaxMessageLen :: int where "kMaxMessageLen = 64 * 1024 * 1024"
definition AES_BLOCK_SIZE :: nat where "AES_BLOCK_SIZE = 16"
definition kPadding :: string where "kPadding = replicate AES_BLOCK_SIZE (CHR 0x00)"

text \<open>The callbacks the codec makes: the message callback, and the error callback with its code.\<close>

datatype 'm event = Message 'm | Error ErrorCode

section \<open>Writing\<close>

text \<open>\<open>int32_t\<close> conversion of an unsigned 32-bit value.\<close>

definition to_int32 :: "int \<Rightarrow> int" where
  "to_int32 x = as_signed 4 (nat (x mod 2 ^ 32))"

definition fillEmptyBuffer :: "'m protolib \<Rightarrow> 'm \<Rightarrow> Buffer \<Rightarrow> Buffer option" where
  "fillEmptyBuffer P message buf =
     (if readableBytes buf \<noteq> 0 then None
      else
        let typeName = GetTypeName P message;
            nameLen = int (length typeName + 1)
        in Option.bind (appendInt32 nameLen buf) (\<lambda>buf.
           Option.bind (append_bytes (typeName @ [CHR 0x00]) buf) (\<lambda>buf.
           Option.bind (append_bytes (Serialize P message) buf) (\<lambda>buf.
           Option.bind (appendInt32 (to_int32 (adler32 P (content buf))) buf) (\<lambda>buf.
           prepend (be_bytes 4 (int (readableBytes buf))) buf)))))"

text \<open>The blocks are enciphered in place, each on its own.\<close>

primrec encrypt_loop :: "aes \<Rightarrow> nat \<Rightarrow> nat \<Rightarrow> Buffer \<Rightarrow> Buffer" where
  "encrypt_loop a i 0 buf = buf"
| "encrypt_loop a i (Suc n) buf =
     (let p = readerIndex buf + i * AES_BLOCK_SIZE
      in encrypt_loop a (Suc i) n (buf\<lparr>buffer := poke (buffer buf) p (encrypt a (bytes_at buf p AES_BLOCK_SIZE))\<rparr>))"

definition encryptBuffer :: "aes \<Rightarrow> Buffer \<Rightarrow> Buffer option" where
  "encryptBuffer a buf =
     (if readableBytes buf = 0 then None
      else
        let paddingLen = readableBytes buf mod AES_BLOCK_SIZE
        in Option.bind (append_bytes (take paddingLen kPadding) buf) (\<lambda>buf.
             Some (encrypt_loop a 0 (readableBytes buf div AES_BLOCK_SIZE) buf)))"

text \<open>\<open>send\<close>: the bytes handed to the connection.\<close>

definition send :: "'m protolib \<Rightarrow> aes option \<Rightarrow> 'm \<Rightarrow> string option" where
  "send P a message =
     Option.bind (fillEmptyBuffer P message (newBuffer kInitialSize)) (\<lambda>buf.
     Option.bind (case a of None \<Rightarrow> Some buf | Some a \<Rightarrow> encryptBuffer a buf) (\<lambda>buf.
     Some (content buf)))"

section \<open>Reading\<close>

definition asInt32 :: "string \<Rightarrow> int" where
  "asInt32 buf = as_signed 4 (be_value (take 4 buf))"

definition createMessage :: "'m protolib \<Rightarrow> string \<Rightarrow> bool" where
  "createMessage P typeName = FindMessageType P typeName"

definition parse :: "'m protolib \<Rightarrow> string \<Rightarrow> ErrorCode + 'm" where
  "parse P buf =
     (let len = int (length buf);
          expectedCheckSum = asInt32 (drop (nat (len - kHeaderLen)) buf);
          checkSum = to_int32 (adler32 P (take (nat (len - kHeaderLen)) buf))
      in if checkSum = expectedCheckSum then
           let nameLen = asInt32 buf
           in if nameLen \<ge> 2 \<and> nameLen \<le> len - 2 * kHeaderLen then
                let typeName = take (nat (nameLen - 1)) (drop (nat kHeaderLen) buf)
                in if createMessage P typeName then
                     let data = drop (nat (kHeaderLen + nameLen)) buf;
                         dataLen = len - nameLen - 2 * kHeaderLen
                     in (case ParseFromArray P typeName (take (nat dataLen) data) of
                           Some m \<Rightarrow> Inr m
                         | None \<Rightarrow> Inl kParseError)
                   else Inl kUnknownMessageType
              else Inl kInvalidNameLen
         else Inl kCheckSumError)"

text \<open>Deciphering advances \<open>decryptIndex_\<close> by whole blocks while one is there; the fuel is the number of blocks plus one.\<close>

fun decrypt_loop :: "aes \<Rightarrow> nat \<Rightarrow> Buffer \<Rightarrow> Buffer option" where
  "decrypt_loop a 0 buf = None"
| "decrypt_loop a (Suc fuel) buf =
     (if unDecryptedBytes buf \<ge> AES_BLOCK_SIZE then
        Option.bind
          (hasDecrypt AES_BLOCK_SIZE
             (buf\<lparr>buffer := poke (buffer buf) (decryptIndex buf) (decrypt a (bytes_at buf (decryptIndex buf) AES_BLOCK_SIZE))\<rparr>))
          (decrypt_loop a fuel)
      else Some buf)"

definition decryptBuffer :: "aes \<Rightarrow> Buffer \<Rightarrow> Buffer option" where
  "decryptBuffer a buf = decrypt_loop a (unDecryptedBytes buf div AES_BLOCK_SIZE + 1) buf"

lemma retrieve_readable: "retrieve n b = Some b' \<Longrightarrow> 0 < n \<Longrightarrow> readableBytes b' < readableBytes b"
  by (auto simp: retrieve_def retrieveAll_def readableBytes_def sub64_def split: if_splits)

lemma decrypt_loop_indices:
  "decrypt_loop a fuel b = Some b' \<Longrightarrow> readerIndex b' = readerIndex b \<and> writerIndex b' = writerIndex b"
  by (induction a fuel b rule: decrypt_loop.induct) (auto simp: hasDecrypt_def bind_eq_Some_conv split: if_splits)

lemma decryptBuffer_readable: "decryptBuffer a b = Some b' \<Longrightarrow> readableBytes b' = readableBytes b"
  unfolding decryptBuffer_def readableBytes_def by (drule decrypt_loop_indices) simp

definition decipher :: "aes option \<Rightarrow> Buffer \<Rightarrow> Buffer option" where
  "decipher a buf = (case a of None \<Rightarrow> Some buf | Some a \<Rightarrow> decryptBuffer a buf)"

lemma decipher_readable: "decipher a b = Some b' \<Longrightarrow> readableBytes b' = readableBytes b"
  by (auto simp: decipher_def decryptBuffer_readable split: option.splits)

function onMessage :: "'m protolib \<Rightarrow> aes option \<Rightarrow> Buffer \<Rightarrow> ('m event list \<times> Buffer) option" where
  "onMessage P a buf =
     (if int (readableBytes buf) \<ge> kMinMessageLen + kHeaderLen then
        (case decipher a buf of None \<Rightarrow> None | Some buf \<Rightarrow>
        (case peekInt32 buf of None \<Rightarrow> None | Some len \<Rightarrow>
           if len > kMaxMessageLen \<or> len < kMinMessageLen then Some ([Error kInvalidLength], buf)
           else if int (readableBytes buf) \<ge> len + kHeaderLen then
             (case parse P (bytes_at buf (readerIndex buf + nat kHeaderLen) (nat len)) of
                Inl e \<Rightarrow> Some ([Error e], buf)
              | Inr message \<Rightarrow>
                  (case retrieve (nat (kHeaderLen + len)) buf of None \<Rightarrow> None | Some buf \<Rightarrow>
                     map_option (\<lambda>(es, buf). (Message message # es, buf)) (onMessage P a buf)))
           else Some ([], buf)))
      else Some ([], buf))"
  by pat_completeness auto
termination
  by (relation "measure (\<lambda>(P, a, buf). readableBytes buf)")
     (auto dest!: decipher_readable retrieve_readable simp: kHeaderLen_def kMinMessageLen_def)

declare onMessage.simps [simp del]

text \<open>\<open>defaultErrorCallback\<close> closes the connection; the events that reach the dispatcher are the messages.\<close>

definition defaultErrorCallback :: "bool \<Rightarrow> ErrorCode \<Rightarrow> bool" where
  "defaultErrorCallback connected errorCode = connected"

text \<open>A connection's input: each chunk the socket delivers is read into the input buffer and \<open>onMessage\<close> is called.\<close>

fun receive :: "'m protolib \<Rightarrow> aes option \<Rightarrow> string list \<Rightarrow> Buffer \<Rightarrow> ('m event list \<times> Buffer) option" where
  "receive P a [] buf = Some ([], buf)"
| "receive P a (d # ds) buf =
     Option.bind (readFd (Some d) buf) (\<lambda>buf.
     Option.bind (onMessage P a buf) (\<lambda>(es, buf).
     map_option (\<lambda>(es', buf). (es @ es', buf)) (receive P a ds buf)))"

end
