(* ===== verification/ProtobufCodecProps.thy ===== *)
theory ProtobufCodecProps
  imports ProtobufCodec
begin

text \<open>
  Correctness of the message codec: the frame layout that \<open>fillEmptyBuffer\<close> writes, the round trip through a stream cut into
  arbitrary chunks, the rejection of damaged frames, and what the block cipher's padding does to the stream.
\<close>

section \<open>The frame of a message\<close>

definition frame_body :: "'m protolib \<Rightarrow> 'm \<Rightarrow> string" where
  "frame_body P m = be_bytes 4 (int (length (GetTypeName P m) + 1)) @ GetTypeName P m @ [CHR 0x00] @ Serialize P m"

definition frame_payload :: "'m protolib \<Rightarrow> 'm \<Rightarrow> string" where
  "frame_payload P m = frame_body P m @ be_bytes 4 (to_int32 (adler32 P (frame_body P m)))"

definition frame :: "'m protolib \<Rightarrow> 'm \<Rightarrow> string" where
  "frame P m = be_bytes 4 (int (length (frame_payload P m))) @ frame_payload P m"

text \<open>What the codec relies on: a named, registered message type whose parser inverts its serializer, and a frame within the limit.\<close>

definition msg_ok :: "'m protolib \<Rightarrow> 'm \<Rightarrow> bool" where
  "msg_ok P m \<longleftrightarrow> GetTypeName P m \<noteq> [] \<and> FindMessageType P (GetTypeName P m) \<and>
     ParseFromArray P (GetTypeName P m) (Serialize P m) = Some m \<and>
     int (length (GetTypeName P m) + length (Serialize P m)) + 9 \<le> kMaxMessageLen"

lemma to_int32_fits: "fits_bytes 4 (to_int32 x)"
proof -
  define y where "y = x mod 4294967296"
  have "0 \<le> y" "y < 4294967296" by (simp_all add: y_def)
  then show ?thesis unfolding to_int32_def as_signed_def fits_bytes_def by (auto simp: y_def [symmetric] nat_less_iff)
qed

lemma length_payload: "length (frame_payload P m) = length (GetTypeName P m) + length (Serialize P m) + 9"
  by (simp add: frame_payload_def frame_body_def)

lemma length_frame: "length (frame P m) = length (frame_payload P m) + 4"
  by (simp add: frame_def)

lemma msg_ok_length:
  assumes "msg_ok P m"
  shows "10 \<le> length (frame_payload P m)" "int (length (frame_payload P m)) \<le> kMaxMessageLen"
    "fits_bytes 4 (int (length (frame_payload P m)))"
  using assms by (auto simp: msg_ok_def length_payload Suc_le_eq kMaxMessageLen_def fits_bytes_def)

lemma fill_spec:
  assumes "buf_inv b" "content b = []" "kCheapPrepend \<le> prependableBytes b"
  shows "\<exists>b'. fillEmptyBuffer P m b = Some b' \<and> buf_inv b' \<and> content b' = frame P m"
proof -
  obtain b1 where b1: "appendInt32 (int (length (GetTypeName P m) + 1)) b = Some b1" "buf_inv b1"
    "content b1 = be_bytes 4 (int (length (GetTypeName P m) + 1))" "kCheapPrepend \<le> prependableBytes b1"
    using append_spec [OF assms(1), of "be_bytes 4 (int (length (GetTypeName P m) + 1))"] assms(2,3)
    by (auto simp: appendInt32_def)
  obtain b2 where b2: "append_bytes (GetTypeName P m @ [CHR 0x00]) b1 = Some b2" "buf_inv b2"
    "content b2 = content b1 @ GetTypeName P m @ [CHR 0x00]" "kCheapPrepend \<le> prependableBytes b2"
    using append_spec [OF b1(2), of "GetTypeName P m @ [CHR 0x00]"] b1(4) by auto
  obtain b3 where b3: "append_bytes (Serialize P m) b2 = Some b3" "buf_inv b3"
    "content b3 = frame_body P m" "kCheapPrepend \<le> prependableBytes b3"
    using append_spec [OF b2(2), of "Serialize P m"] b2(3,4) b1(3) by (auto simp: frame_body_def)
  obtain b4 where b4: "appendInt32 (to_int32 (adler32 P (frame_body P m))) b3 = Some b4" "buf_inv b4"
    "content b4 = frame_payload P m" "kCheapPrepend \<le> prependableBytes b4"
    using append_spec [OF b3(2), of "be_bytes 4 (to_int32 (adler32 P (frame_body P m)))"] b3(3,4)
    by (auto simp: appendInt32_def frame_payload_def)
  have "length (be_bytes 4 (int (length (frame_payload P m)))) \<le> prependableBytes b4"
    using b4(4) by (simp add: kCheapPrepend_def)
  from prepend_spec [OF b4(2) this] show ?thesis
    using assms b1(1) b2(1) b3(1,3) b4(1-3) by (simp add: fillEmptyBuffer_def frame_def Let_def)
qed

lemma send_plain: "send P None m = Some (frame P m)"
  using fill_spec [OF new_inv, of kInitialSize P m] by (auto simp: send_def kCheapPrepend_def)

lemma asInt32_be: "fits_bytes 4 x \<Longrightarrow> asInt32 (be_bytes 4 x @ s) = x"
  by (simp add: asInt32_def as_signed_be_bytes)

lemma parse_payload:
  assumes "msg_ok P m"
  shows "parse P (frame_payload P m) = Inr m"
proof -
  let ?n = "GetTypeName P m" and ?p = "frame_payload P m"
  have l: "nat (int (length ?p) - kHeaderLen) = length (frame_body P m)"
    by (simp add: frame_payload_def kHeaderLen_def)
  have t: "take (length (frame_body P m)) ?p = frame_body P m"
    and d: "drop (length (frame_body P m)) ?p = be_bytes 4 (to_int32 (adler32 P (frame_body P m))) @ []"
    by (simp_all add: frame_payload_def)
  have f: "fits_bytes 4 (int (length ?n + 1))"
    using assms by (simp add: msg_ok_def fits_bytes_def kMaxMessageLen_def)
  have a: "asInt32 ?p = int (length ?n + 1)"
    unfolding frame_payload_def frame_body_def append_assoc by (rule asInt32_be [OF f])
  have tn: "take (length ?n) (drop 4 ?p) = ?n"
    by (simp add: frame_payload_def frame_body_def)
  have dt: "take (length (Serialize P m)) (drop (length ?n + 5) ?p) = Serialize P m"
    by (simp add: frame_payload_def frame_body_def)
  have "nat (kHeaderLen + int (length ?n + 1)) = length ?n + 5"
    "nat (int (length ?p) - int (length ?n + 1) - 2 * kHeaderLen) = length (Serialize P m)"
    "nat (int (length ?n + 1) - 1) = length ?n" "nat kHeaderLen = 4"
    by (simp_all add: kHeaderLen_def length_payload)
  moreover have "2 \<le> int (length ?n + 1) \<and> int (length ?n + 1) \<le> int (length ?p) - 2 * kHeaderLen"
    using assms by (cases ?n) (simp_all add: msg_ok_def kHeaderLen_def length_payload)
  moreover have "FindMessageType P ?n" "ParseFromArray P ?n (Serialize P m) = Some m"
    using assms by (simp_all add: msg_ok_def)
  ultimately show ?thesis
    unfolding parse_def Let_def l t d asInt32_be [OF to_int32_fits] a
    by (simp only: tn dt if_True createMessage_def option.case refl simp_thms)
qed

section \<open>One step of the receiving loop\<close>

lemma peek_frame:
  assumes "buf_inv b" "content b = take k (frame P m) @ s" "4 \<le> k" "msg_ok P m"
  shows "peekInt32 b = Some (int (length (frame_payload P m)))"
proof -
  have "content b = be_bytes 4 (int (length (frame_payload P m))) @ (take (k - 4) (frame_payload P m) @ s)"
    using assms(2,3) by (simp add: frame_def)
  from peekInt_spec [OF assms(1) this] msg_ok_length(3) [OF assms(4)] show ?thesis by (simp add: peekInt32_def)
qed

lemma onMessage_incomplete:
  assumes "buf_inv b" "content b = take k (frame P m)" "k < length (frame P m)" "msg_ok P m"
  shows "onMessage P None b = Some ([], b)"
proof (cases "int (readableBytes b) \<ge> kMinMessageLen + kHeaderLen")
  case True
  have r: "readableBytes b = k" using assms by simp
  with True have "4 \<le> k" by (simp add: kMinMessageLen_def kHeaderLen_def)
  then have "peekInt32 b = Some (int (length (frame_payload P m)))"
    using peek_frame [of b k P m "[]"] assms by simp
  moreover have "\<not> int k \<ge> int (length (frame_payload P m)) + kHeaderLen"
    using assms(3) by (simp add: length_frame kHeaderLen_def)
  ultimately show ?thesis using True r msg_ok_length(1,2) [OF assms(4)]
    by (subst onMessage.simps) (simp add: decipher_def kMinMessageLen_def kHeaderLen_def)
next
  case False
  then show ?thesis by (subst onMessage.simps) simp
qed

lemma onMessage_empty: "buf_inv b \<Longrightarrow> content b = [] \<Longrightarrow> onMessage P None b = Some ([], b)"
  by (subst onMessage.simps) (simp add: kMinMessageLen_def kHeaderLen_def)

lemma onMessage_complete:
  assumes "decipher a b = Some b1" "buf_inv b1" "content b1 = frame P m @ s" "msg_ok P m"
  shows "\<exists>b'. retrieve (length (frame P m)) b1 = Some b' \<and> buf_inv b' \<and> content b' = s \<and>
    onMessage P a b = map_option (\<lambda>(es, c). (Message m # es, c)) (onMessage P a b')"
proof -
  let ?l = "length (frame_payload P m)"
  have l: "10 \<le> ?l" "int ?l \<le> kMaxMessageLen" using msg_ok_length [OF assms(4)] by simp_all
  have r1: "readableBytes b1 = ?l + 4 + length s" using assms by (simp add: length_frame)
  with decipher_readable [OF assms(1)] have r: "readableBytes b = ?l + 4 + length s" by simp
  have p: "peekInt32 b1 = Some (int ?l)"
    using peek_frame [OF assms(2), of "length (frame P m)" P m s] assms by (simp add: length_frame)
  obtain b' where b': "retrieve (nat (kHeaderLen + int ?l)) b1 = Some b'" "buf_inv b'" "content b' = s"
    using retrieve_spec [OF assms(2), of "4 + ?l"] assms(3) by (auto simp: kHeaderLen_def length_frame nat_add_distrib)
  have n: "nat (kHeaderLen + int ?l) = length (frame P m)" by (simp add: kHeaderLen_def length_frame)
  have "bytes_at b1 (readerIndex b1 + nat kHeaderLen) ?l = take ?l (drop 4 (content b1))"
    using bytes_at_inside [of b1 4 ?l] assms(2,3) by (simp add: kHeaderLen_def length_frame)
  also have "\<dots> = frame_payload P m" using assms(3) by (simp add: frame_def)
  finally have "bytes_at b1 (readerIndex b1 + nat kHeaderLen) ?l = frame_payload P m" .
  with parse_payload [OF assms(4)] p b' r r1 l assms(1)
  have "onMessage P a b = map_option (\<lambda>(es, c). (Message m # es, c)) (onMessage P a b')"
    by (subst onMessage.simps) (simp add: kMinMessageLen_def kHeaderLen_def)
  with b' n show ?thesis by (intro exI [of _ b']) simp
qed

section \<open>A stream of messages\<close>

lemma onMessage_stream:
  assumes "buf_inv b" "\<forall>m \<in> set ms. msg_ok P m" "content b @ rest = concat (map (frame P) ms)"
  shows "\<exists>ms1 ms2 b'. ms = ms1 @ ms2 \<and> onMessage P None b = Some (map Message ms1, b') \<and> buf_inv b' \<and>
    content b' @ rest = concat (map (frame P) ms2) \<and> (rest = [] \<longrightarrow> ms2 = [])"
  using assms
proof (induction ms arbitrary: b)
  case Nil
  then show ?case using onMessage_empty [of b P] by simp
next
  case (Cons m ms)
  let ?f = "frame P m"
  have st: "content b @ rest = ?f @ concat (map (frame P) ms)" and ok: "msg_ok P m" using Cons.prems by simp_all
  show ?case
  proof (cases "length (content b) < length ?f")
    case True
    with st have "content b = take (length (content b)) ?f" by (metis append_eq_append_conv_if less_imp_le linorder_not_less)
    with True Cons.prems ok have "onMessage P None b = Some ([], b)" by (intro onMessage_incomplete) auto
    moreover have "rest \<noteq> []" using True st by auto
    ultimately show ?thesis using Cons.prems(1,3) by (intro exI [of _ "[]"] exI [of _ "m # ms"] exI [of _ b]) simp
  next
    case False
    define s where "s = drop (length ?f) (content b)"
    have "take (length ?f) (content b) = ?f" "s @ rest = concat (map (frame P) ms)"
      using arg_cong [OF st, of "take (length ?f)"] arg_cong [OF st, of "drop (length ?f)"] False by (simp_all add: s_def)
    then have s: "content b = ?f @ s" "s @ rest = concat (map (frame P) ms)"
      unfolding s_def by (metis append_take_drop_id)+
    have "decipher None b = Some b" by (simp add: decipher_def)
    from onMessage_complete [OF this Cons.prems(1) s(1) ok] obtain c where c: "buf_inv c" "content c = s"
      "onMessage P None b = map_option (\<lambda>(es, c). (Message m # es, c)) (onMessage P None c)" by blast
    have "content c @ rest = concat (map (frame P) ms)" using c(2) s(2) by simp
    from Cons.IH [OF c(1) _ this] Cons.prems(2) obtain ms1 ms2 b' where r: "ms = ms1 @ ms2"
      "onMessage P None c = Some (map Message ms1, b')" "buf_inv b'" "content b' @ rest = concat (map (frame P) ms2)"
      "rest = [] \<longrightarrow> ms2 = []" by auto
    with c(3) show ?thesis by (intro exI [of _ "m # ms1"] exI [of _ ms2] exI [of _ b']) simp
  qed
qed

lemma receive_stream:
  assumes "buf_inv b" "\<forall>m \<in> set ms. msg_ok P m" "content b @ concat ds = concat (map (frame P) ms)" "ds = [] \<longrightarrow> ms = []"
  shows "\<exists>b'. receive P None ds b = Some (map Message ms, b') \<and> buf_inv b' \<and> content b' = []"
  using assms
proof (induction ds arbitrary: b ms)
  case Nil
  then show ?case by simp
next
  case (Cons d ds)
  obtain b1 where b1: "readFd (Some d) b = Some b1" "buf_inv b1" "content b1 = content b @ d"
    using rq.put_law [OF Cons.prems(1)] by blast
  have "content b1 @ concat ds = concat (map (frame P) ms)" using b1(3) Cons.prems(3) by simp
  from onMessage_stream [OF b1(2) Cons.prems(2) this] obtain ms1 ms2 b2 where r: "ms = ms1 @ ms2"
    "onMessage P None b1 = Some (map Message ms1, b2)" "buf_inv b2" "content b2 @ concat ds = concat (map (frame P) ms2)"
    "concat ds = [] \<longrightarrow> ms2 = []" by blast
  from Cons.IH [OF r(3) _ r(4)] r(1,5) Cons.prems(2) obtain b3 where
    "receive P None ds b2 = Some (map Message ms2, b3)" "buf_inv b3" "content b3 = []" by auto
  with b1(1) r(1,2) show ?case by simp
qed

lemma frame_nonempty: "frame P m \<noteq> []"
  using length_frame [of P m] by auto

text \<open>Property C5.  Messages arrive as they were sent: on a connection without encryption, when the bytes of any sequence of sends
  reach the peer in order, cut into chunks in any way, the peer's codec hands exactly those messages to the
  dispatcher, in order, with no error and nothing left in its buffer.\<close>

theorem codec_stream_roundtrip:
  assumes "\<forall>m \<in> set ms. msg_ok P m" "map (send P None) ms = map Some bs" "concat ds = concat bs"
  shows "\<exists>b. receive P None ds (newBuffer kInitialSize) = Some (map Message ms, b) \<and> content b = []"
proof -
  have "send P None = (\<lambda>m. Some (frame P m))" by (rule ext) (rule send_plain)
  then have "map Some (map (frame P) ms) = map Some bs" using assms(2) by (simp add: comp_def)
  then have bs: "bs = map (frame P) ms" by (metis inj_Some map_injective)
  then have "ds = [] \<longrightarrow> ms = []" using assms(3) by (cases ms) (auto simp: frame_nonempty)
  moreover have "content (newBuffer kInitialSize) @ concat ds = concat (map (frame P) ms)" using assms(3) bs by simp
  ultimately show ?thesis using receive_stream [OF new_inv assms(1)] by blast
qed

text \<open>A small message library for the witnesses: two numbered message types and the sum of the bytes as checksum.\<close>

definition toy_lib :: "string protolib" where
  "toy_lib = \<lparr>GetTypeName = (\<lambda>m. ''T''), Serialize = (\<lambda>m. m), FindMessageType = (\<lambda>t. t = ''T''),
     ParseFromArray = (\<lambda>t s. Some s), adler32 = (\<lambda>s. int (sum_list (map of_char s)))\<rparr>"

lemma toy_ok: "length m \<le> 1000 \<Longrightarrow> msg_ok toy_lib m"
  by (simp add: msg_ok_def toy_lib_def kMaxMessageLen_def)

theorem codec_stream_roundtrip_witness:
  "\<exists>w. map (send toy_lib None) [''ab'', ''c''] = map Some w \<and>
     (\<exists>b. receive toy_lib None (map (\<lambda>c. [c]) (concat w)) (newBuffer kInitialSize) = Some ([Message ''ab'', Message ''c''], b) \<and> content b = [])"
proof -
  let ?w = "map (frame toy_lib) [''ab'', ''c'']"
  have "map (send toy_lib None) [''ab'', ''c''] = map Some ?w" by (simp add: send_plain)
  moreover have "concat (map (\<lambda>c. [c]) s) = s" for s :: string by (induction s) simp_all
  ultimately show ?thesis
    using codec_stream_roundtrip [of "[''ab'', ''c'']" toy_lib ?w "map (\<lambda>c. [c]) (concat ?w)"] toy_ok by (intro exI [of _ ?w]) simp
qed

section \<open>What the receiver accepts\<close>

definition valid_frame :: "'m protolib \<Rightarrow> string \<Rightarrow> 'm \<Rightarrow> bool" where
  "valid_frame P f m \<longleftrightarrow> 14 \<le> length f \<and> int (length f) \<le> kMaxMessageLen + 4 \<and> asInt32 f = int (length f) - 4 \<and>
     asInt32 (drop (length f - 4) f) = to_int32 (adler32 P (take (length f - 8) (drop 4 f))) \<and> parse P (drop 4 f) = Inr m"

lemma parse_checksum:
  assumes "parse P pl = Inr m" "10 \<le> length pl"
  shows "asInt32 (drop (length pl - 4) pl) = to_int32 (adler32 P (take (length pl - 4) pl))"
proof -
  have "nat (int (length pl) - kHeaderLen) = length pl - 4" using assms(2) by (simp add: kHeaderLen_def)
  with assms(1) show ?thesis by (simp add: parse_def Let_def split: if_splits)
qed

lemma onMessage_checked:
  assumes "buf_inv b"
  shows "\<exists>ms err fs b'. onMessage P None b = Some (map Message ms @ err, b') \<and> buf_inv b' \<and> (err = [] \<or> (\<exists>e. err = [Error e])) \<and>
    content b = concat fs @ content b' \<and> list_all2 (valid_frame P) fs ms"
  using assms
proof (induction "length (content b)" arbitrary: b rule: less_induct)
  case less
  have stop: ?case if "onMessage P None b = Some (err, b)" "err = [] \<or> (\<exists>e. err = [Error e])" for err
    using that less.prems by (intro exI [of _ "[]"] exI [of _ err] exI [of _ b]) auto
  show ?case
  proof (cases "int (readableBytes b) \<ge> kMinMessageLen + kHeaderLen")
    case False
    then have "onMessage P None b = Some ([], b)" by (subst onMessage.simps) simp
    then show ?thesis by (intro stop) auto
  next
    case True
    define len where "len = asInt32 (content b)"
    have r: "14 \<le> length (content b)" using True less.prems by (simp add: kMinMessageLen_def kHeaderLen_def)
    then have pk: "peekInt32 b = Some len"
      using less.prems by (simp add: peekInt32_def peekInt_def len_def asInt32_def bytes_at_content)
    show ?thesis
    proof (cases "len > kMaxMessageLen \<or> len < kMinMessageLen \<or> \<not> int (readableBytes b) \<ge> len + kHeaderLen")
      case True': True
      then have "onMessage P None b = Some (if len > kMaxMessageLen \<or> len < kMinMessageLen then [Error kInvalidLength] else [], b)"
        using True pk by (subst onMessage.simps) (auto simp: decipher_def)
      then show ?thesis by (intro stop) auto
    next
      case False
      define l where "l = nat len"
      have l: "len = int l" "10 \<le> l" "int l \<le> kMaxMessageLen" "l + 4 \<le> length (content b)"
        using False less.prems by (auto simp: l_def kMinMessageLen_def kHeaderLen_def)
      let ?f = "take (l + 4) (content b)"
      have pl: "bytes_at b (readerIndex b + nat kHeaderLen) (nat len) = drop 4 ?f"
        using bytes_at_inside [of b 4 l] l less.prems by (simp add: kHeaderLen_def take_drop)
      show ?thesis
      proof (cases "parse P (drop 4 ?f)")
        case (Inl e)
        then have "onMessage P None b = Some ([Error e], b)"
          using True False pk pl by (subst onMessage.simps) (simp add: decipher_def)
        then show ?thesis by (intro stop) auto
      next
        case (Inr m)
        obtain c where c: "retrieve (l + 4) b = Some c" "buf_inv c" "content c = drop (l + 4) (content b)"
          using retrieve_spec [OF less.prems, of "l + 4"] l(4) by blast
        have n: "nat (kHeaderLen + len) = l + 4" using l(1) by (simp add: kHeaderLen_def)
        have on: "onMessage P None b = map_option (\<lambda>(es, c). (Message m # es, c)) (onMessage P None c)"
          using True False pk pl Inr c(1) n by (subst onMessage.simps) (simp add: decipher_def)
        have "length (content c) < length (content b)" using c(3) l by simp
        from less.hyps [OF this c(2)] obtain ms err fs b' where i: "onMessage P None c = Some (map Message ms @ err, b')"
          "buf_inv b'" "err = [] \<or> (\<exists>e. err = [Error e])" "content c = concat fs @ content b'" "list_all2 (valid_frame P) fs ms" by blast
        have "asInt32 ?f = asInt32 (content b)" using l by (simp add: asInt32_def min_absorb2)
        moreover have "length ?f = l + 4" "length (drop 4 ?f) = l" using l(4) by simp_all
        ultimately have "valid_frame P ?f m"
          using parse_checksum [OF Inr] l Inr by (simp add: valid_frame_def len_def [symmetric] add.commute)
        moreover have "content b = concat (?f # fs) @ content b'"
          using i(4) c(3) by (metis append_assoc append_take_drop_id concat.simps(2))
        ultimately show ?thesis using on i by (intro exI [of _ "m # ms"] exI [of _ err] exI [of _ "?f # fs"] exI [of _ b']) simp
      qed
    qed
  qed
qed

text \<open>Property C23.  Nothing unchecked reaches the dispatcher: whatever bytes an unencrypted connection holds, \<open>onMessage\<close> returns (no assertion
  of the code fails), it consumes whole frames only, every message it delivers comes from a frame whose length field is its length and within
  the limits and whose checksum matches, and it reports at most one error, after which it consumes nothing more.\<close>

theorem onMessage_accepts_checked:
  assumes "buf_inv b"
  shows "\<exists>ms err fs b'. onMessage P None b = Some (map Message ms @ err, b') \<and> buf_inv b' \<and> (err = [] \<or> (\<exists>e. err = [Error e])) \<and>
    content b = concat fs @ content b' \<and> list_all2 (valid_frame P) fs ms"
  by (rule onMessage_checked [OF assms])

text \<open>A good frame followed by zeros, which are taken for a frame of length 0.\<close>

lemma good_then_zeros:
  assumes "buf_inv b" "content b = frame toy_lib ''ab'' @ replicate 14 (CHR 0x00)"
  shows "\<exists>b'. onMessage toy_lib None b = Some ([Message ''ab'', Error kInvalidLength], b')"
proof -
  have "decipher None b = Some b" by (simp add: decipher_def)
  from onMessage_complete [OF this assms toy_ok] obtain c where c: "buf_inv c" "content c = replicate 14 (CHR 0x00)"
    "onMessage toy_lib None b = map_option (\<lambda>(es, c). (Message ''ab'' # es, c)) (onMessage toy_lib None c)" by auto
  have "content c = be_bytes 4 0 @ replicate 10 (CHR 0x00)" unfolding c(2) by code_simp
  from peekInt_spec [OF c(1) this] have "peekInt32 c = Some 0" by (simp add: peekInt32_def fits_bytes_def)
  then have "onMessage toy_lib None c = Some ([Error kInvalidLength], c)"
    using c(1,2) by (subst onMessage.simps) (simp add: kMinMessageLen_def kHeaderLen_def kMaxMessageLen_def decipher_def)
  with c(3) show ?thesis by simp
qed

theorem onMessage_accepts_checked_witness:
  "\<exists>b b' f. append_bytes (frame toy_lib ''ab'' @ replicate 14 (CHR 0x00)) (newBuffer 40) = Some b \<and>
     onMessage toy_lib None b = Some ([Message ''ab'', Error kInvalidLength], b') \<and> content b = f @ content b' \<and> valid_frame toy_lib f ''ab''"
proof -
  obtain b where b: "append_bytes (frame toy_lib ''ab'' @ replicate 14 (CHR 0x00)) (newBuffer 40) = Some b" "buf_inv b"
      "content b = frame toy_lib ''ab'' @ replicate 14 (CHR 0x00)"
    using bq.put_law [OF new_inv, of _ 40] by auto
  obtain b0 where r: "onMessage toy_lib None b = Some ([Message ''ab'', Error kInvalidLength], b0)" using good_then_zeros [OF b(2,3)] by blast
  obtain ms err fs b' where m: "onMessage toy_lib None b = Some (map Message ms @ err, b')" "err = [] \<or> (\<exists>e. err = [Error e])"
    "content b = concat fs @ content b'" "list_all2 (valid_frame toy_lib) fs ms"
    using onMessage_accepts_checked [OF b(2), of toy_lib] by blast
  from r m(1) have e: "map Message ms @ err = [Message ''ab'', Error kInvalidLength]" by simp
  then have "ms = [''ab'']" using m(2) by (cases ms rule: rev_cases) (auto simp: append_eq_Cons_conv)
  with m(4) obtain f where "fs = [f]" "valid_frame toy_lib f ''ab''" by (auto simp: list_all2_Cons2)
  with b(1) m(1,3) e show ?thesis by auto
qed

section \<open>Encrypted connections\<close>

text \<open>A block cipher applied to the first \<open>n\<close> blocks of 16 bytes.\<close>

primrec map_blocks :: "(string \<Rightarrow> string) \<Rightarrow> nat \<Rightarrow> string \<Rightarrow> string" where
  "map_blocks f 0 s = s"
| "map_blocks f (Suc n) s = f (take 16 s) @ map_blocks f n (drop 16 s)"

text \<open>What the codec relies on: the cipher keeps blocks of 16 bytes and deciphering inverts enciphering.\<close>

definition aes_ok :: "aes \<Rightarrow> bool" where
  "aes_ok a \<longleftrightarrow> (\<forall>s. length s = 16 \<longrightarrow> length (encrypt a s) = 16 \<and> length (decrypt a s) = 16 \<and> decrypt a (encrypt a s) = s)"

lemma map_blocks_length:
  "(\<And>x. length x = 16 \<Longrightarrow> length (f x) = 16) \<Longrightarrow> 16 * n \<le> length s \<Longrightarrow> length (map_blocks f n s) = length s"
  by (induction n arbitrary: s) simp_all

lemma map_blocks_inverse:
  "aes_ok a \<Longrightarrow> 16 * n \<le> length s \<Longrightarrow> map_blocks (decrypt a) n (map_blocks (encrypt a) n s) = s"
proof (induction n arbitrary: s)
  case (Suc n)
  have "length (take 16 s) = 16" using Suc.prems(2) by simp
  with Suc.prems(1) have "length (encrypt a (take 16 s)) = 16" "decrypt a (encrypt a (take 16 s)) = take 16 s"
    unfolding aes_ok_def by blast+
  with Suc show ?case by simp
qed simp

lemma content_poke:
  assumes "buf_ok b" "i + length d \<le> length (content b)"
  shows "content (b\<lparr>buffer := poke (buffer b) (readerIndex b + i) d\<rparr>) = poke (content b) i d"
proof -
  have ok: "readerIndex b \<le> writerIndex b" "writerIndex b \<le> length (buffer b)" "i + length d \<le> writerIndex b - readerIndex b"
    using assms by (simp_all add: buf_ok_def content_length)
  have "drop (readerIndex b) (poke (buffer b) (readerIndex b + i) d) = poke (drop (readerIndex b) (buffer b)) i d"
    using ok by (simp add: poke_def drop_take add.assoc [symmetric]) (simp add: add.commute add.left_commute)
  moreover have "take n (poke v i d) = poke (take n v) i d" if "i + length d \<le> n" "n \<le> length v" for n and v :: string
    using that by (cases "n = i") (auto simp: poke_def drop_take min_def)
  ultimately show ?thesis using ok by (simp add: content_def bytes_at_def)
qed

lemma poke_at_append: "length s = i \<Longrightarrow> length d \<le> length t \<Longrightarrow> poke (s @ t) i d = s @ d @ drop (length d) t"
  by (simp add: poke_def)

lemma inv_poke:
  "buf_inv b \<Longrightarrow> i + length d \<le> length (content b) \<Longrightarrow> buf_inv (b\<lparr>buffer := poke (buffer b) (readerIndex b + i) d\<rparr>)"
  by (auto simp: buf_inv_def buf_ok_def content_length)

text \<open>One block rewritten in place.\<close>

lemma poke_block:
  assumes "buf_inv b" "content b = s @ t" "length s = 16 * i" "16 \<le> length t" "length (f (take 16 t)) = 16"
  shows "bytes_at b (readerIndex b + 16 * i) 16 = take 16 t"
    "content (b\<lparr>buffer := poke (buffer b) (readerIndex b + 16 * i) (f (take 16 t))\<rparr>) = (s @ f (take 16 t)) @ drop 16 t"
    "buf_inv (b\<lparr>buffer := poke (buffer b) (readerIndex b + 16 * i) (f (take 16 t))\<rparr>)"
  using assms bytes_at_inside [of b "16 * i" 16] content_poke [of b "16 * i" "f (take 16 t)"]
    poke_at_append [of s "16 * i" "f (take 16 t)" t] inv_poke [of b "16 * i" "f (take 16 t)"] by simp_all

lemma encrypt_loop_spec:
  assumes "aes_ok a" "buf_inv b" "content b = s @ t" "length s = 16 * i" "16 * n \<le> length t"
  shows "content (encrypt_loop a i n b) = s @ map_blocks (encrypt a) n t"
  using assms(2-)
proof (induction n arbitrary: i b s t)
  case (Suc n)
  let ?e = "encrypt a (take 16 t)"
  let ?b = "b\<lparr>buffer := poke (buffer b) (readerIndex b + 16 * i) ?e\<rparr>"
  have l: "length (take 16 t) = 16" "16 \<le> length t" using Suc.prems(4) by simp_all
  with assms(1) have e: "length ?e = 16" unfolding aes_ok_def by blast
  note pb = poke_block [OF Suc.prems(1,2,3) l(2), of "encrypt a", OF e]
  have "content (encrypt_loop a (Suc i) n ?b) = (s @ ?e) @ map_blocks (encrypt a) n (drop 16 t)"
    using pb(2,3) Suc.prems(3,4) e by (intro Suc.IH) simp_all
  moreover have "encrypt_loop a i (Suc n) b = encrypt_loop a (Suc i) n ?b"
    using pb(1) by (simp add: AES_BLOCK_SIZE_def Let_def mult.commute [of _ 16])
  ultimately show ?case by simp
qed simp

lemma decrypt_loop_spec:
  assumes "aes_ok a" "buf_inv b" "writerIndex b < 2 ^ 64" "content b = s @ t" "length s = 16 * i"
    "decryptIndex b = readerIndex b + 16 * i" "n = length t div 16"
  shows "\<exists>b'. decrypt_loop a (n + 1) b = Some b' \<and> buf_inv b' \<and> content b' = s @ map_blocks (decrypt a) n t \<and>
    readerIndex b' = readerIndex b \<and> writerIndex b' = writerIndex b \<and> decryptIndex b' = readerIndex b + 16 * (i + n)"
  using assms(2-)
proof (induction n arbitrary: i b s t)
  case 0
  have "writerIndex b = readerIndex b + length (s @ t)"
    using content_length [of b] 0 by (simp add: buf_inv_def buf_ok_def)
  with 0 have "unDecryptedBytes b = length t" by (simp add: unDecryptedBytes_def sub64_def)
  moreover have "length t < 16" using 0(6) by (simp add: div_eq_0_iff)
  ultimately show ?case using 0 by (simp add: AES_BLOCK_SIZE_def)
next
  case (Suc n)
  let ?e = "decrypt a (take 16 t)"
  let ?c = "b\<lparr>buffer := poke (buffer b) (readerIndex b + 16 * i) ?e\<rparr>"
  let ?b = "?c\<lparr>decryptIndex := readerIndex b + 16 * i + 16\<rparr>"
  have w: "writerIndex b = readerIndex b + length (s @ t)"
    using content_length [of b] Suc.prems(1,3) by (simp add: buf_inv_def buf_ok_def)
  have l: "length (take 16 t) = 16" "16 \<le> length t" using Suc.prems(6) by simp_all
  with assms(1) have e: "length ?e = 16" unfolding aes_ok_def by blast
  note pb = poke_block [OF Suc.prems(1,3,4) l(2), of "decrypt a", OF e]
  have u: "unDecryptedBytes b = length t" "unDecryptedBytes ?c = length t"
    using w Suc.prems(4,5) by (simp_all add: unDecryptedBytes_def sub64_def)
  have "add64 (readerIndex b + 16 * i) 16 = readerIndex b + 16 * i + 16"
    using w Suc.prems(2,4) l(2) by (simp add: add64_def)
  then have step: "decrypt_loop a (Suc n + 1) b = decrypt_loop a (n + 1) ?b"
    using u pb(1) l(2) Suc.prems(5) by (simp add: AES_BLOCK_SIZE_def hasDecrypt_def)
  have "buf_inv ?b" "content ?b = (s @ ?e) @ drop 16 t"
    using pb(2,3) by (simp_all add: buf_inv_def buf_ok_def content_def bytes_at_def)
  moreover have "n = length (drop 16 t) div 16"
    using Suc.prems(6) l(2) by (metis Suc_eq_plus1 add_diff_cancel_right' div_add_self1 le_add_diff_inverse length_drop zero_neq_numeral)
  moreover have "length (s @ ?e) = 16 * Suc i" using Suc.prems(4) e by simp
  ultimately obtain b' where "decrypt_loop a (n + 1) ?b = Some b'" "buf_inv b'"
    "content b' = (s @ ?e) @ map_blocks (decrypt a) n (drop 16 t)" "readerIndex b' = readerIndex b"
    "writerIndex b' = writerIndex b" "decryptIndex b' = readerIndex b + 16 * (Suc i + n)"
    using Suc.IH [of ?b "s @ ?e" "drop 16 t" "Suc i"] Suc.prems(2) by (auto simp del: decrypt_loop.simps)
  then show ?case unfolding step by simp
qed

lemma append_unread:
  assumes "buf_inv b" "readerIndex b = kCheapPrepend" "append_bytes d b = Some b'"
  shows "readerIndex b' = kCheapPrepend \<and> decryptIndex b' = decryptIndex b"
  using assms by (auto simp: append_bytes_def ensureWritableBytes_def makeSpace_def hasWritten_def prependableBytes_def
    bind_eq_Some_conv split: if_splits)

lemma readFd_unread:
  assumes "buf_inv b" "readerIndex b = kCheapPrepend" "readFd (Some d) b = Some b'"
  shows "readerIndex b' = kCheapPrepend \<and> decryptIndex b' = decryptIndex b"
proof (cases "length d \<le> writableBytes b")
  case True
  with assms show ?thesis by (auto simp: readFd_def Let_def)
next
  case False
  let ?c = "b\<lparr>buffer := poke (buffer b) (writerIndex b) (take (writableBytes b) d), writerIndex := length (buffer b)\<rparr>"
  from False assms have "append_bytes (drop (writableBytes b) d) ?c = Some b'" by (simp add: readFd_def Let_def)
  moreover have "buf_inv ?c" using assms(1) False by (simp add: buf_inv_def buf_ok_def min_def)
  ultimately show ?thesis using append_unread [of ?c] assms(2) by simp
qed

lemma send_aes:
  assumes "aes_ok a"
  shows "send P (Some a) m = Some (map_blocks (encrypt a) ((length (frame P m) + length (frame P m) mod 16) div 16)
    (frame P m @ replicate (length (frame P m) mod 16) (CHR 0x00)))"
proof -
  let ?f = "frame P m" and ?r = "length (frame P m) mod 16"
  obtain b where b: "fillEmptyBuffer P m (newBuffer kInitialSize) = Some b" "buf_inv b" "content b = ?f"
    using fill_spec [OF new_inv, of kInitialSize P m] by (auto simp: kCheapPrepend_def)
  have p: "take ?r kPadding = replicate ?r (CHR 0x00)"
    by (simp add: kPadding_def AES_BLOCK_SIZE_def min_absorb1 less_imp_le)
  obtain c where c: "append_bytes (replicate ?r (CHR 0x00)) b = Some c" "buf_inv c" "content c = ?f @ replicate ?r (CHR 0x00)"
    using bq.put_law [OF b(2)] b(3) by auto
  have "encryptBuffer a b = Some (encrypt_loop a 0 (length (content c) div 16) c)"
    using b p c by (simp add: encryptBuffer_def AES_BLOCK_SIZE_def Let_def frame_nonempty)
  moreover have "content (encrypt_loop a 0 (length (content c) div 16) c) = [] @ map_blocks (encrypt a) (length (content c) div 16) (content c)"
    by (rule encrypt_loop_spec [OF assms c(2)]) simp_all
  ultimately show ?thesis using b(1) c(3) by (simp add: send_def)
qed

lemma onMessage_zeros:
  assumes "buf_inv b" "content b = replicate r (CHR 0x00)" "unDecryptedBytes b < 16"
  shows "onMessage P (Some a) b = Some (if 14 \<le> r then [Error kInvalidLength] else [], b)"
proof (cases "14 \<le> r")
  case True
  have "decryptBuffer a b = Some b" using assms(3) by (simp add: decryptBuffer_def AES_BLOCK_SIZE_def)
  then have d: "decipher (Some a) b = Some b" by (simp add: decipher_def)
  have "be_bytes 4 0 = replicate 4 (CHR 0x00)" by code_simp
  moreover have "replicate r (CHR 0x00) = replicate 4 (CHR 0x00) @ replicate (r - 4) (CHR 0x00)"
    using True by (subst replicate_add [symmetric]) simp
  ultimately have "content b = be_bytes 4 0 @ replicate (r - 4) (CHR 0x00)" using assms(2) by simp
  then have "peekInt32 b = Some 0" using peekInt_spec [OF assms(1), of 4 0] by (simp add: peekInt32_def fits_bytes_def)
  with True d assms show ?thesis by (subst onMessage.simps) (simp add: kMinMessageLen_def kHeaderLen_def)
next
  case False
  with assms show ?thesis by (subst onMessage.simps) (simp add: kMinMessageLen_def kHeaderLen_def)
qed

text \<open>Property C39.  One message over an encrypted connection: the peer deciphers and delivers the message, but the padding stays in its
  buffer.  The sender pads by \<open>r = size mod 16\<close> bytes and the receiver removes the frame without the padding, so
  \<open>r\<close> zero bytes are left in front of the next message; when \<open>r\<close> is 14 or 15 they are already taken for a frame of length 0, and
  the receiver reports \<open>kInvalidLength\<close>, for which the default error callback shuts the connection down.\<close>

theorem aes_padding_left_over:
  assumes "msg_ok P m" "aes_ok a" "r = length (frame P m) mod 16"
  shows "\<exists>w b. send P (Some a) m = Some w \<and>
    receive P (Some a) [w] (newBuffer kInitialSize) =
      Some (Message m # (if 14 \<le> r then [Error kInvalidLength] else []), b) \<and> content b = replicate r (CHR 0x00)"
proof -
  let ?f = "frame P m" and ?z = "replicate r (CHR 0x00)"
  define n where "n = (length ?f + r) div 16"
  define w where "w = map_blocks (encrypt a) n (?f @ ?z)"
  have n: "16 * n \<le> length (?f @ ?z)" unfolding n_def length_append length_replicate by (rule times_div_less_eq_dividend)
  have lw: "length w = length ?f + r"
    unfolding w_def using map_blocks_length [of "encrypt a" n "?f @ ?z"] n assms(2) by (simp add: aes_ok_def)
  have sw: "send P (Some a) m = Some w" using send_aes [OF assms(2), of P m] assms(3) by (simp add: w_def n_def)
  obtain b1 where b1: "readFd (Some w) (newBuffer kInitialSize) = Some b1" "buf_inv b1" "content b1 = w"
    using rq.put_law [OF new_inv, of w kInitialSize] by auto
  have i1: "readerIndex b1 = 8" "decryptIndex b1 = 8"
    using readFd_unread [OF new_inv _ b1(1)] by (simp_all add: newBuffer_def kCheapPrepend_def)
  have w1: "writerIndex b1 = 8 + length w" using content_length [of b1] b1(2,3) i1(1) by (auto simp: buf_inv_def buf_ok_def)
  have "r < 16" using assms(3) by simp
  then have "writerIndex b1 < 2 ^ 64"
    using w1 lw msg_ok_length(2) [OF assms(1)] by (simp add: length_frame kMaxMessageLen_def)
  moreover have u: "unDecryptedBytes b1 = length w" using w1 i1 by (simp add: unDecryptedBytes_def sub64_def)
  ultimately obtain b2 where b2: "decrypt_loop a (n + 1) b1 = Some b2" "buf_inv b2" "content b2 = map_blocks (decrypt a) n w"
    "readerIndex b2 = 8" "writerIndex b2 = 8 + length w" "decryptIndex b2 = 8 + 16 * n"
    using decrypt_loop_spec [OF assms(2) b1(2), of "[]" w 0 n] b1(3) i1 w1 lw n_def by (auto simp del: decrypt_loop.simps)
  have d: "decipher (Some a) b1 = Some b2" using b2(1) u lw
    by (simp add: decipher_def decryptBuffer_def AES_BLOCK_SIZE_def n_def del: decrypt_loop.simps)
  have "content b2 = ?f @ ?z" unfolding b2(3) w_def using map_blocks_inverse [OF assms(2) n] .
  from onMessage_complete [OF d b2(2) this assms(1)] obtain b3 where b3: "retrieve (length ?f) b2 = Some b3" "buf_inv b3"
    "content b3 = ?z" "onMessage P (Some a) b1 = map_option (\<lambda>(es, c). (Message m # es, c)) (onMessage P (Some a) b3)" by blast
  have "unDecryptedBytes b3 < 16"
  proof (cases "r = 0")
    case True
    then show ?thesis using b3(1) b2(2) \<open>content b2 = ?f @ ?z\<close>
      by (auto simp: retrieve_def retrieveAll_def unDecryptedBytes_def sub64_def kCheapPrepend_def split: if_splits)
  next
    case False
    then have "b3 = b2\<lparr>readerIndex := readerIndex b2 + length ?f\<rparr>"
      using b3(1) b2(2) \<open>content b2 = ?f @ ?z\<close> by (auto simp: retrieve_def split: if_splits)
    then have "unDecryptedBytes b3 = length w - 16 * n"
      using b2(5,6) n lw by (simp add: unDecryptedBytes_def sub64_def)
    also have "\<dots> = (length ?f + r) mod 16" unfolding lw n_def by (rule minus_mult_div_eq_mod)
    finally show ?thesis by simp
  qed
  from onMessage_zeros [OF b3(2,3) this, of P a] b3(4) b1(1) sw show ?thesis by (intro exI [of _ w] exI [of _ b3]) (simp add: b3(3))
qed

definition toy_aes :: aes where
  "toy_aes = \<lparr>encrypt = rev, decrypt = rev\<rparr>"

theorem aes_padding_left_over_witness:
  "\<exists>w b. send toy_lib (Some toy_aes) (replicate 16 CHR ''x'') = Some w \<and>
     receive toy_lib (Some toy_aes) [w] (newBuffer kInitialSize) = Some ([Message (replicate 16 CHR ''x''), Error kInvalidLength], b)"
proof -
  have "length (frame toy_lib (replicate 16 CHR ''x'')) = 30" by (simp add: length_frame length_payload toy_lib_def)
  then have "14 = length (frame toy_lib (replicate 16 CHR ''x'')) mod 16" by simp
  moreover have "aes_ok toy_aes" by (simp add: aes_ok_def toy_aes_def)
  ultimately show ?thesis
    using aes_padding_left_over [of toy_lib "replicate 16 CHR ''x''" toy_aes 14] toy_ok [of "replicate 16 CHR ''x''"] by auto
qed

end
