(* ===== verification/ServerBase.thy ===== *)
theory ServerBase
  imports Prelude
begin

text \<open>
  What the servers of the logon system share: the messages of \<^verbatim>\<open>src/proto\<close>, connections, the actions a handler takes,
  and \<open>std::map\<close> as an association list in key order.  A handler of the C++ code is a function from the server's state, a connection
  and a message to the new state and the list of actions, in the order the code takes them.  The model runs each
  handler as one atomic step.  For the hub and the logon server this rests on the locks the code takes around the maps they share between I/O
  threads; a forward server handles sessions in one loop thread only.  The keeper takes no lock for \<open>serverStart_\<close>: there the
  atomicity is that of its single I/O thread (\<open>threads=1\<close> in \<^verbatim>\<open>src/luaconfig/servers.lua\<close>, which its \<open>main\<close> passes to
  \<open>setThreadNum\<close>).
  Integer fields keep their width: the assignments between fields of different width truncate or extend with \<open>ucast\<close>.
\<close>

type_synonym uint16 = "16 word"
type_synonym uint32 = "32 word"
type_synonym int32 = "32 word"
type_synonym int64 = "64 word"

lemma ucast16: "ucast (ucast k :: uint32) = (k :: uint16)"
  by (rule ucast_up_ucast_id) (simp add: is_up_def source_size target_size word_size)

section \<open>Messages\<close>

datatype Operation = ADD | REMOVE | INC | DEC

text \<open>\<open>hub.proto\<close>, \<open>hubKeeper.proto\<close>, \<open>hubLogon.proto\<close>, \<open>keeperForward.proto\<close> and \<open>logon.proto\<close>; optional fields are options.\<close>

datatype msg =
    HubConnectionData (servertype: int32) (serverid: int32)
  | HubKeeperUpdateForwardConns uint32 uint32 string uint32 Operation
  | HubKeeperLogonSession int64 string int32
  | HubKeeperLogonSessionRet int64 string string int32 int32
  | HubLogonQueryForwardID int64 string uint32
  | HubLogonAnswerForwardID int64 string "string option" "uint32 option" "uint32 option"
  | KeeperQuery uint32
  | KeeperAnswer uint32 uint32 string uint32 uint32
  | KeeperForwardUpdateForwardConns uint32 uint32 string uint32 Operation
  | KeeperForwardLogonSession int64 string
  | KeeperForwardLogonSessionRet int64 string string int32 int32
  | Logon int64 string string uint32
  | LogonRet int64 string "string option" "uint32 option" "uint32 option"
  | LogonForward int64 int32

text \<open>The getter of an optional field returns the default when the field is absent.\<close>

definition get_opt :: "'a \<Rightarrow> 'a option \<Rightarrow> 'a" where
  "get_opt d f = (case f of None \<Rightarrow> d | Some x \<Rightarrow> x)"

lemma get_opt_simps [simp]: "get_opt d None = d" "get_opt d (Some x) = x"
  by (simp_all add: get_opt_def)

definition SERVER_TYPE_LOGON :: nat where "SERVER_TYPE_LOGON = 11"
definition SERVER_TYPE_HUB :: nat where "SERVER_TYPE_HUB = 21"
definition SERVER_TYPE_FORWARD :: nat where "SERVER_TYPE_FORWARD = 31"
definition SERVER_TYPE_KEEPER :: nat where "SERVER_TYPE_KEEPER = 101"

section \<open>Connections and actions\<close>

text \<open>A \<open>TcpConnectionPtr\<close>: its identity (pointers are compared by it), its name, and the address of the peer.\<close>

record TcpConn =
  conn_id :: nat
  conn_name :: string
  peer_ip :: string

definition same_conn :: "TcpConn \<Rightarrow> TcpConn \<Rightarrow> bool" where
  "same_conn c d \<longleftrightarrow> conn_id c = conn_id d"

text \<open>
  \<open>LoggedOn\<close> stands for the success branch of the session check, which only writes the log; \<open>Undefined\<close> for a step whose behaviour
  C++ does not define.
\<close>

datatype action = Send TcpConn msg | Shutdown TcpConn | LoggedOn int64 int32 TcpConn | Undefined string

definition send_opt :: "TcpConn option \<Rightarrow> msg \<Rightarrow> action list" where
  "send_opt c m = (case c of None \<Rightarrow> [] | Some c \<Rightarrow> [Send c m])"

lemma send_opt_simps [simp]: "send_opt None m = []" "send_opt (Some c) m = [Send c m]"
  by (simp_all add: send_opt_def)

definition onUnknownMessage :: "TcpConn \<Rightarrow> action list" where
  "onUnknownMessage conn = [Shutdown conn]"

section \<open>Ordered maps\<close>

fun map_put :: "'k :: linorder \<Rightarrow> 'v \<Rightarrow> ('k \<times> 'v) list \<Rightarrow> ('k \<times> 'v) list" where
  "map_put k v [] = [(k, v)]"
| "map_put k v ((k', v') # kvs) =
     (if k < k' then (k, v) # (k', v') # kvs else if k = k' then (k, v) # kvs else (k', v') # map_put k v kvs)"

text \<open>The loop that erases the first entry whose connection is \<open>conn\<close>.\<close>

fun map_erase_conn :: "TcpConn \<Rightarrow> ('k \<times> TcpConn) list \<Rightarrow> ('k \<times> TcpConn) list" where
  "map_erase_conn c [] = []"
| "map_erase_conn c ((k, d) # kvs) = (if same_conn c d then kvs else (k, d) # map_erase_conn c kvs)"

abbreviation keys_sorted :: "('k :: linorder \<times> 'v) list \<Rightarrow> bool" where
  "keys_sorted kvs \<equiv> sorted_wrt (<) (map fst kvs)"

lemma map_put_fst: "fst ` set (map_put k v kvs) = insert k (fst ` set kvs)"
  by (induction k v kvs rule: map_put.induct) (simp_all add: insert_commute)

lemma map_put_sorted: "keys_sorted kvs \<Longrightarrow> keys_sorted (map_put k v kvs)"
proof (induction kvs)
  case (Cons kv kvs)
  have "\<forall>x \<in> fst ` set (map_put k v kvs). fst kv < x" if "fst kv < k"
    using that Cons.prems by (simp add: map_put_fst)
  with Cons show ?case by (cases kv) (auto dest: order_less_trans)
qed simp

lemma map_put_find: "keys_sorted kvs \<Longrightarrow> map_of (map_put k v kvs) = (map_of kvs)(k \<mapsto> v)"
proof (induction kvs)
  case (Cons kv kvs)
  then show ?case by (cases kv) (auto simp: fun_eq_iff)
qed auto

lemma map_erase_conn_subset: "set (map_erase_conn c kvs) \<subseteq> set kvs"
  by (induction c kvs rule: map_erase_conn.induct) auto

lemma map_erase_conn_sorted: "keys_sorted kvs \<Longrightarrow> keys_sorted (map_erase_conn c kvs)"
proof (induction c kvs rule: map_erase_conn.induct)
  case (2 c k d kvs)
  then show ?case using map_erase_conn_subset [of c kvs] by auto
qed simp

end
