(* ===== verification/HubServer.thy ===== *)
theory HubServer
  imports ServerBase
begin

text \<open>
  The hub: \<^verbatim>\<open>src/hubserver/HubServer.h\<close> and \<^verbatim>\<open>HubServer.cc\<close>.  It knows the connection of every keeper and of the logon
  server, and per keeper the list of its forward servers with their number of connections; it sends a logon to the least loaded
  one.  \<open>forwardConns_\<close> is only accessed by key and is a function; \<open>keeperConns_\<close> is iterated and is an ordered map.
\<close>

record ForwardServerData =
  fd_id :: uint16
  fd_ip :: string
  fd_port :: uint16
  numConnections :: uint16

record HubServer =
  forwardConns :: "uint16 \<Rightarrow> ForwardServerData list option"
  keeperConns :: "(uint16 \<times> TcpConn) list"
  logonConn :: "TcpConn option"

definition newHub :: HubServer where
  "newHub = \<lparr>forwardConns = (\<lambda>_. None), keeperConns = [], logonConn = None\<rparr>"

definition fd_less :: "ForwardServerData \<Rightarrow> ForwardServerData \<Rightarrow> bool" where
  "fd_less a b \<longleftrightarrow> numConnections a < numConnections b"

definition hub_sendToKeeper :: "uint16 \<Rightarrow> msg \<Rightarrow> HubServer \<Rightarrow> action list" where
  "hub_sendToKeeper k m h = send_opt (map_of (keeperConns h) k) m"

definition hub_sendToLogon :: "msg \<Rightarrow> HubServer \<Rightarrow> action list" where
  "hub_sendToLogon m h = send_opt (logonConn h) m"

definition hub_onConnection :: "TcpConn \<Rightarrow> bool \<Rightarrow> HubServer \<Rightarrow> HubServer" where
  "hub_onConnection conn connected h =
     (if connected then h
      else if (case logonConn h of None \<Rightarrow> False | Some c \<Rightarrow> same_conn c conn) then h\<lparr>logonConn := None\<rparr>
      else h\<lparr>keeperConns := map_erase_conn conn (keeperConns h)\<rparr>)"

definition onHubConnectionData :: "TcpConn \<Rightarrow> int32 \<Rightarrow> int32 \<Rightarrow> HubServer \<Rightarrow> HubServer" where
  "onHubConnectionData conn stype sid h =
     (if stype = of_nat SERVER_TYPE_LOGON then h\<lparr>logonConn := Some conn\<rparr>
      else if stype = of_nat SERVER_TYPE_KEEPER then h\<lparr>keeperConns := map_put (ucast sid) conn (keeperConns h)\<rparr>
      else h)"

definition onHubKeeperLogonSessionRet :: "int64 \<Rightarrow> string \<Rightarrow> string \<Rightarrow> int32 \<Rightarrow> int32 \<Rightarrow> HubServer \<Rightarrow> action list" where
  "onHubKeeperLogonSessionRet uid connname ip port session h =
     hub_sendToLogon (HubLogonAnswerForwardID uid connname (Some ip) (Some port) (Some session)) h"

text \<open>
  The loop over \<open>forwardList\<close> stops at the first entry with the id.  For \<open>REMOVE\<close> it erases that entry and then reads
  \<open>numConnections\<close> through the erased iterator for the log line.
\<close>

fun update_forward :: "uint16 \<Rightarrow> Operation \<Rightarrow> ForwardServerData list \<Rightarrow> ForwardServerData list \<times> action list" where
  "update_forward fid oper [] = ([], [])"
| "update_forward fid oper (d # ds) =
     (if fd_id d = fid then
        (case oper of
           REMOVE \<Rightarrow> (ds, [Undefined ''read through an erased iterator''])
         | INC \<Rightarrow> (d\<lparr>numConnections := numConnections d + 1\<rparr> # ds, [])
         | DEC \<Rightarrow> (d\<lparr>numConnections := numConnections d - 1\<rparr> # ds, [])
         | ADD \<Rightarrow> (d # ds, []))
      else (let (ds', acts) = update_forward fid oper ds in (d # ds', acts)))"

definition onHubKeeperUpdateForwardConns ::
  "uint32 \<Rightarrow> uint32 \<Rightarrow> string \<Rightarrow> uint32 \<Rightarrow> Operation \<Rightarrow> HubServer \<Rightarrow> HubServer \<times> action list" where
  "onHubKeeperUpdateForwardConns keeperserverid forwardserverid forwardip forwardport oper h =
     (let keeperID = ucast keeperserverid :: uint16;
          forwardID = ucast forwardserverid :: uint16;
          forwardPort = ucast forwardport :: uint16;
          forwardList = (case forwardConns h keeperID of None \<Rightarrow> [] | Some l \<Rightarrow> l);
          (l, acts) = (if oper = ADD
             then (forwardList @ [\<lparr>fd_id = forwardID, fd_ip = forwardip, fd_port = forwardPort, numConnections = 0\<rparr>], [])
             else update_forward forwardID oper forwardList)
      in (h\<lparr>forwardConns := (forwardConns h)(keeperID \<mapsto> l)\<rparr>, acts))"

text \<open>\<open>std::min_element\<close>: the first element that no other is smaller than.\<close>

fun min_element :: "ForwardServerData \<Rightarrow> ForwardServerData list \<Rightarrow> ForwardServerData" where
  "min_element best [] = best"
| "min_element best (d # ds) = min_element (if fd_less d best then d else best) ds"

definition onHubLogonQueryForwardID :: "int64 \<Rightarrow> string \<Rightarrow> uint32 \<Rightarrow> HubServer \<Rightarrow> action list" where
  "onHubLogonQueryForwardID uid connname keeperserverid h =
     (case forwardConns h (ucast keeperserverid) of
        Some (d # ds) \<Rightarrow>
          hub_sendToKeeper (ucast keeperserverid) (HubKeeperLogonSession uid connname (ucast (fd_id (min_element d ds)))) h
      | _ \<Rightarrow> [])"

text \<open>The dispatcher of the hub.\<close>

definition hub_onMessage :: "HubServer \<Rightarrow> TcpConn \<Rightarrow> msg \<Rightarrow> HubServer \<times> action list" where
  "hub_onMessage h conn m = (case m of
       HubKeeperUpdateForwardConns k f ip port oper \<Rightarrow> onHubKeeperUpdateForwardConns k f ip port oper h
     | HubLogonQueryForwardID uid name k \<Rightarrow> (h, onHubLogonQueryForwardID uid name k h)
     | HubConnectionData t i \<Rightarrow> (onHubConnectionData conn t i h, [])
     | HubKeeperLogonSessionRet uid name ip port session \<Rightarrow> (h, onHubKeeperLogonSessionRet uid name ip port session h)
     | _ \<Rightarrow> (h, onUnknownMessage conn))"

section \<open>The least loaded forward server\<close>

lemma min_element_spec:
  "min_element d ds \<in> set (d # ds) \<and> (\<forall>x \<in> set (d # ds). numConnections (min_element d ds) \<le> numConnections x)"
proof (induction ds arbitrary: d)
  case (Cons e ds)
  let ?b = "if fd_less e d then e else d"
  have "numConnections ?b \<le> numConnections d" "numConnections ?b \<le> numConnections e" "?b = d \<or> ?b = e"
    by (auto simp: fd_less_def)
  with Cons [of ?b] show ?case by (auto intro: order_trans)
qed simp

text \<open>Property C10.  The hub balances the load: a logon for a keeper with at least one registered forward server makes the hub send exactly one
  message, to that keeper's connection, naming a forward server of the keeper with the smallest number of connections; the state does not
  change.  Without forward servers, or without a connection of the keeper, nothing is sent, not even to the logon server.\<close>

theorem hub_picks_least_loaded:
  assumes "forwardConns h (ucast k) = Some ds" "ds \<noteq> []" "map_of (keeperConns h) (ucast k) = Some c"
  shows "\<exists>d \<in> set ds. (\<forall>e \<in> set ds. numConnections d \<le> numConnections e) \<and>
    hub_onMessage h conn (HubLogonQueryForwardID uid name k) = (h, [Send c (HubKeeperLogonSession uid name (ucast (fd_id d)))])"
proof -
  obtain e es where ds: "ds = e # es" using assms(2) by (cases ds) auto
  let ?d = "min_element e es"
  have "hub_onMessage h conn (HubLogonQueryForwardID uid name k) = (h, [Send c (HubKeeperLogonSession uid name (ucast (fd_id ?d)))])"
    using assms(1,3) ds by (simp add: hub_onMessage_def onHubLogonQueryForwardID_def hub_sendToKeeper_def)
  moreover have "?d \<in> set ds" "\<forall>x \<in> set ds. numConnections ?d \<le> numConnections x" using min_element_spec [of e es] ds by simp_all
  ultimately show ?thesis by blast
qed

definition sample_hub :: HubServer where
  "sample_hub = newHub\<lparr>keeperConns := [(7, \<lparr>conn_id = 1, conn_name = ''k'', peer_ip = ''ip''\<rparr>)],
     forwardConns := [7 \<mapsto> [\<lparr>fd_id = 31, fd_ip = ''a'', fd_port = 1, numConnections = 5\<rparr>,
                                 \<lparr>fd_id = 32, fd_ip = ''b'', fd_port = 2, numConnections = 3\<rparr>]]\<rparr>"

theorem hub_picks_least_loaded_witness:
  "\<exists>d :: ForwardServerData. hub_onMessage sample_hub \<lparr>conn_id = 2, conn_name = ''l'', peer_ip = ''ip''\<rparr> (HubLogonQueryForwardID 9 ''n'' 7) =
     (sample_hub, [Send \<lparr>conn_id = 1, conn_name = ''k'', peer_ip = ''ip''\<rparr> (HubKeeperLogonSession 9 ''n'' (ucast (fd_id d)))]) \<and>
     numConnections d = 3"
proof -
  define ds where "ds = [\<lparr>fd_id = 31, fd_ip = ''a'', fd_port = 1, numConnections = 5 :: uint16\<rparr>,
    \<lparr>fd_id = 32, fd_ip = ''b'', fd_port = 2, numConnections = 3\<rparr>]"
  obtain d where d: "d \<in> set ds" "\<forall>e \<in> set ds. numConnections d \<le> numConnections e"
    "hub_onMessage sample_hub \<lparr>conn_id = 2, conn_name = ''l'', peer_ip = ''ip''\<rparr> (HubLogonQueryForwardID 9 ''n'' 7) =
       (sample_hub, [Send \<lparr>conn_id = 1, conn_name = ''k'', peer_ip = ''ip''\<rparr> (HubKeeperLogonSession 9 ''n'' (ucast (fd_id d)))])"
    using hub_picks_least_loaded [of sample_hub 7 ds] by (fastforce simp: sample_hub_def newHub_def ds_def)
  from d(1,2) have "numConnections d = 3" by (auto simp: ds_def)
  with d(3) show ?thesis by blast
qed

section \<open>Counting connections\<close>

text \<open>The updates a keeper forwards for its forward servers, as the hub receives them.\<close>

definition hub_update :: "uint16 \<Rightarrow> (uint16 \<times> Operation) \<Rightarrow> HubServer \<Rightarrow> HubServer" where
  "hub_update k u h = fst (onHubKeeperUpdateForwardConns (ucast k) (ucast (fst u)) [] 0 (snd u) h)"

text \<open>The number of live connections of forward server \<open>f\<close> after a sequence of updates, as the sum of its \<open>INC\<close> and \<open>DEC\<close>.\<close>

fun balance :: "uint16 \<Rightarrow> (uint16 \<times> Operation) list \<Rightarrow> int" where
  "balance f [] = 0"
| "balance f ((g, oper) # us) = (if f = g then (case oper of INC \<Rightarrow> 1 | DEC \<Rightarrow> - 1 | _ \<Rightarrow> 0) else 0) + balance f us"

definition count_only :: "(uint16 \<times> Operation) list \<Rightarrow> bool" where
  "count_only us \<longleftrightarrow> (\<forall>u \<in> set us. snd u = INC \<or> snd u = DEC)"

definition shift_count :: "uint16 \<Rightarrow> int \<Rightarrow> ForwardServerData \<Rightarrow> ForwardServerData" where
  "shift_count f n d = (if fd_id d = f then d\<lparr>numConnections := numConnections d + of_int n\<rparr> else d)"

lemma shift_count_zero: "map (shift_count f 0) ds = ds"
  by (induction ds) (auto simp: shift_count_def)

lemma update_forward_count:
  assumes "oper = INC \<or> oper = DEC" "distinct (map fd_id ds)"
  shows "update_forward f oper ds = (map (shift_count f (if oper = INC then 1 else - 1)) ds, [])"
  using assms
proof (induction ds)
  case (Cons d ds)
  have "map (shift_count f n) ds = ds" if "fd_id d = f" for n
    using that Cons.prems(2) by (intro map_idI) (metis image_eqI shift_count_def distinct.simps(2) list.simps(9) set_map)
  moreover have "shift_count (fd_id d) n d = d\<lparr>numConnections := numConnections d + of_int n\<rparr>"
    "fd_id d \<noteq> f \<Longrightarrow> shift_count f n d = d" for n by (simp_all add: shift_count_def)
  ultimately show ?case using Cons by auto
qed simp

lemma fd_id_shift [simp]: "fd_id (shift_count f n d) = fd_id d"
  by (simp add: shift_count_def)

lemma map_fd_id_shift [simp]: "map fd_id (map (shift_count f n) ds) = map fd_id ds"
  by (induction ds) simp_all

lemma shift_count_add: "shift_count f m (shift_count f n d) = shift_count f (n + m) d"
  by (simp add: shift_count_def)

lemma hub_update_count:
  assumes "forwardConns h k = Some ds" "distinct (map fd_id ds)" "oper = INC \<or> oper = DEC"
  shows "forwardConns (hub_update k (g, oper) h) k = Some (map (shift_count g (if oper = INC then 1 else - 1)) ds)"
  using assms by (auto simp: hub_update_def onHubKeeperUpdateForwardConns_def Let_def update_forward_count ucast16 split: prod.splits)

definition entry_count :: "uint16 \<Rightarrow> ForwardServerData list \<Rightarrow> uint16 option" where
  "entry_count f ds = map_option numConnections (find (\<lambda>d. fd_id d = f) ds)"

lemma entry_count_shift:
  "entry_count f (map (shift_count g n) ds) = map_option (\<lambda>c. if f = g then c + of_int n else c) (entry_count f ds)"
  by (induction ds) (auto simp: entry_count_def shift_count_def)

text \<open>Property C40.  The hub counts connections modulo \<open>2 ^ 16\<close>: after any sequence of \<open>INC\<close> and \<open>DEC\<close> updates of forward servers of a keeper, in
  any order, handled one after the other, the counter of every registered forward server is its old value plus its own \<open>INC\<close>s minus its own
  \<open>DEC\<close>s, in 16-bit arithmetic.  So it is exact when the number of live connections stays below 65536, and a \<open>DEC\<close> that overtakes
  its \<open>INC\<close> makes it 65535 in between.\<close>

theorem hub_counts_connections:
  assumes "forwardConns h k = Some ds" "distinct (map fd_id ds)" "count_only us"
  shows "\<exists>ds'. forwardConns (fold (hub_update k) us h) k = Some ds' \<and> map fd_id ds' = map fd_id ds \<and>
    (\<forall>f. entry_count f ds' = map_option (\<lambda>c. c + of_int (balance f us)) (entry_count f ds))"
  using assms
proof (induction us arbitrary: h ds)
  case Nil
  then show ?case by (simp add: option.map_id [unfolded id_def])
next
  case (Cons u us)
  obtain g oper where u: "u = (g, oper)" by (cases u)
  with Cons.prems(3) have oper: "oper = INC \<or> oper = DEC" "count_only us" by (auto simp: count_only_def)
  let ?n = "if oper = INC then 1 else - 1 :: int"
  from hub_update_count [OF Cons.prems(1,2) oper(1)]
  have s: "forwardConns (hub_update k u h) k = Some (map (shift_count g ?n) ds)" by (simp add: u)
  from Cons.IH [OF s _ oper(2)] Cons.prems(2) obtain ds' where ds': "forwardConns (fold (hub_update k) us (hub_update k u h)) k = Some ds'"
    "map fd_id ds' = map fd_id ds" "\<And>f. entry_count f ds' = map_option (\<lambda>c. c + of_int (balance f us)) (entry_count f (map (shift_count g ?n) ds))"
    by (auto simp del: map_map)
  have "entry_count f ds' = map_option (\<lambda>c. c + of_int (balance f (u # us))) (entry_count f ds)" for f
    using oper(1) by (cases "entry_count f ds") (auto simp: ds'(3) entry_count_shift u)
  with ds'(1,2) show ?case by auto
qed

theorem hub_counts_connections_witness:
  "\<exists>ds'. forwardConns (fold (hub_update 7) [(31, INC), (32, DEC), (31, DEC), (31, INC)] sample_hub) 7 = Some ds' \<and>
     entry_count 31 ds' = Some 6 \<and> entry_count 32 ds' = Some 2"
proof -
  define ds where "ds = [\<lparr>fd_id = 31, fd_ip = ''a'', fd_port = 1, numConnections = 5 :: uint16\<rparr>,
    \<lparr>fd_id = 32, fd_ip = ''b'', fd_port = 2, numConnections = 3\<rparr>]"
  have "forwardConns sample_hub 7 = Some ds" "distinct (map fd_id ds)"
    "count_only [(31, INC), (32, DEC), (31, DEC), (31, INC)]"
    by (simp_all add: sample_hub_def newHub_def ds_def count_only_def)
  from hub_counts_connections [OF this] show ?thesis by (fastforce simp: ds_def entry_count_def)
qed

text \<open>The one undefined step of the hub: handling a message leads to undefined behaviour exactly for a \<open>REMOVE\<close> of a forward server
  that is registered, where the handler erases the list node and then reads its counter for the log line.\<close>

theorem hub_undefined_exactly_remove:
  "(\<exists>why. Undefined why \<in> set (snd (hub_onMessage h conn m))) \<longleftrightarrow>
   (\<exists>k f ip port ds. m = HubKeeperUpdateForwardConns k f ip port REMOVE \<and>
      forwardConns h (ucast k) = Some ds \<and> ucast f \<in> fd_id ` set ds)"
proof -
  have u: "(\<exists>why. Undefined why \<in> set (snd (update_forward f oper ds))) \<longleftrightarrow> oper = REMOVE \<and> f \<in> fd_id ` set ds" for f oper ds
    by (induction f oper ds rule: update_forward.induct) (auto split: Operation.splits prod.splits)
  have "set (send_opt c m) \<inter> range Undefined = {}" for c m by (cases c) auto
  then have s: "Undefined why \<notin> set (send_opt c m)" for why c m by blast
  show ?thesis
  proof (cases m)
    case (HubKeeperUpdateForwardConns k f ip port oper)
    show ?thesis
    proof (cases "oper = ADD")
      case True
      then show ?thesis using HubKeeperUpdateForwardConns
        by (simp add: hub_onMessage_def onHubKeeperUpdateForwardConns_def Let_def)
    next
      case False
      let ?l = "case forwardConns h (ucast k) of None \<Rightarrow> [] | Some l \<Rightarrow> l"
      have "snd (hub_onMessage h conn m) = snd (update_forward (ucast f) oper ?l)"
        using False HubKeeperUpdateForwardConns
        by (simp add: hub_onMessage_def onHubKeeperUpdateForwardConns_def Let_def split: prod.splits)
      with u [of "ucast f" oper ?l] HubKeeperUpdateForwardConns show ?thesis by (auto split: option.splits)
    qed
  qed (auto simp: hub_onMessage_def onHubLogonQueryForwardID_def hub_sendToKeeper_def onHubKeeperLogonSessionRet_def
      hub_sendToLogon_def onUnknownMessage_def s split: option.splits list.splits)
qed

end
