(* ===== verification/KeeperServer.thy ===== *)
theory KeeperServer
  imports ServerBase
begin

text \<open>
  The keeper: \<^verbatim>\<open>src/keeperserver/KeeperServer.h\<close> and \<^verbatim>\<open>KeeperServer.cc\<close>.  It hands every forward server that connects an
  identity (id, address, threads) from the configuration, tells the hub about it, and relays logon sessions between hub
  and forward servers.  The configuration tables come from Lua; the function that reads entry \<open>i\<close> and the number of entries are
  parameters of \<open>loadServerConfig\<close>.  The vector \<open>serverStart_\<close> is used without a lock; the handlers of the connections of forward servers are
  modelled as running one after the other, in the one I/O thread of the shipped configuration.
\<close>

record ServerConfig =
  sc_id :: uint16
  sc_ttype :: uint16
  sc_ip :: string
  sc_port :: uint16
  sc_threads :: uint16

record ServerStart =
  ss_id :: uint16
  ss_start :: bool
  ss_connName :: string

record KeeperServer =
  serverID :: uint16
  serverConfig :: "ServerConfig list"
  serverStart :: "ServerStart list"
  conns :: "(uint16 \<times> TcpConn) list"
  hubConn :: "TcpConn option"

definition newKeeper :: "uint16 \<Rightarrow> ServerConfig list \<Rightarrow> KeeperServer" where
  "newKeeper sid cfg = \<lparr>serverID = sid, serverConfig = cfg, serverStart = [], conns = [], hubConn = None\<rparr>"

text \<open>The counter of the loop is a \<open>uint16_t\<close>: with 65535 entries it never exceeds the bound, which is the value \<open>None\<close>.\<close>

partial_function (option) load_loop :: "(uint16 \<Rightarrow> ServerConfig) \<Rightarrow> uint16 \<Rightarrow> uint16 \<Rightarrow> ServerConfig list option" where
  "load_loop config n i =
     (if i \<le> n then Option.bind (load_loop config n (i + 1)) (\<lambda>cs. Some (config i # cs)) else Some [])"

definition loadServerConfig :: "(uint16 \<Rightarrow> ServerConfig) \<Rightarrow> uint16 \<Rightarrow> KeeperServer \<Rightarrow> KeeperServer option" where
  "loadServerConfig config configCount k =
     map_option (\<lambda>cs. k\<lparr>serverConfig := cs\<rparr>) (load_loop config configCount 1)"

definition isStarted :: "uint16 \<Rightarrow> KeeperServer \<Rightarrow> bool" where
  "isStarted sid k \<longleftrightarrow> (\<exists>s \<in> set (serverStart k). ss_id s = sid \<and> ss_start s)"

fun set_start :: "uint16 \<Rightarrow> bool \<Rightarrow> string \<Rightarrow> ServerStart list \<Rightarrow> ServerStart list" where
  "set_start sid start name [] = [\<lparr>ss_id = sid, ss_start = start, ss_connName = name\<rparr>]"
| "set_start sid start name (s # ss) =
     (if ss_id s = sid then s\<lparr>ss_start := start\<rparr> # ss else s # set_start sid start name ss)"

definition setStarted :: "uint16 \<Rightarrow> bool \<Rightarrow> TcpConn \<Rightarrow> KeeperServer \<Rightarrow> KeeperServer" where
  "setStarted sid start conn k = k\<lparr>serverStart := set_start sid start (conn_name conn) (serverStart k)\<rparr>"

definition keeper_sendToHub :: "msg \<Rightarrow> KeeperServer \<Rightarrow> action list" where
  "keeper_sendToHub m k = send_opt (hubConn k) m"

definition sendToForward :: "uint16 \<Rightarrow> msg \<Rightarrow> KeeperServer \<Rightarrow> action list" where
  "sendToForward sid m k = send_opt (map_of (conns k) sid) m"

text \<open>The index of the first entry the loop of \<open>onConnection\<close> acts on.\<close>

fun find_index :: "('a \<Rightarrow> bool) \<Rightarrow> 'a list \<Rightarrow> nat option" where
  "find_index P [] = None"
| "find_index P (x # xs) = (if P x then Some 0 else map_option Suc (find_index P xs))"

text \<open>Fields of a message that no matching configuration entry sets stay at their defaults.\<close>

definition config_addr :: "uint16 \<Rightarrow> ServerConfig list \<Rightarrow> string \<times> uint32" where
  "config_addr sid cfg = (case find (\<lambda>c. sc_id c = sid) cfg of None \<Rightarrow> ([], 0) | Some c \<Rightarrow> (sc_ip c, ucast (sc_port c)))"

text \<open>
  \<open>onConnection\<close>, connection going down.  The code looks for the started entry \<open>i\<close> of \<open>serverStart_\<close> that belongs to the connection, reports it to
  the hub, and then calls \<open>setStarted\<close> with \<open>serverConfig_[i].id\<close>: the index of one vector used in the other.
\<close>

definition keeper_onConnection :: "TcpConn \<Rightarrow> bool \<Rightarrow> KeeperServer \<Rightarrow> KeeperServer \<times> action list" where
  "keeper_onConnection conn connected k =
     (if connected then (k, [])
      else
        let (k, acts) =
          (case find_index (\<lambda>s. ss_connName s = conn_name conn \<and> ss_start s) (serverStart k) of
             None \<Rightarrow> (k, [])
           | Some i \<Rightarrow>
               (let s = serverStart k ! i;
                    (ip, port) = config_addr (ss_id s) (serverConfig k);
                    acts = keeper_sendToHub (HubKeeperUpdateForwardConns (ucast (serverID k)) (ucast (ss_id s)) ip port REMOVE) k
                in if i < length (serverConfig k)
                   then (setStarted (sc_id (serverConfig k ! i)) False conn k, acts)
                   else (k, acts @ [Undefined ''serverConfig_ index out of range''])))
        in (k\<lparr>conns := map_erase_conn conn (conns k)\<rparr>, acts))"

definition keeper_onHubConnection :: "TcpConn \<Rightarrow> bool \<Rightarrow> KeeperServer \<Rightarrow> KeeperServer \<times> action list" where
  "keeper_onHubConnection conn connected k =
     (if connected
      then (k\<lparr>hubConn := Some conn\<rparr>, [Send conn (HubConnectionData (of_nat SERVER_TYPE_KEEPER) (ucast (serverID k)))])
      else (k\<lparr>hubConn := None\<rparr>, []))"

definition query_matches :: "TcpConn \<Rightarrow> uint32 \<Rightarrow> KeeperServer \<Rightarrow> ServerConfig \<Rightarrow> bool" where
  "query_matches conn stype k c \<longleftrightarrow> ucast (sc_ttype c) = stype \<and> sc_ip c = peer_ip conn \<and> \<not> isStarted (sc_id c) k"

definition onQuery :: "TcpConn \<Rightarrow> uint32 \<Rightarrow> KeeperServer \<Rightarrow> KeeperServer \<times> action list" where
  "onQuery conn stype k =
     (case find (query_matches conn stype k) (serverConfig k) of
        None \<Rightarrow> (k, [Shutdown conn])
      | Some c \<Rightarrow>
          ((setStarted (sc_id c) True conn k)\<lparr>conns := map_put (sc_id c) conn (conns k)\<rparr>,
           [Send conn (KeeperAnswer (ucast (serverID k)) (ucast (sc_id c)) (sc_ip c) (ucast (sc_port c)) (ucast (sc_threads c)))]
           @ keeper_sendToHub (HubKeeperUpdateForwardConns (ucast (serverID k)) (ucast (sc_id c)) (sc_ip c) (ucast (sc_port c)) ADD) k))"

definition onKeeperForwardLogonSessionRet :: "int64 \<Rightarrow> string \<Rightarrow> string \<Rightarrow> int32 \<Rightarrow> int32 \<Rightarrow> KeeperServer \<Rightarrow> action list" where
  "onKeeperForwardLogonSessionRet uid connname ip port session k =
     keeper_sendToHub (HubKeeperLogonSessionRet uid connname ip port session) k"

definition onHubKeeperLogonSession :: "int64 \<Rightarrow> string \<Rightarrow> int32 \<Rightarrow> KeeperServer \<Rightarrow> action list" where
  "onHubKeeperLogonSession uid connname forwardserverid k =
     sendToForward (ucast forwardserverid) (KeeperForwardLogonSession uid connname) k"

definition onKeeperForwardUpdateForwardConns ::
  "uint32 \<Rightarrow> uint32 \<Rightarrow> string \<Rightarrow> uint32 \<Rightarrow> Operation \<Rightarrow> KeeperServer \<Rightarrow> action list" where
  "onKeeperForwardUpdateForwardConns kid fid ip port oper k =
     keeper_sendToHub (HubKeeperUpdateForwardConns kid fid ip port oper) k"

text \<open>The dispatchers: \<open>dispatcher_\<close> for the forward servers and \<open>hubDispatcher_\<close> for the hub, whose unknown messages are only logged.\<close>

definition keeper_onMessage :: "KeeperServer \<Rightarrow> TcpConn \<Rightarrow> msg \<Rightarrow> KeeperServer \<times> action list" where
  "keeper_onMessage k conn m = (case m of
       KeeperQuery t \<Rightarrow> onQuery conn t k
     | KeeperForwardLogonSessionRet uid name ip port session \<Rightarrow> (k, onKeeperForwardLogonSessionRet uid name ip port session k)
     | KeeperForwardUpdateForwardConns kid fid ip port oper \<Rightarrow> (k, onKeeperForwardUpdateForwardConns kid fid ip port oper k)
     | _ \<Rightarrow> (k, onUnknownMessage conn))"

definition keeper_onHubMessage :: "KeeperServer \<Rightarrow> TcpConn \<Rightarrow> msg \<Rightarrow> KeeperServer \<times> action list" where
  "keeper_onHubMessage k conn m = (case m of
       HubKeeperLogonSession uid name fid \<Rightarrow> (k, onHubKeeperLogonSession uid name fid k)
     | _ \<Rightarrow> (k, []))"

section \<open>Loading the configuration\<close>

lemma load_loop_returns:
  assumes "n < 65535" "unat i \<le> Suc (unat n)" "i \<noteq> 0"
  shows "load_loop config n i = Some (map (\<lambda>j. config (of_nat j)) [unat i..<Suc (unat n)])"
  using assms(2,3)
proof (induction "Suc (unat n) - unat i" arbitrary: i)
  case 0
  then have "\<not> i \<le> n" by (simp add: word_le_nat_alt)
  with 0 show ?case by (subst load_loop.simps) simp
next
  case (Suc d)
  then have le: "unat i \<le> unat n" by simp
  have "unat n < 65535" using assms(1) by (simp add: word_less_nat_alt)
  with le have s: "unat (i + 1) = Suc (unat i)" by (simp add: unat_word_ariths(1))
  with le have "load_loop config n (i + 1) = Some (map (\<lambda>j. config (of_nat j)) [Suc (unat i)..<Suc (unat n)])"
    using Suc by (subst Suc.hyps(1)) auto
  moreover have "i \<le> n" using le by (simp add: word_le_nat_alt)
  ultimately show ?case using le by (subst load_loop.simps) (simp add: upt_conv_Cons del: upt_Suc)
qed

section \<open>Identities\<close>

lemma set_start_started:
  assumes "distinct (map ss_id ss)"
  shows "(\<exists>s \<in> set (set_start sid b name ss). ss_id s = x \<and> ss_start s) \<longleftrightarrow>
    (if x = sid then b else \<exists>s \<in> set ss. ss_id s = x \<and> ss_start s)"
  using assms by (induction sid b name ss rule: set_start.induct) (auto split: if_splits simp: rev_image_eqI)

lemma set_start_ids: "set (map ss_id (set_start sid b name ss)) = insert sid (set (map ss_id ss))"
  by (induction sid b name ss rule: set_start.induct) auto

lemma set_start_distinct: "distinct (map ss_id ss) \<Longrightarrow> distinct (map ss_id (set_start sid b name ss))"
proof (induction sid b name ss rule: set_start.induct)
  case (2 sid b name s ss)
  then show ?case using set_start_ids [of sid b name ss] by (simp only: set_start.simps) auto
qed simp

text \<open>The invariant of the keeper: at most one start record per id, and the connection map in key order.\<close>

definition keeper_ok :: "KeeperServer \<Rightarrow> bool" where
  "keeper_ok k \<longleftrightarrow> distinct (map ss_id (serverStart k)) \<and> keys_sorted (conns k)"

lemma isStarted_set: "keeper_ok k \<Longrightarrow> isStarted x (setStarted sid b c k) \<longleftrightarrow> (if x = sid then b else isStarted x k)"
  by (simp add: isStarted_def setStarted_def keeper_ok_def set_start_started)

lemma keeper_ok_new: "keeper_ok (newKeeper sid cfg)"
  by (simp add: keeper_ok_def newKeeper_def)

lemma keeper_ok_query: "keeper_ok k \<Longrightarrow> keeper_ok (fst (onQuery conn t k))"
  by (auto simp: onQuery_def keeper_ok_def setStarted_def set_start_distinct map_put_sorted split: option.splits)

lemma keeper_ok_message: "keeper_ok k \<Longrightarrow> keeper_ok (fst (keeper_onMessage k conn m))"
  by (auto simp: keeper_onMessage_def keeper_ok_query split: msg.splits)

lemma keeper_ok_connection: "keeper_ok k \<Longrightarrow> keeper_ok (fst (keeper_onConnection conn up k))"
  by (auto simp: keeper_onConnection_def keeper_ok_def setStarted_def set_start_distinct map_erase_conn_sorted Let_def
      split: option.splits prod.splits if_splits)

inductive keeper_reach :: "KeeperServer \<Rightarrow> KeeperServer \<Rightarrow> bool" for k0 where
  start: "keeper_reach k0 k0"
| message: "keeper_reach k0 k \<Longrightarrow> keeper_reach k0 (fst (keeper_onMessage k conn m))"
| hub_message: "keeper_reach k0 k \<Longrightarrow> keeper_reach k0 (fst (keeper_onHubMessage k conn m))"
| connection: "keeper_reach k0 k \<Longrightarrow> keeper_reach k0 (fst (keeper_onConnection conn up k))"
| hub_connection: "keeper_reach k0 k \<Longrightarrow> keeper_reach k0 (fst (keeper_onHubConnection conn up k))"

text \<open>The invariant of the keeper holds in every state it can reach, whatever connections, disconnections and messages
  arrive in whatever order: no server id has two start records, so \<open>isStarted\<close> and \<open>setStarted\<close> speak of the same record.\<close>

theorem keeper_reach_ok:
  assumes "keeper_reach (newKeeper sid cfg) k"
  shows "keeper_ok k"
  using assms
proof (induction rule: keeper_reach.induct)
  case (hub_message k conn m)
  then show ?case by (auto simp: keeper_onHubMessage_def split: msg.splits)
next
  case (hub_connection k conn up)
  then show ?case by (simp add: keeper_onHubConnection_def keeper_ok_def)
qed (simp_all add: keeper_ok_new keeper_ok_message keeper_ok_connection)

theorem keeper_reach_ok_witness:
  "keeper_reach (newKeeper 1 []) (newKeeper 1 []) \<and> keeper_ok (newKeeper 1 [])"
  using keeper_reach_ok [OF keeper_reach.start] keeper_reach.start by blast

text \<open>The identities the keeper hands out while it processes a sequence of messages from forward servers.\<close>

definition answered :: "action list \<Rightarrow> uint32 list" where
  "answered acts = concat (map (\<lambda>a. case a of Send c (KeeperAnswer kid sid ip port threads) \<Rightarrow> [sid] | _ \<Rightarrow> []) acts)"

fun keeper_run :: "KeeperServer \<Rightarrow> (TcpConn \<times> msg) list \<Rightarrow> KeeperServer \<times> action list" where
  "keeper_run k [] = (k, [])"
| "keeper_run k ((c, m) # ms) =
     (let (k, a) = keeper_onMessage k c m; (k, as) = keeper_run k ms in (k, a @ as))"

lemma answered_append [simp]: "answered (a @ b) = answered a @ answered b"
  by (simp add: answered_def)

lemma answered_simps [simp]:
  "answered [] = []" "answered (Send c (KeeperAnswer kid sid ip port threads) # as) = sid # answered as"
  "answered (Shutdown c # as) = answered as"
  by (simp_all add: answered_def)

lemma answered_hub [simp]:
  "answered (keeper_sendToHub (HubKeeperUpdateForwardConns x1 x2 x3 x4 x5) k) = []"
  "answered (keeper_sendToHub (HubKeeperLogonSessionRet y1 y2 y3 y4 y5) k) = []"
  by (cases "hubConn k"; simp add: keeper_sendToHub_def answered_def)+

text \<open>What one message does: it hands out at most one identity, one that was not started and is now, and stops none.\<close>

lemma keeper_message_step:
  assumes "keeper_ok k" "keeper_onMessage k c m = (k', acts)"
  shows "(\<forall>x. isStarted x k \<longrightarrow> isStarted x k') \<and>
    (answered acts = [] \<or> (\<exists>sid. answered acts = [ucast sid] \<and> \<not> isStarted sid k \<and> isStarted sid k'))"
proof (cases m)
  case (KeeperQuery t)
  show ?thesis
  proof (cases "find (query_matches c t k) (serverConfig k)")
    case None
    with assms KeeperQuery show ?thesis by (auto simp: keeper_onMessage_def onQuery_def)
  next
    case (Some sc)
    then have "query_matches c t k sc" by (auto simp: find_Some_iff)
    then have "\<not> isStarted (sc_id sc) k" by (simp add: query_matches_def)
    moreover have "isStarted x k' \<longleftrightarrow> x = sc_id sc \<or> isStarted x k" for x
    proof -
      have "isStarted x (y\<lparr>conns := cs\<rparr>) = isStarted x y" for y cs by (simp add: isStarted_def)
      with assms KeeperQuery Some isStarted_set [OF assms(1), of x "sc_id sc" True c] show ?thesis
        by (auto simp: keeper_onMessage_def onQuery_def split: if_splits)
    qed
    moreover have "answered acts = [ucast (sc_id sc)]" using assms KeeperQuery Some by (auto simp: keeper_onMessage_def onQuery_def)
    ultimately show ?thesis by blast
  qed
qed (use assms in \<open>auto simp: keeper_onMessage_def onUnknownMessage_def onKeeperForwardLogonSessionRet_def onKeeperForwardUpdateForwardConns_def\<close>)

lemma ucast16_inj: "(ucast (a :: uint16) :: uint32) = ucast b \<longleftrightarrow> a = b"
  by (metis ucast16)

lemma keeper_run_answers:
  assumes "keeper_ok k" "keeper_run k ms = (k', acts)"
  shows "distinct (answered acts) \<and> (\<forall>sid \<in> set (answered acts). \<exists>s. sid = ucast s \<and> \<not> isStarted s k)"
  using assms
proof (induction ms arbitrary: k acts)
  case (Cons cm ms)
  obtain c m where cm: "cm = (c, m)" by (cases cm)
  obtain k1 a where a: "keeper_onMessage k c m = (k1, a)" by fastforce
  obtain as where as: "keeper_run k1 ms = (k', as)" "acts = a @ as"
    using Cons.prems(2) cm a by (auto split: prod.splits)
  have "keeper_ok k1" using keeper_ok_message [OF Cons.prems(1), of c m] a by simp
  note ih = Cons.IH [OF this as(1)] and st = keeper_message_step [OF Cons.prems(1) a]
  show ?case
  proof (cases "answered a = []")
    case True
    with ih st as(2) show ?thesis by simp blast
  next
    case False
    with st obtain sid where sid: "answered a = [ucast sid]" "\<not> isStarted sid k" "isStarted sid k1" by blast
    with ih have "ucast sid \<notin> set (answered as)" by (auto simp: ucast16_inj)
    with sid ih st as(2) show ?thesis by simp blast
  qed
qed simp

text \<open>Property C11.  While no forward server disconnects, a keeper with one I/O thread (as it is configured) hands out no identity twice: along any sequence of
  messages, from any connections, handled one after the other, the ids in the answers are pairwise distinct, so no two forward servers are told to listen on
  the same address.  With several I/O threads this fails (\<open>keeper_query_race\<close> below): \<open>serverStart_\<close> is not protected by a lock.\<close>

theorem keeper_identities_distinct:
  assumes "keeper_ok k" "keeper_run k ms = (k', acts)"
  shows "distinct (answered acts)"
  using keeper_run_answers [OF assms] by blast

section \<open>Several I/O threads\<close>

text \<open>The two halves of \<open>onQuery\<close>: the search for an identity that is not started, with the answer, and the store that marks it as started.  Another I/O
  thread may run between them.\<close>

definition query_scan :: "TcpConn \<Rightarrow> uint32 \<Rightarrow> KeeperServer \<Rightarrow> ServerConfig option \<times> action list" where
  "query_scan conn stype k =
     (case find (query_matches conn stype k) (serverConfig k) of
        None \<Rightarrow> (None, [Shutdown conn])
      | Some c \<Rightarrow> (Some c,
           [Send conn (KeeperAnswer (ucast (serverID k)) (ucast (sc_id c)) (sc_ip c) (ucast (sc_port c)) (ucast (sc_threads c)))]
           @ keeper_sendToHub (HubKeeperUpdateForwardConns (ucast (serverID k)) (ucast (sc_id c)) (sc_ip c) (ucast (sc_port c)) ADD) k))"

definition query_store :: "TcpConn \<Rightarrow> ServerConfig option \<Rightarrow> KeeperServer \<Rightarrow> KeeperServer" where
  "query_store conn found k = (case found of
       None \<Rightarrow> k
     | Some c \<Rightarrow> (setStarted (sc_id c) True conn k)\<lparr>conns := map_put (sc_id c) conn (conns k)\<rparr>)"

lemma onQuery_halves: "onQuery conn stype k = (let (found, acts) = query_scan conn stype k in (query_store conn found k, acts))"
  by (simp add: onQuery_def query_scan_def query_store_def split: option.split)

text \<open>Two queries of forward servers of the same host that are both searched before either is stored are given the same identity.\<close>

lemma keeper_query_race:
  assumes "peer_ip c = peer_ip d" "query_scan c t k = (Some sc, as)" "query_scan d t k = (found, bs)"
  shows "found = Some sc \<and> answered as = [ucast (sc_id sc)] \<and> answered bs = [ucast (sc_id sc)]"
proof -
  have "query_matches c t k = query_matches d t k" using assms(1) by (simp add: query_matches_def fun_eq_iff)
  with assms(2,3) show ?thesis by (auto simp: query_scan_def split: option.splits)
qed

section \<open>The shipped configuration\<close>

text \<open>The table of \<^verbatim>\<open>src/luaconfig/servers.lua\<close>.\<close>

definition shipped_config :: "ServerConfig list" where
  "shipped_config = map (\<lambda>(i, t, p, n). \<lparr>sc_id = i, sc_ttype = t, sc_ip = ''127.0.0.1'', sc_port = p, sc_threads = n\<rparr>)
     [(10101, 101, 10101, 1), (10031, 31, 10031, 4), (10032, 31, 10032, 4), (10033, 31, 10033, 4), (10041, 41, 10041, 1), (10051, 51, 10041, 1)]"

definition local_conn :: "nat \<Rightarrow> string \<Rightarrow> TcpConn" where
  "local_conn i name = \<lparr>conn_id = i, conn_name = name, peer_ip = ''127.0.0.1''\<rparr>"

theorem keeper_identities_distinct_witness:
  "\<exists>k' acts. keeper_run (newKeeper 10101 shipped_config)
       [(local_conn 1 ''a'', KeeperQuery 31), (local_conn 2 ''b'', KeeperQuery 31)] = (k', acts) \<and>
     answered acts = [10031, 10032] \<and> distinct (answered acts)"
proof -
  let ?ms = "[(local_conn 1 ''a'', KeeperQuery 31), (local_conn 2 ''b'', KeeperQuery 31)]"
  obtain k' acts where r: "keeper_run (newKeeper 10101 shipped_config) ?ms = (k', acts)" by fastforce
  moreover have "answered (snd (keeper_run (newKeeper 10101 shipped_config) ?ms)) = [10031, 10032]" by code_simp
  ultimately show ?thesis using keeper_identities_distinct [OF keeper_ok_new r] by auto
qed

text \<open>A disconnection stops the wrong server: with the shipped configuration, when two forward servers have started and the second one
  (10032) disconnects, the keeper marks 10031 as stopped, although it is running, and keeps 10032 as started.  The
  next forward server that asks is told to be 10031 again, and 10032 is never handed out any more.\<close>

theorem keeper_stops_wrong_server:
  "\<exists>k2 k3 k4 a1 a2 a3.
     keeper_run (newKeeper 10101 shipped_config) [(local_conn 1 ''a'', KeeperQuery 31), (local_conn 2 ''b'', KeeperQuery 31)] = (k2, a1) \<and>
     answered a1 = [10031, 10032] \<and>
     keeper_onConnection (local_conn 2 ''b'') False k2 = (k3, a2) \<and> \<not> isStarted 10031 k3 \<and> isStarted 10032 k3 \<and>
     keeper_onMessage k3 (local_conn 3 ''c'') (KeeperQuery 31) = (k4, a3) \<and> answered a3 = [10031]"
proof -
  let ?r = "keeper_run (newKeeper 10101 shipped_config) [(local_conn 1 ''a'', KeeperQuery 31), (local_conn 2 ''b'', KeeperQuery 31)]"
  let ?d = "keeper_onConnection (local_conn 2 ''b'') False (fst ?r)"
  let ?q = "keeper_onMessage (fst ?d) (local_conn 3 ''c'') (KeeperQuery 31)"
  have "answered (snd ?r) = [10031, 10032]" by code_simp
  moreover have "\<not> isStarted 10031 (fst ?d)" by code_simp
  moreover have "isStarted 10032 (fst ?d)" by code_simp
  moreover have "answered (snd ?q) = [10031]" by code_simp
  ultimately show ?thesis
    by (intro exI [of _ "fst ?r"] exI [of _ "fst ?d"] exI [of _ "fst ?q"] exI [of _ "snd ?r"] exI [of _ "snd ?d"] exI [of _ "snd ?q"]) simp
qed

text \<open>A restarted server is not noticed when it goes away again: \<open>setStarted\<close> does not store the name of the new connection, so after a
  forward server has disconnected and started again over a second connection, the end of that connection
  sends no \<open>REMOVE\<close> to the hub and leaves the server marked as started.\<close>

theorem keeper_restart_not_noticed:
  "let cfg = [\<lparr>sc_id = 7, sc_ttype = 31, sc_ip = ''127.0.0.1'', sc_port = 7, sc_threads = 1\<rparr>];
       hub = local_conn 9 ''hub'';
       k0 = (newKeeper 1 cfg)\<lparr>hubConn := Some hub\<rparr>;
       k1 = fst (keeper_onMessage k0 (local_conn 1 ''a'') (KeeperQuery 31));
       (k2, first_end) = keeper_onConnection (local_conn 1 ''a'') False k1;
       k3 = fst (keeper_onMessage k2 (local_conn 2 ''b'') (KeeperQuery 31));
       (k4, second_end) = keeper_onConnection (local_conn 2 ''b'') False k3
   in first_end = [Send hub (HubKeeperUpdateForwardConns 1 7 ''127.0.0.1'' 7 REMOVE)] \<and> \<not> isStarted 7 k2 \<and>
      isStarted 7 k3 \<and> second_end = [] \<and> isStarted 7 k4"
  by code_simp

end
