(* ===== verification/ForwardServer.thy ===== *)
theory ForwardServer
  imports ServerBase
begin

text \<open>
  The forward server: \<^verbatim>\<open>src/forwardserver/ForwardServer.h\<close>, \<^verbatim>\<open>ForwardServer.cc\<close>, and the client it uses to talk to its
  keeper, \<^verbatim>\<open>KeeperClient.h\<close> and \<^verbatim>\<open>KeeperClient.cc\<close>.  The listening address is kept as the text and port the keeper sent
  (a dotted IPv4 address prints back as it was read).  \<open>rand()\<close> is the C library's; its value is an argument of the
  handler that calls it.  \<open>queueInLoop\<close> defers the session check: the queue of deferred checks is part of the state.  An answer of the keeper
  replaces the forward server: the checks still queued are bound to the deleted one (\<open>orphans\<close> counts them), as are the callbacks of the client
  connections still open; running either is undefined.
\<close>

record ForwardServer =
  listenIp :: string
  listenPort :: uint16
  fwd_keeperServerID :: uint16
  fwd_serverID :: uint16
  logonSessions :: "int64 \<Rightarrow> int32 option"
  queued :: "(TcpConn \<times> int64 \<times> int32) list"
  clients :: "TcpConn list"

definition newForwardServer :: "string \<Rightarrow> uint16 \<Rightarrow> uint16 \<Rightarrow> uint16 \<Rightarrow> ForwardServer" where
  "newForwardServer ip port kid sid =
     \<lparr>listenIp = ip, listenPort = port, fwd_keeperServerID = kid, fwd_serverID = sid, logonSessions = (\<lambda>_. None), queued = [], clients = []\<rparr>"

text \<open>The message for the keeper when a client connection comes up or goes down.\<close>

definition fwd_onConnection :: "bool \<Rightarrow> ForwardServer \<Rightarrow> msg" where
  "fwd_onConnection connected f =
     KeeperForwardUpdateForwardConns (ucast (fwd_keeperServerID f)) (ucast (fwd_serverID f)) (listenIp f) (ucast (listenPort f))
       (if connected then INC else DEC)"

text \<open>The connections the \<open>TcpServer\<close> of the forward server keeps.\<close>

definition fwd_connections :: "TcpConn \<Rightarrow> bool \<Rightarrow> ForwardServer \<Rightarrow> ForwardServer" where
  "fwd_connections conn connected f = f\<lparr>clients := (if connected then clients f @ [conn] else remove1 conn (clients f))\<rparr>"

definition onLogonForward :: "TcpConn \<Rightarrow> int64 \<Rightarrow> int32 \<Rightarrow> ForwardServer \<Rightarrow> ForwardServer" where
  "onLogonForward conn uid session f = f\<lparr>queued := queued f @ [(conn, uid, session)]\<rparr>"

definition checkLogonForwardSession :: "TcpConn \<Rightarrow> int64 \<Rightarrow> int32 \<Rightarrow> ForwardServer \<Rightarrow> ForwardServer \<times> action list" where
  "checkLogonForwardSession conn uid session f =
     (f\<lparr>logonSessions := (logonSessions f)(uid := None)\<rparr>,
      if logonSessions f uid = Some session then [LoggedOn uid session conn] else [Shutdown conn])"

definition addLogonSession :: "int64 \<Rightarrow> int32 \<Rightarrow> ForwardServer \<Rightarrow> ForwardServer" where
  "addLogonSession uid session f = f\<lparr>logonSessions := (logonSessions f)(uid \<mapsto> session)\<rparr>"

text \<open>The dispatcher of the forward server's clients.\<close>

definition fwd_onMessage :: "ForwardServer \<Rightarrow> TcpConn \<Rightarrow> msg \<Rightarrow> ForwardServer \<times> action list" where
  "fwd_onMessage f conn m = (case m of
       LogonForward uid session \<Rightarrow> (onLogonForward conn uid session f, [])
     | _ \<Rightarrow> (f, onUnknownMessage conn))"

text \<open>The loop runs the oldest deferred check.\<close>

definition fwd_runQueued :: "ForwardServer \<Rightarrow> ForwardServer \<times> action list" where
  "fwd_runQueued f = (case queued f of
       [] \<Rightarrow> (f, [])
     | (conn, uid, session) # q \<Rightarrow> checkLogonForwardSession conn uid session (f\<lparr>queued := q\<rparr>))"

section \<open>The connection to the keeper\<close>

record KeeperClient =
  kc_conn :: "TcpConn option"
  forwardServer :: "ForwardServer option"
  orphans :: nat

definition newKeeperClient :: KeeperClient where
  "newKeeperClient = \<lparr>kc_conn = None, forwardServer = None, orphans = 0\<rparr>"

definition kc_sendToKeeper :: "msg \<Rightarrow> KeeperClient \<Rightarrow> action list" where
  "kc_sendToKeeper m c = send_opt (kc_conn c) m"

definition kc_onConnection :: "TcpConn \<Rightarrow> bool \<Rightarrow> KeeperClient \<Rightarrow> KeeperClient \<times> action list" where
  "kc_onConnection conn connected c =
     (if connected then (c\<lparr>kc_conn := Some conn\<rparr>, [Send conn (KeeperQuery (of_nat SERVER_TYPE_FORWARD))])
      else (c\<lparr>kc_conn := None\<rparr>, []))"

text \<open>\<open>forwardServer_.reset\<close> deletes the old forward server.  The functors it has queued are older than those of the new one and run before them.  The
  destructor of its \<open>TcpServer\<close> takes its connections down, and they call back the deleted server.\<close>

definition onAnswer :: "uint32 \<Rightarrow> uint32 \<Rightarrow> string \<Rightarrow> uint32 \<Rightarrow> uint32 \<Rightarrow> KeeperClient \<Rightarrow> KeeperClient \<times> action list" where
  "onAnswer keeperserverid sid ip port threads c =
     (c\<lparr>forwardServer := Some (newForwardServer ip (ucast port) (ucast keeperserverid) (ucast sid)),
        orphans := orphans c + (case forwardServer c of None \<Rightarrow> 0 | Some f \<Rightarrow> length (queued f))\<rparr>,
      case forwardServer c of
        None \<Rightarrow> []
      | Some f \<Rightarrow> if clients f = [] then [] else [Undefined ''connections of a deleted ForwardServer''])"

text \<open>\<open>assert(forwardServer_)\<close> is compiled out of the default build: without a forward server the handler dereferences a null pointer.\<close>

definition onKeeperForwardLogonSession :: "int32 \<Rightarrow> int64 \<Rightarrow> string \<Rightarrow> KeeperClient \<Rightarrow> KeeperClient \<times> action list" where
  "onKeeperForwardLogonSession rand uid connname c = (case forwardServer c of
       None \<Rightarrow> (c, [Undefined ''null forwardServer_''])
     | Some f \<Rightarrow>
         (c\<lparr>forwardServer := Some (addLogonSession uid rand f)\<rparr>,
          kc_sendToKeeper (KeeperForwardLogonSessionRet uid connname (listenIp f) (ucast (listenPort f)) rand) c))"

definition kc_onMessage :: "int32 \<Rightarrow> KeeperClient \<Rightarrow> TcpConn \<Rightarrow> msg \<Rightarrow> KeeperClient \<times> action list" where
  "kc_onMessage rand c conn m = (case m of
       KeeperAnswer kid sid ip port threads \<Rightarrow> onAnswer kid sid ip port threads c
     | KeeperForwardLogonSession uid name \<Rightarrow> onKeeperForwardLogonSession rand uid name c
     | _ \<Rightarrow> (c, onUnknownMessage conn))"

text \<open>Client connections and messages of the embedded forward server.\<close>

definition kc_clientConnection :: "TcpConn \<Rightarrow> bool \<Rightarrow> KeeperClient \<Rightarrow> KeeperClient \<times> action list" where
  "kc_clientConnection conn connected c = (case forwardServer c of
       None \<Rightarrow> (c, [])
     | Some f \<Rightarrow> (c\<lparr>forwardServer := Some (fwd_connections conn connected f)\<rparr>, kc_sendToKeeper (fwd_onConnection connected f) c))"

definition kc_clientMessage :: "KeeperClient \<Rightarrow> TcpConn \<Rightarrow> msg \<Rightarrow> KeeperClient \<times> action list" where
  "kc_clientMessage c conn m = (case forwardServer c of
       None \<Rightarrow> (c, [])
     | Some f \<Rightarrow> (let (f, acts) = fwd_onMessage f conn m in (c\<lparr>forwardServer := Some f\<rparr>, acts)))"

definition kc_runQueued :: "KeeperClient \<Rightarrow> KeeperClient \<times> action list" where
  "kc_runQueued c =
     (if 0 < orphans c then (c\<lparr>orphans := orphans c - 1\<rparr>, [Undefined ''functor of a deleted ForwardServer''])
      else case forwardServer c of
        None \<Rightarrow> (c, [])
      | Some f \<Rightarrow> (let (f, acts) = fwd_runQueued f in (c\<lparr>forwardServer := Some f\<rparr>, acts)))"

section \<open>Sessions are good for one attempt\<close>

text \<open>A sequence of session checks: the attempts of clients, in the order the loop runs them.\<close>

fun check_all :: "(TcpConn \<times> int64 \<times> int32) list \<Rightarrow> ForwardServer \<Rightarrow> ForwardServer \<times> action list" where
  "check_all [] f = (f, [])"
| "check_all ((c, uid, s) # q) f =
     (let (f, a) = checkLogonForwardSession c uid s f; (f, as) = check_all q f in (f, a @ as))"

lemma check_all_unknown:
  "logonSessions f u = None \<Longrightarrow> check_all q f = (f', acts) \<Longrightarrow> LoggedOn u s c \<notin> set acts"
proof (induction q f arbitrary: acts rule: check_all.induct)
  case (2 c' uid s' q f)
  let ?f = "fst (checkLogonForwardSession c' uid s' f)"
  obtain a as where a: "checkLogonForwardSession c' uid s' f = (?f, a)" "check_all q ?f = (f', as)" "acts = a @ as"
    using "2.prems"(2) by (auto split: prod.splits)
  have "logonSessions ?f u = None" using "2.prems"(1) by (simp add: checkLogonForwardSession_def)
  with "2.IH" [OF refl a(1) [symmetric] _ a(2)] have "LoggedOn u s c \<notin> set as" by simp
  moreover have "LoggedOn u s c \<notin> set a" using a(1) "2.prems"(1) by (auto simp: checkLogonForwardSession_def split: if_splits)
  ultimately show ?case using a(3) by simp
qed simp

text \<open>Property C22.  A session is good for one attempt: whatever attempts follow, the first attempt for a user decides.  It is accepted exactly when its number
  is the stored session; the session is gone afterwards in either case, so no later attempt for that user is accepted
  until the keeper announces a new session, and a wrong guess closes the connection and invalidates the session.\<close>

theorem forward_session_single_use:
  assumes "check_all ((c, u, s) # q) f = (f', acts)"
  shows "\<exists>first rest. acts = first # rest \<and> first = (if logonSessions f u = Some s then LoggedOn u s c else Shutdown c) \<and>
    (\<forall>s' c'. LoggedOn u s' c' \<notin> set rest) \<and> logonSessions (fst (checkLogonForwardSession c u s f)) u = None"
proof -
  let ?f = "fst (checkLogonForwardSession c u s f)"
  obtain as where as: "check_all q ?f = (f', as)"
    "acts = (if logonSessions f u = Some s then LoggedOn u s c else Shutdown c) # as"
    using assms by (auto simp: checkLogonForwardSession_def split: prod.splits)
  moreover have "logonSessions ?f u = None" by (simp add: checkLogonForwardSession_def)
  ultimately show ?thesis using check_all_unknown [OF _ as(1)] by auto
qed

theorem forward_session_single_use_witness:
  "let f = addLogonSession 5 42 (newForwardServer ''ip'' 1 2 3); c = \<lparr>conn_id = 1, conn_name = ''x'', peer_ip = ''y''\<rparr>
   in logonSessions f 5 = Some 42 \<and> (\<exists>rest f'. check_all [(c, 5, 42), (c, 5, 42)] f = (f', LoggedOn 5 42 c # rest) \<and>
        LoggedOn 5 42 c \<notin> set rest)"
proof -
  let ?f = "addLogonSession 5 42 (newForwardServer ''ip'' 1 2 3)" and ?c = "\<lparr>conn_id = 1, conn_name = ''x'', peer_ip = ''y''\<rparr>"
  have "logonSessions ?f 5 = Some 42" by (simp add: addLogonSession_def newForwardServer_def)
  moreover obtain f' acts where "check_all [(?c, 5, 42), (?c, 5, 42)] ?f = (f', acts)" by fastforce
  ultimately show ?thesis using forward_session_single_use [of ?c 5 42 "[(?c, 5, 42)]" ?f] by auto
qed

end
