(* ===== verification/LogonServer.thy ===== *)
theory LogonServer
  imports ServerBase
begin

text \<open>
  The logon server, \<^verbatim>\<open>src/logonserver/LogonServer.h\<close> and \<^verbatim>\<open>LogonServer.cc\<close>, and the two test clients of
  \<^verbatim>\<open>src/logonclient\<close>.  MySQL is not part of the repository: the result of the query for a user id is an argument of
  \<open>queryLogonAccount\<close>, \<open>None\<close> when no database connection can be had and otherwise the \<open>PASSWD\<close> column of the rows.  The
  tasks \<open>onLogon\<close> puts into the pool are a queue in the state.
\<close>

record LogonServer =
  ls_serverID :: uint16
  clientConns :: "string \<Rightarrow> TcpConn option"
  ls_hubConn :: "TcpConn option"
  tasks :: "(uint32 \<times> string \<times> uint32 \<times> string) list"

definition newLogonServer :: "uint16 \<Rightarrow> LogonServer" where
  "newLogonServer sid = \<lparr>ls_serverID = sid, clientConns = (\<lambda>_. None), ls_hubConn = None, tasks = []\<rparr>"

definition ls_sendToHub :: "msg \<Rightarrow> LogonServer \<Rightarrow> action list" where
  "ls_sendToHub m l = send_opt (ls_hubConn l) m"

definition sendToClient :: "string \<Rightarrow> msg \<Rightarrow> LogonServer \<Rightarrow> action list" where
  "sendToClient connName m l = send_opt (clientConns l connName) m"

definition shutdownConn :: "string \<Rightarrow> LogonServer \<Rightarrow> action list" where
  "shutdownConn connName l = (case clientConns l connName of None \<Rightarrow> [] | Some c \<Rightarrow> [Shutdown c])"

definition ls_onConnection :: "TcpConn \<Rightarrow> bool \<Rightarrow> LogonServer \<Rightarrow> LogonServer" where
  "ls_onConnection conn connected l =
     l\<lparr>clientConns := (clientConns l)(conn_name conn := (if connected then Some conn else None))\<rparr>"

definition onHubClientConnection :: "TcpConn \<Rightarrow> bool \<Rightarrow> LogonServer \<Rightarrow> LogonServer \<times> action list" where
  "onHubClientConnection conn connected l =
     (if connected
      then (l\<lparr>ls_hubConn := Some conn\<rparr>, [Send conn (HubConnectionData (of_nat SERVER_TYPE_LOGON) (ucast (ls_serverID l)))])
      else (l\<lparr>ls_hubConn := None\<rparr>, []))"

text \<open>\<open>data()\<close> passed where a C string is expected: it ends at the first zero byte.\<close>

definition c_str :: "string \<Rightarrow> string" where
  "c_str s = takeWhile (\<lambda>c. c \<noteq> CHR 0x00) s"

definition password_ok :: "string list \<Rightarrow> string \<Rightarrow> bool" where
  "password_ok rows passwd \<longleftrightarrow> length rows = 1 \<and> hd rows = c_str passwd"

definition queryLogonAccount ::
  "string list option \<Rightarrow> uint32 \<Rightarrow> string \<Rightarrow> uint32 \<Rightarrow> string \<Rightarrow> LogonServer \<Rightarrow> action list" where
  "queryLogonAccount db uid passwd keeperServerID connName l = (case db of
       None \<Rightarrow> []
     | Some rows \<Rightarrow>
         if password_ok rows passwd then ls_sendToHub (HubLogonQueryForwardID (ucast uid) connName keeperServerID) l
         else sendToClient (c_str connName) (LogonRet (ucast uid) ''FAILED'' None None None) l @ shutdownConn (c_str connName) l)"

definition onLogon :: "TcpConn \<Rightarrow> int64 \<Rightarrow> string \<Rightarrow> uint32 \<Rightarrow> LogonServer \<Rightarrow> LogonServer" where
  "onLogon conn uid passwd keeperserverid l =
     l\<lparr>tasks := tasks l @ [(ucast uid, passwd, keeperserverid, conn_name conn)]\<rparr>"

definition onHubLogonAnswerForwardID ::
  "int64 \<Rightarrow> string \<Rightarrow> string option \<Rightarrow> uint32 option \<Rightarrow> uint32 option \<Rightarrow> LogonServer \<Rightarrow> action list" where
  "onHubLogonAnswerForwardID uid connname ip port session l =
     sendToClient (c_str connname)
       (LogonRet uid ''SUCCESS'' (Some (get_opt [] ip)) (Some (get_opt 0 port)) (Some (get_opt 0 session))) l"

definition ls_onMessage :: "LogonServer \<Rightarrow> TcpConn \<Rightarrow> msg \<Rightarrow> LogonServer \<times> action list" where
  "ls_onMessage l conn m = (case m of
       Logon uid uname passwd keeperserverid \<Rightarrow> (onLogon conn uid passwd keeperserverid l, [])
     | _ \<Rightarrow> (l, onUnknownMessage conn))"

definition ls_onHubMessage :: "LogonServer \<Rightarrow> TcpConn \<Rightarrow> msg \<Rightarrow> LogonServer \<times> action list" where
  "ls_onHubMessage l conn m = (case m of
       HubLogonAnswerForwardID uid name ip port session \<Rightarrow> (l, onHubLogonAnswerForwardID uid name ip port session l)
     | _ \<Rightarrow> (l, onUnknownMessage conn))"

text \<open>A pool thread takes the oldest task; \<open>db\<close> answers the query for its user id.\<close>

definition ls_runTask :: "(uint32 \<Rightarrow> string list option) \<Rightarrow> LogonServer \<Rightarrow> LogonServer \<times> action list" where
  "ls_runTask db l = (case tasks l of
       [] \<Rightarrow> (l, [])
     | (uid, passwd, keeperID, connName) # ts \<Rightarrow> (l\<lparr>tasks := ts\<rparr>, queryLogonAccount (db uid) uid passwd keeperID connName l))"

section \<open>Clients\<close>

record ForwardClient =
  fc_ip :: string
  fc_port :: uint16
  fc_name :: string
  fc_uid :: int64
  fc_session :: uint32

record LogonClient =
  lc_name :: string
  forwardClient :: "ForwardClient option"

definition lc_onConnection :: "TcpConn \<Rightarrow> bool \<Rightarrow> action list" where
  "lc_onConnection conn connected = (if connected then [Send conn (Logon 1 ''1'' ''123456'' 10101)] else [])"

text \<open>\<open>forwardClientName.replace(0, 10, ''ForwardClient'')\<close> on the name \<open>LogonClientNNNNN\<close>, whose prefix has 11 characters.\<close>

definition forward_name :: "string \<Rightarrow> string" where
  "forward_name name = ''ForwardClient'' @ drop 10 name"

definition onLogonRet :: "TcpConn \<Rightarrow> int64 \<Rightarrow> string \<Rightarrow> string option \<Rightarrow> uint32 option \<Rightarrow> uint32 option \<Rightarrow> LogonClient \<Rightarrow> LogonClient \<times> action list" where
  "onLogonRet conn uid status ip port session c =
     (if status = ''FAILED'' then (c, [Shutdown conn])
      else if status = ''SUCCESS'' then
        (c\<lparr>forwardClient := Some \<lparr>fc_ip = get_opt [] ip, fc_port = ucast (get_opt 0 port), fc_name = forward_name (lc_name c),
            fc_uid = uid, fc_session = get_opt 0 session\<rparr>\<rparr>, [])
      else (c, []))"

definition lc_onMessage :: "LogonClient \<Rightarrow> TcpConn \<Rightarrow> msg \<Rightarrow> LogonClient \<times> action list" where
  "lc_onMessage c conn m = (case m of
       LogonRet uid status ip port session \<Rightarrow> onLogonRet conn uid status ip port session c
     | _ \<Rightarrow> (c, onUnknownMessage conn))"

definition fc_onConnection :: "TcpConn \<Rightarrow> bool \<Rightarrow> ForwardClient \<Rightarrow> action list" where
  "fc_onConnection conn connected f = (if connected then [Send conn (LogonForward (fc_uid f) (fc_session f))] else [])"

section \<open>The password check\<close>

text \<open>The password check: a task sends the query for a forward server to the hub exactly when the database has one row for the user id
  and its password is the one presented, up to its first zero byte.  A wrong password is answered \<open>FAILED\<close> and the
  client's connection is closed, provided it is still open; when the database cannot be reached the client gets no answer at all.\<close>

theorem logon_password_check:
  "((\<exists>c k. Send c (HubLogonQueryForwardID (ucast uid) name k) \<in> set (queryLogonAccount db uid passwd keeper name l)) \<longleftrightarrow>
      (\<exists>rows. db = Some rows \<and> length rows = 1 \<and> hd rows = c_str passwd) \<and> ls_hubConn l \<noteq> None) \<and>
   (db = Some rows \<and> \<not> password_ok rows passwd \<and> clientConns l (c_str name) = Some c \<longrightarrow>
      queryLogonAccount db uid passwd keeper name l = [Send c (LogonRet (ucast uid) ''FAILED'' None None None), Shutdown c]) \<and>
   (db = None \<longrightarrow> queryLogonAccount db uid passwd keeper name l = [])"
  (is "?A \<and> ?B \<and> ?C")
proof (intro conjI)
  show ?A
    by (cases db; cases "ls_hubConn l"; cases "clientConns l (c_str name)")
       (auto simp: queryLogonAccount_def ls_sendToHub_def sendToClient_def shutdownConn_def password_ok_def split: if_splits)
qed (auto simp: queryLogonAccount_def sendToClient_def shutdownConn_def)

theorem logon_password_check_witness:
  "queryLogonAccount (Some [''secret'']) 1 ''guess'' 2 ''n''
     ((newLogonServer 3)\<lparr>clientConns := [''n'' \<mapsto> \<lparr>conn_id = 4, conn_name = ''n'', peer_ip = ''i''\<rparr>]\<rparr>) =
   [Send \<lparr>conn_id = 4, conn_name = ''n'', peer_ip = ''i''\<rparr> (LogonRet 1 ''FAILED'' None None None),
    Shutdown \<lparr>conn_id = 4, conn_name = ''n'', peer_ip = ''i''\<rparr>]"
  using logon_password_check [of 1 "''n''" "Some [''secret'']" "''guess''" 2
      "(newLogonServer 3)\<lparr>clientConns := [''n'' \<mapsto> \<lparr>conn_id = 4, conn_name = ''n'', peer_ip = ''i''\<rparr>]\<rparr>"
      "[''secret'']" "\<lparr>conn_id = 4, conn_name = ''n'', peer_ip = ''i''\<rparr>"]
  by (simp add: password_ok_def c_str_def)

end
