(* ===== verification/LogonProtocol.thy ===== *)
theory LogonProtocol
  imports HubServer KeeperServer ForwardServer LogonServer "HOL-Library.Multiset"
begin

text \<open>
  The servers together: a logon server, a hub, any number of keepers and forward servers, and clients that may send anything.
  Messages between servers are a multiset from which any one may be delivered next to any server, or be lost; this
  covers every order in which the connections deliver.  Clients reach the logon server and the forward servers
  only through their client ports.  The hub and the keepers accept any connection and authenticate nobody; that only servers of the cluster connect to
  them is an assumption about the network.  After a step that C++ does not define anything may happen.  The main theorem bounds the accepted logons of a user by the user's successful password
  checks, through an accounting argument: a successful check creates one credit, and every handler hands on at
  most the credit of the message it consumes.
\<close>

section \<open>Credits\<close>

definition credit :: "int64 \<Rightarrow> msg \<Rightarrow> nat" where
  "credit u m = (case m of
       HubLogonQueryForwardID v name k \<Rightarrow> if u = v then 1 else 0
     | HubKeeperLogonSession v name f \<Rightarrow> if u = v then 1 else 0
     | KeeperForwardLogonSession v name \<Rightarrow> if u = v then 1 else 0
     | _ \<Rightarrow> 0)"

definition sent :: "action list \<Rightarrow> msg list" where
  "sent acts = concat (map (\<lambda>a. case a of Send c m \<Rightarrow> [m] | _ \<Rightarrow> []) acts)"

definition acts_credit :: "int64 \<Rightarrow> action list \<Rightarrow> nat" where
  "acts_credit u acts = sum_list (map (credit u) (sent acts))"

definition logons :: "int64 \<Rightarrow> action list \<Rightarrow> nat" where
  "logons u acts = sum_list (map (\<lambda>a. case a of LoggedOn v s c \<Rightarrow> if u = v then 1 else 0 | _ \<Rightarrow> 0) acts)"

lemma sent_simps [simp]:
  "sent [] = []" "sent (Send c m # as) = m # sent as" "sent (Shutdown c # as) = sent as"
  "sent (LoggedOn u s c # as) = sent as" "sent (Undefined w # as) = sent as" "sent (as @ bs) = sent as @ sent bs"
  by (simp_all add: sent_def)

lemma logons_simps [simp]:
  "logons u [] = 0" "logons u (Send c m # as) = logons u as" "logons u (Shutdown c # as) = logons u as"
  "logons u (LoggedOn v s c # as) = (if u = v then 1 else 0) + logons u as" "logons u (Undefined w # as) = logons u as"
  "logons u (as @ bs) = logons u as + logons u bs"
  by (simp_all add: logons_def)

lemma acts_credit_simps [simp]:
  "acts_credit u [] = 0" "acts_credit u (Send c m # as) = credit u m + acts_credit u as"
  "acts_credit u (Shutdown c # as) = acts_credit u as" "acts_credit u (LoggedOn v s c # as) = acts_credit u as"
  "acts_credit u (Undefined w # as) = acts_credit u as" "acts_credit u (as @ bs) = acts_credit u as + acts_credit u bs"
  by (simp_all add: acts_credit_def)

lemma send_opt_credit [simp]:
  "acts_credit u (send_opt c m) = (if c = None then 0 else credit u m)" "logons u (send_opt c m) = 0"
  by (cases c; simp)+

text \<open>
  The contract of a port: what its handler sends and stores for a user is covered by what was stored and the credit of the message
  it handles, and it accepts no logon by itself.  A client port satisfies more: the message it handles counts for nothing.
\<close>

locale credit_port =
  fixes step :: "'s \<Rightarrow> TcpConn \<Rightarrow> msg \<Rightarrow> 's \<times> action list" and held :: "int64 \<Rightarrow> 's \<Rightarrow> nat"
  assumes credit_law: "held u (fst (step s c m)) + acts_credit u (snd (step s c m)) \<le> held u s + credit u m"
    and no_logon: "logons u (snd (step s c m)) = 0"
begin

primrec run :: "'s \<Rightarrow> (TcpConn \<times> msg) list \<Rightarrow> 's \<times> action list" where
  "run s [] = (s, [])"
| "run s (cm # cms) =
     (let (s, a) = step s (fst cm) (snd cm); (s, as) = run s cms in (s, a @ as))"

lemma run_credit:
  "held u (fst (run s cms)) + acts_credit u (snd (run s cms)) \<le> held u s + sum_list (map (credit u \<circ> snd) cms)"
proof (induction cms arbitrary: s)
  case (Cons cm cms)
  obtain s1 a where a: "step s (fst cm) (snd cm) = (s1, a)" by fastforce
  with credit_law [of u s "fst cm" "snd cm"] have "held u s1 + acts_credit u a \<le> held u s + credit u (snd cm)" by simp
  with Cons [of s1] show ?case using a by (simp add: split_beta)
qed simp

end

locale client_port =
  fixes step :: "'s \<Rightarrow> TcpConn \<Rightarrow> msg \<Rightarrow> 's \<times> action list" and held :: "int64 \<Rightarrow> 's \<Rightarrow> nat"
  assumes client_law: "held u (fst (step s c m)) + acts_credit u (snd (step s c m)) \<le> held u s"
    and client_no_logon: "logons u (snd (step s c m)) = 0"

sublocale client_port \<subseteq> credit_port step held
  by unfold_locales (auto intro: client_no_logon order_trans [OF client_law])

text \<open>The sessions a forward server stores are the credits it holds.\<close>

definition fwd_held :: "int64 \<Rightarrow> KeeperClient \<Rightarrow> nat" where
  "fwd_held u c = (case forwardServer c of None \<Rightarrow> 0 | Some f \<Rightarrow> if logonSessions f u = None then 0 else 1)"

abbreviation no_held :: "int64 \<Rightarrow> 's \<Rightarrow> nat" where "no_held u s \<equiv> 0"

lemma update_forward_credit: "acts_credit u (snd (update_forward f oper ds)) = 0 \<and> logons u (snd (update_forward f oper ds)) = 0"
  by (induction f oper ds rule: update_forward.induct) (auto split: Operation.splits prod.splits)

lemmas hub_handlers = hub_onMessage_def onUnknownMessage_def onHubKeeperUpdateForwardConns_def onHubLogonQueryForwardID_def
  hub_sendToKeeper_def onHubKeeperLogonSessionRet_def hub_sendToLogon_def
lemmas keeper_handlers = keeper_onMessage_def keeper_onHubMessage_def onUnknownMessage_def onQuery_def keeper_sendToHub_def
  onKeeperForwardLogonSessionRet_def onKeeperForwardUpdateForwardConns_def onHubKeeperLogonSession_def sendToForward_def
lemmas fwd_handlers = kc_onMessage_def kc_clientMessage_def onUnknownMessage_def onAnswer_def newForwardServer_def
  onKeeperForwardLogonSession_def addLogonSession_def kc_sendToKeeper_def fwd_onMessage_def onLogonForward_def
lemmas logon_handlers = ls_onMessage_def ls_onHubMessage_def onUnknownMessage_def onLogon_def onHubLogonAnswerForwardID_def
  sendToClient_def ls_sendToHub_def shutdownConn_def

interpretation hub: credit_port hub_onMessage no_held
  by unfold_locales
     (use update_forward_credit in \<open>auto simp: hub_handlers Let_def split_beta credit_def split: msg.splits option.splits list.splits\<close>)

interpretation keeper: credit_port keeper_onMessage no_held
  by unfold_locales (auto simp: keeper_handlers credit_def split: msg.splits option.splits)

interpretation keeper_hub: credit_port keeper_onHubMessage no_held
  by unfold_locales (auto simp: keeper_handlers credit_def split: msg.splits option.splits)

interpretation fwd_keeper: credit_port "kc_onMessage rnd" fwd_held for rnd
  by unfold_locales (auto simp: fwd_handlers fwd_held_def credit_def split: msg.splits option.splits)

interpretation fwd_client: client_port kc_clientMessage fwd_held
  by unfold_locales (auto simp: fwd_handlers fwd_held_def split: msg.splits option.splits)

interpretation logon_hub: credit_port ls_onHubMessage no_held
  by unfold_locales (auto simp: logon_handlers credit_def split: msg.splits option.splits)

interpretation logon_client: client_port ls_onMessage no_held
  by unfold_locales (auto simp: logon_handlers split: msg.splits option.splits)

section \<open>The cluster\<close>

record cluster =
  cl_logon :: LogonServer
  cl_hub :: HubServer
  cl_keepers :: "KeeperServer list"
  cl_fwds :: "KeeperClient list"
  net :: "msg multiset"
  checked :: "int64 \<Rightarrow> nat"
  accepted :: "int64 \<Rightarrow> nat"
  ub :: bool

text \<open>\<open>checked u\<close> counts the successful password checks of user \<open>u\<close> and \<open>accepted u\<close> the accepted logons; neither influences the servers.  \<open>ub\<close> tells that
  some server has taken a step whose behaviour is undefined.\<close>

definition undefined_in :: "action list \<Rightarrow> bool" where
  "undefined_in acts = list_ex (\<lambda>a. case a of Undefined w \<Rightarrow> True | _ \<Rightarrow> False) acts"

definition emit :: "action list \<Rightarrow> cluster \<Rightarrow> cluster" where
  "emit acts s = s\<lparr>net := net s + mset (sent acts), accepted := (\<lambda>u. accepted s u + logons u acts), ub := ub s \<or> undefined_in acts\<rparr>"

definition consume :: "msg \<Rightarrow> cluster \<Rightarrow> cluster" where
  "consume m s = s\<lparr>net := net s - {#m#}\<rparr>"

definition task_passes :: "(uint32 \<Rightarrow> string list option) \<Rightarrow> LogonServer \<Rightarrow> int64 \<Rightarrow> bool" where
  "task_passes db l u = (case tasks l of
       [] \<Rightarrow> False
     | (uid, passwd, k, name) # ts \<Rightarrow> ucast uid = u \<and> (case db uid of None \<Rightarrow> False | Some rows \<Rightarrow> password_ok rows passwd))"

inductive cluster_step :: "cluster \<Rightarrow> cluster \<Rightarrow> bool" where
  to_hub: "m \<in># net s \<Longrightarrow> hub_onMessage (cl_hub s) c m = (h, acts) \<Longrightarrow>
    cluster_step s (emit acts (consume m (s\<lparr>cl_hub := h\<rparr>)))"
| to_keeper: "m \<in># net s \<Longrightarrow> i < length (cl_keepers s) \<Longrightarrow> keeper_onMessage (cl_keepers s ! i) c m = (k, acts) \<Longrightarrow>
    cluster_step s (emit acts (consume m (s\<lparr>cl_keepers := (cl_keepers s)[i := k]\<rparr>)))"
| to_keeper_hub: "m \<in># net s \<Longrightarrow> i < length (cl_keepers s) \<Longrightarrow> keeper_onHubMessage (cl_keepers s ! i) c m = (k, acts) \<Longrightarrow>
    cluster_step s (emit acts (consume m (s\<lparr>cl_keepers := (cl_keepers s)[i := k]\<rparr>)))"
| to_forward: "m \<in># net s \<Longrightarrow> i < length (cl_fwds s) \<Longrightarrow> kc_onMessage rnd (cl_fwds s ! i) c m = (f, acts) \<Longrightarrow>
    cluster_step s (emit acts (consume m (s\<lparr>cl_fwds := (cl_fwds s)[i := f]\<rparr>)))"
| to_logon: "m \<in># net s \<Longrightarrow> ls_onHubMessage (cl_logon s) c m = (l, acts) \<Longrightarrow>
    cluster_step s (emit acts (consume m (s\<lparr>cl_logon := l\<rparr>)))"
| client_logon: "ls_onMessage (cl_logon s) c m = (l, acts) \<Longrightarrow> cluster_step s (emit acts (s\<lparr>cl_logon := l\<rparr>))"
| client_forward: "i < length (cl_fwds s) \<Longrightarrow> kc_clientMessage (cl_fwds s ! i) c m = (f, acts) \<Longrightarrow>
    cluster_step s (emit acts (s\<lparr>cl_fwds := (cl_fwds s)[i := f]\<rparr>))"
| database: "ls_runTask db (cl_logon s) = (l, acts) \<Longrightarrow>
    cluster_step s (emit acts (s\<lparr>cl_logon := l, checked := (\<lambda>u. checked s u + (if task_passes db (cl_logon s) u then 1 else 0))\<rparr>))"
| deferred: "i < length (cl_fwds s) \<Longrightarrow> kc_runQueued (cl_fwds s ! i) = (f, acts) \<Longrightarrow>
    cluster_step s (emit acts (s\<lparr>cl_fwds := (cl_fwds s)[i := f]\<rparr>))"
| hub_connection: "cluster_step s (s\<lparr>cl_hub := hub_onConnection c up (cl_hub s)\<rparr>)"
| keeper_connection: "i < length (cl_keepers s) \<Longrightarrow> keeper_onConnection c up (cl_keepers s ! i) = (k, acts) \<Longrightarrow>
    cluster_step s (emit acts (s\<lparr>cl_keepers := (cl_keepers s)[i := k]\<rparr>))"
| keeper_hub_connection: "i < length (cl_keepers s) \<Longrightarrow> keeper_onHubConnection c up (cl_keepers s ! i) = (k, acts) \<Longrightarrow>
    cluster_step s (emit acts (s\<lparr>cl_keepers := (cl_keepers s)[i := k]\<rparr>))"
| forward_connection: "i < length (cl_fwds s) \<Longrightarrow> kc_onConnection c up (cl_fwds s ! i) = (f, acts) \<Longrightarrow>
    cluster_step s (emit acts (s\<lparr>cl_fwds := (cl_fwds s)[i := f]\<rparr>))"
| forward_client_connection: "i < length (cl_fwds s) \<Longrightarrow> kc_clientConnection c up (cl_fwds s ! i) = (f, acts) \<Longrightarrow>
    cluster_step s (emit acts (s\<lparr>cl_fwds := (cl_fwds s)[i := f]\<rparr>))"
| logon_connection: "cluster_step s (s\<lparr>cl_logon := ls_onConnection c up (cl_logon s)\<rparr>)"
| logon_hub_connection: "onHubClientConnection c up (cl_logon s) = (l, acts) \<Longrightarrow> cluster_step s (emit acts (s\<lparr>cl_logon := l\<rparr>))"
| lost: "cluster_step s (consume m s)"
| chaos: "ub s \<Longrightarrow> ub s' \<Longrightarrow> cluster_step s s'"

definition cluster_init :: "LogonServer \<Rightarrow> HubServer \<Rightarrow> KeeperServer list \<Rightarrow> nat \<Rightarrow> cluster" where
  "cluster_init l h ks n = \<lparr>cl_logon = l, cl_hub = h, cl_keepers = ks, cl_fwds = replicate n newKeeperClient, net = {#},
     checked = (\<lambda>_. 0), accepted = (\<lambda>_. 0), ub = False\<rparr>"

text \<open>The credits of a user in the cluster.\<close>

definition potential :: "int64 \<Rightarrow> cluster \<Rightarrow> nat" where
  "potential u s = accepted s u + sum_list (map (fwd_held u) (cl_fwds s)) + sum_mset (image_mset (credit u) (net s))"

lemma potential_emit: "potential u (emit acts s) = potential u s + acts_credit u acts + logons u acts"
  by (simp add: potential_def emit_def acts_credit_def sum_mset_sum_list [symmetric] del: sum_mset_sum_list)

lemma potential_consume:
  assumes "m \<in># net s"
  shows "potential u (consume m s) + credit u m = potential u s"
proof -
  obtain n where "net s = add_mset m n" using assms by (metis insert_DiffM)
  then show ?thesis by (simp add: potential_def consume_def)
qed

lemma potential_lost: "potential u (consume m s) \<le> potential u s"
  using potential_consume [of m s u] by (cases "m \<in># net s") (simp, simp add: potential_def consume_def diff_single_trivial)

lemma potential_fwd:
  assumes "i < length (cl_fwds s)"
  shows "potential u (s\<lparr>cl_fwds := (cl_fwds s)[i := f]\<rparr>) + fwd_held u (cl_fwds s ! i) = potential u s + fwd_held u f"
proof -
  have "fwd_held u (cl_fwds s ! i) \<le> sum_list (map (fwd_held u) (cl_fwds s))"
    using elem_le_sum_list [of i "map (fwd_held u) (cl_fwds s)"] assms by simp
  with assms show ?thesis by (simp add: potential_def map_update sum_list_update)
qed

text \<open>A state that differs in other servers only.\<close>

lemma potential_other [simp]:
  "potential u (s\<lparr>cl_hub := h\<rparr>) = potential u s" "potential u (s\<lparr>cl_keepers := ks\<rparr>) = potential u s"
  "potential u (s\<lparr>cl_logon := l\<rparr>) = potential u s" "potential u (s\<lparr>checked := ch\<rparr>) = potential u s"
  by (simp_all add: potential_def)

lemma net_other [simp]: "net (s\<lparr>cl_fwds := fs\<rparr>) = net s"
  by simp

lemma checked_emit [simp]: "checked (emit acts s) = checked s" "checked (consume m s) = checked s"
  by (simp_all add: emit_def consume_def)

text \<open>The step of a handler that stores nothing, and of one that stores sessions.\<close>

lemma potential_handled:
  assumes "m \<in># net s'" "acts_credit u acts \<le> credit u m" "logons u acts = 0" "potential u s' = potential u s"
  shows "potential u (emit acts (consume m s')) \<le> potential u s"
  using potential_consume [OF assms(1), of u] assms(2-4) by (simp add: potential_emit)

lemma potential_fwd_step:
  assumes "i < length (cl_fwds s)" "fwd_held u f + acts_credit u acts + logons u acts \<le> fwd_held u (cl_fwds s ! i)"
  shows "potential u (emit acts (s\<lparr>cl_fwds := (cl_fwds s)[i := f]\<rparr>)) \<le> potential u s"
  using potential_fwd [OF assms(1), of u f] assms(2) by (simp add: potential_emit)

lemma ub_emit [simp]: "ub (emit acts s) \<longleftrightarrow> ub s \<or> undefined_in acts" "ub (consume m s) = ub s"
  by (simp_all add: emit_def consume_def)

lemma cluster_step_ub: "cluster_step s s' \<Longrightarrow> ub s \<Longrightarrow> ub s'"
  by (induction rule: cluster_step.induct) simp_all

lemma queued_credit:
  "kc_runQueued c = (f, acts) \<Longrightarrow> fwd_held u f + acts_credit u acts + logons u acts \<le> fwd_held u c"
  by (auto simp: kc_runQueued_def fwd_runQueued_def checkLogonForwardSession_def fwd_held_def Let_def
      split: option.splits list.splits if_splits prod.splits)

lemma task_credit:
  "ls_runTask db l = (l', acts) \<Longrightarrow> acts_credit u acts + logons u acts \<le> (if task_passes db l u then 1 else 0)"
  by (auto simp: ls_runTask_def queryLogonAccount_def logon_handlers task_passes_def credit_def
      split: option.splits list.splits if_splits prod.splits)

lemma connection_credit:
  "acts_credit u (snd (keeper_onConnection c up k)) + logons u (snd (keeper_onConnection c up k)) = 0"
  "acts_credit u (snd (keeper_onHubConnection c up k)) + logons u (snd (keeper_onHubConnection c up k)) = 0"
  "acts_credit u (snd (onHubClientConnection c up l)) + logons u (snd (onHubClientConnection c up l)) = 0"
  by (auto simp: keeper_onConnection_def keeper_onHubConnection_def onHubClientConnection_def
      keeper_sendToHub_def credit_def Let_def split: option.splits prod.splits)

lemma forward_connection_credit:
  "kc_onConnection c up k = (f, acts) \<Longrightarrow> fwd_held u f + acts_credit u acts + logons u acts \<le> fwd_held u k"
  "kc_clientConnection c up k = (f, acts) \<Longrightarrow> fwd_held u f + acts_credit u acts + logons u acts \<le> fwd_held u k"
  by (auto simp: kc_onConnection_def kc_clientConnection_def fwd_connections_def kc_sendToKeeper_def fwd_onConnection_def fwd_held_def credit_def
      split: if_splits option.splits)

lemma cluster_step_potential:
  assumes "cluster_step s s'" "\<not> ub s'"
  shows "potential u s' + checked s u \<le> potential u s + checked s' u"
  using assms(1)
proof (cases rule: cluster_step.cases)
  case (to_hub m c h acts)
  with hub.credit_law [where s = "cl_hub s" and u = u and c = c and m = m] hub.no_logon [where s = "cl_hub s" and u = u and c = c and m = m]
  show ?thesis using potential_handled [of m "s\<lparr>cl_hub := h\<rparr>" u acts s] by simp
next
  case (to_keeper m i c k acts)
  with keeper.credit_law [where s = "cl_keepers s ! i" and u = u and c = c and m = m] keeper.no_logon [where s = "cl_keepers s ! i" and u = u and c = c and m = m]
  show ?thesis using potential_handled [of m "s\<lparr>cl_keepers := (cl_keepers s)[i := k]\<rparr>" u acts s] by simp
next
  case (to_keeper_hub m i c k acts)
  with keeper_hub.credit_law [where s = "cl_keepers s ! i" and u = u and c = c and m = m]
    keeper_hub.no_logon [where s = "cl_keepers s ! i" and u = u and c = c and m = m]
  show ?thesis using potential_handled [of m "s\<lparr>cl_keepers := (cl_keepers s)[i := k]\<rparr>" u acts s] by simp
next
  case (to_forward m i rnd c f acts)
  let ?t = "s\<lparr>cl_fwds := (cl_fwds s)[i := f]\<rparr>"
  from to_forward fwd_keeper.credit_law [where s = "cl_fwds s ! i" and u = u and c = c and m = m and rnd = rnd]
    fwd_keeper.no_logon [where s = "cl_fwds s ! i" and u = u and c = c and m = m and rnd = rnd]
  have "fwd_held u f + acts_credit u acts \<le> fwd_held u (cl_fwds s ! i) + credit u m" "logons u acts = 0" by simp_all
  moreover have "potential u (consume m ?t) + credit u m = potential u ?t" using to_forward by (intro potential_consume) simp
  ultimately show ?thesis using to_forward(1) potential_fwd [OF to_forward(3), of u f] by (simp add: potential_emit)
next
  case (to_logon m c l acts)
  with logon_hub.credit_law [where s = "cl_logon s" and u = u and c = c and m = m] logon_hub.no_logon [where s = "cl_logon s" and u = u and c = c and m = m]
  show ?thesis using potential_handled [of m "s\<lparr>cl_logon := l\<rparr>" u acts s] by simp
next
  case (client_logon c m l acts)
  with logon_client.client_law [where s = "cl_logon s" and u = u and c = c and m = m]
    logon_client.client_no_logon [where s = "cl_logon s" and u = u and c = c and m = m]
  show ?thesis by (simp add: potential_emit)
next
  case (client_forward i c m f acts)
  with fwd_client.client_law [where s = "cl_fwds s ! i" and u = u and c = c and m = m]
    fwd_client.client_no_logon [where s = "cl_fwds s ! i" and u = u and c = c and m = m]
  show ?thesis using potential_fwd_step [OF client_forward(2), of u f acts] by simp
next
  case (database db l acts)
  then show ?thesis using task_credit [OF database(2), of u] by (simp add: potential_emit)
next
  case (deferred i f acts)
  then show ?thesis using potential_fwd_step [OF deferred(2) queued_credit [OF deferred(3)]] by simp
next
  case (keeper_connection i c up k acts)
  then show ?thesis using connection_credit(1) [of u c up "cl_keepers s ! i"] by (simp add: potential_emit)
next
  case (keeper_hub_connection i c up k acts)
  then show ?thesis using connection_credit(2) [of u c up "cl_keepers s ! i"] by (simp add: potential_emit)
next
  case (forward_connection i c up f acts)
  then show ?thesis using potential_fwd_step [OF forward_connection(2) forward_connection_credit(1) [OF forward_connection(3)]] by simp
next
  case (forward_client_connection i c up f acts)
  then show ?thesis
    using potential_fwd_step [OF forward_client_connection(2) forward_connection_credit(2) [OF forward_client_connection(3)]] by simp
next
  case (logon_hub_connection c up l acts)
  then show ?thesis using connection_credit(3) [of u c up "cl_logon s"] by (simp add: potential_emit)
next
  case (lost m)
  then show ?thesis using potential_lost [of u m s] by simp
next
  case chaos
  then show ?thesis using assms(2) by simp
qed simp_all

lemma cluster_bound:
  assumes "cluster_step\<^sup>*\<^sup>* (cluster_init l h ks n) s" "\<not> ub s"
  shows "potential u s \<le> checked s u"
  using assms
proof (induction rule: rtranclp_induct)
  case base
  then show ?case by (simp add: potential_def cluster_init_def fwd_held_def newKeeperClient_def sum_list_replicate)
next
  case (step s s')
  then have "\<not> ub s" using cluster_step_ub by blast
  with step show ?case using cluster_step_potential [OF step(2,4), of u] by simp
qed

text \<open>The steps as a function, to run the cluster.\<close>

datatype cl_event = ToHub TcpConn msg | ToKeeper nat TcpConn msg | ToKeeperHub nat TcpConn msg | ToForward nat int32 TcpConn msg | ToLogon TcpConn msg
  | ClientLogon TcpConn msg | ClientForward nat TcpConn msg | Database "uint32 \<Rightarrow> string list option" | Deferred nat
  | KeeperHubUp nat TcpConn | ForwardUp nat TcpConn | ClientUp nat TcpConn | LogonUp TcpConn | LogonHubUp TcpConn

definition cl_emit :: "bool \<Rightarrow> ('a \<Rightarrow> cluster) \<Rightarrow> 'a \<times> action list \<Rightarrow> cluster option" where
  "cl_emit ok upd r = (if ok then Some (emit (snd r) (upd (fst r))) else None)"

definition cl_exec :: "cl_event \<Rightarrow> cluster \<Rightarrow> cluster option" where
  "cl_exec e s = (case e of
       ToHub c m \<Rightarrow> cl_emit (m \<in># net s) (\<lambda>h. consume m (s\<lparr>cl_hub := h\<rparr>)) (hub_onMessage (cl_hub s) c m)
     | ToKeeper i c m \<Rightarrow> cl_emit (m \<in># net s \<and> i < length (cl_keepers s)) (\<lambda>k. consume m (s\<lparr>cl_keepers := (cl_keepers s)[i := k]\<rparr>))
         (keeper_onMessage (cl_keepers s ! i) c m)
     | ToKeeperHub i c m \<Rightarrow> cl_emit (m \<in># net s \<and> i < length (cl_keepers s)) (\<lambda>k. consume m (s\<lparr>cl_keepers := (cl_keepers s)[i := k]\<rparr>))
         (keeper_onHubMessage (cl_keepers s ! i) c m)
     | ToForward i rnd c m \<Rightarrow> cl_emit (m \<in># net s \<and> i < length (cl_fwds s)) (\<lambda>f. consume m (s\<lparr>cl_fwds := (cl_fwds s)[i := f]\<rparr>))
         (kc_onMessage rnd (cl_fwds s ! i) c m)
     | ToLogon c m \<Rightarrow> cl_emit (m \<in># net s) (\<lambda>l. consume m (s\<lparr>cl_logon := l\<rparr>)) (ls_onHubMessage (cl_logon s) c m)
     | ClientLogon c m \<Rightarrow> cl_emit True (\<lambda>l. s\<lparr>cl_logon := l\<rparr>) (ls_onMessage (cl_logon s) c m)
     | ClientForward i c m \<Rightarrow> cl_emit (i < length (cl_fwds s)) (\<lambda>f. s\<lparr>cl_fwds := (cl_fwds s)[i := f]\<rparr>) (kc_clientMessage (cl_fwds s ! i) c m)
     | Database db \<Rightarrow> cl_emit True
         (\<lambda>l. s\<lparr>cl_logon := l, checked := (\<lambda>u. checked s u + (if task_passes db (cl_logon s) u then 1 else 0))\<rparr>) (ls_runTask db (cl_logon s))
     | Deferred i \<Rightarrow> cl_emit (i < length (cl_fwds s)) (\<lambda>f. s\<lparr>cl_fwds := (cl_fwds s)[i := f]\<rparr>) (kc_runQueued (cl_fwds s ! i))
     | KeeperHubUp i c \<Rightarrow> cl_emit (i < length (cl_keepers s)) (\<lambda>k. s\<lparr>cl_keepers := (cl_keepers s)[i := k]\<rparr>) (keeper_onHubConnection c True (cl_keepers s ! i))
     | ForwardUp i c \<Rightarrow> cl_emit (i < length (cl_fwds s)) (\<lambda>f. s\<lparr>cl_fwds := (cl_fwds s)[i := f]\<rparr>) (kc_onConnection c True (cl_fwds s ! i))
     | ClientUp i c \<Rightarrow> cl_emit (i < length (cl_fwds s)) (\<lambda>f. s\<lparr>cl_fwds := (cl_fwds s)[i := f]\<rparr>) (kc_clientConnection c True (cl_fwds s ! i))
     | LogonUp c \<Rightarrow> Some (s\<lparr>cl_logon := ls_onConnection c True (cl_logon s)\<rparr>)
     | LogonHubUp c \<Rightarrow> cl_emit True (\<lambda>l. s\<lparr>cl_logon := l\<rparr>) (onHubClientConnection c True (cl_logon s)))"

lemmas cluster_step_fun =
  cluster_step.to_keeper [OF _ _ prod.collapse [symmetric]]
  cluster_step.to_keeper_hub [OF _ _ prod.collapse [symmetric]]
  cluster_step.to_forward [OF _ _ prod.collapse [symmetric]]
  cluster_step.to_hub [OF _ prod.collapse [symmetric]]
  cluster_step.to_logon [OF _ prod.collapse [symmetric]]
  cluster_step.client_forward [OF _ prod.collapse [symmetric]]
  cluster_step.deferred [OF _ prod.collapse [symmetric]]
  cluster_step.keeper_hub_connection [OF _ prod.collapse [symmetric]]
  cluster_step.forward_connection [OF _ prod.collapse [symmetric]]
  cluster_step.forward_client_connection [OF _ prod.collapse [symmetric]]
  cluster_step.client_logon [OF prod.collapse [symmetric]]
  cluster_step.database [OF prod.collapse [symmetric]]
  cluster_step.logon_hub_connection [OF prod.collapse [symmetric]]

lemma cl_exec_step: "cl_exec e s = Some s' \<Longrightarrow> cluster_step s s'"
  by (cases e) (auto simp: cl_exec_def cl_emit_def split: if_splits intro: cluster_step_fun cluster_step.logon_connection)

primrec cl_run :: "cl_event list \<Rightarrow> cluster \<Rightarrow> cluster option" where
  "cl_run [] s = Some s"
| "cl_run (e # es) s = Option.bind (cl_exec e s) (cl_run es)"

lemma cl_run_steps: "cl_run es s = Some s' \<Longrightarrow> cluster_step\<^sup>*\<^sup>* s s'"
proof (induction es arbitrary: s)
  case (Cons e es)
  then obtain t where "cl_exec e s = Some t" "cl_run es t = Some s'" by (auto simp: bind_eq_Some_conv)
  then show ?case using Cons.IH cl_exec_step converse_rtranclp_into_rtranclp [of cluster_step s t s'] by blast
qed simp

text \<open>Property C2.  No logon without a password check: in every state the servers can reach without undefined behaviour, whatever clients send to the client ports
  of the logon server and the forward servers, whatever the order, loss and delay of messages and connections, and whatever random numbers are drawn, the
  forward servers together have accepted at most as many logons of a user as there were successful password checks for that user.  In particular a session is
  never accepted twice and a client cannot log on as a user whose password nobody presented.  The ports of the hub and of the keepers are assumed to be
  reached by the servers only.\<close>

theorem logon_needs_password:
  assumes "cluster_step\<^sup>*\<^sup>* (cluster_init l h ks n) s" "\<not> ub s"
  shows "accepted s u \<le> checked s u"
  using cluster_bound [OF assms, of u] by (simp add: potential_def)

text \<open>A whole logon, from the connection of the servers to the acceptance, with a second attempt with the same session.\<close>

definition sample_run :: "cl_event list" where
  "sample_run = (let hub = local_conn 1 ''hub''; fwd = local_conn 2 ''fwd''; cl = local_conn 3 ''cl''; cf = local_conn 4 ''cf'';
       db = (\<lambda>uid. if uid = 1 then Some [''123456''] else Some []) in
     [LogonHubUp hub, ToHub (local_conn 5 ''l'') (HubConnectionData 11 11), KeeperHubUp 0 hub, ToHub (local_conn 6 ''k'') (HubConnectionData 101 10101),
      ForwardUp 0 fwd, ToKeeper 0 fwd (KeeperQuery 31), ToForward 0 0 fwd (KeeperAnswer 10101 10031 ''127.0.0.1'' 10031 4),
      ToHub (local_conn 6 ''k'') (HubKeeperUpdateForwardConns 10101 10031 ''127.0.0.1'' 10031 ADD),
      LogonUp cl, ClientLogon cl (Logon 1 ''1'' ''wrong'' 10101), ClientLogon cl (Logon 1 ''1'' ''123456'' 10101), Database db, Database db,
      ToHub (local_conn 5 ''l'') (HubLogonQueryForwardID 1 ''cl'' 10101), ToKeeperHub 0 hub (HubKeeperLogonSession 1 ''cl'' 10031),
      ToForward 0 42 fwd (KeeperForwardLogonSession 1 ''cl''), ToKeeper 0 fwd (KeeperForwardLogonSessionRet 1 ''cl'' ''127.0.0.1'' 10031 42),
      ToHub (local_conn 6 ''k'') (HubKeeperLogonSessionRet 1 ''cl'' ''127.0.0.1'' 10031 42),
      ToLogon hub (HubLogonAnswerForwardID 1 ''cl'' (Some ''127.0.0.1'') (Some 10031) (Some 42)),
      ClientUp 0 cf, ClientForward 0 cf (LogonForward 1 42), Deferred 0, ClientForward 0 cf (LogonForward 1 42), Deferred 0])"

theorem logon_needs_password_witness:
  "\<exists>s. cluster_step\<^sup>*\<^sup>* (cluster_init (newLogonServer 11) newHub [newKeeper 10101 shipped_config] 1) s \<and> \<not> ub s \<and> accepted s 1 = 1 \<and> accepted s 1 \<le> checked s 1"
proof -
  let ?c = "cluster_init (newLogonServer 11) newHub [newKeeper 10101 shipped_config] 1"
  have "map_option (\<lambda>s. (ub s, accepted s 1)) (cl_run sample_run ?c) = Some (False, 1)" by code_simp
  then obtain s where s: "cl_run sample_run ?c = Some s" "\<not> ub s" "accepted s 1 = 1" by auto
  note r = cl_run_steps [OF s(1)]
  from logon_needs_password [OF r s(2), of 1] r s(2,3) show ?thesis by blast
qed

section \<open>A complete logon\<close>





























end
