(* ===== verification/StrLib.thy ===== *)
theory StrLib
  imports Objects
begin

text \<open>
  The string library: \<^verbatim>\<open>src/lua/lstrlib.c\<close>.  A subject is the list of its characters and a position in it a natural number;
  a position in a pattern is the rest of the pattern from there, whose end reads as the terminating zero (\<open>pch\<close>).  A zero
  character inside a pattern ends it as well, as in the code.  The matcher threads its \<open>MatchState\<close> through every attempt, failed
  ones included, because the code changes the captures in place and undoes them.  Character classes are those of the C locale.
\<close>

section \<open>Characters\<close>

definition byte :: "char \<Rightarrow> nat" where "byte c = of_char c"

definition isdigit :: "char \<Rightarrow> bool" where "isdigit c \<longleftrightarrow> 48 \<le> byte c \<and> byte c \<le> 57"
definition islower :: "char \<Rightarrow> bool" where "islower c \<longleftrightarrow> 97 \<le> byte c \<and> byte c \<le> 122"
definition isupper :: "char \<Rightarrow> bool" where "isupper c \<longleftrightarrow> 65 \<le> byte c \<and> byte c \<le> 90"
definition isalpha :: "char \<Rightarrow> bool" where "isalpha c \<longleftrightarrow> islower c \<or> isupper c"
definition isalnum :: "char \<Rightarrow> bool" where "isalnum c \<longleftrightarrow> isalpha c \<or> isdigit c"
definition iscntrl :: "char \<Rightarrow> bool" where "iscntrl c \<longleftrightarrow> byte c < 32 \<or> byte c = 127"
definition isspace :: "char \<Rightarrow> bool" where "isspace c \<longleftrightarrow> byte c = 32 \<or> 9 \<le> byte c \<and> byte c \<le> 13"
definition ispunct :: "char \<Rightarrow> bool" where "ispunct c \<longleftrightarrow> 32 < byte c \<and> byte c < 127 \<and> \<not> isalnum c"
definition isxdigit :: "char \<Rightarrow> bool" where
  "isxdigit c \<longleftrightarrow> isdigit c \<or> 97 \<le> byte c \<and> byte c \<le> 102 \<or> 65 \<le> byte c \<and> byte c \<le> 70"
definition tolower :: "char \<Rightarrow> char" where "tolower c = (if isupper c then char_of (byte c + 32) else c)"
definition toupper :: "char \<Rightarrow> char" where "toupper c = (if islower c then char_of (byte c - 32) else c)"

text \<open>Decimal numbers, as \<open>printf\<close> writes them for \<open>%d\<close>.\<close>

function decimal :: "nat \<Rightarrow> string" where
  "decimal n = (if n < 10 then [char_of (48 + n)] else decimal (n div 10) @ [char_of (48 + n mod 10)])"
  by pat_completeness auto
termination by (relation "measure id") auto

declare decimal.simps [simp del]

definition fmt_d :: "int \<Rightarrow> string" where
  "fmt_d i = (if i < 0 then CHR ''-'' # decimal (nat (- i)) else decimal (nat i))"

section \<open>Simple functions\<close>

definition str_len :: "string \<Rightarrow> int" where "str_len s = int (length s)"

definition posrelat :: "int \<Rightarrow> int \<Rightarrow> int" where
  "posrelat pos len = (let pos = (if pos < 0 then pos + len + 1 else pos) in if pos \<ge> 0 then pos else 0)"

definition str_sub :: "string \<Rightarrow> int \<Rightarrow> int \<Rightarrow> string" where
  "str_sub s i j =
     (let l = int (length s);
          start = posrelat i l;
          end' = posrelat j l;
          start = (if start < 1 then 1 else start);
          end' = (if end' > l then l else end')
      in if start \<le> end' then take (nat (end' - start + 1)) (drop (nat (start - 1)) s) else [])"

text \<open>\<open>while (l--) luaL_addchar(&b, s[l])\<close>.\<close>

primrec reverse_loop :: "nat \<Rightarrow> string \<Rightarrow> string \<Rightarrow> string" where
  "reverse_loop 0 s b = b"
| "reverse_loop (Suc l) s b = reverse_loop l s (b @ [s ! l])"

definition str_reverse :: "string \<Rightarrow> string" where "str_reverse s = reverse_loop (length s) s []"

definition str_lower :: "string \<Rightarrow> string" where "str_lower s = map tolower s"
definition str_upper :: "string \<Rightarrow> string" where "str_upper s = map toupper s"

primrec rep_loop :: "nat \<Rightarrow> string \<Rightarrow> string \<Rightarrow> string" where
  "rep_loop 0 s b = b"
| "rep_loop (Suc n) s b = rep_loop n s (b @ s)"

definition str_rep :: "string \<Rightarrow> int \<Rightarrow> string" where "str_rep s n = rep_loop (nat n) s []"

text \<open>\<open>str_byte\<close>; \<open>(size_t)pose > l\<close> compares as unsigned, but \<open>posrelat\<close> is never negative.  The number of results must fit in an \<open>int\<close> and,
  by \<open>luaL_checkstack\<close>, in the free stack slots, a parameter.\<close>

definition str_byte :: "nat \<Rightarrow> string \<Rightarrow> int \<Rightarrow> int \<Rightarrow> int list res" where
  "str_byte stack_room s i j =
     (let l = int (length s);
          posi = posrelat i l;
          pose = posrelat j l;
          posi = (if posi \<le> 0 then 1 else posi);
          pose = (if pose > l then l else pose)
      in if posi > pose then Inr []
         else if pose - posi + 1 > INT_MAX then Inl (ErrRun ''string slice too long'')
         else if pose - posi + 1 > int stack_room then Inl (ErrRun ''stack overflow (string slice too long)'')
         else Inr (map (\<lambda>k. int (byte (s ! k))) [nat (posi - 1)..<nat pose]))"

text \<open>\<open>str_char\<close>; the message is the extra message of \<open>luaL_argerror\<close>.\<close>

fun str_char :: "nat \<Rightarrow> int list \<Rightarrow> string res" where
  "str_char i [] = Inr []"
| "str_char i (c # cs) =
     (if 0 \<le> c \<and> c \<le> 255 then bindE (str_char (i + 1) cs) (\<lambda>s. Inr (char_of (nat c) # s))
      else Inl (ErrRun ''invalid value''))"

section \<open>The match state\<close>

definition CAP_UNFINISHED :: int where "CAP_UNFINISHED = - 1"
definition CAP_POSITION :: int where "CAP_POSITION = - 2"
definition LUA_MAXCAPTURES :: nat where "LUA_MAXCAPTURES = 32"
definition L_ESC :: char where "L_ESC = CHR ''%''"
definition SPECIALS :: string where "SPECIALS = ''^$*+?.([%-''"

record MatchState =
  src_init :: string
  level :: nat
  capture :: "(nat \<times> int) list"

definition pch :: "string \<Rightarrow> char" where
  "pch p = (case p of [] \<Rightarrow> CHR 0x00 | c # _ \<Rightarrow> c)"

text \<open>The character at a position of the subject; the end reads as zero.\<close>

definition sch :: "string \<Rightarrow> nat \<Rightarrow> char" where
  "sch src s = (if s < length src then src ! s else CHR 0x00)"

definition quoted :: "string \<Rightarrow> string" where
  "quoted s = [CHR 0x27] @ s @ [CHR 0x27]"

definition check_capture :: "MatchState \<Rightarrow> char \<Rightarrow> nat res" where
  "check_capture ms l =
     (let l = int (byte l) - 49 in
      if l < 0 \<or> l \<ge> int (level ms) \<or> snd (capture ms ! nat l) = CAP_UNFINISHED
      then Inl (ErrRun ''invalid capture index'') else Inr (nat l))"

fun close_loop :: "(nat \<times> int) list \<Rightarrow> nat \<Rightarrow> nat option" where
  "close_loop cs 0 = None"
| "close_loop cs (Suc n) = (if snd (cs ! n) = CAP_UNFINISHED then Some n else close_loop cs n)"

definition capture_to_close :: "MatchState \<Rightarrow> nat res" where
  "capture_to_close ms = (case close_loop (capture ms) (level ms) of
       Some l \<Rightarrow> Inr l | None \<Rightarrow> Inl (ErrRun ''invalid pattern capture''))"

section \<open>Pattern items\<close>

text \<open>The \<open>do ... while\<close> of \<open>classend\<close>, from the first character of the set; it returns the position after the closing bracket.\<close>

function set_end :: "string \<Rightarrow> string res" where
  "set_end p =
     (if pch p = CHR 0x00 then Inl (ErrRun (''malformed pattern (missing '' @ quoted '']'' @ '')''))
      else
        let p' = (if pch p = L_ESC \<and> pch (drop 1 p) \<noteq> CHR 0x00 then drop 2 p else drop 1 p)
        in if pch p' \<noteq> CHR '']'' then set_end p' else Inr (drop 1 p'))"
  by pat_completeness auto
termination
  by (relation "measure length") (auto simp: pch_def Let_def split: list.splits if_splits)

declare set_end.simps [simp del]

definition classend :: "string \<Rightarrow> string res" where
  "classend p =
     (if pch p = L_ESC then
        (if pch (drop 1 p) = CHR 0x00 then Inl (ErrRun (''malformed pattern (ends with '' @ quoted ''%'' @ '')''))
         else Inr (drop 2 p))
      else if pch p = CHR ''['' then set_end (if pch (drop 1 p) = CHR ''^'' then drop 2 p else drop 1 p)
      else Inr (drop 1 p))"

definition match_class :: "char \<Rightarrow> char \<Rightarrow> bool" where
  "match_class c cl =
     (let k = tolower cl;
          signed = (\<lambda>res. if islower cl then res else \<not> res)
      in if k = CHR ''a'' then signed (isalpha c)
         else if k = CHR ''c'' then signed (iscntrl c)
         else if k = CHR ''d'' then signed (isdigit c)
         else if k = CHR ''l'' then signed (islower c)
         else if k = CHR ''p'' then signed (ispunct c)
         else if k = CHR ''s'' then signed (isspace c)
         else if k = CHR ''u'' then signed (isupper c)
         else if k = CHR ''w'' then signed (isalnum c)
         else if k = CHR ''x'' then signed (isxdigit c)
         else if k = CHR ''z'' then signed (c = CHR 0x00)
         else cl = c)"

text \<open>
  The loop of \<open>matchbracketclass\<close> over the characters between the brackets.  An escape that is the last of them (possible after a range that ends in
  an escape character) is followed by the closing bracket, which the code then compares with.
\<close>

function bracket_loop :: "char \<Rightarrow> string \<Rightarrow> bool" where
  "bracket_loop c [] = False"
| "bracket_loop c (x # b) =
     (if x = L_ESC then (if match_class c (case b of [] \<Rightarrow> CHR '']'' | y # _ \<Rightarrow> y) then True else bracket_loop c (drop 1 b))
      else if pch b = CHR ''-'' \<and> 2 \<le> length b then
        (if byte x \<le> byte c \<and> byte c \<le> byte (b ! 1) then True else bracket_loop c (drop 2 b))
      else if x = c then True else bracket_loop c b)"
  by pat_completeness auto
termination by (relation "measure (length \<circ> snd)") auto

text \<open>\<open>p\<close> is the position of the opening bracket and \<open>ep\<close> the position after the closing one.\<close>

definition matchbracketclass :: "char \<Rightarrow> string \<Rightarrow> string \<Rightarrow> bool" where
  "matchbracketclass c p ep =
     (let body = take (length p - length ep - 2) (drop 1 p)
      in if pch (drop 1 p) = CHR ''^'' then \<not> bracket_loop c (drop 1 body) else bracket_loop c body)"

definition singlematch :: "char \<Rightarrow> string \<Rightarrow> string \<Rightarrow> bool" where
  "singlematch c p ep =
     (if pch p = CHR ''.'' then True
      else if pch p = L_ESC then match_class c (pch (drop 1 p))
      else if pch p = CHR ''['' then matchbracketclass c p ep
      else pch p = c)"

fun balance_loop :: "char \<Rightarrow> char \<Rightarrow> nat \<Rightarrow> string \<Rightarrow> nat \<Rightarrow> nat option" where
  "balance_loop b e cont [] s = None"
| "balance_loop b e cont (c # cs) s =
     (if c = e then (if cont = 1 then Some (s + 1) else balance_loop b e (cont - 1) cs (s + 1))
      else if c = b then balance_loop b e (cont + 1) cs (s + 1)
      else balance_loop b e cont cs (s + 1))"

definition matchbalance :: "string \<Rightarrow> nat \<Rightarrow> string \<Rightarrow> nat option res" where
  "matchbalance src s p =
     (if pch p = CHR 0x00 \<or> pch (drop 1 p) = CHR 0x00 then Inl (ErrRun ''unbalanced pattern'')
      else if sch src s \<noteq> pch p then Inr None
      else Inr (balance_loop (pch p) (pch (drop 1 p)) 1 (drop (s + 1) src) (s + 1)))"

definition match_capture :: "MatchState \<Rightarrow> nat \<Rightarrow> char \<Rightarrow> nat option res" where
  "match_capture ms s l =
     bindE (check_capture ms l) (\<lambda>l.
       let (i, len) = capture ms ! l;
           len = nat (len mod 2 ^ 64)
       in if length (src_init ms) - s \<ge> len \<and> take len (drop i (src_init ms)) = take len (drop s (src_init ms))
          then Inr (Some (s + len)) else Inr None)"

section \<open>The matcher\<close>

text \<open>
  \<open>start_capture\<close>, \<open>end_capture\<close>, \<open>max_expand\<close> and \<open>min_expand\<close> call \<open>match\<close>, which calls them; they are written over the continuation they call it
  with.  Their results are the changed state and the end of the match, if there is one.
\<close>

type_synonym match_result = "(MatchState \<times> nat option) res"

definition start_capture :: "(MatchState \<Rightarrow> match_result) \<Rightarrow> MatchState \<Rightarrow> nat \<Rightarrow> int \<Rightarrow> match_result" where
  "start_capture cont ms s what =
     (let l = level ms in
      if l \<ge> LUA_MAXCAPTURES then Inl (ErrRun ''too many captures'')
      else bindE (cont (ms\<lparr>capture := (capture ms)[l := (s, what)], level := l + 1\<rparr>)) (\<lambda>(ms, r).
             Inr (if r = None then ms\<lparr>level := level ms - 1\<rparr> else ms, r)))"

definition end_capture :: "(MatchState \<Rightarrow> match_result) \<Rightarrow> MatchState \<Rightarrow> nat \<Rightarrow> match_result" where
  "end_capture cont ms s =
     bindE (capture_to_close ms) (\<lambda>l.
     bindE (cont (ms\<lparr>capture := (capture ms)[l := (fst (capture ms ! l), int s - int (fst (capture ms ! l)))]\<rparr>)) (\<lambda>(ms, r).
       Inr (if r = None then ms\<lparr>capture := (capture ms)[l := (fst (capture ms ! l), CAP_UNFINISHED)]\<rparr> else ms, r)))"

text \<open>The first loop of \<open>max_expand\<close>: how often the item matches from \<open>s\<close>.\<close>

fun count_single :: "string \<Rightarrow> string \<Rightarrow> string \<Rightarrow> nat" where
  "count_single p ep [] = 0"
| "count_single p ep (c # cs) = (if singlematch c p ep then Suc (count_single p ep cs) else 0)"

text \<open>The second loop, with \<open>i\<close> going down to 0.\<close>

primrec max_loop :: "(MatchState \<Rightarrow> nat \<Rightarrow> match_result) \<Rightarrow> MatchState \<Rightarrow> nat \<Rightarrow> nat \<Rightarrow> match_result" where
  "max_loop cont ms s 0 = cont ms s"
| "max_loop cont ms s (Suc i) = bindE (cont ms (s + Suc i)) (\<lambda>(ms, r). if r \<noteq> None then Inr (ms, r) else max_loop cont ms s i)"

definition max_expand :: "(MatchState \<Rightarrow> nat \<Rightarrow> match_result) \<Rightarrow> MatchState \<Rightarrow> nat \<Rightarrow> string \<Rightarrow> string \<Rightarrow> match_result" where
  "max_expand cont ms s p ep = max_loop cont ms s (count_single p ep (drop s (src_init ms)))"

fun min_loop :: "(MatchState \<Rightarrow> nat \<Rightarrow> match_result) \<Rightarrow> MatchState \<Rightarrow> nat \<Rightarrow> string \<Rightarrow> string \<Rightarrow> string \<Rightarrow> match_result" where
  "min_loop cont ms s p ep [] = cont ms s"
| "min_loop cont ms s p ep (c # cs) =
     bindE (cont ms s) (\<lambda>(ms, r).
       if r \<noteq> None then Inr (ms, r)
       else if singlematch c p ep then min_loop cont ms (s + 1) p ep cs
       else Inr (ms, None))"

definition min_expand :: "(MatchState \<Rightarrow> nat \<Rightarrow> match_result) \<Rightarrow> MatchState \<Rightarrow> nat \<Rightarrow> string \<Rightarrow> string \<Rightarrow> match_result" where
  "min_expand cont ms s p ep = min_loop cont ms s p ep (drop s (src_init ms))"

lemma start_capture_cong [fundef_cong]:
  "ms = ms' \<Longrightarrow> s = s' \<Longrightarrow> w = w' \<Longrightarrow> (\<And>m. f m = g m) \<Longrightarrow> start_capture f ms s w = start_capture g ms' s' w'"
  by (metis ext)

lemma end_capture_cong [fundef_cong]:
  "ms = ms' \<Longrightarrow> s = s' \<Longrightarrow> (\<And>m. f m = g m) \<Longrightarrow> end_capture f ms s = end_capture g ms' s'"
  by (metis ext)

lemma max_expand_cong [fundef_cong]:
  "ms = ms' \<Longrightarrow> s = s' \<Longrightarrow> p = p' \<Longrightarrow> ep = ep' \<Longrightarrow> (\<And>m t. f m t = g m t) \<Longrightarrow> max_expand f ms s p ep = max_expand g ms' s' p' ep'"
  by (metis ext)

lemma min_expand_cong [fundef_cong]:
  "ms = ms' \<Longrightarrow> s = s' \<Longrightarrow> p = p' \<Longrightarrow> ep = ep' \<Longrightarrow> (\<And>m t. f m t = g m t) \<Longrightarrow> min_expand f ms s p ep = min_expand g ms' s' p' ep'"
  by (metis ext)

text \<open>An item is never empty.\<close>

lemma pch_nonempty: "pch p \<noteq> CHR 0x00 \<Longrightarrow> p \<noteq> []"
  by (auto simp: pch_def)

lemma set_end_shorter: "set_end p = Inr ep \<Longrightarrow> length ep < length p"
proof (induction p arbitrary: ep rule: set_end.induct)
  case (1 p)
  let ?q = "if pch p = L_ESC \<and> pch (drop 1 p) \<noteq> CHR 0x00 then drop 2 p else drop 1 p"
  have p: "pch p \<noteq> CHR 0x00" using "1.prems" by (subst (asm) set_end.simps) (auto split: if_splits)
  then have q: "length ?q < length p" using pch_nonempty [OF p] by (cases p) auto
  show ?case
  proof (cases "pch ?q = CHR '']''")
    case True
    then have "ep = drop 1 ?q" using "1.prems" p by (subst (asm) set_end.simps) (simp add: Let_def split: if_splits)
    with q show ?thesis by simp
  next
    case False
    then have "set_end ?q = Inr ep" using "1.prems" p by (subst (asm) set_end.simps) (simp add: Let_def split: if_splits)
    with "1.IH" [OF p refl False] q show ?thesis by fastforce
  qed
qed

lemma classend_shorter: "classend p = Inr ep \<Longrightarrow> pch p \<noteq> CHR 0x00 \<Longrightarrow> length ep < length p"
  using pch_nonempty [of p] set_end_shorter [of "drop 1 p" ep] set_end_shorter [of "drop 2 p" ep]
  by (cases p) (auto simp: classend_def split: if_splits)

function do_match :: "MatchState \<Rightarrow> nat \<Rightarrow> string \<Rightarrow> match_result" where
  "do_match ms s p =
     (let c = pch p; c1 = pch (drop 1 p) in
      if c = CHR ''('' then
        (if c1 = CHR '')'' then start_capture (\<lambda>ms. do_match ms s (drop 2 p)) ms s CAP_POSITION
         else start_capture (\<lambda>ms. do_match ms s (drop 1 p)) ms s CAP_UNFINISHED)
      else if c = CHR '')'' then end_capture (\<lambda>ms. do_match ms s (drop 1 p)) ms s
      else if c = L_ESC \<and> c1 = CHR ''b'' then
        bindE (matchbalance (src_init ms) s (drop 2 p)) (\<lambda>r. case r of
          None \<Rightarrow> Inr (ms, None) | Some s \<Rightarrow> do_match ms s (drop 4 p))
      else if c = L_ESC \<and> c1 = CHR ''f'' then
        (if pch (drop 2 p) \<noteq> CHR ''['' then
           Inl (ErrRun (''missing '' @ quoted ''['' @ '' after '' @ quoted ''%f'' @ '' in pattern''))
         else bindE (classend (drop 2 p)) (\<lambda>ep.
           let previous = (if s = 0 then CHR 0x00 else sch (src_init ms) (s - 1)) in
           if matchbracketclass previous (drop 2 p) ep \<or> \<not> matchbracketclass (sch (src_init ms) s) (drop 2 p) ep
           then Inr (ms, None)
           else do_match ms s ep))
      else if c = L_ESC \<and> isdigit c1 then
        bindE (match_capture ms s c1) (\<lambda>r. case r of
          None \<Rightarrow> Inr (ms, None) | Some s \<Rightarrow> do_match ms s (drop 2 p))
      else if c = CHR 0x00 then Inr (ms, Some s)
      else if c = CHR ''$'' \<and> c1 = CHR 0x00 then Inr (ms, if s = length (src_init ms) then Some s else None)
      else bindE (classend p) (\<lambda>ep.
        let m = (s < length (src_init ms) \<and> singlematch (sch (src_init ms) s) p ep);
            e = pch ep
        in if e = CHR ''?'' then
             (if m then
                bindE (do_match ms (s + 1) (drop 1 ep)) (\<lambda>(ms, r).
                  if r \<noteq> None then Inr (ms, r) else do_match ms s (drop 1 ep))
              else do_match ms s (drop 1 ep))
           else if e = CHR ''*'' then max_expand (\<lambda>ms s. do_match ms s (drop 1 ep)) ms s p ep
           else if e = CHR ''+'' then
             (if m then max_expand (\<lambda>ms s. do_match ms s (drop 1 ep)) ms (s + 1) p ep else Inr (ms, None))
           else if e = CHR ''-'' then min_expand (\<lambda>ms s. do_match ms s (drop 1 ep)) ms s p ep
           else if m then do_match ms (s + 1) ep else Inr (ms, None)))"
  by pat_completeness auto

lemma classend_frontier: "classend (drop 2 p) = Inr ep \<Longrightarrow> pch (drop 2 p) = CHR ''['' \<Longrightarrow> length ep < length p"
  using classend_shorter [of "drop 2 p" ep] by auto

lemma drop_shorter: "c = pch p \<Longrightarrow> c \<noteq> CHR 0x00 \<Longrightarrow> 0 < n \<Longrightarrow> length (drop n p) < length p"
  using pch_nonempty [of p] by simp

lemma classend_drop: "classend p = Inr ep \<Longrightarrow> pch p \<noteq> CHR 0x00 \<Longrightarrow> length (drop 1 ep) < length p"
  using classend_shorter [of p ep] by simp

lemma L_ESC_nonzero: "L_ESC \<noteq> CHR 0x00" by (simp add: L_ESC_def)

termination do_match
  apply (relation "measure (\<lambda>(ms, s, p). length p)")
  apply simp
  apply (simp_all only: in_measure split_conv)
  apply (erule drop_shorter, simp add: L_ESC_nonzero, simp)+
  apply (rule classend_frontier; simp)
  apply (erule drop_shorter, simp add: L_ESC_nonzero, simp)
  apply ((rule classend_drop; assumption) | (rule classend_shorter; assumption))+
  done

declare do_match.simps [simp del]

section \<open>Searching\<close>

fun mem_chr :: "char \<Rightarrow> string \<Rightarrow> nat option" where
  "mem_chr x [] = None"
| "mem_chr x (c # cs) = (if c = x then Some 0 else map_option Suc (mem_chr x cs))"

lemma mem_chr_less: "mem_chr x s = Some k \<Longrightarrow> k < length s \<and> s ! k = x"
  by (induction s arbitrary: k) (auto split: if_splits)

text \<open>\<open>off\<close> is \<open>s1\<close> as an offset and \<open>l1\<close> the number of positions where \<open>s2\<close> can still start.\<close>

function memfind_loop :: "string \<Rightarrow> string \<Rightarrow> nat \<Rightarrow> nat \<Rightarrow> nat option" where
  "memfind_loop s s2 off l1 =
     (if l1 > 0 then
        (case mem_chr (pch s2) (take l1 (drop off s)) of
           None \<Rightarrow> None
         | Some k \<Rightarrow>
             (let init = off + k + 1 in
              if take (length s2 - 1) (drop init s) = drop 1 s2 then Some (init - 1)
              else memfind_loop s s2 init (l1 - (k + 1))))
      else None)"
  by pat_completeness auto
termination by (relation "measure (\<lambda>(s, s2, off, l1). l1)") (auto dest: mem_chr_less)

declare memfind_loop.simps [simp del]

definition lmemfind :: "string \<Rightarrow> string \<Rightarrow> nat option" where
  "lmemfind s1 s2 =
     (if s2 = [] then Some 0
      else if length s2 > length s1 then None
      else memfind_loop s1 s2 0 (length s1 - (length s2 - 1)))"

text \<open>Captured values: a substring, or a position.\<close>

datatype capval = CapStr string | CapPos int

definition push_onecapture :: "MatchState \<Rightarrow> nat \<Rightarrow> nat \<Rightarrow> nat \<Rightarrow> capval res" where
  "push_onecapture ms i s e =
     (if i \<ge> level ms then
        (if i = 0 then Inr (CapStr (take (e - s) (drop s (src_init ms)))) else Inl (ErrRun ''invalid capture index''))
      else
        let (start, l) = capture ms ! i
        in if l = CAP_UNFINISHED then Inl (ErrRun ''unfinished capture'')
           else if l = CAP_POSITION then Inr (CapPos (int start + 1))
           else Inr (CapStr (take (nat l) (drop start (src_init ms)))))"

fun push_loop :: "MatchState \<Rightarrow> nat list \<Rightarrow> nat \<Rightarrow> nat \<Rightarrow> capval list res" where
  "push_loop ms [] s e = Inr []"
| "push_loop ms (i # is) s e = bindE (push_onecapture ms i s e) (\<lambda>v. bindE (push_loop ms is s e) (\<lambda>vs. Inr (v # vs)))"

text \<open>\<open>whole\<close> tells whether \<open>s\<close> is not \<open>NULL\<close>: without captures the whole match is pushed.\<close>

definition push_captures :: "MatchState \<Rightarrow> bool \<Rightarrow> nat \<Rightarrow> nat \<Rightarrow> capval list res" where
  "push_captures ms whole s e =
     (let nlevels = (if level ms = 0 \<and> whole then 1 else level ms) in push_loop ms [0..<nlevels] s e)"

text \<open>The \<open>do ... while\<close> over the start positions; \<open>Some (s1, e)\<close> is the first match.\<close>

function find_loop :: "MatchState \<Rightarrow> string \<Rightarrow> bool \<Rightarrow> nat \<Rightarrow> (MatchState \<times> (nat \<times> nat) option) res" where
  "find_loop ms p anchor s1 =
     bindE (do_match (ms\<lparr>level := 0\<rparr>) s1 p) (\<lambda>(ms', r). case r of
       Some e \<Rightarrow> Inr (ms', Some (s1, e))
     | None \<Rightarrow> if s1 < length (src_init ms) \<and> \<not> anchor then find_loop (ms'\<lparr>src_init := src_init ms\<rparr>) p anchor (s1 + 1) else Inr (ms', None))"
  by pat_completeness auto
termination by (relation "measure (\<lambda>(ms, p, anchor, s1). length (src_init ms) - s1)") auto

declare find_loop.simps [simp del]

definition newMatchState :: "string \<Rightarrow> MatchState" where
  "newMatchState src = \<lparr>src_init = src, level = 0, capture = replicate LUA_MAXCAPTURES (0, 0)\<rparr>"

definition strpbrk :: "string \<Rightarrow> string \<Rightarrow> bool" where
  "strpbrk p accept \<longleftrightarrow> (\<exists>c \<in> set (takeWhile (\<lambda>c. c \<noteq> CHR 0x00) p). c \<in> set accept)"

definition str_find_aux :: "bool \<Rightarrow> string \<Rightarrow> string \<Rightarrow> int \<Rightarrow> bool \<Rightarrow> capval list option res" where
  "str_find_aux isfind s p init plain =
     (let l1 = int (length s);
          init = posrelat init l1 - 1;
          init = nat (if init < 0 then 0 else if init > l1 then l1 else init)
      in if isfind \<and> (plain \<or> \<not> strpbrk p SPECIALS) then
           (case lmemfind (drop init s) p of
              Some k \<Rightarrow> Inr (Some [CapPos (int (init + k) + 1), CapPos (int (init + k + length p))])
            | None \<Rightarrow> Inr None)
         else
           let anchor = (pch p = CHR ''^''); p = (if anchor then drop 1 p else p)
           in bindE (find_loop (newMatchState s) p anchor init) (\<lambda>(ms, r). case r of
                None \<Rightarrow> Inr None
              | Some (s1, e) \<Rightarrow>
                  if isfind then bindE (push_captures ms False 0 0) (\<lambda>vs. Inr (Some (CapPos (int s1 + 1) # CapPos (int e) # vs)))
                  else bindE (push_captures ms True s1 e) (\<lambda>vs. Inr (Some vs))))"

definition str_find :: "string \<Rightarrow> string \<Rightarrow> int \<Rightarrow> bool \<Rightarrow> capval list option res" where
  "str_find = str_find_aux True"

definition str_match :: "string \<Rightarrow> string \<Rightarrow> int \<Rightarrow> capval list option res" where
  "str_match s p init = str_find_aux False s p init False"

text \<open>One call of the iterator: the new value of the third upvalue and the captures, or \<open>None\<close> at the end.\<close>

function gmatch_loop :: "MatchState \<Rightarrow> string \<Rightarrow> nat \<Rightarrow> (MatchState \<times> (nat \<times> nat) option) res" where
  "gmatch_loop ms p src =
     (if src \<le> length (src_init ms) then
        bindE (do_match (ms\<lparr>level := 0\<rparr>) src p) (\<lambda>(ms', r). case r of
          Some e \<Rightarrow> Inr (ms', Some (src, e))
        | None \<Rightarrow> gmatch_loop (ms'\<lparr>src_init := src_init ms\<rparr>) p (src + 1))
      else Inr (ms, None))"
  by pat_completeness auto
termination by (relation "measure (\<lambda>(ms, p, src). Suc (length (src_init ms)) - src)") auto

declare gmatch_loop.simps [simp del]

definition gmatch_aux :: "string \<Rightarrow> string \<Rightarrow> nat \<Rightarrow> (nat \<times> capval list) option res" where
  "gmatch_aux s p start =
     bindE (gmatch_loop (newMatchState s) p start) (\<lambda>(ms, r). case r of
       None \<Rightarrow> Inr None
     | Some (src, e) \<Rightarrow>
         bindE (push_captures ms True src e) (\<lambda>vs. Inr (Some (if e = src then e + 1 else e, vs))))"

section \<open>Substitution\<close>

text \<open>A position capture is converted with the number format of the host, \<open>tostr\<close>.\<close>

definition cap_string :: "(int \<Rightarrow> string) \<Rightarrow> capval \<Rightarrow> string" where
  "cap_string tostr v = (case v of CapStr s \<Rightarrow> s | CapPos n \<Rightarrow> tostr n)"

text \<open>An escape at the end of the replacement is followed by its terminating zero, which is added.\<close>

fun add_s :: "(int \<Rightarrow> string) \<Rightarrow> MatchState \<Rightarrow> nat \<Rightarrow> nat \<Rightarrow> string \<Rightarrow> string res" where
  "add_s tostr ms s e [] = Inr []"
| "add_s tostr ms s e [c] = Inr (if c \<noteq> L_ESC then [c] else [CHR 0x00])"
| "add_s tostr ms s e (c # d # cs) =
     (if c \<noteq> L_ESC then bindE (add_s tostr ms s e (d # cs)) (\<lambda>r. Inr (c # r))
      else if \<not> isdigit d then bindE (add_s tostr ms s e cs) (\<lambda>r. Inr (d # r))
      else if d = CHR ''0'' then bindE (add_s tostr ms s e cs) (\<lambda>r. Inr (take (e - s) (drop s (src_init ms)) @ r))
      else bindE (push_onecapture ms (byte d - 49) s e) (\<lambda>v. bindE (add_s tostr ms s e cs) (\<lambda>r. Inr (cap_string tostr v @ r))))"

text \<open>
  The replacement: a string, a function applied to the captures, or a table looked up with the first one.  Calls into Lua are
  functions from captures to the resulting value; \<open>None\<close> is a false value and \<open>Inr\<close> the text of a string or number,
  \<open>Inl\<close> the type name of any other value.
\<close>

datatype repl = ReplString string | ReplFun "capval list \<Rightarrow> (string + string) option" | ReplTable "capval \<Rightarrow> (string + string) option"

definition repl_value :: "MatchState \<Rightarrow> nat \<Rightarrow> nat \<Rightarrow> (string + string) option \<Rightarrow> string res" where
  "repl_value ms s e v = (case v of
       None \<Rightarrow> Inr (take (e - s) (drop s (src_init ms)))
     | Some (Inr t) \<Rightarrow> Inr t
     | Some (Inl tname) \<Rightarrow> Inl (ErrRun (''invalid replacement value (a '' @ tname @ '')'')))"

definition add_value :: "(int \<Rightarrow> string) \<Rightarrow> repl \<Rightarrow> MatchState \<Rightarrow> nat \<Rightarrow> nat \<Rightarrow> string res" where
  "add_value tostr r ms s e = (case r of
       ReplString news \<Rightarrow> add_s tostr ms s e news
     | ReplFun f \<Rightarrow> bindE (push_captures ms True s e) (\<lambda>vs. repl_value ms s e (f vs))
     | ReplTable t \<Rightarrow> bindE (push_onecapture ms 0 s e) (\<lambda>v. repl_value ms s e (t v)))"

function gsub_loop :: "(int \<Rightarrow> string) \<Rightarrow> repl \<Rightarrow> string \<Rightarrow> bool \<Rightarrow> int \<Rightarrow> MatchState \<Rightarrow> int \<Rightarrow> nat \<Rightarrow> string \<Rightarrow> (string \<times> nat \<times> int) res" where
  "gsub_loop tostr rp p anchor max_s ms n src b =
     (if n < max_s then
        bindE (do_match (ms\<lparr>level := 0\<rparr>) src p) (\<lambda>(ms', r).
        bindE (case r of None \<Rightarrow> Inr b | Some e \<Rightarrow> bindE (add_value tostr rp ms' src e) (\<lambda>t. Inr (b @ t))) (\<lambda>b.
          let n' = (if r \<noteq> None then n + 1 else n);
              ms' = ms'\<lparr>src_init := src_init ms\<rparr>
          in if r \<noteq> None \<and> the r > src then
               (if anchor then Inr (b, the r, n') else gsub_loop tostr rp p anchor max_s ms' n' (the r) b)
             else if src < length (src_init ms) then
               (if anchor then Inr (b @ [src_init ms ! src], src + 1, n')
                else gsub_loop tostr rp p anchor max_s ms' n' (src + 1) (b @ [src_init ms ! src]))
             else Inr (b, src, n')))
      else Inr (b, src, n))"
  by pat_completeness auto
termination
  by (relation "measures [\<lambda>(tostr, rp, p, anchor, max_s, ms, n, src, b). nat (max_s - n),
        \<lambda>(tostr, rp, p, anchor, max_s, ms, n, src, b). length (src_init ms) - src]") auto

declare gsub_loop.simps [simp del]

definition str_gsub :: "(int \<Rightarrow> string) \<Rightarrow> string \<Rightarrow> string \<Rightarrow> repl \<Rightarrow> int \<Rightarrow> (string \<times> int) res" where
  "str_gsub tostr s p rp max_s =
     (let anchor = (pch p = CHR ''^''); p = (if anchor then drop 1 p else p)
      in bindE (gsub_loop tostr rp p anchor max_s (newMatchState s) 0 0 []) (\<lambda>(b, src, n). Inr (b @ drop src s, n)))"

section \<open>Formatting\<close>

fun addquoted_loop :: "string \<Rightarrow> string" where
  "addquoted_loop [] = []"
| "addquoted_loop (c # cs) =
     (if c = CHR 0x22 \<or> c = CHR 0x5C \<or> c = CHR 0x0A then [CHR 0x5C, c]
      else if c = CHR 0x0D then [CHR 0x5C, CHR ''r'']
      else if c = CHR 0x00 then [CHR 0x5C, CHR ''0'', CHR ''0'', CHR ''0'']
      else [c]) @ addquoted_loop cs"

definition addquoted :: "string \<Rightarrow> string" where
  "addquoted s = [CHR 0x22] @ addquoted_loop s @ [CHR 0x22]"

definition FLAGS :: string where "FLAGS = ''-+ #0''"
definition LUA_INTFRMLEN :: string where "LUA_INTFRMLEN = ''l''"
definition MAX_FORMAT :: nat where "MAX_FORMAT = 6 + 2 + 10"

definition skip_digit :: "string \<Rightarrow> string" where
  "skip_digit p = (if isdigit (pch p) then drop 1 p else p)"

text \<open>\<open>scanformat\<close> returns the format specification, without its terminating zero, and the position of the conversion character.\<close>

definition scanformat :: "string \<Rightarrow> (string \<times> string) res" where
  "scanformat strfrmt =
     (let p = dropWhile (\<lambda>c. c \<noteq> CHR 0x00 \<and> c \<in> set FLAGS) strfrmt
      in if length strfrmt - length p \<ge> length FLAGS + 1 then Inl (ErrRun ''invalid format (repeated flags)'')
         else
           let p = skip_digit (skip_digit p);
               p = (if pch p = CHR ''.'' then skip_digit (skip_digit (drop 1 p)) else p)
           in if isdigit (pch p) then Inl (ErrRun ''invalid format (width or precision too long)'')
              else Inr (L_ESC # takeWhile (\<lambda>c. c \<noteq> CHR 0x00) (take (length strfrmt - length p + 1) strfrmt), p))"

definition addintlen :: "string \<Rightarrow> string" where
  "addintlen form = butlast form @ LUA_INTFRMLEN @ [last form]"

end
