(* ===== verification/PatternMatch.thy ===== *)
theory PatternMatch
  imports StrLib
begin

text \<open>
  What a pattern means, and that the matcher of \<open>StrLib\<close> computes it.  \<open>matches\<close> lists every way a pattern can match at a position, in the order
  of preference of its items: a pure list of successes, without a state and without backtracking.  The matcher, which changes the
  captures in place and undoes them, returns the first element of that list.
\<close>

section \<open>The list of successes\<close>

type_synonym caps = "(nat \<times> int) list"

text \<open>The captures in use: those beyond the level are left over from failed attempts.\<close>

definition caps :: "MatchState \<Rightarrow> caps" where
  "caps ms = take (level ms) (capture ms)"

text \<open>The last capture that is still open.\<close>

fun last_open :: "caps \<Rightarrow> nat option" where
  "last_open [] = None"
| "last_open (c # cs) = (case last_open cs of
      Some i \<Rightarrow> Some (Suc i) | None \<Rightarrow> if snd c = CAP_UNFINISHED then Some 0 else None)"

text \<open>
  A back reference matches the text of its capture, whose length is read as a \<open>size_t\<close>: the length of a position capture is then larger than
  any subject, and it is never matched.
\<close>

definition backref :: "string \<Rightarrow> caps \<Rightarrow> nat \<Rightarrow> nat \<Rightarrow> nat list" where
  "backref src cs s i =
     (let n = nat (snd (cs ! i) mod 2 ^ 64) in
      if i < length cs \<and> snd (cs ! i) \<noteq> CAP_UNFINISHED \<and> n \<le> length src - s \<and>
         take n (drop (fst (cs ! i)) src) = take n (drop s src)
      then [s + n] else [])"

definition opt_list :: "'a option \<Rightarrow> 'a list" where
  "opt_list v = (case v of None \<Rightarrow> [] | Some x \<Rightarrow> [x])"

definition res_list :: "'a res \<Rightarrow> 'a list" where
  "res_list v = (case v of Inl _ \<Rightarrow> [] | Inr x \<Rightarrow> [x])"

text \<open>How often an item can be repeated from \<open>s\<close>.\<close>

definition repeats :: "string \<Rightarrow> string \<Rightarrow> string \<Rightarrow> nat \<Rightarrow> nat" where
  "repeats src p ep s = length (takeWhile (\<lambda>c. singlematch c p ep) (drop s src))"

function matches :: "string \<Rightarrow> caps \<Rightarrow> nat \<Rightarrow> string \<Rightarrow> (caps \<times> nat) list" where
  "matches src cs s p =
     (let c = pch p; c1 = pch (drop 1 p) in
      if c = CHR ''('' then
        (if length cs \<ge> LUA_MAXCAPTURES then []
         else if c1 = CHR '')'' then matches src (cs @ [(s, CAP_POSITION)]) s (drop 2 p)
         else matches src (cs @ [(s, CAP_UNFINISHED)]) s (drop 1 p))
      else if c = CHR '')'' then
        (case last_open cs of None \<Rightarrow> []
         | Some l \<Rightarrow> matches src (cs[l := (fst (cs ! l), int s - int (fst (cs ! l)))]) s (drop 1 p))
      else if c = L_ESC \<and> c1 = CHR ''b'' then
        concat (map (\<lambda>r. concat (map (\<lambda>s. matches src cs s (drop 4 p)) (opt_list r))) (res_list (matchbalance src s (drop 2 p))))
      else if c = L_ESC \<and> c1 = CHR ''f'' then
        (if pch (drop 2 p) \<noteq> CHR ''['' then []
         else case classend (drop 2 p) of Inl _ \<Rightarrow> []
           | Inr ep \<Rightarrow>
               if matchbracketclass (if s = 0 then CHR 0x00 else sch src (s - 1)) (drop 2 p) ep \<or> \<not> matchbracketclass (sch src s) (drop 2 p) ep
               then [] else matches src cs s ep)
      else if c = L_ESC \<and> isdigit c1 then
        (if c1 = CHR ''0'' then [] else concat (map (\<lambda>s. matches src cs s (drop 2 p)) (backref src cs s (byte c1 - 49))))
      else if c = CHR 0x00 then [(cs, s)]
      else if c = CHR ''$'' \<and> c1 = CHR 0x00 then (if s = length src then [(cs, s)] else [])
      else case classend p of Inl _ \<Rightarrow> []
        | Inr ep \<Rightarrow>
            let n = repeats src p ep s; e = pch ep in
            if e = CHR ''?'' then
              (if 0 < n then matches src cs (s + 1) (drop 1 ep) else []) @ matches src cs s (drop 1 ep)
            else if e = CHR ''*'' then concat (map (\<lambda>k. matches src cs (s + k) (drop 1 ep)) (rev [0..<Suc n]))
            else if e = CHR ''+'' then concat (map (\<lambda>k. matches src cs (s + k) (drop 1 ep)) (rev [1..<Suc n]))
            else if e = CHR ''-'' then concat (map (\<lambda>k. matches src cs (s + k) (drop 1 ep)) [0..<Suc n])
            else if 0 < n then matches src cs (s + 1) ep else [])"
  by pat_completeness auto

termination matches
  apply (relation "measure (\<lambda>(src, cs, s, p). length p)")
  apply simp
  apply (simp_all only: in_measure split_conv)
  apply (erule drop_shorter, simp add: L_ESC_nonzero, simp)+
  apply (rule classend_frontier; simp)
  apply (erule drop_shorter, simp add: L_ESC_nonzero, simp)
  apply ((rule classend_drop; assumption) | (rule classend_shorter; assumption))+
  done

declare matches.simps [simp del]

section \<open>The contract of a continuation\<close>

definition wf_ms :: "MatchState \<Rightarrow> bool" where
  "wf_ms ms \<longleftrightarrow> length (capture ms) = LUA_MAXCAPTURES \<and> level ms \<le> LUA_MAXCAPTURES"

text \<open>The outcome of an attempt is the first success, with its captures; after a failure the captures are as before.\<close>

definition first_of :: "MatchState \<Rightarrow> (caps \<times> nat) list \<Rightarrow> MatchState \<times> nat option \<Rightarrow> bool" where
  "first_of ms xs out \<longleftrightarrow>
     src_init (fst out) = src_init ms \<and> wf_ms (fst out) \<and>
     (case snd out of None \<Rightarrow> xs = [] \<and> caps (fst out) = caps ms | Some e \<Rightarrow> \<exists>ys. xs = (caps (fst out), e) # ys)"

definition computes :: "string \<Rightarrow> (MatchState \<Rightarrow> match_result) \<Rightarrow> (caps \<Rightarrow> (caps \<times> nat) list) \<Rightarrow> bool" where
  "computes src cont F \<longleftrightarrow> (\<forall>ms out. wf_ms ms \<longrightarrow> src_init ms = src \<longrightarrow> cont ms = Inr out \<longrightarrow> first_of ms (F (caps ms)) out)"

lemma computesI: "(\<And>ms out. wf_ms ms \<Longrightarrow> src_init ms = src \<Longrightarrow> cont ms = Inr out \<Longrightarrow> first_of ms (F (caps ms)) out) \<Longrightarrow> computes src cont F"
  by (simp add: computes_def)

lemma computesD: "computes src cont F \<Longrightarrow> wf_ms ms \<Longrightarrow> src_init ms = src \<Longrightarrow> cont ms = Inr out \<Longrightarrow> first_of ms (F (caps ms)) out"
  unfolding computes_def by blast

lemma first_of_fail: "wf_ms ms \<Longrightarrow> first_of ms [] (ms, None)"
  by (simp add: first_of_def)

lemma first_of_here: "wf_ms ms \<Longrightarrow> first_of ms [(caps ms, s)] (ms, Some s)"
  by (simp add: first_of_def)

lemma first_of_NoneD: "first_of ms xs (ms', None) \<Longrightarrow> xs = [] \<and> caps ms' = caps ms \<and> src_init ms' = src_init ms \<and> wf_ms ms'"
  by (simp add: first_of_def)

lemma first_of_append1: "first_of ms xs (ms', Some e) \<Longrightarrow> first_of ms (xs @ ys) (ms', Some e)"
  by (auto simp: first_of_def)

lemma first_of_append2: "first_of ms xs (ms1, None) \<Longrightarrow> first_of ms1 ys out \<Longrightarrow> first_of ms (xs @ ys) out"
  by (auto simp: first_of_def split: option.splits)

text \<open>One attempt, and another when it fails.\<close>

lemma computes_orelse:
  assumes "computes src f F" "computes src g G" "wf_ms ms" "src_init ms = src"
    "bindE (f ms) (\<lambda>(ms, r). if r \<noteq> None then Inr (ms, r) else g ms) = Inr out"
  shows "first_of ms (F (caps ms) @ G (caps ms)) out"
proof -
  obtain ms1 r where f: "f ms = Inr (ms1, r)" using assms(5) by (cases "f ms") auto
  note 1 = computesD [OF assms(1,3,4) f]
  show ?thesis
  proof (cases r)
    case None
    note 2 = first_of_NoneD [OF 1 [unfolded None]]
    have g: "g ms1 = Inr out" using assms(5) f None by simp
    have "first_of ms1 (G (caps ms1)) out" using computesD [OF assms(2) _ _ g] 2 assms(4) by simp
    with 2 first_of_append2 [OF 1 [unfolded None]] show ?thesis by simp
  next
    case (Some e)
    then have "out = (ms1, Some e)" using assms(5) f by simp
    with 1 Some first_of_append1 show ?thesis by simp
  qed
qed

lemma computes_max_loop:
  assumes "\<And>t. computes src (\<lambda>ms. cont ms t) (F t)" "wf_ms ms" "src_init ms = src" "max_loop cont ms s n = Inr out"
  shows "first_of ms (concat (map (\<lambda>k. F (s + k) (caps ms)) (rev [0..<Suc n]))) out"
  using assms(2-)
proof (induction n arbitrary: ms out)
  case 0
  then show ?case using computesD [OF assms(1) [of s]] by simp
next
  case (Suc n)
  have G: "computes src (\<lambda>ms. max_loop cont ms s n) (\<lambda>c. concat (map (\<lambda>k. F (s + k) c) (rev [0..<Suc n])))"
    by (rule computesI) (rule Suc.IH)
  have "rev [0..<Suc (Suc n)] = Suc n # rev [0..<Suc n]" by simp
  with computes_orelse [OF assms(1) [of "s + Suc n"] G Suc.prems(1,2)] Suc.prems(3) show ?case by simp
qed

lemma count_single_repeats: "count_single p ep cs = length (takeWhile (\<lambda>c. singlematch c p ep) cs)"
  by (induction cs) auto

lemma computes_max_expand:
  assumes "\<And>t. computes src (\<lambda>ms. cont ms t) (F t)" "wf_ms ms" "src_init ms = src" "max_expand cont ms s p ep = Inr out"
  shows "first_of ms (concat (map (\<lambda>k. F (s + k) (caps ms)) (rev [0..<Suc (repeats src p ep s)]))) out"
  using computes_max_loop [OF assms(1-3)] assms(3,4) unfolding max_expand_def repeats_def count_single_repeats by simp

lemma computes_min_loop:
  assumes "\<And>t. computes src (\<lambda>ms. cont ms t) (F t)" "wf_ms ms" "src_init ms = src" "min_loop cont ms s p ep cs = Inr out"
  shows "first_of ms (concat (map (\<lambda>k. F (s + k) (caps ms)) [0..<Suc (length (takeWhile (\<lambda>c. singlematch c p ep) cs))])) out"
  using assms(2-)
proof (induction cs arbitrary: ms s out)
  case Nil
  then show ?case using computesD [OF assms(1) [of s]] by simp
next
  case (Cons c cs)
  let ?n = "length (takeWhile (\<lambda>c. singlematch c p ep) cs)"
  let ?g = "\<lambda>ms. if singlematch c p ep then min_loop cont ms (s + 1) p ep cs else Inr (ms, None)"
  let ?G = "\<lambda>cp. if singlematch c p ep then concat (map (\<lambda>k. F (s + 1 + k) cp) [0..<Suc ?n]) else []"
  have G: "computes src ?g ?G"
  proof (rule computesI)
    fix m o' assume m: "wf_ms m" "src_init m = src" "?g m = Inr o'"
    show "first_of m (?G (caps m)) o'"
    proof (cases "singlematch c p ep")
      case True
      then show ?thesis using Cons.IH [OF m(1,2), of "s + 1" o'] m(3) by simp
    qed (use m first_of_fail in auto)
  qed
  have "[0..<Suc (Suc ?n)] = 0 # map Suc [0..<Suc ?n]" by (simp add: map_Suc_upt upt_conv_Cons del: upt_Suc)
  then have "F s (caps ms) @ ?G (caps ms) =
      concat (map (\<lambda>k. F (s + k) (caps ms)) [0..<Suc (length (takeWhile (\<lambda>c. singlematch c p ep) (c # cs)))])"
    by (cases "singlematch c p ep") (simp_all add: comp_def del: upt_Suc, simp)
  with computes_orelse [OF assms(1) [of s] G Cons.prems(1,2)] Cons.prems(3) show ?case by simp
qed

lemma computes_min_expand:
  assumes "\<And>t. computes src (\<lambda>ms. cont ms t) (F t)" "wf_ms ms" "src_init ms = src" "min_expand cont ms s p ep = Inr out"
  shows "first_of ms (concat (map (\<lambda>k. F (s + k) (caps ms)) [0..<Suc (repeats src p ep s)])) out"
  using computes_min_loop [OF assms(1-3)] assms(3,4) unfolding min_expand_def repeats_def by simp

section \<open>Captures\<close>

lemma wf_ms_caps_length: "wf_ms ms \<Longrightarrow> length (caps ms) = level ms"
  by (simp add: wf_ms_def caps_def)

lemma caps_nth: "i < level ms \<Longrightarrow> caps ms ! i = capture ms ! i"
  by (simp add: caps_def)

lemma computes_start_capture:
  assumes "computes src cont F" "wf_ms ms" "src_init ms = src" "start_capture cont ms s what = Inr out"
  shows "length (caps ms) < LUA_MAXCAPTURES \<and> first_of ms (F (caps ms @ [(s, what)])) out"
proof -
  let ?m = "ms\<lparr>capture := (capture ms)[level ms := (s, what)], level := level ms + 1\<rparr>"
  have l: "level ms < LUA_MAXCAPTURES" using assms(4) by (simp add: start_capture_def Let_def split: if_splits)
  then have m: "wf_ms ?m" "caps ?m = caps ms @ [(s, what)]"
    using assms(2) by (simp_all add: wf_ms_def caps_def take_Suc_conv_app_nth)
  obtain m1 r where c: "cont ?m = Inr (m1, r)"
    and out: "out = (if r = None then m1\<lparr>level := level m1 - 1\<rparr> else m1, r)"
    using assms(4) l by (cases "cont ?m") (auto simp: start_capture_def Let_def)
  have "first_of ?m (F (caps ms @ [(s, what)])) (m1, r)"
    using computesD [OF assms(1) m(1) _ c] assms(3) m(2) by simp
  then have "first_of ms (F (caps ms @ [(s, what)])) out"
    using m out by (cases r) (auto simp: first_of_def wf_ms_def caps_def butlast_conv_take take_Suc_conv_app_nth dest: arg_cong [of _ _ butlast])
  then show ?thesis using l wf_ms_caps_length [OF assms(2)] by simp
qed

lemma last_open_snoc: "last_open (cs @ [c]) = (if snd c = CAP_UNFINISHED then Some (length cs) else last_open cs)"
  by (induction cs) auto

lemma last_open_SomeD: "last_open cs = Some l \<Longrightarrow> l < length cs \<and> snd (cs ! l) = CAP_UNFINISHED"
  by (induction cs arbitrary: l) (auto split: option.splits if_splits)

lemma close_loop_last_open: "n \<le> length cs \<Longrightarrow> close_loop cs n = last_open (take n cs)"
  by (induction n) (auto simp: take_Suc_conv_app_nth last_open_snoc)

lemma capture_to_close_last_open: "wf_ms ms \<Longrightarrow> capture_to_close ms = Inr l \<Longrightarrow> last_open (caps ms) = Some l"
  by (simp add: capture_to_close_def close_loop_last_open wf_ms_def caps_def split: option.splits)

lemma take_list_update_eq: "take n (xs[i := x]) = (take n xs)[i := x]"
  by (cases "i < n") (simp_all add: take_update_swap list_update_beyond)

lemma computes_end_capture:
  assumes "computes src cont F" "wf_ms ms" "src_init ms = src" "end_capture cont ms s = Inr out"
  shows "\<exists>l. last_open (caps ms) = Some l \<and>
    first_of ms (F ((caps ms)[l := (fst (caps ms ! l), int s - int (fst (caps ms ! l)))])) out"
proof -
  obtain l where cl: "capture_to_close ms = Inr l" using assms(4) by (cases "capture_to_close ms") (auto simp: end_capture_def)
  note lo = capture_to_close_last_open [OF assms(2) cl]
  have l: "l < level ms" "snd (caps ms ! l) = CAP_UNFINISHED"
    using last_open_SomeD [OF lo] wf_ms_caps_length [OF assms(2)] by simp_all
  let ?v = "(fst (caps ms ! l), int s - int (fst (caps ms ! l)))"
  let ?m = "ms\<lparr>capture := (capture ms)[l := ?v]\<rparr>"
  have m: "wf_ms ?m" "caps ?m = (caps ms)[l := ?v]" using assms(2) by (simp_all add: wf_ms_def caps_def take_list_update_eq)
  obtain m1 r where c: "cont ?m = Inr (m1, r)"
    and out: "out = (if r = None then m1\<lparr>capture := (capture m1)[l := (fst (capture m1 ! l), CAP_UNFINISHED)]\<rparr> else m1, r)"
    using assms(4) cl l by (cases "cont ?m") (auto simp: end_capture_def caps_nth)
  have f: "first_of ?m (F ((caps ms)[l := ?v])) (m1, r)"
    using computesD [OF assms(1) m(1) _ c] assms(3) m(2) by simp
  have "first_of ms (F ((caps ms)[l := ?v])) out"
  proof (cases r)
    case None
    have c1: "caps m1 = (caps ms)[l := ?v]" "wf_ms m1" using first_of_NoneD [OF f [unfolded None]] m by simp_all
    then have "l < level m1" using l wf_ms_caps_length [OF assms(2)] wf_ms_caps_length [OF c1(2)] by simp
    then have "fst (capture m1 ! l) = fst (caps ms ! l)"
      using c1 l wf_ms_caps_length [OF assms(2)] by (simp add: caps_nth [symmetric])
    then have "caps (fst out) = (caps ms)[l := (fst (caps ms ! l), CAP_UNFINISHED)]"
      using c1(1) None out by (simp add: caps_def take_list_update_eq)
    also have "\<dots> = caps ms" using l(2) by (metis list_update_id prod.collapse)
    finally show ?thesis using f None out c1 by (auto simp: first_of_def wf_ms_def)
  qed (use f out in \<open>auto simp: first_of_def\<close>)
  with lo show ?thesis by blast
qed

lemma match_capture_backref:
  assumes "wf_ms ms" "match_capture ms s c = Inr r" "isdigit c"
  shows "c \<noteq> CHR ''0'' \<and> opt_list r = backref (src_init ms) (caps ms) s (byte c - 49)"
proof -
  obtain l where l: "check_capture ms c = Inr l" using assms(2) by (cases "check_capture ms c") (auto simp: match_capture_def)
  then have 1: "c \<noteq> CHR ''0''" and 2: "l = byte c - 49" and 3: "l < level ms" "snd (capture ms ! l) \<noteq> CAP_UNFINISHED"
    using assms(3) by (auto simp: check_capture_def Let_def byte_def isdigit_def split: if_splits)
  show ?thesis
    using 1 3 assms(2) l wf_ms_caps_length [OF assms(1)] unfolding 2 [symmetric]
    by (auto simp: match_capture_def backref_def Let_def opt_list_def caps_nth split: if_splits prod.splits)
qed

section \<open>The matcher computes the first success\<close>

lemma repeats_pos: "0 < repeats src p ep s \<longleftrightarrow> s < length src \<and> singlematch (sch src s) p ep"
  by (cases "s < length src") (auto simp: repeats_def sch_def Cons_nth_drop_Suc [symmetric])

lemma repeats_Suc: "0 < repeats src p ep s \<Longrightarrow> repeats src p ep s = Suc (repeats src p ep (s + 1))"
  using repeats_pos [of src p ep s] by (auto simp: repeats_def sch_def Cons_nth_drop_Suc [symmetric])

lemma rev_upt_shift: "rev [1..<Suc (Suc n)] = map Suc (rev [0..<Suc n])"
  by (simp add: rev_map [symmetric] map_Suc_upt del: upt_Suc)

text \<open>The induction hypothesis: the matcher is right for every shorter pattern.\<close>

definition shorter_ok :: "string \<Rightarrow> string \<Rightarrow> bool" where
  "shorter_ok src p \<longleftrightarrow> (\<forall>q t. length q < length p \<longrightarrow> computes src (\<lambda>ms. do_match ms t q) (\<lambda>cs. matches src cs t q))"

lemma shorter_okD: "shorter_ok src p \<Longrightarrow> length q < length p \<Longrightarrow> computes src (\<lambda>ms. do_match ms t q) (\<lambda>cs. matches src cs t q)"
  by (simp add: shorter_ok_def)

lemma shorter_ok_first:
  "shorter_ok src p \<Longrightarrow> wf_ms ms \<Longrightarrow> src_init ms = src \<Longrightarrow> length q < length p \<Longrightarrow> do_match ms t q = Inr out \<Longrightarrow>
    first_of ms (matches src (caps ms) t q) out"
  by (rule computesD [OF shorter_okD])

text \<open>A pattern item and what follows it.\<close>

lemma computes_item:
  assumes IH: "shorter_ok src p"
    and ep: "classend p = Inr ep" and p: "pch p \<noteq> CHR 0x00" and ms: "wf_ms ms" "src_init ms = src"
    and out: "(let m = (s < length (src_init ms) \<and> singlematch (sch (src_init ms) s) p ep); e = pch ep
        in if e = CHR ''?'' then
             (if m then
                bindE (do_match ms (s + 1) (drop 1 ep)) (\<lambda>(ms, r). if r \<noteq> None then Inr (ms, r) else do_match ms s (drop 1 ep))
              else do_match ms s (drop 1 ep))
           else if e = CHR ''*'' then max_expand (\<lambda>ms s. do_match ms s (drop 1 ep)) ms s p ep
           else if e = CHR ''+'' then
             (if m then max_expand (\<lambda>ms s. do_match ms s (drop 1 ep)) ms (s + 1) p ep else Inr (ms, None))
           else if e = CHR ''-'' then min_expand (\<lambda>ms s. do_match ms s (drop 1 ep)) ms s p ep
           else if m then do_match ms (s + 1) ep else Inr (ms, None)) = Inr out"
  shows "first_of ms (let n = repeats src p ep s; e = pch ep in
            if e = CHR ''?'' then
              (if 0 < n then matches src (caps ms) (s + 1) (drop 1 ep) else []) @ matches src (caps ms) s (drop 1 ep)
            else if e = CHR ''*'' then concat (map (\<lambda>k. matches src (caps ms) (s + k) (drop 1 ep)) (rev [0..<Suc n]))
            else if e = CHR ''+'' then concat (map (\<lambda>k. matches src (caps ms) (s + k) (drop 1 ep)) (rev [1..<Suc n]))
            else if e = CHR ''-'' then concat (map (\<lambda>k. matches src (caps ms) (s + k) (drop 1 ep)) [0..<Suc n])
            else if 0 < n then matches src (caps ms) (s + 1) ep else []) out"
proof -
  have C: "computes src (\<lambda>ms. do_match ms t (drop 1 ep)) (\<lambda>cs. matches src cs t (drop 1 ep))" for t
    using shorter_okD [OF IH classend_drop [OF ep p]] .
  have C': "computes src (\<lambda>ms. do_match ms t ep) (\<lambda>cs. matches src cs t ep)" for t
    using shorter_okD [OF IH classend_shorter [OF ep p]] .
  have m: "s < length (src_init ms) \<and> singlematch (sch (src_init ms) s) p ep \<longleftrightarrow> 0 < repeats src p ep s"
    using ms(2) repeats_pos by simp
  consider "pch ep = CHR ''?''" | "pch ep = CHR ''*''" | "pch ep = CHR ''+''" | "pch ep = CHR ''-''"
    | "pch ep \<notin> {CHR ''?'', CHR ''*'', CHR ''+'', CHR ''-''}" by blast
  then show ?thesis
  proof cases
    case 1
    then show ?thesis using out computes_orelse [OF C [of "s + 1"] C [of s] ms] computesD [OF C [of s] ms]
      unfolding m Let_def by (simp split: if_splits)
  next
    case 2
    then show ?thesis using out computes_max_expand [OF C ms] unfolding m Let_def by (simp del: upt_Suc)
  next
    case 3
    then show ?thesis
    proof (cases "0 < repeats src p ep s")
      case True
      then have "first_of ms (concat (map (\<lambda>k. matches src (caps ms) (s + 1 + k) (drop 1 ep)) (rev [0..<Suc (repeats src p ep (s + 1))]))) out"
        using computes_max_expand [OF C ms, of "\<lambda>t. t" "s + 1" p ep out] out 3 unfolding m Let_def by (simp del: upt_Suc)
      then show ?thesis using 3 unfolding repeats_Suc [OF True] rev_upt_shift Let_def by (simp add: comp_def del: upt_Suc)
    next
      case False
      then show ?thesis using out 3 first_of_fail [OF ms(1)] unfolding m Let_def by auto
    qed
  next
    case 4
    then show ?thesis using out computes_min_expand [OF C ms] unfolding m Let_def by (simp del: upt_Suc)
  next
    case 5
    then show ?thesis using out computesD [OF C' [of "s + 1"] ms] first_of_fail [OF ms(1)]
      unfolding m Let_def by (auto split: if_splits)
  qed
qed

lemma computes_plain_item:
  assumes IH: "shorter_ok src p" and ms: "wf_ms ms" "src_init ms = src" and out: "do_match ms s p = Inr out"
    and p: "pch p \<noteq> CHR ''(''" "pch p \<noteq> CHR '')''" "\<not> (pch p = L_ESC \<and> pch (drop 1 p) = CHR ''b'')"
      "\<not> (pch p = L_ESC \<and> pch (drop 1 p) = CHR ''f'')" "\<not> (pch p = L_ESC \<and> isdigit (pch (drop 1 p)))"
      "pch p \<noteq> CHR 0x00" "\<not> (pch p = CHR ''$'' \<and> pch (drop 1 p) = CHR 0x00)"
  shows "first_of ms (matches src (caps ms) s p) out"
proof -
  obtain ep where ep: "classend p = Inr ep"
    using out p by (subst (asm) do_match.simps) (cases "classend p"; simp add: Let_def cong: conj_cong)
  show ?thesis
    using computes_item [OF IH ep p(6) ms, of s out] out p ep
    by (subst matches.simps, subst (asm) (6) do_match.simps) (simp add: Let_def cong: conj_cong del: upt_Suc)
qed

lemma computes_lpar:
  assumes IH: "shorter_ok src p" and ms: "wf_ms ms" "src_init ms = src" and out: "do_match ms s p = Inr out" and p: "pch p = CHR ''(''"
  shows "first_of ms (matches src (caps ms) s p) out"
proof -
  have sh: "length (drop n p) < length p" if "0 < n" for n using drop_shorter [OF refl] p that by simp
  have C: "computes src (\<lambda>ms. do_match ms s (drop n p)) (\<lambda>cs. matches src cs s (drop n p))" if "0 < n" for n
    using shorter_okD [OF IH sh [OF that]] .
  show ?thesis
  proof (cases "pch (drop 1 p) = CHR '')''")
    case True
    then have "start_capture (\<lambda>ms. do_match ms s (drop 2 p)) ms s CAP_POSITION = Inr out"
      using out p by (subst (asm) do_match.simps) (simp add: Let_def)
    from computes_start_capture [OF C ms this] True p show ?thesis by (subst matches.simps) (simp add: Let_def)
  next
    case False
    then have "start_capture (\<lambda>ms. do_match ms s (drop 1 p)) ms s CAP_UNFINISHED = Inr out"
      using out p by (subst (asm) do_match.simps) (simp add: Let_def)
    from computes_start_capture [OF C ms this] False p show ?thesis by (subst matches.simps) (simp add: Let_def)
  qed
qed

lemma computes_rpar:
  assumes IH: "shorter_ok src p" and ms: "wf_ms ms" "src_init ms = src" and out: "do_match ms s p = Inr out" and p: "pch p = CHR '')''"
  shows "first_of ms (matches src (caps ms) s p) out"
proof -
  have C: "computes src (\<lambda>ms. do_match ms s (drop 1 p)) (\<lambda>cs. matches src cs s (drop 1 p))"
    by (rule shorter_okD [OF IH drop_shorter [OF refl]]) (simp_all add: p)
  have "end_capture (\<lambda>ms. do_match ms s (drop 1 p)) ms s = Inr out"
    using out p by (subst (asm) do_match.simps) (simp add: Let_def)
  from computes_end_capture [OF C ms this] p show ?thesis by (subst matches.simps) (auto simp: Let_def)
qed

lemma computes_balance:
  assumes IH: "shorter_ok src p" and ms: "wf_ms ms" "src_init ms = src" and out: "do_match ms s p = Inr out"
    and p: "pch p = L_ESC" "pch (drop 1 p) = CHR ''b''"
  shows "first_of ms (matches src (caps ms) s p) out"
proof -
  have "\<exists>r. matchbalance src s (drop 2 p) = Inr r \<and> (case r of None \<Rightarrow> Inr (ms, None) | Some s \<Rightarrow> do_match ms s (drop 4 p)) = Inr out"
    using out p ms(2) by (subst (asm) do_match.simps) (cases "matchbalance src s (drop 2 p)"; simp add: Let_def L_ESC_def)
  then obtain r where r: "matchbalance src s (drop 2 p) = Inr r" "(case r of None \<Rightarrow> Inr (ms, None) | Some s \<Rightarrow> do_match ms s (drop 4 p)) = Inr out"
    by blast
  have sh: "length (drop 4 p) < length p" using drop_shorter [OF refl] p L_ESC_nonzero by simp
  show ?thesis using p r shorter_ok_first [OF IH ms sh] first_of_fail [OF ms(1)]
    by (subst matches.simps) (auto simp: Let_def L_ESC_def res_list_def opt_list_def split: option.splits)
qed

lemma computes_frontier:
  assumes IH: "shorter_ok src p" and ms: "wf_ms ms" "src_init ms = src" and out: "do_match ms s p = Inr out"
    and p: "pch p = L_ESC" "pch (drop 1 p) = CHR ''f''"
  shows "first_of ms (matches src (caps ms) s p) out"
proof -
  have b: "pch (drop 2 p) = CHR ''[''" using out p by (subst (asm) do_match.simps) (simp add: Let_def L_ESC_def split: if_splits)
  then obtain ep where ep: "classend (drop 2 p) = Inr ep"
    using out p by (subst (asm) do_match.simps) (cases "classend (drop 2 p)"; simp add: Let_def L_ESC_def)
  show ?thesis
    using out p ms(2) b ep shorter_ok_first [OF IH ms classend_frontier [OF ep b], of s out] first_of_fail [OF ms(1)]
    by (subst matches.simps, subst (asm) do_match.simps) (auto simp: Let_def L_ESC_def split: if_splits)
qed

lemma computes_backref:
  assumes IH: "shorter_ok src p" and ms: "wf_ms ms" "src_init ms = src" and out: "do_match ms s p = Inr out"
    and p: "pch p = L_ESC" "isdigit (pch (drop 1 p))"
  shows "first_of ms (matches src (caps ms) s p) out"
proof -
  let ?c1 = "pch (drop 1 p)"
  have n: "?c1 \<noteq> CHR ''b''" "?c1 \<noteq> CHR ''f''" using p(2) by (auto simp: isdigit_def byte_def)
  have "\<exists>r. match_capture ms s ?c1 = Inr r \<and> (case r of None \<Rightarrow> Inr (ms, None) | Some s \<Rightarrow> do_match ms s (drop 2 p)) = Inr out"
    using out p n by (subst (asm) do_match.simps) (cases "match_capture ms s ?c1"; simp add: Let_def L_ESC_def)
  then obtain r where r: "match_capture ms s ?c1 = Inr r" "(case r of None \<Rightarrow> Inr (ms, None) | Some s \<Rightarrow> do_match ms s (drop 2 p)) = Inr out"
    by blast
  have sh: "length (drop 2 p) < length p" using drop_shorter [OF refl] p L_ESC_nonzero by simp
  have "matches src (caps ms) s p = concat (map (\<lambda>s. matches src (caps ms) s (drop 2 p)) (opt_list r))"
    using p n match_capture_backref [OF ms(1) r(1) p(2)] ms(2) by (subst matches.simps) (simp add: Let_def L_ESC_def)
  then show ?thesis using r(2) shorter_ok_first [OF IH ms sh] first_of_fail [OF ms(1)] by (cases r) (simp_all add: opt_list_def)
qed

lemma do_match_computes: "computes src (\<lambda>ms. do_match ms s p) (\<lambda>cs. matches src cs s p)"
proof (induction p arbitrary: s rule: measure_induct_rule [of length])
  case (less p)
  then have IH: "shorter_ok src p" by (simp add: shorter_ok_def)
  show ?case
  proof (rule computesI)
    fix ms out
    assume ms: "wf_ms ms" "src_init ms = src" and out: "do_match ms s p = Inr out"
    let ?c = "pch p" and ?c1 = "pch (drop 1 p)"
    consider (lpar) "?c = CHR ''(''" | (rpar) "?c = CHR '')''" | (bal) "?c = L_ESC" "?c1 = CHR ''b''"
      | (front) "?c = L_ESC" "?c1 = CHR ''f''" | (ref) "?c = L_ESC" "isdigit ?c1"
      | (stop) "?c = CHR 0x00" | (dollar) "?c = CHR ''$''" "?c1 = CHR 0x00"
      | (item) "?c \<noteq> CHR ''(''" "?c \<noteq> CHR '')''" "\<not> (?c = L_ESC \<and> ?c1 = CHR ''b'')" "\<not> (?c = L_ESC \<and> ?c1 = CHR ''f'')"
          "\<not> (?c = L_ESC \<and> isdigit ?c1)" "?c \<noteq> CHR 0x00" "\<not> (?c = CHR ''$'' \<and> ?c1 = CHR 0x00)" by blast
    then show "first_of ms (matches src (caps ms) s p) out"
    proof cases
      case stop
      then have "out = (ms, Some s)" using out by (subst (asm) do_match.simps) (simp add: Let_def L_ESC_def)
      then show ?thesis using stop first_of_here [OF ms(1)] by (subst matches.simps) (simp add: Let_def L_ESC_def)
    next
      case dollar
      then have "out = (ms, if s = length src then Some s else None)" using out ms(2) by (subst (asm) do_match.simps) (simp add: Let_def L_ESC_def)
      then show ?thesis using dollar first_of_here [OF ms(1)] first_of_fail [OF ms(1)]
        by (subst matches.simps) (simp add: Let_def L_ESC_def)
    next
      case lpar then show ?thesis by (rule computes_lpar [OF IH ms out])
    next
      case rpar then show ?thesis by (rule computes_rpar [OF IH ms out])
    next
      case bal then show ?thesis by (rule computes_balance [OF IH ms out])
    next
      case front then show ?thesis by (rule computes_frontier [OF IH ms out])
    next
      case ref then show ?thesis by (rule computes_backref [OF IH ms out])
    next
      case item then show ?thesis by (rule computes_plain_item [OF IH ms out])
    qed
  qed
qed

end
