(* ===== verification/PatternProps.thy ===== *)
theory PatternProps
  imports PatternMatch
begin

text \<open>
  What the string functions built on the matcher promise: matches and captures lie inside the subject, \<open>find\<close> returns the leftmost
  match, the plain search used for patterns without special characters is the pattern search, \<open>gmatch\<close> makes progress and \<open>gsub\<close>
  keeps the text it does not replace.
\<close>

section \<open>Bounds\<close>

definition caps_ok :: "nat \<Rightarrow> caps \<Rightarrow> bool" where
  "caps_ok s cs \<longleftrightarrow> (\<forall>(i, l) \<in> set cs. i \<le> s \<and> (l = CAP_UNFINISHED \<or> l = CAP_POSITION \<or> 0 \<le> l \<and> int i + l \<le> int s))"

lemma caps_ok_mono: "caps_ok s cs \<Longrightarrow> s \<le> t \<Longrightarrow> caps_ok t cs"
  unfolding caps_ok_def by fastforce

lemma caps_ok_Nil [simp]: "caps_ok s []" by (simp add: caps_ok_def)

lemma caps_ok_open: "caps_ok s cs \<Longrightarrow> w = CAP_UNFINISHED \<or> w = CAP_POSITION \<Longrightarrow> caps_ok s (cs @ [(s, w)])"
  by (auto simp: caps_ok_def)

lemma caps_ok_nth: "caps_ok s cs \<Longrightarrow> l < length cs \<Longrightarrow> fst (cs ! l) \<le> s"
  unfolding caps_ok_def by (metis (mono_tags, lifting) case_prodD nth_mem prod.collapse)

lemma caps_ok_close:
  assumes "caps_ok s cs" "l < length cs"
  shows "caps_ok s (cs[l := (fst (cs ! l), int s - int (fst (cs ! l)))])"
proof -
  have "set (cs[l := (fst (cs ! l), int s - int (fst (cs ! l)))]) \<subseteq> insert (fst (cs ! l), int s - int (fst (cs ! l))) (set cs)"
    by (rule set_update_subset_insert)
  with assms caps_ok_nth [OF assms] show ?thesis unfolding caps_ok_def by fastforce
qed

lemma balance_loop_bounds: "balance_loop b e cont cs s = Some t \<Longrightarrow> s < t \<and> t \<le> s + length cs"
  by (induction b e cont cs s rule: balance_loop.induct) (force split: if_splits)+

lemma matchbalance_bounds: "matchbalance src s p = Inr (Some t) \<Longrightarrow> s < t \<and> t \<le> length src"
  by (auto simp: matchbalance_def sch_def split: if_splits dest: balance_loop_bounds)

lemma repeats_le: "s \<le> length src \<Longrightarrow> s + repeats src p ep s \<le> length src"
  using length_takeWhile_le [of "\<lambda>c. singlematch c p ep" "drop s src"] by (simp add: repeats_def)

text \<open>Every success comes from the end of the pattern, or from a success of a shorter rest of it further on.\<close>

definition later_match :: "string \<Rightarrow> caps \<Rightarrow> nat \<Rightarrow> string \<Rightarrow> caps \<times> nat \<Rightarrow> bool" where
  "later_match src cs s p x \<longleftrightarrow>
     (\<exists>cs1 t q. length q < length p \<and> s \<le> t \<and> t \<le> length src \<and> (caps_ok s cs \<longrightarrow> caps_ok t cs1) \<and> x \<in> set (matches src cs1 t q))"

lemma later_matchI:
  "x \<in> set (matches src cs1 t q) \<Longrightarrow> length q < length p \<Longrightarrow> s \<le> t \<Longrightarrow> t \<le> length src \<Longrightarrow> (caps_ok s cs \<Longrightarrow> caps_ok t cs1) \<Longrightarrow>
    later_match src cs s p x"
  unfolding later_match_def by blast

lemma later_match_same: "x \<in> set (matches src cs t q) \<Longrightarrow> length q < length p \<Longrightarrow> s \<le> t \<Longrightarrow> t \<le> length src \<Longrightarrow> later_match src cs s p x"
  by (erule later_matchI) (auto elim: caps_ok_mono)

lemma matches_item_later:
  assumes s: "s \<le> length src" and ep: "classend p = Inr ep" "pch p \<noteq> CHR 0x00"
    and x: "x \<in> set (let n = repeats src p ep s; e = pch ep in
            if e = CHR ''?'' then (if 0 < n then matches src cs (s + 1) (drop 1 ep) else []) @ matches src cs s (drop 1 ep)
            else if e = CHR ''*'' then concat (map (\<lambda>k. matches src cs (s + k) (drop 1 ep)) (rev [0..<Suc n]))
            else if e = CHR ''+'' then concat (map (\<lambda>k. matches src cs (s + k) (drop 1 ep)) (rev [1..<Suc n]))
            else if e = CHR ''-'' then concat (map (\<lambda>k. matches src cs (s + k) (drop 1 ep)) [0..<Suc n])
            else if 0 < n then matches src cs (s + 1) ep else [])"
  shows "later_match src cs s p x"
proof -
  have L: "later_match src cs s p x" if "x \<in> set (matches src cs (s + k) q)" "k \<le> repeats src p ep s" "q = ep \<or> q = drop 1 ep" for k q
  proof -
    have "length q < length p" using that(3) classend_shorter [OF ep] classend_drop [OF ep] by auto
    then show ?thesis using later_match_same [OF that(1)] that(2) repeats_le [OF s, of p ep] by simp
  qed
  have L0: "later_match src cs s p x" if "x \<in> set (matches src cs s (drop 1 ep))" using L [of 0 "drop 1 ep"] that by simp
  have L1: "later_match src cs s p x" if "x \<in> set (matches src cs (s + 1) q)" "0 < repeats src p ep s" "q = ep \<or> q = drop 1 ep" for q
    using L [of 1 q] that by simp
  show ?thesis
    using x unfolding Let_def by (auto split: if_splits simp del: upt_Suc One_nat_def simp: less_Suc_eq_le intro: L L0 L1)
qed

lemma matches_later:
  assumes s: "s \<le> length src" and x: "x \<in> set (matches src cs s p)"
  shows "x = (cs, s) \<or> later_match src cs s p x"
proof (cases "pch p = CHR 0x00")
  case True
  with x show ?thesis by (subst (asm) matches.simps) (simp add: Let_def L_ESC_def)
next
  case False
  have sh: "length (drop n p) < length p" if "0 < n" for n using drop_shorter [OF refl False that] .
  have item: "later_match src cs s p x" if "Inr ep = classend p" "x \<in> set (let n = repeats src p ep s; e = pch ep in
            if e = CHR ''?'' then (if 0 < n then matches src cs (s + 1) (drop 1 ep) else []) @ matches src cs s (drop 1 ep)
            else if e = CHR ''*'' then concat (map (\<lambda>k. matches src cs (s + k) (drop 1 ep)) (rev [0..<Suc n]))
            else if e = CHR ''+'' then concat (map (\<lambda>k. matches src cs (s + k) (drop 1 ep)) (rev [1..<Suc n]))
            else if e = CHR ''-'' then concat (map (\<lambda>k. matches src cs (s + k) (drop 1 ep)) [0..<Suc n])
            else if 0 < n then matches src cs (s + 1) ep else [])" for ep
    by (rule matches_item_later [OF s that(1) [symmetric] False that(2)])
  have lpar: "later_match src cs s p x" if "x \<in> set (matches src (cs @ [(s, w)]) s (drop n p))" "0 < n" "w = CAP_UNFINISHED \<or> w = CAP_POSITION" for n w
    by (rule later_matchI [OF that(1) sh [OF that(2)] order_refl s]) (rule caps_ok_open [OF _ that(3)])
  have rpar: "later_match src cs s p x"
    if "x \<in> set (matches src (cs[l := (fst (cs ! l), int s - int (fst (cs ! l)))]) s (drop 1 p))" "Some l = last_open cs" for l
    by (rule later_matchI [OF that(1) sh [of 1] order_refl s]) (use caps_ok_close last_open_SomeD [OF that(2) [symmetric]] in auto)
  have bal: "later_match src cs s p x" if "x \<in> set (matches src cs t (drop 4 p))" "Inr (Some t) = matchbalance src s (drop 2 p)" for t
    using later_match_same [OF that(1) sh [of 4]] matchbalance_bounds [OF that(2) [symmetric]] by simp
  have ref: "later_match src cs s p x" if "x \<in> set (matches src cs t (drop 2 p))" "t \<in> set (backref src cs s i)" for t i
    using later_match_same [OF that(1) sh [of 2]] that(2) s by (auto simp: backref_def Let_def split: if_splits)
  have front: "later_match src cs t p x"
    if "x \<in> set (matches src cs t ep)" "Inr ep = classend (drop 2 p)" "pch (drop 2 p) = CHR ''[''" "t \<le> length src" for t ep
    by (rule later_match_same [OF that(1) classend_frontier [OF that(2) [symmetric] that(3)] order_refl that(4)])
  from x s show ?thesis
    by (subst (asm) matches.simps, unfold Let_def [of "pch p"] Let_def [of "pch (drop 1 p)"])
      (use False in \<open>auto simp: res_list_def opt_list_def split: if_splits sum.splits option.splits simp del: upt_Suc One_nat_def
        intro: lpar rpar bal ref front item\<close>)
qed

lemma matches_bounds:
  assumes "s \<le> length src" "caps_ok s cs" "(cs', e) \<in> set (matches src cs s p)"
  shows "s \<le> e \<and> e \<le> length src \<and> caps_ok e cs'"
  using assms
proof (induction p arbitrary: cs s rule: measure_induct_rule [of length])
  case (less p)
  from matches_later [OF less.prems(1,3)] show ?case
  proof
    assume "later_match src cs s p (cs', e)"
    then obtain cs1 t q where q: "length q < length p" "s \<le> t" "t \<le> length src" "caps_ok t cs1" "(cs', e) \<in> set (matches src cs1 t q)"
      using less.prems(2) unfolding later_match_def by blast
    from less.IH [OF q(1,3,4,5)] q(2) show ?thesis by simp
  qed (use less.prems in simp)
qed

section \<open>Fresh states\<close>

lemma wf_newMatchState [simp]: "wf_ms (newMatchState src)"
  by (simp add: wf_ms_def newMatchState_def)

lemma wf_ms_reset: "wf_ms ms \<Longrightarrow> wf_ms (ms\<lparr>level := 0\<rparr>)"
  by (simp add: wf_ms_def)

lemma caps_reset [simp]: "caps (ms\<lparr>level := 0\<rparr>) = []"
  by (simp add: caps_def)

lemma do_match_first:
  assumes "wf_ms ms" "do_match (ms\<lparr>level := 0\<rparr>) s p = Inr (ms', r)"
  shows "src_init ms' = src_init ms \<and> wf_ms ms' \<and>
    (case r of None \<Rightarrow> matches (src_init ms) [] s p = []
     | Some e \<Rightarrow> \<exists>ys. matches (src_init ms) [] s p = (caps ms', e) # ys)"
  using computesD [OF do_match_computes wf_ms_reset [OF assms(1)] _ assms(2), of "src_init ms"]
  by (auto simp: first_of_def split: option.splits)

lemma do_match_bounds:
  assumes "wf_ms ms" "do_match (ms\<lparr>level := 0\<rparr>) s p = Inr (ms', Some e)" "s \<le> length (src_init ms)"
  shows "s \<le> e \<and> e \<le> length (src_init ms) \<and> caps_ok e (caps ms')"
proof -
  obtain ys where "matches (src_init ms) [] s p = (caps ms', e) # ys" using do_match_first [OF assms(1,2)] by auto
  then show ?thesis using matches_bounds [OF assms(3), of "[]" "caps ms'" e p] by simp
qed

section \<open>Searching\<close>

text \<open>The first start position, from \<open>s1\<close>, at which the pattern matches; an anchored pattern is tried at \<open>s1\<close> only.\<close>

definition leftmost :: "string \<Rightarrow> string \<Rightarrow> bool \<Rightarrow> nat \<Rightarrow> nat \<Rightarrow> bool" where
  "leftmost src p anchor s1 i \<longleftrightarrow>
     s1 \<le> i \<and> i \<le> length src \<and> matches src [] i p \<noteq> [] \<and> (anchor \<longrightarrow> i = s1) \<and> (\<forall>k. s1 \<le> k \<and> k < i \<longrightarrow> matches src [] k p = [])"

lemma leftmost_later: "leftmost src p False (Suc s1) i \<Longrightarrow> matches src [] s1 p = [] \<Longrightarrow> leftmost src p False s1 i"
  unfolding leftmost_def by (metis Suc_leI Suc_leD le_neq_implies_less)

lemma find_loop_Some:
  assumes "wf_ms ms" "s1 \<le> length (src_init ms)" "find_loop ms p anchor s1 = Inr (ms', Some (i, e))"
  shows "leftmost (src_init ms) p anchor s1 i \<and> wf_ms ms' \<and> src_init ms' = src_init ms \<and>
    (\<exists>ys. matches (src_init ms) [] i p = (caps ms', e) # ys)"
  using assms
proof (induction ms p anchor s1 rule: find_loop.induct)
  case (1 ms p anchor s1)
  obtain m r where d: "do_match (ms\<lparr>level := 0\<rparr>) s1 p = Inr (m, r)"
    using "1.prems"(3) by (subst (asm) find_loop.simps) (cases "do_match (ms\<lparr>level := 0\<rparr>) s1 p"; auto)
  note f = do_match_first [OF "1.prems"(1) d]
  show ?case
  proof (cases r)
    case None
    then have n: "s1 < length (src_init ms)" "\<not> anchor" and l: "find_loop (m\<lparr>src_init := src_init ms\<rparr>) p anchor (s1 + 1) = Inr (ms', Some (i, e))"
      using "1.prems"(3) d by (subst (asm) find_loop.simps; simp split: if_splits)+
    have "wf_ms (m\<lparr>src_init := src_init ms\<rparr>)" using f by (simp add: wf_ms_def)
    then have "leftmost (src_init ms) p anchor (s1 + 1) i \<and> wf_ms ms' \<and> src_init ms' = src_init ms \<and>
        (\<exists>ys. matches (src_init ms) [] i p = (caps ms', e) # ys)"
      using "1.IH" [OF d refl None _ _ _ l] n by simp
    then show ?thesis using leftmost_later f None n(2) by simp
  next
    case (Some e')
    then have "m = ms'" "s1 = i" "e' = e" using "1.prems"(3) d by (subst (asm) find_loop.simps; simp)+
    then show ?thesis using f Some "1.prems"(2) by (auto simp: leftmost_def)
  qed
qed

lemma find_loop_None:
  assumes "wf_ms ms" "s1 \<le> length (src_init ms)" "find_loop ms p anchor s1 = Inr (ms', None)"
  shows "matches (src_init ms) [] s1 p = [] \<and> (\<not> anchor \<longrightarrow> (\<forall>k. s1 \<le> k \<and> k \<le> length (src_init ms) \<longrightarrow> matches (src_init ms) [] k p = []))"
  using assms
proof (induction ms p anchor s1 rule: find_loop.induct)
  case (1 ms p anchor s1)
  obtain m r where d: "do_match (ms\<lparr>level := 0\<rparr>) s1 p = Inr (m, r)"
    using "1.prems"(3) by (subst (asm) find_loop.simps) (cases "do_match (ms\<lparr>level := 0\<rparr>) s1 p"; auto)
  note f = do_match_first [OF "1.prems"(1) d]
  have r: "r = None" using "1.prems"(3) d by (subst (asm) find_loop.simps) (cases r; simp)
  with f have s1: "matches (src_init ms) [] s1 p = []" by simp
  show ?case
  proof (cases "s1 < length (src_init ms) \<and> \<not> anchor")
    case True
    then have l: "find_loop (m\<lparr>src_init := src_init ms\<rparr>) p anchor (s1 + 1) = Inr (ms', None)"
      using "1.prems"(3) d r by (subst (asm) find_loop.simps) simp
    have "wf_ms (m\<lparr>src_init := src_init ms\<rparr>)" using f by (simp add: wf_ms_def)
    then have "\<forall>k. Suc s1 \<le> k \<and> k \<le> length (src_init ms) \<longrightarrow> matches (src_init ms) [] k p = []"
      using "1.IH" [OF d refl r True _ _ l] True by simp
    then show ?thesis using s1 by (metis Suc_leI le_neq_implies_less)
  next
    case False
    then show ?thesis using s1 "1.prems"(2) by (metis le_antisym not_less)
  qed
qed

section \<open>Plain search\<close>

definition occurs :: "string \<Rightarrow> string \<Rightarrow> nat \<Rightarrow> bool" where
  "occurs s p k \<longleftrightarrow> take (length p) (drop k s) = p"

lemma occurs_Cons: "occurs s (c # p) k \<longleftrightarrow> k < length s \<and> s ! k = c \<and> occurs s p (Suc k)"
  by (cases "k < length s") (auto simp: occurs_def Cons_nth_drop_Suc [symmetric])

lemma occurs_length: "occurs s p k \<Longrightarrow> p \<noteq> [] \<Longrightarrow> k + length p \<le> length s"
  unfolding occurs_def by (metis drop_eq_Nil le_add_diff_inverse2 length_drop length_take min.cobounded1 min_def nat_le_linear
      take_eq_Nil le_diff_conv2 add.commute)

lemma occurs_drop: "occurs (drop n s) p k \<longleftrightarrow> occurs s p (n + k)"
  by (simp add: occurs_def add.commute)

lemma mem_chr_Some_iff: "mem_chr x s = Some k \<longleftrightarrow> k < length s \<and> s ! k = x \<and> (\<forall>j<k. s ! j \<noteq> x)"
proof (induction s arbitrary: k)
  case (Cons c cs)
  then show ?case by (cases k) (auto simp: less_Suc_eq_0_disj)
qed simp

lemma mem_chr_None_iff: "mem_chr x s = None \<longleftrightarrow> x \<notin> set s"
  by (induction s) auto

text \<open>The loop returns the first occurrence from \<open>off\<close> on; \<open>l1\<close> positions are left.\<close>

definition first_occ :: "string \<Rightarrow> string \<Rightarrow> nat \<Rightarrow> nat option \<Rightarrow> bool" where
  "first_occ s p off r \<longleftrightarrow> (case r of
      None \<Rightarrow> \<forall>j\<ge>off. \<not> occurs s p j
    | Some k \<Rightarrow> off \<le> k \<and> occurs s p k \<and> (\<forall>j. off \<le> j \<and> j < k \<longrightarrow> \<not> occurs s p j))"

lemma first_occ_skip: "first_occ s p m r \<Longrightarrow> off \<le> m \<Longrightarrow> \<forall>j. off \<le> j \<and> j < m \<longrightarrow> \<not> occurs s p j \<Longrightarrow> first_occ s p off r"
  unfolding first_occ_def by (auto split: option.splits) (meson leI)+

lemma memfind_loop_first:
  assumes "off + l1 + length p = length s"
  shows "first_occ s (c # p) off (memfind_loop s (c # p) off l1)"
  using assms
proof (induction s "c # p" off l1 rule: memfind_loop.induct)
  case (1 s off l1)
  have past: "\<not> occurs s (c # p) j" if "j \<ge> off + l1" for j
    using occurs_length [of s "c # p" j] that "1.prems" by auto
  show ?case
  proof (cases "mem_chr c (take l1 (drop off s))")
    case None
    then have ne: "s ! (off + j) \<noteq> c" if "j < l1" for j
      using that "1.prems" by (auto simp: mem_chr_None_iff in_set_conv_nth)
    have "\<not> occurs s (c # p) j" if "off \<le> j" for j
      using past [of j] ne [of "j - off"] that by (cases "j < off + l1") (auto simp: occurs_Cons)
    with None show ?thesis by (subst memfind_loop.simps) (simp add: first_occ_def pch_def)
  next
    case (Some k)
    then have k: "k < l1" "s ! (off + k) = c" and b: "\<And>j. j < k \<Longrightarrow> s ! (off + j) \<noteq> c"
      using "1.prems" by (auto simp: mem_chr_Some_iff)
    have skip: "\<not> occurs s (c # p) j" if "off \<le> j" "j < off + k" for j
      using b [of "j - off"] that by (simp add: occurs_Cons)
    show ?thesis
    proof (cases "occurs s p (off + k + 1)")
      case True
      then have "memfind_loop s (c # p) off l1 = Some (off + k)"
        using Some k(1) by (subst memfind_loop.simps) (simp add: pch_def occurs_def)
      then show ?thesis using True k skip "1.prems" by (auto simp: first_occ_def occurs_Cons)
    next
      case False
      then have e: "memfind_loop s (c # p) off l1 = memfind_loop s (c # p) (off + k + 1) (l1 - (k + 1))"
        using Some k(1) by (subst memfind_loop.simps) (simp add: pch_def occurs_def)
      have f: "first_occ s (c # p) (off + k + 1) (memfind_loop s (c # p) (off + k + 1) (l1 - (k + 1)))"
      proof (rule "1.hyps" [OF _ _ refl])
        show "mem_chr (pch (c # p)) (take l1 (drop off s)) = Some k" using Some by (simp add: pch_def)
        show "take (length (c # p) - 1) (drop (off + k + 1) s) \<noteq> drop 1 (c # p)" using False by (simp add: occurs_def)
        show "off + k + 1 + (l1 - (k + 1)) + length p = length s" using k(1) "1.prems" by simp
      qed (use k(1) in simp)
      have "\<not> occurs s (c # p) j" if "off \<le> j" "j < off + k + 1" for j
        using skip [of j] that False by (cases "j = off + k") (simp_all add: occurs_Cons)
      then show ?thesis unfolding e by (intro first_occ_skip [OF f]) simp_all
    qed
  qed
qed

lemma lmemfind_first: "p \<noteq> [] \<Longrightarrow> first_occ s p 0 (lmemfind s p)"
proof (cases p)
  case (Cons c p')
  show ?thesis
  proof (cases "length p > length s")
    case True
    then show ?thesis using Cons occurs_length [of s p] by (fastforce simp: lmemfind_def first_occ_def)
  next
    case False
    then show ?thesis using memfind_loop_first [of 0 "length s - length p'" p' s c] Cons by (simp add: lmemfind_def)
  qed
qed simp

text \<open>A pattern of ordinary characters.  A closing parenthesis is not one of \<open>SPECIALS\<close>, but the matcher does not take it literally.\<close>

definition literal :: "string \<Rightarrow> bool" where
  "literal p \<longleftrightarrow> (\<forall>c \<in> set p. c \<notin> set SPECIALS \<and> c \<noteq> CHR '')'' \<and> c \<noteq> CHR 0x00)"

lemma literal_strpbrk: "literal p \<Longrightarrow> \<not> strpbrk p SPECIALS"
  by (auto simp: literal_def strpbrk_def dest: set_takeWhileD)

lemma do_match_literal:
  "literal p \<Longrightarrow> s \<le> length (src_init ms) \<Longrightarrow>
    do_match ms s p = Inr (ms, if occurs (src_init ms) p s then Some (s + length p) else None)"
proof (induction p arbitrary: s)
  case Nil
  then show ?case by (subst do_match.simps) (simp add: pch_def L_ESC_def occurs_def)
next
  case (Cons c p)
  have c: "c \<notin> {CHR ''('', CHR '')'', L_ESC, CHR 0x00, CHR ''$'', CHR ''['', CHR ''.''}"
    using Cons.prems(1) by (auto simp: literal_def SPECIALS_def L_ESC_def)
  have e: "pch p \<notin> {CHR ''?'', CHR ''*'', CHR ''+'', CHR ''-''}"
    using Cons.prems(1) by (cases p) (auto simp: literal_def SPECIALS_def pch_def)
  have "literal p" using Cons.prems(1) by (simp add: literal_def)
  note IH = Cons.IH [OF this, of "s + 1"]
  have cl: "classend (c # p) = Inr p" using c by (simp add: classend_def pch_def)
  have "do_match ms s (c # p) = (if s < length (src_init ms) \<and> src_init ms ! s = c then do_match ms (s + 1) p else Inr (ms, None))"
    using c e cl by (subst do_match.simps) (auto simp: singlematch_def sch_def pch_def [of "c # p"] Let_def)
  then show ?case using IH Cons.prems(2) by (auto simp: occurs_Cons)
qed

lemma find_loop_literal:
  assumes "literal p" "s1 \<le> length (src_init ms)"
  shows "\<exists>r. first_occ (src_init ms) p s1 (map_option fst r) \<and> (\<forall>i e. r = Some (i, e) \<longrightarrow> e = i + length p) \<and>
    find_loop ms p False s1 = Inr (ms\<lparr>level := 0\<rparr>, r)"
  using assms
proof (induction ms p "False" s1 rule: find_loop.induct)
  case (1 ms p s1)
  note d = do_match_literal [OF "1.prems"(1), of s1 "ms\<lparr>level := 0\<rparr>"]
  show ?case
  proof (cases "occurs (src_init ms) p s1")
    case True
    then show ?thesis using d "1.prems"(2) by (subst find_loop.simps) (auto simp: first_occ_def)
  next
    case False
    then have d': "do_match (ms\<lparr>level := 0\<rparr>) s1 p = Inr (ms\<lparr>level := 0\<rparr>, None)" using d "1.prems"(2) by simp
    show ?thesis
    proof (cases "s1 < length (src_init ms)")
      case True
      then obtain r where r: "first_occ (src_init ms) p (s1 + 1) (map_option fst r)" "\<forall>i e. r = Some (i, e) \<longrightarrow> e = i + length p"
          "find_loop (ms\<lparr>level := 0, src_init := src_init ms\<rparr>) p False (s1 + 1) = Inr (ms\<lparr>level := 0, src_init := src_init ms, level := 0\<rparr>, r)"
        using "1.hyps" [OF d' refl refl _ "1.prems"(1)] by auto
      have "first_occ (src_init ms) p s1 (map_option fst r)"
        by (rule first_occ_skip [OF r(1)]) (use False in \<open>auto simp: less_Suc_eq\<close>)
      with r d' True show ?thesis by (intro exI [of _ r]) (subst find_loop.simps, simp)
    next
      case e: False
      have "p \<noteq> []" using False by (auto simp: occurs_def)
      then have "\<not> occurs (src_init ms) p j" if "j \<ge> s1" for j using occurs_length [of "src_init ms" p j] that e by (cases p) auto
      with d' e show ?thesis by (intro exI [of _ None]) (subst find_loop.simps, simp add: first_occ_def)
    qed
  qed
qed

definition find_start :: "string \<Rightarrow> int \<Rightarrow> nat" where
  "find_start s init =
     (let i = posrelat init (int (length s)) - 1 in nat (if i < 0 then 0 else if i > int (length s) then int (length s) else i))"

lemma find_start_le: "find_start s init \<le> length s"
  by (auto simp: find_start_def Let_def)

lemma first_occ_unique: "first_occ s p off a \<Longrightarrow> first_occ s p off b \<Longrightarrow> a = b"
  unfolding first_occ_def by (auto split: option.splits) (metis linorder_neqE_nat)

lemma lmemfind_drop: "n \<le> length s \<Longrightarrow> first_occ s p n (map_option ((+) n) (lmemfind (drop n s) p))"
proof (cases "p = []")
  case True
  then show ?thesis by (auto simp: lmemfind_def first_occ_def occurs_def)
next
  case False
  have f: "first_occ (drop n s) p 0 (lmemfind (drop n s) p)" using lmemfind_first [OF False] .
  have shift: "\<exists>i. j = n + i" if "n \<le> j" for j using that le_Suc_ex by blast
  show ?thesis
    using f shift by (cases "lmemfind (drop n s) p") (fastforce simp: first_occ_def occurs_drop)+
qed

text \<open>The pattern search of \<open>string.find\<close>, without the shortcut.\<close>

definition pattern_find :: "string \<Rightarrow> string \<Rightarrow> int \<Rightarrow> capval list option res" where
  "pattern_find s p init =
     bindE (find_loop (newMatchState s) p False (find_start s init)) (\<lambda>(ms, r). case r of
       None \<Rightarrow> Inr None
     | Some (s1, e) \<Rightarrow> bindE (push_captures ms False 0 0) (\<lambda>vs. Inr (Some (CapPos (int s1 + 1) # CapPos (int e) # vs))))"

text \<open>Property C26. \<open>string.find\<close> takes a shortcut for a pattern without the characters of \<open>SPECIALS\<close> and searches for it with \<open>lmemfind\<close>.  For such a
  pattern that has no closing parenthesis and no zero byte either the result is that of the pattern search: the first position from the start on where the
  text occurs, or nothing.  The closing parenthesis is special to the matcher but is missing from \<open>SPECIALS\<close>: \<open>plain_find_differs\<close> below.\<close>

theorem plain_find_is_pattern_find:
  assumes "literal p"
  shows "str_find s p init plain = pattern_find s p init"
proof -
  let ?n = "find_start s init"
  have n: "?n \<le> length (src_init (newMatchState s))" using find_start_le by (simp add: newMatchState_def)
  obtain r where r: "first_occ s p ?n (map_option fst r)" "\<forall>i e. r = Some (i, e) \<longrightarrow> e = i + length p"
      "find_loop (newMatchState s) p False ?n = Inr ((newMatchState s)\<lparr>level := 0\<rparr>, r)"
    using find_loop_literal [OF assms n] by (auto simp: newMatchState_def)
  have "map_option fst r = map_option ((+) ?n) (lmemfind (drop ?n s) p)"
    by (rule first_occ_unique [OF r(1) lmemfind_drop [OF find_start_le]])
  then show ?thesis using r(2,3) literal_strpbrk [OF assms] 
    by (cases r; cases "lmemfind (drop ?n s) p")
      (auto simp: str_find_def str_find_aux_def pattern_find_def find_start_def [symmetric] push_captures_def Let_def newMatchState_def find_start_def)
qed

theorem plain_find_is_pattern_find_witness:
  "literal ''wor'' \<and> str_find ''hello world'' ''wor'' 1 False = pattern_find ''hello world'' ''wor'' 1 \<and>
    str_find ''hello world'' ''wor'' 1 False = Inr (Some [CapPos 7, CapPos 9])"
proof (intro conjI)
  show l: "literal ''wor''" by code_simp
  show "str_find ''hello world'' ''wor'' 1 False = pattern_find ''hello world'' ''wor'' 1" by (rule plain_find_is_pattern_find [OF l])
  show "str_find ''hello world'' ''wor'' 1 False = Inr (Some [CapPos 7, CapPos 9])" by code_simp
qed

text \<open>A pattern with a closing parenthesis takes the shortcut and is found as plain text, while the matcher rejects it.\<close>

lemma plain_find_differs:
  "str_find ''a)b'' '')'' 1 False = Inr (Some [CapPos 2, CapPos 2])" "isl (pattern_find ''a)b'' '')'' 1)"
  by code_simp+

section \<open>The matcher, \<open>find\<close> and the captures\<close>

text \<open>Property C9. The matcher computes the reference semantics.  When \<open>match\<close> returns without an error it returns the end of the first success
  of the list of successes, and the captures in use are those of that success; when it returns \<open>NULL\<close> there is no success at all, and every
  capture it opened or closed on the way has been undone.\<close>

theorem match_is_first_success:
  assumes "wf_ms ms" "do_match ms s p = Inr (ms', r)"
  shows "src_init ms' = src_init ms \<and> wf_ms ms' \<and>
    (case r of None \<Rightarrow> matches (src_init ms) (caps ms) s p = [] \<and> caps ms' = caps ms
     | Some e \<Rightarrow> \<exists>ys. matches (src_init ms) (caps ms) s p = (caps ms', e) # ys)"
  using computesD [OF do_match_computes assms(1) refl assms(2)] by (simp add: first_of_def split: option.splits)

theorem match_is_first_success_witness:
  "\<exists>ms'. do_match (newMatchState ''key=val'') 0 ''(%w+)=(%w-)l'' = Inr (ms', Some 7) \<and>
    hd (matches ''key=val'' [] 0 ''(%w+)=(%w-)l'') = (caps ms', 7) \<and> caps ms' = [(0, 3), (4, 2)]"
proof -
  let ?ms = "newMatchState ''key=val''" and ?p = "''(%w+)=(%w-)l''"
  have "(case do_match ?ms 0 ?p of Inr (m, r) \<Rightarrow> r = Some 7 \<and> caps m = [(0, 3), (4, 2)] | Inl _ \<Rightarrow> False)" by code_simp
  then obtain ms' where m: "do_match ?ms 0 ?p = Inr (ms', Some 7)" "caps ms' = [(0, 3), (4, 2)]"
    by (auto split: sum.splits)
  show ?thesis using match_is_first_success [OF _ m(1)] m by (auto simp: newMatchState_def caps_def wf_ms_def)
qed

text \<open>Property C24. A match and its captures stay inside the subject: from a position of the subject the end of the match is at or after it and at most
  the end of the subject, and every capture starts inside and, unless it is open or a position, ends at or before the end of the match.\<close>

theorem match_in_bounds:
  assumes "wf_ms ms" "level ms = 0" "s \<le> length (src_init ms)" "do_match ms s p = Inr (ms', Some e)"
  shows "s \<le> e \<and> e \<le> length (src_init ms) \<and> level ms' \<le> LUA_MAXCAPTURES \<and>
    (\<forall>(i, l) \<in> set (caps ms'). i \<le> e \<and> (l = CAP_UNFINISHED \<or> l = CAP_POSITION \<or> 0 \<le> l \<and> int i + l \<le> int e))"
proof -
  have "ms\<lparr>level := 0\<rparr> = ms" using assms(2) by simp
  with do_match_bounds [of ms s p ms' e] do_match_first [of ms s p ms' "Some e"] assms show ?thesis
    by (simp add: caps_ok_def wf_ms_def)
qed

theorem match_in_bounds_witness:
  "\<exists>ms' e. do_match (newMatchState ''f(a(b)c)'') 1 ''()(%b())'' = Inr (ms', Some e) \<and> 1 \<le> e \<and> e \<le> 8"
proof -
  let ?ms = "newMatchState ''f(a(b)c)''" and ?p = "''()(%b())''"
  have "(case do_match ?ms 1 ?p of Inr (m, r) \<Rightarrow> r \<noteq> None | Inl _ \<Rightarrow> False)" by code_simp
  then obtain ms' e where m: "do_match ?ms 1 ?p = Inr (ms', Some e)" by (auto split: sum.splits)
  from match_in_bounds [OF wf_newMatchState _ _ m] m show ?thesis by (auto simp: newMatchState_def)
qed

text \<open>Property C25. \<open>string.find\<close> with a pattern that has special characters returns the leftmost match: no match starts earlier (from the start
  position on), an anchored pattern is tried at the start position only, and \<open>nil\<close> means there is no match.\<close>

theorem str_find_leftmost:
  assumes "strpbrk p SPECIALS" "str_find s p init False = Inr r"
  shows "(let anchor = (pch p = CHR ''^''); q = (if anchor then drop 1 p else p); start = find_start s init in
    case r of
      None \<Rightarrow> matches s [] start q = [] \<and> (\<not> anchor \<longrightarrow> (\<forall>k. start \<le> k \<and> k \<le> length s \<longrightarrow> matches s [] k q = []))
    | Some vs \<Rightarrow> \<exists>i cs e ys ws. leftmost s q anchor start i \<and> matches s [] i q = (cs, e) # ys \<and>
        vs = CapPos (int i + 1) # CapPos (int e) # ws \<and> i \<le> e \<and> e \<le> length s)"
proof -
  let ?a = "pch p = CHR ''^''"
  let ?q = "if ?a then drop 1 p else p" and ?st = "find_start s init" and ?ms = "newMatchState s"
  have n: "?st \<le> length (src_init ?ms)" "src_init ?ms = s" using find_start_le by (simp_all add: newMatchState_def)
  obtain ms' x where f: "find_loop ?ms ?q ?a ?st = Inr (ms', x)"
    and r: "(case x of None \<Rightarrow> r = None | Some (i, e) \<Rightarrow> \<exists>ws. r = Some (CapPos (int i + 1) # CapPos (int e) # ws))"
    using assms by (auto simp: str_find_def str_find_aux_def find_start_def Let_def res_simps split: option.splits prod.splits)
  show ?thesis
  proof (cases x)
    case None
    then show ?thesis using find_loop_None [OF wf_newMatchState n(1), of ?q ?a ms'] f r n(2) by (simp add: Let_def)
  next
    case (Some ie)
    then obtain i e ws where ie: "x = Some (i, e)" and ws: "r = Some (CapPos (int i + 1) # CapPos (int e) # ws)" using r by (cases ie) auto
    obtain ys where ys: "leftmost s ?q ?a ?st i" "matches s [] i ?q = (caps ms', e) # ys"
      using find_loop_Some [OF wf_newMatchState n(1), of ?q ?a ms' i e] f ie n(2) by auto
    then have "i \<le> e \<and> e \<le> length s" using matches_bounds [of i s "[]" "caps ms'" e ?q] by (simp add: leftmost_def)
    with ys ws show ?thesis unfolding Let_def by auto
  qed
qed

theorem str_find_leftmost_witness:
  "leftmost ''foo bar'' ''b%a+'' False 0 4 \<and> str_find ''foo bar'' ''b%a+'' 1 False = Inr (Some [CapPos 5, CapPos 7])"
proof -
  have s: "strpbrk ''b%a+'' SPECIALS" and f: "str_find ''foo bar'' ''b%a+'' 1 False = Inr (Some [CapPos 5, CapPos 7])" by code_simp+
  have "find_start ''foo bar'' 1 = 0" "pch ''b%a+'' \<noteq> CHR ''^''" by code_simp+
  with str_find_leftmost [OF s f] f show ?thesis by (auto simp: Let_def)
qed

section \<open>Iteration and substitution\<close>

lemma gmatch_loop_bounds:
  assumes "wf_ms ms" "gmatch_loop ms p start = Inr (ms', Some (i, e))"
  shows "start \<le> i \<and> i \<le> e \<and> e \<le> length (src_init ms) \<and> (\<forall>k. start \<le> k \<and> k < i \<longrightarrow> matches (src_init ms) [] k p = [])"
  using assms
proof (induction ms p start rule: gmatch_loop.induct)
  case (1 ms p start)
  have l: "start \<le> length (src_init ms)" using "1.prems"(2) by (subst (asm) gmatch_loop.simps) (simp split: if_splits)
  obtain m r where d: "do_match (ms\<lparr>level := 0\<rparr>) start p = Inr (m, r)"
    using "1.prems"(2) l by (subst (asm) gmatch_loop.simps) (cases "do_match (ms\<lparr>level := 0\<rparr>) start p"; auto)
  note f = do_match_first [OF "1.prems"(1) d]
  show ?case
  proof (cases r)
    case None
    then have g: "gmatch_loop (m\<lparr>src_init := src_init ms\<rparr>) p (start + 1) = Inr (ms', Some (i, e))"
      using "1.prems"(2) d l by (subst (asm) gmatch_loop.simps) simp
    have "wf_ms (m\<lparr>src_init := src_init ms\<rparr>)" using f by (simp add: wf_ms_def)
    then have *: "start + 1 \<le> i \<and> i \<le> e \<and> e \<le> length (src_init ms) \<and> (\<forall>k. start + 1 \<le> k \<and> k < i \<longrightarrow> matches (src_init ms) [] k p = [])"
      using "1.IH" [OF l d refl None _ g] by simp
    moreover have "matches (src_init ms) [] start p = []" using f None by simp
    ultimately show ?thesis by (metis Suc_eq_plus1 Suc_leD Suc_leI le_neq_implies_less)
  next
    case (Some e')
    then have "start = i" "e' = e" using "1.prems"(2) d l by (subst (asm) gmatch_loop.simps; simp)+
    then show ?thesis using do_match_bounds [OF "1.prems"(1) d [unfolded Some] l] by auto
  qed
qed

text \<open>Each call of the iterator of \<open>string.gmatch\<close> that returns a match moves its start position forward, also after an empty match, and
  to at most one past the end of the subject, so an iteration ends after at most one more call than the subject has characters.\<close>

theorem gmatch_progress:
  assumes "gmatch_aux s p start = Inr (Some (next_start, vs))"
  shows "start < next_start \<and> next_start \<le> length s + 1"
proof -
  obtain ms' i e where g: "gmatch_loop (newMatchState s) p start = Inr (ms', Some (i, e))" and n: "next_start = (if e = i then e + 1 else e)"
    using assms by (auto simp: gmatch_aux_def res_simps split: option.splits prod.splits)
  from gmatch_loop_bounds [OF wf_newMatchState g] n show ?thesis by (auto simp: newMatchState_def)
qed

theorem gmatch_progress_witness: "gmatch_aux ''ab'' ''x*'' 1 = Inr (Some (2, [CapStr []])) \<and> (1::nat) < 2"
proof -
  have g: "gmatch_aux ''ab'' ''x*'' 1 = Inr (Some (2, [CapStr []]))" by code_simp
  with gmatch_progress [OF g] show ?thesis by simp
qed

text \<open>A replacement that puts back the matched text.\<close>

definition keeps_text :: "(int \<Rightarrow> string) \<Rightarrow> repl \<Rightarrow> bool" where
  "keeps_text tostr rp \<longleftrightarrow> (\<forall>ms s e t. add_value tostr rp ms s e = Inr t \<longrightarrow> t = take (e - s) (drop s (src_init ms)))"

lemma take_extend: "s \<le> e \<Longrightarrow> take s xs @ take (e - s) (drop s xs) = take e xs"
  by (metis le_add_diff_inverse take_add)

lemma gsub_loop_step:
  assumes "keeps_text tostr rp" "wf_ms ms" "src_init ms = S" "src \<le> length S" "n < max_s"
    "gsub_loop tostr rp p anchor max_s ms n src (take src S) = Inr out"
  obtains (stop) src' n' where "out = (take src' S, src', n')" "src' \<le> length S"
  | (continue) m src' n' where "src < src'" "src' \<le> length S" "wf_ms m" "src_init m = S"
      "gsub_loop tostr rp p anchor max_s m n' src' (take src' S) = Inr out"
proof -
  obtain m r where d: "do_match (ms\<lparr>level := 0\<rparr>) src p = Inr (m, r)"
    using assms(5,6) by (subst (asm) gsub_loop.simps) (cases "do_match (ms\<lparr>level := 0\<rparr>) src p"; auto)
  note f = do_match_first [OF assms(2) d]
  let ?m = "m\<lparr>src_init := S\<rparr>" and ?n = "if r \<noteq> None then n + 1 else n"
  have m: "wf_ms ?m" "src_init m = S" using f assms(3) by (simp_all add: wf_ms_def)
  have nxt: "take src S @ [S ! src] = take (src + 1) S" if "src < length S" using that by (simp add: take_Suc_conv_app_nth)
  show thesis
  proof (cases "\<exists>e. r = Some e \<and> e > src")
    case True
    then obtain e where e: "r = Some e" "e > src" by blast
    have el: "e \<le> length S" using do_match_bounds [OF assms(2) d [unfolded e(1)]] assms(3,4) by simp
    obtain t where t: "add_value tostr rp m src e = Inr t" using assms(3,5,6) d e
      by (subst (asm) gsub_loop.simps) (cases "add_value tostr rp m src e"; auto)
    then have "t = take (e - src) (drop src S)" using assms(1) m(2) unfolding keeps_text_def by blast
    then have "take src S @ t = take e S" using take_extend [of src e S] e(2) by simp
    then have "(if anchor then Inr (take e S, e, n + 1) else gsub_loop tostr rp p anchor max_s ?m (n + 1) e (take e S)) = Inr out"
      using assms(3,5,6) d e t by (subst (asm) gsub_loop.simps) (simp add: Let_def cong: if_cong)
    then show thesis using stop [OF _ el, of "n + 1"] continue [OF e(2) el m(1), of "n + 1"] by (cases anchor) auto
  next
    case False
    have b: "\<exists>b. (case r of None \<Rightarrow> Inr (take src S) | Some e \<Rightarrow> bindE (add_value tostr rp m src e) (\<lambda>t. Inr (take src S @ t))) = Inr b"
      using assms(3,5,6) d by (subst (asm) gsub_loop.simps)
        (cases "case r of None \<Rightarrow> Inr (take src S) | Some e \<Rightarrow> bindE (add_value tostr rp m src e) (\<lambda>t. Inr (take src S @ t))"; simp)
    moreover have "t = []" if "r = Some e" "add_value tostr rp m src e = Inr t" for e t
      using that False assms(1) unfolding keeps_text_def by fastforce
    ultimately have b: "(case r of None \<Rightarrow> Inr (take src S) | Some e \<Rightarrow> bindE (add_value tostr rp m src e) (\<lambda>t. Inr (take src S @ t))) = Inr (take src S)"
      by (auto simp: res_simps split: option.splits)
    have "\<not> (r \<noteq> None \<and> the r > src)" using False by auto
    then have "(if src < length S then
          if anchor then Inr (take (src + 1) S, src + 1, ?n) else gsub_loop tostr rp p anchor max_s ?m ?n (src + 1) (take (src + 1) S)
        else Inr (take src S, src, ?n)) = Inr out"
      using assms(3,5,6) d b nxt by (subst (asm) gsub_loop.simps) (cases r; cases "src < length S"; simp add: Let_def cong: if_cong)
    then consider "\<not> src < length S" "out = (take src S, src, ?n)" | "src < length S" "out = (take (src + 1) S, src + 1, ?n)"
      | "src < length S" "gsub_loop tostr rp p anchor max_s ?m ?n (src + 1) (take (src + 1) S) = Inr out"
      by (cases "src < length S"; cases anchor) auto
    then show thesis
    proof cases
      case 1 then show thesis using stop assms(4) by blast
    next
      case 2 then show thesis by (intro stop [of "src + 1"]) auto
    next
      case 3
      show thesis by (rule continue [OF _ _ m(1) _ 3(2)]) (use 3(1) in simp_all)
    qed
  qed
qed

lemma gsub_loop_keeps:
  assumes "keeps_text tostr rp" "wf_ms ms" "src_init ms = S" "src \<le> length S"
    "gsub_loop tostr rp p anchor max_s ms n src (take src S) = Inr (b', src', n')"
  shows "b' = take src' S \<and> src' \<le> length S"
  using assms(2-)
proof (induction src arbitrary: ms n rule: measure_induct_rule [of "\<lambda>src. length S - src"])
  case (less src)
  show ?case
  proof (cases "n < max_s")
    case True
    from assms(1) less.prems(1-3) True less.prems(4) show ?thesis
    proof (cases rule: gsub_loop_step)
      case (continue m src1 n1)
      then show ?thesis using less.IH [of src1 m n1] by (simp add: diff_less_mono2)
    qed simp
  next
    case False
    then show ?thesis using less.prems by (subst (asm) gsub_loop.simps) auto
  qed
qed

text \<open>Substituting every match by itself changes nothing: \<open>string.gsub(s, p, "%0")\<close> returns \<open>s\<close>, whatever the pattern, the anchor and
  the limit; the text between the matches, single characters after empty matches and the rest are all copied once and in order.\<close>

theorem gsub_whole_match_identity:
  assumes "str_gsub tostr s p (ReplString ''%0'') max_s = Inr (t, n)"
  shows "t = s"
proof -
  have k: "keeps_text tostr (ReplString ''%0'')" by (auto simp: keeps_text_def add_value_def L_ESC_def isdigit_def byte_def)
  let ?q = "if pch p = CHR ''^'' then drop 1 p else p"
  obtain b src where g: "gsub_loop tostr (ReplString ''%0'') ?q (pch p = CHR ''^'') max_s (newMatchState s) 0 0 [] = Inr (b, src, n)"
    and t: "t = b @ drop src s" using assms by (auto simp: str_gsub_def Let_def res_simps)
  have "b = take src s \<and> src \<le> length s"
    using gsub_loop_keeps [OF k wf_newMatchState, of s s 0] g by (simp add: newMatchState_def)
  with t show ?thesis by simp
qed

theorem gsub_whole_match_identity_witness:
  "\<exists>t. str_gsub (\<lambda>_. []) ''a1b22'' ''%d*'' (ReplString ''%0'') 9 = Inr (t, 5) \<and> t = ''a1b22''"
proof -
  have g: "str_gsub (\<lambda>_. []) ''a1b22'' ''%d*'' (ReplString ''%0'') 9 = Inr (''a1b22'', 5)" by code_simp
  with gsub_whole_match_identity [OF g] show ?thesis by blast
qed

end
