(* ===== verification/TcpConnection.thy ===== *)
theory TcpConnection
  imports NetBuffer
begin

text \<open>
  One TCP connection of the network library: \<^verbatim>\<open>src/muduo/net/TcpConnection.cc\<close>, its channel (\<^verbatim>\<open>Channel.h\<close>, \<^verbatim>\<open>Channel.cc\<close>) and the part
  of its event loop that it uses (\<^verbatim>\<open>EventLoop.cc\<close>: \<open>runInLoop\<close>, \<open>queueInLoop\<close>, \<open>doPendingFunctors\<close>).  A handler takes the connection to the changed
  connection and the list of what it does to the outside: calls of the callbacks and of the socket.  A failed assertion is \<open>None\<close>.
  The user's callbacks are lists of calls of the interface of the connection; what the socket accepts is a parameter.
\<close>

section \<open>Data\<close>

datatype StateE = kDisconnected | kConnecting | kConnected | kDisconnecting

datatype errno = EWOULDBLOCK | EPIPE | ECONNRESET | EOTHER

text \<open>The answer of the socket to a write: the room it has, or an error.\<close>

datatype wres = Room nat | Fail errno

datatype Functor = F_sendInLoop string | F_shutdownInLoop | F_forceCloseInLoop | F_writeComplete | F_highWaterMark nat
  | F_connectEstablished | F_connectDestroyed

record TcpConnection =
  conn_state :: StateE
  reading :: bool
  writing :: bool
  addedToLoop :: bool
  inputBuffer :: Buffer
  outputBuffer :: Buffer
  highWaterMark :: nat
  hasWriteComplete :: bool
  hasHighWaterMark :: bool
  pendingFunctors :: "Functor list"
  functors :: "Functor list"
  delayedCloses :: nat

text \<open>
  What a handler does: bytes handed to the socket, calls of the user's callbacks and of the owner's close callback, and \<open>Accept\<close>, which is not an
  action of the code but marks the message that \<open>sendInLoop\<close> takes over.
\<close>

datatype io = Accept string | Write string | ShutdownWrite | ConnectionUp | ConnectionDown | MessageCb | CloseCb
  | WriteCompleteCb | HighWaterMarkCb nat | ChannelRemoved | SocketError

type_synonym conn_result = "(TcpConnection \<times> io list) option"

definition seqc :: "conn_result \<Rightarrow> (TcpConnection \<Rightarrow> conn_result) \<Rightarrow> conn_result" where
  "seqc m f = (case m of None \<Rightarrow> None | Some (c, a) \<Rightarrow> (case f c of None \<Rightarrow> None | Some (c', b) \<Rightarrow> Some (c', a @ b)))"

definition newTcpConnection :: "bool \<Rightarrow> bool \<Rightarrow> TcpConnection" where
  "newTcpConnection wc hw = \<lparr>conn_state = kConnecting, reading = False, writing = False, addedToLoop = False,
     inputBuffer = newBuffer kInitialSize, outputBuffer = newBuffer kInitialSize, highWaterMark = 64 * 1024 * 1024,
     hasWriteComplete = wc, hasHighWaterMark = hw, pendingFunctors = [F_connectEstablished], functors = [], delayedCloses = 0\<rparr>"

section \<open>The loop and the channel\<close>

definition queueInLoop :: "Functor \<Rightarrow> TcpConnection \<Rightarrow> TcpConnection" where
  "queueInLoop f c = c\<lparr>pendingFunctors := pendingFunctors c @ [f]\<rparr>"

definition enableWriting :: "TcpConnection \<Rightarrow> TcpConnection" where
  "enableWriting c = c\<lparr>writing := True, addedToLoop := True\<rparr>"

definition disableWriting :: "TcpConnection \<Rightarrow> TcpConnection" where
  "disableWriting c = c\<lparr>writing := False, addedToLoop := True\<rparr>"

definition enableReading :: "TcpConnection \<Rightarrow> TcpConnection" where
  "enableReading c = c\<lparr>reading := True, addedToLoop := True\<rparr>"

definition disableAll :: "TcpConnection \<Rightarrow> TcpConnection" where
  "disableAll c = c\<lparr>reading := False, writing := False, addedToLoop := True\<rparr>"

definition isNoneEvent :: "TcpConnection \<Rightarrow> bool" where
  "isNoneEvent c \<longleftrightarrow> \<not> reading c \<and> \<not> writing c"

definition channel_remove :: "TcpConnection \<Rightarrow> conn_result" where
  "channel_remove c = (if isNoneEvent c then Some (c\<lparr>addedToLoop := False\<rparr>, [ChannelRemoved]) else None)"

section \<open>Sending\<close>

text \<open>\<open>sockets::write\<close>: the number of bytes written, or the error.\<close>

definition sock_write :: "wres \<Rightarrow> string \<Rightarrow> nat + errno" where
  "sock_write w d = (case w of Room n \<Rightarrow> Inl (min n (length d)) | Fail e \<Rightarrow> Inr e)"

definition sendInLoop :: "wres \<Rightarrow> string \<Rightarrow> TcpConnection \<Rightarrow> conn_result" where
  "sendInLoop w data c =
     (if conn_state c = kDisconnected then Some (c, [])
      else
        let direct = (\<not> writing c \<and> readableBytes (outputBuffer c) = 0);
            r = (if direct then sock_write w data else Inl 0);
            nwrote = (case r of Inl n \<Rightarrow> n | Inr _ \<Rightarrow> 0);
            faultError = (r = Inr EPIPE \<or> r = Inr ECONNRESET);
            remaining = length data - nwrote;
            c = (if direct \<and> r = Inl (length data) \<and> hasWriteComplete c then queueInLoop F_writeComplete c else c);
            ios = (if faultError then [] else [Accept data]) @ (if direct \<and> isl r then [Write (take nwrote data)] else [])
        in if \<not> faultError \<and> remaining > 0 then
             let oldLen = readableBytes (outputBuffer c);
                 c = (if oldLen + remaining \<ge> highWaterMark c \<and> oldLen < highWaterMark c \<and> hasHighWaterMark c
                      then queueInLoop (F_highWaterMark (oldLen + remaining)) c else c)
             in (case append_bytes (drop nwrote data) (outputBuffer c) of
                   None \<Rightarrow> None
                 | Some b \<Rightarrow> Some (let c = c\<lparr>outputBuffer := b\<rparr> in if \<not> writing c then enableWriting c else c, ios))
           else Some (c, ios))"

text \<open>\<open>send\<close> in the thread of the loop and in another thread; both overloads hand over a copy of the bytes.\<close>

definition tcp_send :: "bool \<Rightarrow> wres \<Rightarrow> string \<Rightarrow> TcpConnection \<Rightarrow> conn_result" where
  "tcp_send inLoop w data c =
     (if conn_state c = kConnected
      then if inLoop then sendInLoop w data c else Some (queueInLoop (F_sendInLoop data) c, [])
      else Some (c, []))"

definition shutdownInLoop :: "TcpConnection \<Rightarrow> conn_result" where
  "shutdownInLoop c = Some (c, if \<not> writing c then [ShutdownWrite] else [])"

definition tcp_shutdown :: "bool \<Rightarrow> TcpConnection \<Rightarrow> conn_result" where
  "tcp_shutdown inLoop c =
     (if conn_state c = kConnected
      then let c = c\<lparr>conn_state := kDisconnecting\<rparr> in
        if inLoop then shutdownInLoop c else Some (queueInLoop F_shutdownInLoop c, [])
      else Some (c, []))"

definition forceClose :: "TcpConnection \<Rightarrow> conn_result" where
  "forceClose c =
     (if conn_state c = kConnected \<or> conn_state c = kDisconnecting
      then Some (queueInLoop F_forceCloseInLoop (c\<lparr>conn_state := kDisconnecting\<rparr>), [])
      else Some (c, []))"

text \<open>The two halves of \<open>forceClose\<close> and of \<open>shutdown\<close>, between which another thread may be interrupted: the check of the state, and, when it held, the
  store and the queueing of the functor.\<close>

definition forceClose_check :: "TcpConnection \<Rightarrow> bool" where
  "forceClose_check c \<longleftrightarrow> conn_state c = kConnected \<or> conn_state c = kDisconnecting"

definition forceClose_store :: "TcpConnection \<Rightarrow> TcpConnection" where
  "forceClose_store c = queueInLoop F_forceCloseInLoop (c\<lparr>conn_state := kDisconnecting\<rparr>)"

definition shutdown_store :: "TcpConnection \<Rightarrow> TcpConnection" where
  "shutdown_store c = queueInLoop F_shutdownInLoop (c\<lparr>conn_state := kDisconnecting\<rparr>)"

lemma forceClose_halves: "forceClose c = Some (if forceClose_check c then forceClose_store c else c, [])"
  by (simp add: forceClose_def forceClose_check_def forceClose_store_def)

lemma shutdown_halves: "tcp_shutdown False c = Some (if conn_state c = kConnected then shutdown_store c else c, [])"
  by (simp add: tcp_shutdown_def shutdown_store_def Let_def)

text \<open>The timer holds a weak reference to the connection; when it fires it calls \<open>forceClose\<close>.\<close>

definition forceCloseWithDelay :: "TcpConnection \<Rightarrow> conn_result" where
  "forceCloseWithDelay c =
     (if conn_state c = kConnected \<or> conn_state c = kDisconnecting
      then Some (c\<lparr>conn_state := kDisconnecting, delayedCloses := delayedCloses c + 1\<rparr>, [])
      else Some (c, []))"

section \<open>Calls of the interface\<close>

datatype Api = ApiSend string wres | ApiShutdown | ApiForceClose | ApiForceCloseWithDelay | ApiRetrieve nat

definition do_api :: "bool \<Rightarrow> Api \<Rightarrow> TcpConnection \<Rightarrow> conn_result" where
  "do_api inLoop a c = (case a of
       ApiSend d w \<Rightarrow> tcp_send inLoop w d c
     | ApiShutdown \<Rightarrow> tcp_shutdown inLoop c
     | ApiForceClose \<Rightarrow> forceClose c
     | ApiForceCloseWithDelay \<Rightarrow> forceCloseWithDelay c
     | ApiRetrieve n \<Rightarrow> map_option (\<lambda>b. (c\<lparr>inputBuffer := b\<rparr>, [])) (retrieve (min n (readableBytes (inputBuffer c))) (inputBuffer c)))"

text \<open>A callback of the user, run in the loop: a list of calls.\<close>

primrec callback :: "Api list \<Rightarrow> TcpConnection \<Rightarrow> conn_result" where
  "callback [] c = Some (c, [])"
| "callback (a # as) c = seqc (do_api True a c) (callback as)"

section \<open>Handlers\<close>

definition connectEstablished :: "Api list \<Rightarrow> TcpConnection \<Rightarrow> conn_result" where
  "connectEstablished user c =
     (if conn_state c \<noteq> kConnecting then None
      else seqc (Some (enableReading (c\<lparr>conn_state := kConnected\<rparr>), [ConnectionUp])) (callback user))"

definition connectDestroyed :: "Api list \<Rightarrow> TcpConnection \<Rightarrow> conn_result" where
  "connectDestroyed user c =
     seqc (if conn_state c = kConnected
           then seqc (Some (disableAll (c\<lparr>conn_state := kDisconnected\<rparr>), [ConnectionDown])) (callback user)
           else Some (c, []))
       channel_remove"

definition handleClose :: "Api list \<Rightarrow> TcpConnection \<Rightarrow> conn_result" where
  "handleClose user c =
     (if conn_state c = kConnected \<or> conn_state c = kDisconnecting
      then seqc (seqc (Some (disableAll (c\<lparr>conn_state := kDisconnected\<rparr>), [ConnectionDown])) (callback user)) (\<lambda>c. Some (c, [CloseCb]))
      else None)"

definition handleError :: "TcpConnection \<Rightarrow> conn_result" where
  "handleError c = Some (c, [SocketError])"

definition handleRead :: "string option \<Rightarrow> Api list \<Rightarrow> TcpConnection \<Rightarrow> conn_result" where
  "handleRead received user c =
     (case readFd received (inputBuffer c) of
        None \<Rightarrow> None
      | Some b \<Rightarrow>
          let c = c\<lparr>inputBuffer := b\<rparr> in
          (case received of
             Some d \<Rightarrow> if d \<noteq> [] then seqc (Some (c, [MessageCb])) (callback user) else handleClose user c
           | None \<Rightarrow> handleError c))"

definition handleWrite :: "wres \<Rightarrow> TcpConnection \<Rightarrow> conn_result" where
  "handleWrite w c =
     (if writing c then
        (case sock_write w (content (outputBuffer c)) of
           Inl n \<Rightarrow>
             if n > 0 then
               (case retrieve n (outputBuffer c) of
                  None \<Rightarrow> None
                | Some b \<Rightarrow>
                    let ios = [Write (take n (content (outputBuffer c)))]; c = c\<lparr>outputBuffer := b\<rparr> in
                    if readableBytes b = 0 then
                      (let c = disableWriting c;
                           c = (if hasWriteComplete c then queueInLoop F_writeComplete c else c)
                       in seqc (Some (c, ios)) (\<lambda>c. if conn_state c = kDisconnecting then shutdownInLoop c else Some (c, [])))
                    else Some (c, ios))
             else Some (c, [])
         | Inr _ \<Rightarrow> Some (c, []))
      else Some (c, []))"

definition forceCloseInLoop :: "Api list \<Rightarrow> TcpConnection \<Rightarrow> conn_result" where
  "forceCloseInLoop user c =
     (if conn_state c = kConnected \<or> conn_state c = kDisconnecting then handleClose user c else Some (c, []))"

text \<open>The destructor of the connection, run when its last owner lets go of it.\<close>

definition destroyTcpConnection :: "TcpConnection \<Rightarrow> unit option" where
  "destroyTcpConnection c = (if conn_state c = kDisconnected then Some () else None)"

text \<open>The events the poller reports.\<close>

record revents =
  POLLIN :: bool
  POLLPRI :: bool
  POLLRDHUP :: bool
  POLLOUT :: bool
  POLLHUP :: bool
  POLLERR :: bool
  POLLNVAL :: bool

definition handleEventWithGuard :: "revents \<Rightarrow> string option \<Rightarrow> wres \<Rightarrow> Api list \<Rightarrow> TcpConnection \<Rightarrow> conn_result" where
  "handleEventWithGuard ev received w user c =
     seqc (if POLLHUP ev \<and> \<not> POLLIN ev then handleClose user c else Some (c, [])) (\<lambda>c.
     seqc (if POLLERR ev \<or> POLLNVAL ev then handleError c else Some (c, [])) (\<lambda>c.
     seqc (if POLLIN ev \<or> POLLPRI ev \<or> POLLRDHUP ev then handleRead received user c else Some (c, [])) (\<lambda>c.
     if POLLOUT ev then handleWrite w c else Some (c, []))))"

text \<open>One functor of the list that \<open>doPendingFunctors\<close> has taken over.\<close>

definition run_functor :: "wres \<Rightarrow> Api list \<Rightarrow> Functor \<Rightarrow> TcpConnection \<Rightarrow> conn_result" where
  "run_functor w user f c = (case f of
       F_sendInLoop d \<Rightarrow> sendInLoop w d c
     | F_shutdownInLoop \<Rightarrow> shutdownInLoop c
     | F_forceCloseInLoop \<Rightarrow> forceCloseInLoop user c
     | F_writeComplete \<Rightarrow> seqc (Some (c, [WriteCompleteCb])) (callback user)
     | F_highWaterMark n \<Rightarrow> seqc (Some (c, [HighWaterMarkCb n])) (callback user)
     | F_connectEstablished \<Rightarrow> connectEstablished user c
     | F_connectDestroyed \<Rightarrow> connectDestroyed user c)"

section \<open>The steps of a connection\<close>

text \<open>
  What the poller reports: only events the channel has asked for, apart from errors and hang-ups.  A hang-up with urgent data but nothing to read is a
  report that the handlers are not made for: they close the connection and then read from it.  The steps below leave it out; \<open>urgent_hangup_asserts\<close> of
  \<open>TcpConnectionProps\<close> shows what it would do.
\<close>

definition poll_ok :: "revents \<Rightarrow> TcpConnection \<Rightarrow> bool" where
  "poll_ok ev c \<longleftrightarrow> (reading c \<or> writing c) \<and> (POLLIN ev \<or> POLLPRI ev \<longrightarrow> reading c) \<and> (POLLOUT ev \<longrightarrow> writing c) \<and>
     \<not> POLLRDHUP ev"

definition urgent_hangup :: "revents \<Rightarrow> bool" where
  "urgent_hangup ev \<longleftrightarrow> POLLHUP ev \<and> \<not> POLLIN ev \<and> POLLPRI ev"

text \<open>
  A step is a call of the interface, in the loop or in another thread, one round of event handling, the two parts of \<open>doPendingFunctors\<close>, a timer of
  \<open>forceCloseWithDelay\<close>, or \<open>TcpServer::removeConnectionInLoop\<close>, which the close callback leads to.  In these steps a call of another thread is one
  atomic step.
\<close>

inductive tcp_step :: "TcpConnection \<Rightarrow> conn_result \<Rightarrow> bool" where
  api: "tcp_step c (do_api inLoop a c)"
| event: "poll_ok ev c \<Longrightarrow> \<not> urgent_hangup ev \<Longrightarrow> tcp_step c (handleEventWithGuard ev received w user c)"
| swap: "functors c = [] \<Longrightarrow> tcp_step c (Some (c\<lparr>functors := pendingFunctors c, pendingFunctors := []\<rparr>, []))"
| run: "functors c = f # fs \<Longrightarrow> tcp_step c (run_functor w user f (c\<lparr>functors := fs\<rparr>))"
| timer: "0 < delayedCloses c \<Longrightarrow> tcp_step c (forceClose (c\<lparr>delayedCloses := delayedCloses c - 1\<rparr>))"
| remove: "conn_state c = kDisconnected \<Longrightarrow> addedToLoop c \<Longrightarrow> F_connectDestroyed \<notin> set (functors c @ pendingFunctors c) \<Longrightarrow>
    tcp_step c (Some (queueInLoop F_connectDestroyed c, []))"

inductive tcp_trace :: "bool \<Rightarrow> bool \<Rightarrow> io list \<Rightarrow> TcpConnection \<Rightarrow> bool" for wc hw where
  start: "tcp_trace wc hw [] (newTcpConnection wc hw)"
| extend: "tcp_trace wc hw t c \<Longrightarrow> tcp_step c (Some (c', ios)) \<Longrightarrow> tcp_trace wc hw (t @ ios) c'"

text \<open>
  The steps of a connection that is used the way its header says: \<open>shutdown\<close> is not thread safe, and \<open>forceClose\<close> and
  \<open>forceCloseWithDelay\<close> check and set the state without synchronisation as it does, so only the loop thread (callbacks included) calls them; other threads only
  send.  A thread that sends may have seen the state \<open>kConnected\<close> any time before it queues its functor; it keeps its \<open>TcpConnectionPtr\<close> until the functor, which
  holds a raw pointer, has run.  The destructor of the server may
  destroy a connection that is connected; \<open>server_destructor_asserts\<close> of \<open>TcpConnectionProps\<close> is about one that is being closed.
\<close>

inductive conn_step :: "TcpConnection \<Rightarrow> conn_result \<Rightarrow> bool" where
  api: "conn_step c (do_api True a c)"
| other_send: "conn_state c \<noteq> kConnecting \<Longrightarrow> conn_step c (Some (queueInLoop (F_sendInLoop d) c, []))"
| event: "poll_ok ev c \<Longrightarrow> \<not> urgent_hangup ev \<Longrightarrow> conn_step c (handleEventWithGuard ev received w user c)"
| swap: "functors c = [] \<Longrightarrow> conn_step c (Some (c\<lparr>functors := pendingFunctors c, pendingFunctors := []\<rparr>, []))"
| run: "functors c = f # fs \<Longrightarrow> conn_step c (run_functor w user f (c\<lparr>functors := fs\<rparr>))"
| timer: "0 < delayedCloses c \<Longrightarrow> conn_step c (forceClose (c\<lparr>delayedCloses := delayedCloses c - 1\<rparr>))"
| remove: "conn_state c = kDisconnected \<Longrightarrow> addedToLoop c \<Longrightarrow> F_connectDestroyed \<notin> set (functors c @ pendingFunctors c) \<Longrightarrow>
    conn_step c (Some (queueInLoop F_connectDestroyed c, []))"
| destroy: "conn_state c = kConnected \<Longrightarrow> conn_step c (connectDestroyed user c)"

inductive conn_trace :: "bool \<Rightarrow> bool \<Rightarrow> io list \<Rightarrow> TcpConnection \<Rightarrow> bool" for wc hw where
  start: "conn_trace wc hw [] (newTcpConnection wc hw)"
| extend: "conn_trace wc hw t c \<Longrightarrow> conn_step c (Some (c', ios)) \<Longrightarrow> conn_trace wc hw (t @ ios) c'"

section \<open>The contract of a handler\<close>

definition accepted :: "io list \<Rightarrow> string" where
  "accepted t = concat (map (\<lambda>x. case x of Accept d \<Rightarrow> d | _ \<Rightarrow> []) t)"

definition written :: "io list \<Rightarrow> string" where
  "written t = concat (map (\<lambda>x. case x of Write d \<Rightarrow> d | _ \<Rightarrow> []) t)"

definition life_cbs :: "io list \<Rightarrow> io list" where
  "life_cbs t = filter (\<lambda>x. x \<in> {ConnectionUp, ConnectionDown, CloseCb}) t"

lemma accepted_simps [simp]: "accepted [] = []" "accepted (a @ b) = accepted a @ accepted b"
  "accepted (x # t) = (case x of Accept d \<Rightarrow> d | _ \<Rightarrow> []) @ accepted t"
  by (simp_all add: accepted_def)

lemma written_simps [simp]: "written [] = []" "written (a @ b) = written a @ written b"
  "written (x # t) = (case x of Write d \<Rightarrow> d | _ \<Rightarrow> []) @ written t"
  by (simp_all add: written_def)

lemma life_cbs_simps [simp]: "life_cbs [] = []" "life_cbs (a @ b) = life_cbs a @ life_cbs b"
  "life_cbs (x # t) = (if x \<in> {ConnectionUp, ConnectionDown, CloseCb} then x # life_cbs t else life_cbs t)"
  by (simp_all add: life_cbs_def)

text \<open>The callbacks that a connection in a given state has made.\<close>

definition life :: "StateE \<Rightarrow> io list" where
  "life s = (case s of kConnecting \<Rightarrow> [] | kConnected \<Rightarrow> [ConnectionUp] | kDisconnecting \<Rightarrow> [ConnectionUp]
     | kDisconnected \<Rightarrow> [ConnectionUp, ConnectionDown, CloseCb])"

definition open_state :: "StateE \<Rightarrow> bool" where
  "open_state s \<longleftrightarrow> s = kConnected \<or> s = kDisconnecting"

text \<open>The invariant: the channel reads as long as the connection is open, and then waits to write exactly when there is output left.\<close>

definition conn_inv :: "TcpConnection \<Rightarrow> bool" where
  "conn_inv c \<longleftrightarrow> buf_inv (inputBuffer c) \<and> buf_inv (outputBuffer c) \<and> (reading c \<longleftrightarrow> open_state (conn_state c)) \<and>
     (writing c \<longrightarrow> reading c) \<and> (reading c \<longrightarrow> (writing c \<longleftrightarrow> content (outputBuffer c) \<noteq> [])) \<and>
     (conn_state c = kConnecting \<longrightarrow> content (outputBuffer c) = [])"

definition life_functor :: "Functor \<Rightarrow> bool" where
  "life_functor f \<longleftrightarrow> f = F_connectEstablished \<or> f = F_connectDestroyed"

definition closing :: "TcpConnection \<Rightarrow> bool" where
  "closing c \<longleftrightarrow> conn_state c = kDisconnecting \<or> conn_state c = kDisconnected"

text \<open>Handlers only queue functors that do not begin or end the life of the connection, and \<open>shutdownInLoop\<close> only when it is being closed.\<close>

definition adds :: "TcpConnection \<Rightarrow> TcpConnection \<Rightarrow> bool" where
  "adds c c' \<longleftrightarrow> functors c' = functors c \<and> filter life_functor (pendingFunctors c') = filter life_functor (pendingFunctors c) \<and>
     (F_shutdownInLoop \<in> set (pendingFunctors c') \<longrightarrow> F_shutdownInLoop \<in> set (pendingFunctors c) \<or> closing c')"

definition step_ok :: "TcpConnection \<Rightarrow> io list \<Rightarrow> TcpConnection \<Rightarrow> bool" where
  "step_ok c ios c' \<longleftrightarrow> conn_inv c' \<and> adds c c' \<and>
     content (outputBuffer c) @ accepted ios = written ios @ content (outputBuffer c') \<and>
     life (conn_state c) @ life_cbs ios = life (conn_state c') \<and> (conn_state c = kConnecting \<longleftrightarrow> conn_state c' = kConnecting) \<and>
     (conn_state c = kConnecting \<longrightarrow> pendingFunctors c' = pendingFunctors c) \<and>
     (closing c \<longrightarrow> closing c')"

text \<open>
  After the write side has been shut down nothing is written any more.  A connection is quiet when that is settled: it no longer takes messages of its
  user and has no output left.  A handler shuts the write side down only after all output, leaves the connection quiet, and does nothing to the
  socket of a quiet connection.
\<close>

definition quiet :: "TcpConnection \<Rightarrow> bool" where
  "quiet c \<longleftrightarrow> closing c \<and> \<not> writing c"

definition silent :: "io list \<Rightarrow> bool" where
  "silent ios \<longleftrightarrow> (\<forall>x \<in> set ios. (\<forall>d. x \<noteq> Accept d) \<and> (\<forall>d. x \<noteq> Write d))"

definition shut_ok :: "TcpConnection \<Rightarrow> io list \<Rightarrow> TcpConnection \<Rightarrow> bool" where
  "shut_ok c ios c' \<longleftrightarrow> (quiet c \<longrightarrow> silent ios \<and> quiet c') \<and>
     (\<forall>pre post. ios = pre @ ShutdownWrite # post \<longrightarrow>
       (conn_state c \<noteq> kDisconnected \<and> ConnectionDown \<notin> set pre \<longrightarrow> content (outputBuffer c) @ accepted pre = written pre) \<and>
       silent post \<and> quiet c')"

definition good :: "TcpConnection \<Rightarrow> conn_result \<Rightarrow> bool" where
  "good c r \<longleftrightarrow> (\<exists>c' ios. r = Some (c', ios) \<and> step_ok c ios c' \<and> shut_ok c ios c')"

text \<open>A message that another thread has queued may be written later: only the first part of the contract.\<close>

definition good_late :: "TcpConnection \<Rightarrow> conn_result \<Rightarrow> bool" where
  "good_late c r \<longleftrightarrow> (\<exists>c' ios. r = Some (c', ios) \<and> step_ok c ios c')"

lemma good_good_late: "good c r \<Longrightarrow> good_late c r"
  by (auto simp: good_def good_late_def)

lemma shut_ok_plain: "ShutdownWrite \<notin> set ios \<Longrightarrow> (quiet c \<Longrightarrow> silent ios \<and> quiet c') \<Longrightarrow> shut_ok c ios c'"
  by (auto simp: shut_ok_def)

lemma silent_simps [simp]: "silent []" "silent (a @ b) \<longleftrightarrow> silent a \<and> silent b"
  "silent (x # t) \<longleftrightarrow> (\<forall>d. x \<noteq> Accept d) \<and> (\<forall>d. x \<noteq> Write d) \<and> silent t"
  by (auto simp: silent_def)

lemma silent_streams: "silent t \<Longrightarrow> accepted t = [] \<and> written t = []"
  by (induction t) (auto split: io.splits)

lemma step_ok_open:
  assumes "step_ok c a c1" "conn_state c \<noteq> kDisconnected" "ConnectionDown \<notin> set a"
  shows "conn_state c1 \<noteq> kDisconnected"
proof
  assume "conn_state c1 = kDisconnected"
  then have "life (conn_state c) @ life_cbs a = [ConnectionUp, ConnectionDown, CloseCb]" using assms(1) by (simp add: step_ok_def life_def)
  then have "ConnectionDown \<in> set (life_cbs a)" using assms(2) by (cases "conn_state c") (auto simp: life_def)
  with assms(3) show False by (simp add: life_cbs_def)
qed

lemma shut_ok_append:
  assumes st: "content (outputBuffer c) @ accepted a = written a @ content (outputBuffer c1)"
    and op: "conn_state c \<noteq> kDisconnected \<Longrightarrow> ConnectionDown \<notin> set a \<Longrightarrow> conn_state c1 \<noteq> kDisconnected"
    and a: "shut_ok c a c1" and b: "shut_ok c1 b c2"
  shows "shut_ok c (a @ b) c2"
proof -
  have "(conn_state c \<noteq> kDisconnected \<and> ConnectionDown \<notin> set pre \<longrightarrow> content (outputBuffer c) @ accepted pre = written pre) \<and>
      silent post \<and> quiet c2" if e: "a @ b = pre @ ShutdownWrite # post" for pre post
  proof -
    from e consider us where "a = pre @ ShutdownWrite # us" "post = us @ b" | us where "pre = a @ us" "b = us @ ShutdownWrite # post"
      by (auto simp: append_eq_append_conv2 append_eq_Cons_conv Cons_eq_append_conv)
    then show ?thesis
    proof cases
      case 1
      then show ?thesis using a b unfolding shut_ok_def by auto
    next
      case 2
      then have q: "silent post" "quiet c2"
        "conn_state c1 \<noteq> kDisconnected \<and> ConnectionDown \<notin> set us \<longrightarrow> content (outputBuffer c1) @ accepted us = written us"
        using b unfolding shut_ok_def by auto
      show ?thesis using 2(1) q st op by simp (metis append.assoc)
    qed
  qed
  then show ?thesis using a b unfolding shut_ok_def by auto
qed

lemma shut_ok_trans: "step_ok c a c1 \<Longrightarrow> shut_ok c a c1 \<Longrightarrow> shut_ok c1 b c2 \<Longrightarrow> shut_ok c (a @ b) c2"
  by (rule shut_ok_append) (simp_all add: step_ok_open, simp add: step_ok_def)

lemma step_ok_trans: "step_ok c a c1 \<Longrightarrow> step_ok c1 b c2 \<Longrightarrow> step_ok c (a @ b) c2"
  unfolding step_ok_def adds_def by (metis accepted_simps(2) append.assoc life_cbs_simps(2) written_simps(2))

lemma conn_inv_input: "conn_inv c \<Longrightarrow> buf_inv b \<Longrightarrow> conn_inv (c\<lparr>inputBuffer := b\<rparr>)"
  by (auto simp: conn_inv_def)

lemma shut_ok_Nil [simp]: "shut_ok c [] c' \<longleftrightarrow> (quiet c \<longrightarrow> quiet c')"
  by (simp add: shut_ok_def)

lemma good_skip: "conn_inv c \<Longrightarrow> good c (Some (c, []))"
  by (simp add: good_def step_ok_def adds_def)

lemma seqc_skip [simp]: "seqc (Some (c, [])) f = f c"
  by (simp add: seqc_def split: option.splits)

lemma good_seqcI:
  assumes "good c m" "\<And>c' ios. m = Some (c', ios) \<Longrightarrow> step_ok c ios c' \<Longrightarrow> good c' (f c')"
  shows "good c (seqc m f)"
proof -
  obtain c1 a where m: "m = Some (c1, a)" "step_ok c a c1" "shut_ok c a c1" using assms(1) by (auto simp: good_def)
  obtain c2 b where f: "f c1 = Some (c2, b)" "step_ok c1 b c2" "shut_ok c1 b c2" using assms(2) [OF m(1,2)] by (auto simp: good_def)
  show ?thesis using m f step_ok_trans [OF m(2) f(2)] shut_ok_trans [OF m(2,3) f(3)] by (auto simp: good_def seqc_def)
qed

lemma good_seqc: "good c m \<Longrightarrow> (\<And>c'. conn_inv c' \<Longrightarrow> good c' (f c')) \<Longrightarrow> good c (seqc m f)"
  by (rule good_seqcI) (auto simp: step_ok_def)

lemma queueInLoop_sel [simp]:
  "conn_state (queueInLoop f c) = conn_state c" "reading (queueInLoop f c) = reading c" "writing (queueInLoop f c) = writing c"
  "inputBuffer (queueInLoop f c) = inputBuffer c" "outputBuffer (queueInLoop f c) = outputBuffer c" "functors (queueInLoop f c) = functors c"
  "highWaterMark (queueInLoop f c) = highWaterMark c" "hasHighWaterMark (queueInLoop f c) = hasHighWaterMark c"
  "hasWriteComplete (queueInLoop f c) = hasWriteComplete c" "addedToLoop (queueInLoop f c) = addedToLoop c"
  "pendingFunctors (queueInLoop f c) = pendingFunctors c @ [f]" "delayedCloses (queueInLoop f c) = delayedCloses c"
  by (simp_all add: queueInLoop_def)

lemma channel_sel [simp]:
  "conn_state (enableWriting c) = conn_state c" "reading (enableWriting c) = reading c" "writing (enableWriting c)"
  "inputBuffer (enableWriting c) = inputBuffer c" "outputBuffer (enableWriting c) = outputBuffer c" "functors (enableWriting c) = functors c"
  "pendingFunctors (enableWriting c) = pendingFunctors c"
  "conn_state (disableWriting c) = conn_state c" "reading (disableWriting c) = reading c" "\<not> writing (disableWriting c)"
  "inputBuffer (disableWriting c) = inputBuffer c" "outputBuffer (disableWriting c) = outputBuffer c" "functors (disableWriting c) = functors c"
  "pendingFunctors (disableWriting c) = pendingFunctors c" "hasWriteComplete (disableWriting c) = hasWriteComplete c"
  by (simp_all add: enableWriting_def disableWriting_def)

lemma closing_sel [simp]:
  "closing (queueInLoop f c) = closing c" "closing (enableWriting c) = closing c" "closing (disableWriting c) = closing c"
  "closing (c\<lparr>outputBuffer := b\<rparr>) = closing c" "closing (c\<lparr>functors := fs\<rparr>) = closing c"
  "closing (c\<lparr>pendingFunctors := fs\<rparr>) = closing c" "closing (c\<lparr>addedToLoop := a\<rparr>) = closing c" "closing (c\<lparr>delayedCloses := n\<rparr>) = closing c"
  by (simp_all add: closing_def)

lemma good_queue:
  assumes "conn_inv c" "\<not> life_functor f" "conn_state c \<noteq> kConnecting" "f = F_shutdownInLoop \<longrightarrow> closing c"
  shows "good c (Some (queueInLoop f c, []))"
  using assms by (auto simp: good_def step_ok_def adds_def conn_inv_def quiet_def closing_def)

text \<open>The outcome of \<open>sendInLoop\<close> in terms of the content of the buffer.\<close>

lemma sendInLoop_step:
  assumes c: "conn_inv c" and st: "conn_state c \<noteq> kConnecting"
  shows "\<exists>c' ios. sendInLoop w data c = Some (c', ios) \<and> step_ok c ios c' \<and> ShutdownWrite \<notin> set ios"
proof (cases "conn_state c = kDisconnected")
  case True
  then show ?thesis using c by (simp add: sendInLoop_def step_ok_def adds_def)
next
  case False
  then have op: "open_state (conn_state c)" using st by (cases "conn_state c") (auto simp: open_state_def)
  have inv: "buf_inv (inputBuffer c)" "buf_inv (outputBuffer c)" "reading c" "writing c \<longleftrightarrow> content (outputBuffer c) \<noteq> []"
    using c op by (auto simp: conn_inv_def)
  define direct where "direct = (\<not> writing c \<and> readableBytes (outputBuffer c) = 0)"
  have direct: "direct \<longleftrightarrow> \<not> writing c" using inv by (auto simp: direct_def)
  define r where "r = (if direct then sock_write w data else Inl 0)"
  define n where "n = (case r of Inl n \<Rightarrow> n | Inr _ \<Rightarrow> 0)"
  define fault where "fault = (r = Inr EPIPE \<or> r = Inr ECONNRESET)"
  define c1 where "c1 = (if direct \<and> r = Inl (length data) \<and> hasWriteComplete c then queueInLoop F_writeComplete c else c)"
  let ?ios = "(if fault then [] else [Accept data]) @ (if direct \<and> isl r then [Write (take n data)] else [])"
  have n: "n \<le> length data" "\<not> direct \<Longrightarrow> n = 0" "\<not> isl r \<Longrightarrow> n = 0"
    by (auto simp: n_def r_def sock_write_def split: wres.splits sum.splits)
  have f: "fault \<Longrightarrow> \<not> isl r" by (auto simp: fault_def)
  have c1: "conn_inv c1" "adds c c1" "outputBuffer c1 = outputBuffer c" "conn_state c1 = conn_state c" "writing c1 = writing c"
    using c by (auto simp: c1_def conn_inv_def adds_def life_functor_def)
  have un: "sendInLoop w data c = (if \<not> fault \<and> length data - n > 0 then
      (let oldLen = readableBytes (outputBuffer c1);
           c2 = (if oldLen + (length data - n) \<ge> highWaterMark c1 \<and> oldLen < highWaterMark c1 \<and> hasHighWaterMark c1
                 then queueInLoop (F_highWaterMark (oldLen + (length data - n))) c1 else c1)
       in case append_bytes (drop n data) (outputBuffer c2) of None \<Rightarrow> None
          | Some b \<Rightarrow> Some (let c = c2\<lparr>outputBuffer := b\<rparr> in if \<not> writing c then enableWriting c else c, ?ios))
      else Some (c1, ?ios))"
    unfolding sendInLoop_def if_not_P [OF False] Let_def c1_def fault_def n_def r_def direct_def by (rule refl)
  show ?thesis
  proof (cases "\<not> fault \<and> length data - n > 0")
    case True
    define c2 where "c2 = (if readableBytes (outputBuffer c1) + (length data - n) \<ge> highWaterMark c1 \<and> readableBytes (outputBuffer c1) < highWaterMark c1 \<and>
      hasHighWaterMark c1 then queueInLoop (F_highWaterMark (readableBytes (outputBuffer c1) + (length data - n))) c1 else c1)"
    have c2: "conn_inv c2" "adds c c2" "outputBuffer c2 = outputBuffer c" "conn_state c2 = conn_state c" "writing c2 = writing c"
      using c1 by (auto simp: c2_def conn_inv_def adds_def life_functor_def)
    obtain b where b: "append_bytes (drop n data) (outputBuffer c) = Some b" "buf_inv b" "content b = content (outputBuffer c) @ drop n data"
      using append_spec [OF inv(2)] by blast
    let ?c = "let c = c2\<lparr>outputBuffer := b\<rparr> in if \<not> writing c then enableWriting c else c"
    have "sendInLoop w data c = Some (?c, ?ios)" using un True b(1) c2(3) by (simp add: c2_def Let_def)
    moreover have "conn_inv ?c" "adds c ?c" "outputBuffer ?c = b" "conn_state ?c = conn_state c"
      using c2 b op True by (auto simp: Let_def conn_inv_def adds_def open_state_def)
    moreover have "content (outputBuffer c) @ accepted ?ios = written ?ios @ content b"
      using True b(3) n f inv(4) direct by auto
    ultimately show ?thesis using st by (auto simp: step_ok_def closing_def)
  next
    case False
    have "sendInLoop w data c = Some (c1, ?ios)" using un unfolding if_not_P [OF False] .
    moreover have "content (outputBuffer c) @ accepted ?ios = written ?ios @ content (outputBuffer c1)"
      using False n f inv(4) c1(3) direct by auto
    ultimately show ?thesis using c1 st by (auto simp: step_ok_def closing_def)
  qed
qed

lemma good_late_sendInLoop: "conn_inv c \<Longrightarrow> conn_state c \<noteq> kConnecting \<Longrightarrow> good_late c (sendInLoop w data c)"
  using sendInLoop_step unfolding good_late_def by blast

lemma good_sendInLoop: "conn_inv c \<Longrightarrow> conn_state c = kConnected \<Longrightarrow> good c (sendInLoop w data c)"
proof -
  assume c: "conn_inv c" "conn_state c = kConnected"
  then obtain c' ios where "sendInLoop w data c = Some (c', ios)" "step_ok c ios c'" "ShutdownWrite \<notin> set ios"
    using sendInLoop_step [of c w data] by auto
  moreover from this(3) have "shut_ok c ios c'" using c(2) by (intro shut_ok_plain) (simp_all add: quiet_def closing_def)
  ultimately show ?thesis by (auto simp: good_def)
qed

lemma good_shutdownInLoop: "conn_inv c \<Longrightarrow> closing c \<Longrightarrow> good c (shutdownInLoop c)"
  by (auto simp: shutdownInLoop_def good_def step_ok_def adds_def shut_ok_def Cons_eq_append_conv quiet_def conn_inv_def open_state_def closing_def)

text \<open>A change of the state between connected and disconnecting keeps the invariant.\<close>

lemma conn_inv_disconnecting: "conn_inv c \<Longrightarrow> conn_state c = kConnected \<or> conn_state c = kDisconnecting \<Longrightarrow> conn_inv (c\<lparr>conn_state := kDisconnecting\<rparr>)"
  by (auto simp: conn_inv_def open_state_def)

text \<open>The contract does not depend on the input buffer, the timers and the flags.\<close>

lemma good_cong:
  assumes "conn_state c = conn_state d" "writing c = writing d" "functors c = functors d" "pendingFunctors c = pendingFunctors d"
    "outputBuffer c = outputBuffer d"
  shows "good c r = good d r"
  using assms by (simp add: good_def step_ok_def adds_def shut_ok_def quiet_def closing_def)

lemma good_disconnecting:
  assumes "conn_state c = kConnected \<or> conn_state c = kDisconnecting" "good (c\<lparr>conn_state := kDisconnecting\<rparr>) r"
  shows "good c r"
proof (cases "conn_state c = kDisconnecting")
  case True
  then show ?thesis using good_cong [of c "c\<lparr>conn_state := kDisconnecting\<rparr>"] assms(2) by simp
next
  case False
  then show ?thesis using assms by (auto simp: good_def step_ok_def adds_def life_def shut_ok_def quiet_def closing_def)
qed

lemma good_do_api:
  assumes "conn_inv c"
  shows "good c (do_api inLoop a c)"
proof (cases a)
  case (ApiSend d w)
  then show ?thesis using good_sendInLoop [OF assms, of w d] good_queue [OF assms] good_skip [OF assms]
    by (simp add: do_api_def tcp_send_def life_functor_def)
next
  case ApiShutdown
  then show ?thesis
    using good_disconnecting [of c] good_shutdownInLoop [OF conn_inv_disconnecting [OF assms]] good_skip [OF assms]
      good_queue [OF conn_inv_disconnecting [OF assms]] by (simp add: do_api_def tcp_shutdown_def life_functor_def Let_def closing_def)
next
  case ApiForceClose
  then show ?thesis using good_disconnecting [of c] good_skip [OF assms] good_queue [OF conn_inv_disconnecting [OF assms]]
    by (simp add: do_api_def forceClose_def life_functor_def)
next
  case ApiForceCloseWithDelay
  then show ?thesis using good_skip [OF assms] assms
    by (auto simp: do_api_def forceCloseWithDelay_def good_def step_ok_def adds_def conn_inv_def open_state_def life_def quiet_def closing_def)
next
  case (ApiRetrieve n)
  have "buf_inv (inputBuffer c)" using assms by (simp add: conn_inv_def)
  then obtain b where "retrieve (min n (readableBytes (inputBuffer c))) (inputBuffer c) = Some b" "buf_inv b"
    using retrieve_spec [of "inputBuffer c" "min n (readableBytes (inputBuffer c))"] by auto
  then show ?thesis using assms ApiRetrieve by (auto simp: do_api_def good_def step_ok_def adds_def conn_inv_def quiet_def closing_def)
qed

lemma good_callback: "conn_inv c \<Longrightarrow> good c (callback user c)"
proof (induction user arbitrary: c)
  case (Cons a user)
  then show ?case using good_seqc [OF good_do_api [OF Cons.prems]] by simp
qed (simp add: good_skip)

text \<open>Once the connection is closed the interface only takes bytes out of the input buffer.\<close>

lemma callback_disconnected:
  assumes "conn_state c = kDisconnected" "conn_inv c"
  shows "\<exists>b. buf_inv b \<and> callback user c = Some (c\<lparr>inputBuffer := b\<rparr>, [])"
  using assms
proof (induction user arbitrary: c)
  case Nil
  then show ?case by (intro exI [of _ "inputBuffer c"]) (simp add: conn_inv_def)
next
  case (Cons a user)
  have b: "buf_inv (inputBuffer c)" using Cons.prems(2) by (simp add: conn_inv_def)
  have "\<exists>b. buf_inv b \<and> do_api True a c = Some (c\<lparr>inputBuffer := b\<rparr>, [])"
  proof (cases a)
    case (ApiRetrieve n)
    then show ?thesis using retrieve_spec [OF b, of "min n (readableBytes (inputBuffer c))"] b by (auto simp: do_api_def)
  qed (use Cons.prems(1) b in \<open>auto simp: do_api_def tcp_send_def tcp_shutdown_def forceClose_def forceCloseWithDelay_def intro!: exI [of _ "inputBuffer c"]\<close>)
  then obtain b1 where b1: "buf_inv b1" "do_api True a c = Some (c\<lparr>inputBuffer := b1\<rparr>, [])" by blast
  have "conn_inv (c\<lparr>inputBuffer := b1\<rparr>)" using conn_inv_input [OF Cons.prems(2) b1(1)] .
  with Cons.IH [of "c\<lparr>inputBuffer := b1\<rparr>"] Cons.prems(1) b1 show ?case by (auto simp: seqc_def)
qed

lemma good_handleClose:
  assumes "conn_inv c" "conn_state c = kConnected \<or> conn_state c = kDisconnecting"
  shows "good c (handleClose user c)"
proof -
  let ?c = "disableAll (c\<lparr>conn_state := kDisconnected\<rparr>)"
  have i: "conn_inv ?c" "conn_state ?c = kDisconnected" using assms by (auto simp: conn_inv_def disableAll_def open_state_def)
  obtain b where b: "buf_inv b" "callback user ?c = Some (?c\<lparr>inputBuffer := b\<rparr>, [])" using callback_disconnected [OF i(2,1)] by blast
  have "handleClose user c = Some (?c\<lparr>inputBuffer := b\<rparr>, [ConnectionDown, CloseCb])" using assms(2) b(2) by (simp add: handleClose_def seqc_def)
  moreover have "conn_inv (?c\<lparr>inputBuffer := b\<rparr>)" using conn_inv_input [OF i(1) b(1)] .
  moreover have "shut_ok c [ConnectionDown, CloseCb] (?c\<lparr>inputBuffer := b\<rparr>)"
    by (rule shut_ok_plain) (simp_all add: quiet_def closing_def disableAll_def)
  ultimately show ?thesis using assms(2) by (auto simp: good_def step_ok_def adds_def disableAll_def life_def closing_def)
qed

lemma good_handleRead:
  assumes "conn_inv c" "reading c"
  shows "good c (handleRead received user c)"
proof -
  have st: "conn_state c = kConnected \<or> conn_state c = kDisconnecting" using assms by (simp add: conn_inv_def open_state_def)
  have ib: "buf_inv (inputBuffer c)" using assms(1) by (simp add: conn_inv_def)
  have upd: "conn_inv (c\<lparr>inputBuffer := b\<rparr>)" if "buf_inv b" for b using conn_inv_input [OF assms(1) that] .
  have eq: "good (c\<lparr>inputBuffer := b\<rparr>) r \<Longrightarrow> good c r" for b r using good_cong [of "c\<lparr>inputBuffer := b\<rparr>" c] by simp
  have cb: "good c' (Some (c', [MessageCb]))" if "conn_inv c'" for c'
    using that by (auto simp: good_def step_ok_def adds_def intro: shut_ok_plain)
  show ?thesis
  proof (cases received)
    case None
    then show ?thesis using assms(1) 
      by (auto simp: handleRead_def readFd_def handleError_def good_def step_ok_def adds_def closing_def quiet_def intro: shut_ok_plain)
  next
    case (Some d)
    obtain b where b: "readFd (Some d) (inputBuffer c) = Some b" "buf_inv b" using readFd_spec [OF ib] by blast
    show ?thesis
    proof (cases "d = []")
      case True
      then show ?thesis using eq [OF good_handleClose [OF upd [OF b(2)]]] st Some b by (simp add: handleRead_def Let_def)
    next
      case False
      then show ?thesis using eq [OF good_seqc [OF cb [OF upd [OF b(2)]] good_callback]] Some b by (simp add: handleRead_def Let_def)
    qed
  qed
qed

lemma good_handleWrite:
  assumes "conn_inv c"
  shows "good c (handleWrite w c)"
proof (cases "writing c \<and> (\<exists>n. w = Room n \<and> 0 < min n (length (content (outputBuffer c))))")
  case False
  then show ?thesis using good_skip [OF assms] by (auto simp: handleWrite_def sock_write_def split: wres.splits)
next
  case True
  then obtain m where m: "w = Room m" "writing c" "0 < min m (length (content (outputBuffer c)))" by blast
  define n where "n = min m (length (content (outputBuffer c)))"
  have inv: "buf_inv (inputBuffer c)" "buf_inv (outputBuffer c)" "reading c" "open_state (conn_state c)" using assms m(2) by (auto simp: conn_inv_def)
  obtain b where b: "retrieve n (outputBuffer c) = Some b" "buf_inv b" "content b = drop n (content (outputBuffer c))"
    using retrieve_spec [OF inv(2), of n] by (auto simp: n_def)
  let ?ios = "[Write (take n (content (outputBuffer c)))]"
  let ?c = "c\<lparr>outputBuffer := b\<rparr>"
  have st: "conn_state c \<noteq> kConnecting" using inv(4) by (auto simp: open_state_def)
  show ?thesis
  proof (cases "content b = []")
    case False
    then have "handleWrite w c = Some (?c, ?ios)" using m b by (simp add: handleWrite_def sock_write_def n_def Let_def)
    moreover have "conn_inv ?c" using assms False b(2) m(2) inv(3,4) by (auto simp: conn_inv_def)
    moreover have "shut_ok c ?ios ?c" using m(2) by (intro shut_ok_plain) (simp_all add: quiet_def)
    ultimately show ?thesis using b(3) st by (auto simp: good_def step_ok_def adds_def closing_def)
  next
    case True
    define c1 where "c1 = (if hasWriteComplete c then queueInLoop F_writeComplete (disableWriting ?c) else disableWriting ?c)"
    have h: "handleWrite w c = seqc (Some (c1, ?ios)) (\<lambda>c. if conn_state c = kDisconnecting then shutdownInLoop c else Some (c, []))"
      using m b True by (simp add: handleWrite_def sock_write_def n_def Let_def c1_def)
    have "conn_inv c1" using inv b(2) True st by (auto simp: c1_def conn_inv_def)
    moreover have "shut_ok c ?ios c1" using m(2) by (intro shut_ok_plain) (simp_all add: quiet_def)
    ultimately have "good c (Some (c1, ?ios))" using b(3) True st
      by (auto simp: good_def step_ok_def adds_def c1_def life_functor_def closing_def)
    with h show ?thesis using good_seqc good_shutdownInLoop good_skip by (simp add: closing_def)
  qed
qed

lemma good_handleEvent:
  assumes "conn_inv c" "poll_ok ev c" "\<not> urgent_hangup ev"
  shows "good c (handleEventWithGuard ev received w user c)"
proof -
  have r: "reading c" using assms by (auto simp: poll_ok_def conn_inv_def)
  then have st: "conn_state c = kConnected \<or> conn_state c = kDisconnecting" using assms(1) by (simp add: conn_inv_def open_state_def)
  have err: "good c' (if POLLERR ev \<or> POLLNVAL ev then handleError c' else Some (c', []))" if "conn_inv c'" for c'
    using that by (auto simp: handleError_def good_def step_ok_def adds_def intro: shut_ok_plain)
  have wr: "good c' (if POLLOUT ev then handleWrite w c' else Some (c', []))" if "conn_inv c'" for c'
    using good_handleWrite [OF that] good_skip [OF that] by simp
  show ?thesis
  proof (cases "POLLHUP ev \<and> \<not> POLLIN ev")
    case True
    then have nr: "\<not> (POLLIN ev \<or> POLLPRI ev \<or> POLLRDHUP ev)" using assms(2,3) by (auto simp: poll_ok_def urgent_hangup_def)
    show ?thesis unfolding handleEventWithGuard_def if_P [OF True] if_not_P [OF nr]
      by (intro good_seqc good_handleClose assms(1) st err wr good_skip)
  next
    case False
    show ?thesis unfolding handleEventWithGuard_def if_not_P [OF False] seqc_skip
    proof (rule good_seqcI [OF err [OF assms(1)]])
      fix c' ios assume "(if POLLERR ev \<or> POLLNVAL ev then handleError c else Some (c, [])) = Some (c', ios)"
      then have "c' = c" by (auto simp: handleError_def split: if_splits)
      then show "good c' (seqc (if POLLIN ev \<or> POLLPRI ev \<or> POLLRDHUP ev then handleRead received user c' else Some (c', []))
          (\<lambda>c. if POLLOUT ev then handleWrite w c else Some (c, [])))"
        using good_handleRead [OF assms(1) r] good_skip [OF assms(1)] good_seqc [OF _ wr] by simp
    qed
  qed
qed

lemma good_run_functor:
  assumes "conn_inv c" "\<not> life_functor f" "conn_state c \<noteq> kConnecting" "f = F_shutdownInLoop \<longrightarrow> closing c" "\<forall>d. f \<noteq> F_sendInLoop d"
  shows "good c (run_functor w user f c)"
proof -
  have cb: "good c (seqc (Some (c, [x])) (callback user))" if "x \<notin> {ConnectionUp, ConnectionDown, CloseCb, ShutdownWrite}" "silent [x]" for x
    using that silent_streams [OF that(2)]
    by (intro good_seqc good_callback) (auto simp: good_def step_ok_def adds_def assms(1) intro: shut_ok_plain)
  show ?thesis
    using assms good_shutdownInLoop good_skip good_handleClose cb [of WriteCompleteCb] cb [of "HighWaterMarkCb _"]
    by (cases f) (simp_all add: run_functor_def forceCloseInLoop_def life_functor_def)
qed

lemma good_late_run_functor:
  assumes "conn_inv c" "\<not> life_functor f" "conn_state c \<noteq> kConnecting" "f = F_shutdownInLoop \<longrightarrow> closing c"
  shows "good_late c (run_functor w user f c)"
proof (cases "\<exists>d. f = F_sendInLoop d")
  case True
  then show ?thesis using good_late_sendInLoop [OF assms(1,3)] by (auto simp: run_functor_def)
next
  case False
  then show ?thesis using good_good_late good_run_functor [OF assms] by blast
qed

end
