(* ===== verification/TcpConnectionProps.thy ===== *)
theory TcpConnectionProps
  imports TcpConnection
begin

text \<open>
  The theorems about a TCP connection: the invariant of all its traces, from the contract that every handler of \<open>TcpConnection\<close> keeps, and what follows
  from it: no failed assertion, output in order, one life, an orderly shutdown; and two ways in which closing goes wrong.
\<close>

section \<open>The invariant of all traces\<close>

text \<open>While connecting, the only thing to run is \<open>connectEstablished\<close>; later, at most one \<open>connectDestroyed\<close>, after the close.\<close>

definition queue_ok :: "TcpConnection \<Rightarrow> bool" where
  "queue_ok c \<longleftrightarrow> (if conn_state c = kConnecting then functors c @ pendingFunctors c = [F_connectEstablished]
     else filter life_functor (functors c @ pendingFunctors c) \<in> {[], [F_connectDestroyed]} \<and>
       (F_shutdownInLoop \<in> set (functors c @ pendingFunctors c) \<longrightarrow> closing c) \<and>
       (F_connectDestroyed \<in> set (functors c @ pendingFunctors c) \<longrightarrow> conn_state c = kDisconnected))"

definition trace_inv :: "io list \<Rightarrow> TcpConnection \<Rightarrow> bool" where
  "trace_inv t c \<longleftrightarrow> conn_inv c \<and> queue_ok c \<and> accepted t = written t @ content (outputBuffer c) \<and> life_cbs t = life (conn_state c)"

lemma life_functor_mem: "F_connectDestroyed \<in> set fs \<longleftrightarrow> F_connectDestroyed \<in> set (filter life_functor fs)"
  by (simp add: life_functor_def)

lemma life_closed: "life s @ x = life s' \<Longrightarrow> s = kDisconnected \<Longrightarrow> s' = kDisconnected"
  by (cases s') (auto simp: life_def)

lemma trace_inv_step:
  assumes "trace_inv t c" "step_ok c ios c'"
  shows "trace_inv (t @ ios) c'"
proof -
  have "queue_ok c'"
  proof (cases "conn_state c = kConnecting")
    case True
    with assms show ?thesis by (auto simp: trace_inv_def step_ok_def queue_ok_def adds_def)
  next
    case False
    have "filter life_functor (functors c' @ pendingFunctors c') = filter life_functor (functors c @ pendingFunctors c)"
      using assms(2) by (simp add: step_ok_def adds_def)
    then have "F_connectDestroyed \<in> set (functors c' @ pendingFunctors c') \<longleftrightarrow> F_connectDestroyed \<in> set (functors c @ pendingFunctors c)"
      "filter life_functor (functors c' @ pendingFunctors c') \<in> {[], [F_connectDestroyed]}"
      using life_functor_mem assms(1) False by (metis, simp add: trace_inv_def queue_ok_def)
    moreover have "F_shutdownInLoop \<in> set (functors c' @ pendingFunctors c') \<longrightarrow> closing c'"
      using assms False by (auto simp: trace_inv_def step_ok_def queue_ok_def adds_def)
    ultimately show ?thesis using assms False life_closed unfolding trace_inv_def step_ok_def queue_ok_def by (metis (no_types, lifting))
  qed
  with assms show ?thesis by (simp add: trace_inv_def step_ok_def)
qed

lemma trace_inv_good_late: "trace_inv t c \<Longrightarrow> good_late c r \<Longrightarrow> \<exists>c' ios. r = Some (c', ios) \<and> trace_inv (t @ ios) c'"
  using trace_inv_step by (auto simp: good_late_def)

lemma trace_inv_good: "trace_inv t c \<Longrightarrow> good c r \<Longrightarrow> \<exists>c' ios. r = Some (c', ios) \<and> trace_inv (t @ ios) c'"
  using trace_inv_good_late [OF _ good_good_late] .

lemma trace_inv_new: "trace_inv [] (newTcpConnection wc hw)"
  by (simp add: trace_inv_def newTcpConnection_def conn_inv_def queue_ok_def open_state_def life_def)

lemma trace_inv_established:
  assumes "trace_inv t c" "functors c = F_connectEstablished # fs"
  shows "\<exists>c' ios. run_functor w user F_connectEstablished (c\<lparr>functors := fs\<rparr>) = Some (c', ios) \<and> trace_inv (t @ ios) c'"
proof -
  have st: "conn_state c = kConnecting"
    using assms by (auto simp: trace_inv_def queue_ok_def life_functor_def split: if_splits)
  then have q: "fs = []" "pendingFunctors c = []" using assms by (simp_all add: trace_inv_def queue_ok_def)
  let ?c = "enableReading (c\<lparr>functors := fs, conn_state := kConnected\<rparr>)"
  have "trace_inv (t @ [ConnectionUp]) ?c"
    using assms(1) st q by (auto simp: trace_inv_def conn_inv_def queue_ok_def enableReading_def open_state_def life_def)
  moreover from this have "good ?c (callback user ?c)" by (intro good_callback) (simp add: trace_inv_def)
  ultimately obtain c' ios where "callback user ?c = Some (c', ios)" "trace_inv ((t @ [ConnectionUp]) @ ios) c'"
    using trace_inv_good by blast
  then show ?thesis using st by (simp add: run_functor_def connectEstablished_def seqc_def)
qed

lemma trace_inv_destroyed:
  assumes "trace_inv t c" "functors c = F_connectDestroyed # fs"
  shows "\<exists>c' ios. run_functor w user F_connectDestroyed (c\<lparr>functors := fs\<rparr>) = Some (c', ios) \<and> trace_inv (t @ ios) c'"
proof -
  have st: "conn_state c = kDisconnected" and nd: "filter life_functor (fs @ pendingFunctors c) = []"
    using assms by (auto simp: trace_inv_def queue_ok_def life_functor_def split: if_splits)
  have n: "isNoneEvent c" using assms(1) st by (auto simp: trace_inv_def conn_inv_def isNoneEvent_def open_state_def)
  let ?c = "c\<lparr>functors := fs, addedToLoop := False\<rparr>"
  have "run_functor w user F_connectDestroyed (c\<lparr>functors := fs\<rparr>) = Some (?c, [ChannelRemoved])"
    using st n by (simp add: run_functor_def connectDestroyed_def channel_remove_def isNoneEvent_def)
  moreover have "queue_ok ?c" using st nd by (auto simp: queue_ok_def filter_empty_conv closing_def)
  then have "trace_inv (t @ [ChannelRemoved]) ?c" using assms(1) by (auto simp: trace_inv_def conn_inv_def)
  ultimately show ?thesis by blast
qed

lemma trace_inv_functor:
  assumes "trace_inv t c" "functors c = f # fs"
  shows "\<exists>c' ios. run_functor w user f (c\<lparr>functors := fs\<rparr>) = Some (c', ios) \<and> trace_inv (t @ ios) c'"
proof (cases "life_functor f")
  case True
  then show ?thesis using trace_inv_established trace_inv_destroyed assms by (auto simp: life_functor_def)
next
  case False
  then have st: "conn_state c \<noteq> kConnecting" using assms by (auto simp: trace_inv_def queue_ok_def life_functor_def)
  let ?c = "c\<lparr>functors := fs\<rparr>"
  have "F_connectDestroyed \<noteq> f" using False by (auto simp: life_functor_def)
  then have i: "trace_inv t ?c" using assms False st by (auto simp: trace_inv_def conn_inv_def queue_ok_def)
  moreover have "f = F_shutdownInLoop \<longrightarrow> closing ?c" using assms st by (auto simp: trace_inv_def queue_ok_def)
  ultimately have "good_late ?c (run_functor w user f ?c)" using False st by (intro good_late_run_functor) (simp_all add: trace_inv_def)
  with trace_inv_good_late [OF i] show ?thesis by blast
qed

lemma trace_inv_tcp_step:
  assumes "trace_inv t c" "tcp_step c r"
  shows "\<exists>c' ios. r = Some (c', ios) \<and> trace_inv (t @ ios) c'"
  using assms(2,1)
proof cases
  case (api inLoop a)
  then show ?thesis using trace_inv_good [OF assms(1) good_do_api] assms(1) by (simp add: trace_inv_def)
next
  case (event ev received w user)
  then show ?thesis using trace_inv_good [OF assms(1) good_handleEvent] assms(1) by (simp add: trace_inv_def)
next
  case swap
  then show ?thesis using assms(1) by (auto simp: trace_inv_def conn_inv_def queue_ok_def)
next
  case (run f fs w user)
  then show ?thesis using trace_inv_functor [OF assms(1)] by blast
next
  case timer
  let ?c = "c\<lparr>delayedCloses := delayedCloses c - 1\<rparr>"
  have i: "trace_inv t ?c" using assms(1) by (auto simp: trace_inv_def conn_inv_def queue_ok_def)
  then have "good ?c (do_api True ApiForceClose ?c)" by (intro good_do_api) (simp add: trace_inv_def)
  then show ?thesis using trace_inv_good [OF i] timer by (simp add: do_api_def)
next
  case remove
  define L where "L = filter life_functor (functors c @ pendingFunctors c)"
  have "L \<in> {[], [F_connectDestroyed]}" using assms(1) remove(2) unfolding L_def trace_inv_def queue_ok_def by simp
  moreover have "F_connectDestroyed \<notin> set L" using remove(4) life_functor_mem unfolding L_def by blast
  ultimately have "L = []" by auto
  then have "queue_ok (queueInLoop F_connectDestroyed c)" using remove by (simp add: queue_ok_def life_functor_def L_def closing_def)
  then show ?thesis using assms(1) remove by (auto simp: trace_inv_def conn_inv_def)
qed

lemma tcp_trace_inv: "tcp_trace wc hw t c \<Longrightarrow> trace_inv t c"
proof (induction rule: tcp_trace.induct)
  case (extend t c c' ios)
  then show ?case using trace_inv_tcp_step by fastforce
qed (rule trace_inv_new)

section \<open>Connections used as their header says\<close>

definition removes :: "conn_result \<Rightarrow> bool" where
  "removes r \<longleftrightarrow> (\<exists>c ios. r = Some (c, ios) \<and> ChannelRemoved \<in> set ios)"

lemma removes_simps [simp]: "\<not> removes None" "removes (Some (c, ios)) \<longleftrightarrow> ChannelRemoved \<in> set ios"
  by (simp_all add: removes_def)

lemma removes_seqc: "removes (seqc m f) \<Longrightarrow> \<not> removes m \<Longrightarrow> (\<And>c. \<not> removes (f c)) \<Longrightarrow> False"
  by (cases m) (auto simp: removes_def seqc_def split: option.splits prod.splits)

lemma sendInLoop_keeps: "\<not> removes (sendInLoop w d c)"
  by (auto simp: sendInLoop_def removes_def Let_def split: if_splits option.splits)

lemma do_api_keeps: "\<not> removes (do_api l a c)"
  using sendInLoop_keeps
  by (cases a) (auto simp: do_api_def tcp_send_def tcp_shutdown_def shutdownInLoop_def forceClose_def forceCloseWithDelay_def removes_def Let_def)

lemma callback_keeps: "\<not> removes (callback user c)"
proof (induction user arbitrary: c)
  case (Cons a user)
  then show ?case using removes_seqc [OF _ do_api_keeps, of True a c "callback user"] by auto
qed simp

lemma handleClose_keeps: "\<not> removes (handleClose user c)"
  using callback_keeps by (auto simp: handleClose_def elim!: removes_seqc)

lemma handleRead_keeps: "\<not> removes (handleRead received user c)"
  using callback_keeps handleClose_keeps
  by (auto simp: handleRead_def handleError_def Let_def split: option.splits elim!: removes_seqc)

lemma handleWrite_keeps: "\<not> removes (handleWrite w c)"
  by (auto simp: handleWrite_def shutdownInLoop_def Let_def split: sum.splits option.splits if_splits elim!: removes_seqc)

lemma handleEvent_keeps: "\<not> removes (handleEventWithGuard ev received w user c)"
  using handleClose_keeps handleRead_keeps handleWrite_keeps
  by (auto simp: handleEventWithGuard_def handleError_def elim!: removes_seqc)

lemma run_functor_keeps: "f \<noteq> F_connectDestroyed \<Longrightarrow> \<not> removes (run_functor w user f c)"
  using sendInLoop_keeps handleClose_keeps callback_keeps
  by (cases f) (auto simp: run_functor_def shutdownInLoop_def forceCloseInLoop_def connectEstablished_def elim!: removes_seqc)

lemma conn_step_tcp_step:
  assumes "conn_step c r"
  shows "tcp_step c r \<or> (\<exists>d. conn_state c \<noteq> kConnecting \<and> r = Some (queueInLoop (F_sendInLoop d) c, [])) \<or> (\<exists>user. conn_state c = kConnected \<and> r = connectDestroyed user c)"
  using assms by cases (auto intro: tcp_step.intros tcp_step.timer [simplified])

text \<open>\<open>u\<close> is the history of a connection that was closed by itself; the server may have taken it down instead.\<close>

definition taken_down :: "io list \<Rightarrow> bool" where
  "taken_down t \<longleftrightarrow> life_cbs t = [ConnectionUp, ConnectionDown] \<and> (\<exists>a b. t = a @ [ConnectionDown, ChannelRemoved] @ b)"

lemma taken_down_append: "taken_down t \<Longrightarrow> life_cbs ios = [] \<Longrightarrow> taken_down (t @ ios)"
  unfolding taken_down_def by (metis append.assoc append.right_neutral life_cbs_simps(2))

definition conn_ok :: "io list \<Rightarrow> TcpConnection \<Rightarrow> bool" where
  "conn_ok t c \<longleftrightarrow> (\<exists>u. trace_inv u c \<and> (life_cbs t = life_cbs u \<or> conn_state c = kDisconnected \<and> taken_down t)) \<and>
     (ChannelRemoved \<in> set t \<longrightarrow> conn_state c = kDisconnected)"

lemma trace_inv_closed:
  assumes "trace_inv u c" "trace_inv (u @ ios) c'" "conn_state c = kDisconnected"
  shows "conn_state c' = kDisconnected \<and> life_cbs ios = []"
  using assms by (cases "conn_state c'") (auto simp: trace_inv_def life_def)

lemma connectDestroyed_connected:
  assumes "trace_inv u c" "conn_state c = kConnected"
  shows "\<exists>c'. connectDestroyed user c = Some (c', [ConnectionDown, ChannelRemoved]) \<and> conn_state c' = kDisconnected \<and> trace_inv (u @ [ConnectionDown, CloseCb]) c'"
proof -
  let ?c = "disableAll (c\<lparr>conn_state := kDisconnected\<rparr>)"
  have i: "conn_inv ?c" "conn_state ?c = kDisconnected" using assms by (auto simp: trace_inv_def conn_inv_def disableAll_def open_state_def)
  obtain b where b: "buf_inv b" "callback user ?c = Some (?c\<lparr>inputBuffer := b\<rparr>, [])" using callback_disconnected [OF i(2,1)] by blast
  let ?d = "?c\<lparr>inputBuffer := b, addedToLoop := False\<rparr>"
  have "connectDestroyed user c = Some (?d, [ConnectionDown, ChannelRemoved])"
    using assms(2) b(2) by (simp add: connectDestroyed_def seqc_def channel_remove_def isNoneEvent_def disableAll_def)
  moreover have "conn_inv ?d" using conn_inv_input [OF i(1) b(1)] by (auto simp: conn_inv_def)
  then have "trace_inv (u @ [ConnectionDown, CloseCb]) ?d"
    using assms by (auto simp: trace_inv_def queue_ok_def closing_def life_def disableAll_def)
  ultimately show ?thesis by (auto simp: disableAll_def)
qed

lemma conn_ok_other_send:
  assumes "conn_ok t c" "conn_state c \<noteq> kConnecting"
  shows "conn_ok t (queueInLoop (F_sendInLoop d) c)"
proof -
  have "trace_inv u (queueInLoop (F_sendInLoop d) c)" if "trace_inv u c" for u
    using trace_inv_good [OF that good_queue [of c "F_sendInLoop d"]] that assms(2) by (auto simp: trace_inv_def life_functor_def)
  with assms(1) show ?thesis by (auto simp: conn_ok_def)
qed

lemma tcp_step_removes:
  assumes "trace_inv u c" "tcp_step c (Some (c', ios))" "ChannelRemoved \<in> set ios"
  shows "conn_state c = kDisconnected"
proof -
  have s: "removes (Some (c', ios))" using assms(3) by simp
  from assms(2) show ?thesis
  proof cases
    case (api inLoop a)
    then show ?thesis using s do_api_keeps by simp
  next
    case (event ev received w user)
    then show ?thesis using s handleEvent_keeps by simp
  next
    case (run f fs w user)
    then have "f = F_connectDestroyed" using s run_functor_keeps by metis
    then show ?thesis using assms(1) run by (auto simp: trace_inv_def queue_ok_def split: if_splits)
  next
    case timer
    then show ?thesis using s do_api_keeps [of True ApiForceClose] by (simp add: do_api_def)
  qed (use assms(3) in auto)
qed

lemma conn_ok_step:
  assumes "conn_ok t c" "conn_step c r"
  shows "\<exists>c' ios. r = Some (c', ios) \<and> conn_ok (t @ ios) c'"
proof -
  obtain u where u: "trace_inv u c" "life_cbs t = life_cbs u \<or> conn_state c = kDisconnected \<and> taken_down t"
    "ChannelRemoved \<in> set t \<longrightarrow> conn_state c = kDisconnected" using assms(1) by (auto simp: conn_ok_def)
  from conn_step_tcp_step [OF assms(2)] consider "tcp_step c r" | d where "conn_state c \<noteq> kConnecting" "r = Some (queueInLoop (F_sendInLoop d) c, [])"
    | user where "conn_state c = kConnected" "r = connectDestroyed user c" by blast
  then show ?thesis
  proof cases
    case 1
    from trace_inv_tcp_step [OF u(1) 1] obtain c' ios where r: "r = Some (c', ios)" "trace_inv (u @ ios) c'" by blast
    note cl = trace_inv_closed [OF u(1) r(2)]
    have "ChannelRemoved \<in> set ios \<longrightarrow> conn_state c = kDisconnected" using tcp_step_removes [OF u(1)] 1 r(1) by blast
    with u cl r show ?thesis unfolding conn_ok_def by (intro exI [of _ c'] exI [of _ ios]) (auto intro!: exI [of _ "u @ ios"] taken_down_append)
  next
    case 2
    then show ?thesis using conn_ok_other_send [OF assms(1)] by simp
  next
    case 3
    from connectDestroyed_connected [OF u(1) 3(1), of user] obtain c' where c': "connectDestroyed user c = Some (c', [ConnectionDown, ChannelRemoved])"
      "conn_state c' = kDisconnected" "trace_inv (u @ [ConnectionDown, CloseCb]) c'" by blast
    have "taken_down (t @ [ConnectionDown, ChannelRemoved])" using u 3(1) by (auto simp: taken_down_def trace_inv_def life_def)
    with c' 3(2) show ?thesis by (auto simp: conn_ok_def)
  qed
qed

lemma conn_trace_ok: "conn_trace wc hw t c \<Longrightarrow> conn_ok t c"
proof (induction rule: conn_trace.induct)
  case start
  then show ?case using trace_inv_new by (auto simp: conn_ok_def intro!: exI [of _ "[]"])
next
  case (extend t c c' ios)
  then show ?case using conn_ok_step by fastforce
qed

section \<open>Shutting down\<close>

definition is_send :: "Functor \<Rightarrow> bool" where
  "is_send f = (case f of F_sendInLoop _ \<Rightarrow> True | _ \<Rightarrow> False)"

definition no_send_queued :: "TcpConnection \<Rightarrow> bool" where
  "no_send_queued c \<longleftrightarrow> (\<forall>f \<in> set (functors c @ pendingFunctors c). \<not> is_send f)"

text \<open>The traces in which no other thread sends: no message ever waits in the queue of the loop.\<close>

inductive local_trace :: "bool \<Rightarrow> bool \<Rightarrow> io list \<Rightarrow> TcpConnection \<Rightarrow> bool" for wc hw where
  start: "local_trace wc hw [] (newTcpConnection wc hw)"
| extend: "local_trace wc hw t c \<Longrightarrow> tcp_step c (Some (c', ios)) \<Longrightarrow> no_send_queued c' \<Longrightarrow> local_trace wc hw (t @ ios) c'"

lemma local_trace_trace: "local_trace wc hw t c \<Longrightarrow> tcp_trace wc hw t c"
  by (induction rule: local_trace.induct) (auto intro: tcp_trace.intros)

lemma local_no_send: "local_trace wc hw t c \<Longrightarrow> no_send_queued c"
  by (induction rule: local_trace.cases) (auto simp: no_send_queued_def is_send_def newTcpConnection_def)

lemma shut_ok_ConsUp:
  assumes "shut_ok c1 b c2" "outputBuffer c1 = outputBuffer c" "\<not> quiet c" "conn_state c1 \<noteq> kDisconnected"
  shows "shut_ok c (ConnectionUp # b) c2"
  using assms by (auto simp: shut_ok_def Cons_eq_append_conv)

lemma shut_ok_functor:
  assumes "trace_inv t c" "no_send_queued c" "functors c = f # fs" "run_functor w user f (c\<lparr>functors := fs\<rparr>) = Some (c', ios)"
  shows "shut_ok c ios c'"
proof -
  let ?c = "c\<lparr>functors := fs\<rparr>"
  have eq: "shut_ok ?c ios c' = shut_ok c ios c'" by (simp add: shut_ok_def quiet_def)
  have inv: "conn_inv ?c" using assms(1) by (auto simp: trace_inv_def conn_inv_def)
  consider "f = F_connectEstablished" | "f = F_connectDestroyed" | "\<not> life_functor f" by (auto simp: life_functor_def)
  then show ?thesis
  proof cases
    case 1
    then have st: "conn_state c = kConnecting" using assms(4) by (simp add: run_functor_def connectEstablished_def split: if_splits)
    let ?e = "enableReading (?c\<lparr>conn_state := kConnected\<rparr>)"
    have e: "conn_inv ?e" "outputBuffer ?e = outputBuffer c" "conn_state ?e = kConnected"
      using inv st by (auto simp: conn_inv_def enableReading_def open_state_def)
    obtain c2 b where b: "callback user ?e = Some (c2, b)" "shut_ok ?e b c2" using good_callback [OF e(1), of user] by (auto simp: good_def)
    have "c' = c2 \<and> ios = ConnectionUp # b" using assms(4) 1 st b(1) by (auto simp: run_functor_def connectEstablished_def seqc_def)
    then show ?thesis using shut_ok_ConsUp [OF b(2) e(2)] st e(3) by (simp add: quiet_def closing_def)
  next
    case 2
    then have "conn_state c = kDisconnected" using assms(1,3) by (auto simp: trace_inv_def queue_ok_def split: if_splits)
    then show ?thesis using assms(4) 2
      by (auto simp: run_functor_def connectDestroyed_def channel_remove_def quiet_def closing_def isNoneEvent_def split: if_splits intro!: shut_ok_plain)
  next
    case 3
    have st: "conn_state c \<noteq> kConnecting" "f = F_shutdownInLoop \<longrightarrow> closing ?c" "\<forall>d. f \<noteq> F_sendInLoop d"
      using assms(1-3) 3 by (auto simp: trace_inv_def queue_ok_def no_send_queued_def is_send_def life_functor_def split: if_splits)
    then have "good ?c (run_functor w user f ?c)" using good_run_functor [OF inv 3] by simp
    then show ?thesis using assms(4) eq by (simp add: good_def)
  qed
qed

lemma shut_ok_step:
  assumes "trace_inv t c" "no_send_queued c" "tcp_step c (Some (c', ios))"
  shows "shut_ok c ios c'"
proof -
  have inv: "conn_inv c" using assms(1) by (simp add: trace_inv_def)
  from assms(3) show ?thesis
  proof cases
    case (api inLoop a)
    then show ?thesis using good_do_api [OF inv, of inLoop a] by (auto simp: good_def)
  next
    case (event ev received w user)
    then show ?thesis using good_handleEvent [OF inv, of ev received w user] by (auto simp: good_def)
  next
    case (run f fs w user)
    then show ?thesis using shut_ok_functor [OF assms(1,2) run(2)] by simp
  next
    case timer
    let ?c = "c\<lparr>delayedCloses := delayedCloses c - 1\<rparr>"
    have "conn_inv ?c" using inv by (auto simp: conn_inv_def)
    then have "good ?c (do_api True ApiForceClose ?c)" by (rule good_do_api)
    then have "good c (forceClose ?c)" using good_cong [of c ?c] by (simp add: do_api_def)
    then show ?thesis using timer by (auto simp: good_def)
  qed (auto simp: quiet_def closing_def)
qed

lemma local_trace_shut: "local_trace wc hw t c \<Longrightarrow> shut_ok (newTcpConnection wc hw) t c"
proof (induction rule: local_trace.induct)
  case (extend t c c' ios)
  note i = tcp_trace_inv [OF local_trace_trace [OF extend.hyps(1)]]
  have "ConnectionDown \<in> set t" if "conn_state c = kDisconnected"
  proof -
    have "ConnectionDown \<in> set (life_cbs t)" using i that by (simp add: trace_inv_def life_def)
    then show ?thesis by (simp add: life_cbs_def)
  qed
  with i show ?case
    by (intro shut_ok_append [OF _ _ extend.IH shut_ok_step [OF i local_no_send [OF extend.hyps(1)] extend.hyps(2)]])
      (auto simp: trace_inv_def newTcpConnection_def)
qed simp

section \<open>Running a connection\<close>

datatype Step = SApi bool Api | SEvent revents "string option" wres "Api list" | SSwap | SRun wres "Api list" | STimer | SRemove

definition exec_step :: "Step \<Rightarrow> TcpConnection \<Rightarrow> conn_result" where
  "exec_step x c = (case x of
       SApi inLoop a \<Rightarrow> do_api inLoop a c
     | SEvent ev received w user \<Rightarrow> if poll_ok ev c \<and> \<not> urgent_hangup ev then handleEventWithGuard ev received w user c else None
     | SSwap \<Rightarrow> if functors c = [] then Some (c\<lparr>functors := pendingFunctors c, pendingFunctors := []\<rparr>, []) else None
     | SRun w user \<Rightarrow> (case functors c of [] \<Rightarrow> None | f # fs \<Rightarrow> run_functor w user f (c\<lparr>functors := fs\<rparr>))
     | STimer \<Rightarrow> if 0 < delayedCloses c then forceClose (c\<lparr>delayedCloses := delayedCloses c - 1\<rparr>) else None
     | SRemove \<Rightarrow> if conn_state c = kDisconnected \<and> addedToLoop c \<and> F_connectDestroyed \<notin> set (functors c @ pendingFunctors c)
         then Some (queueInLoop F_connectDestroyed c, []) else None)"

lemma exec_step_tcp_step: "exec_step x c = Some out \<Longrightarrow> tcp_step c (Some out)"
  by (cases x) (auto simp: exec_step_def split: if_splits list.splits intro: tcp_step.intros tcp_step.timer [simplified] dest!: sym [of _ "Some out"])

text \<open>A sequence of steps; with \<open>only_local\<close> it stops when a message of another thread is queued.\<close>

primrec exec :: "bool \<Rightarrow> Step list \<Rightarrow> TcpConnection \<Rightarrow> conn_result" where
  "exec only_local [] c = Some (c, [])"
| "exec only_local (x # xs) c = seqc (exec_step x c) (\<lambda>c. if only_local \<longrightarrow> no_send_queued c then exec only_local xs c else None)"

lemma exec_trace: "tcp_trace wc hw t c \<Longrightarrow> exec False xs c = Some (c', ios) \<Longrightarrow> tcp_trace wc hw (t @ ios) c'"
proof (induction xs arbitrary: t c ios)
  case (Cons x xs)
  then obtain c1 a b where x: "exec_step x c = Some (c1, a)" "exec False xs c1 = Some (c', b)" "ios = a @ b"
    by (auto simp: seqc_def split: option.splits prod.splits)
  from Cons.IH [OF tcp_trace.extend [OF Cons.prems(1) exec_step_tcp_step [OF x(1)]] x(2)] x(3) show ?case by simp
qed simp

lemma exec_local_trace: "local_trace wc hw t c \<Longrightarrow> exec True xs c = Some (c', ios) \<Longrightarrow> local_trace wc hw (t @ ios) c'"
proof (induction xs arbitrary: t c ios)
  case (Cons x xs)
  then obtain c1 a b where x: "exec_step x c = Some (c1, a)" "no_send_queued c1" "exec True xs c1 = Some (c', b)" "ios = a @ b"
    by (auto simp: seqc_def split: option.splits prod.splits if_splits)
  from Cons.IH [OF local_trace.extend [OF Cons.prems(1) exec_step_tcp_step [OF x(1)] x(2)] x(3)] x(4) show ?case by simp
qed simp

text \<open>A sequence of steps of a connection that is used as its header says.\<close>

datatype ConnStep = Loop Step | OtherSend string | Destroy "Api list"

definition conn_exec_step :: "ConnStep \<Rightarrow> TcpConnection \<Rightarrow> conn_result" where
  "conn_exec_step x c = (case x of
       Loop y \<Rightarrow> (case y of SApi inLoop a \<Rightarrow> if inLoop then exec_step y c else None | _ \<Rightarrow> exec_step y c)
     | OtherSend d \<Rightarrow> if conn_state c \<noteq> kConnecting then Some (queueInLoop (F_sendInLoop d) c, []) else None
     | Destroy user \<Rightarrow> if conn_state c = kConnected then connectDestroyed user c else None)"

primrec conn_exec :: "ConnStep list \<Rightarrow> TcpConnection \<Rightarrow> conn_result" where
  "conn_exec [] c = Some (c, [])"
| "conn_exec (x # xs) c = seqc (conn_exec_step x c) (conn_exec xs)"

lemma conn_exec_step_conn_step:
  assumes "conn_exec_step x c = Some out"
  shows "conn_step c (Some out)"
proof (cases x)
  case (Loop y)
  then show ?thesis using assms
    by (cases y) (auto simp: conn_exec_step_def exec_step_def split: if_splits list.splits
      intro: conn_step.intros conn_step.timer [simplified] dest!: sym [of _ "Some out"])
qed (use assms in \<open>auto simp: conn_exec_step_def split: if_splits intro: conn_step.intros dest!: sym [of _ "Some out"]\<close>)

lemma conn_exec_trace: "conn_trace wc hw t c \<Longrightarrow> conn_exec xs c = Some (c', ios) \<Longrightarrow> conn_trace wc hw (t @ ios) c'"
proof (induction xs arbitrary: t c ios)
  case (Cons x xs)
  then obtain c1 a b where x: "conn_exec_step x c = Some (c1, a)" "conn_exec xs c1 = Some (c', b)" "ios = a @ b"
    by (auto simp: seqc_def split: option.splits prod.splits)
  from Cons.IH [OF conn_trace.extend [OF Cons.prems(1) conn_exec_step_conn_step [OF x(1)]] x(2)] x(3) show ?case by simp
qed simp

text \<open>Symbolic runs from a new connection: the buffers stay folded.\<close>

lemmas exec_defs = exec_step_def run_functor_def connectEstablished_def forceCloseInLoop_def handleClose_def seqc_def do_api_def tcp_send_def
  tcp_shutdown_def forceClose_def shutdownInLoop_def sendInLoop_def sock_write_def enableReading_def disableAll_def newTcpConnection_def
  queueInLoop_def no_send_queued_def is_send_def

lemmas conn_exec_defs = exec_defs conn_exec_step_def connectDestroyed_def channel_remove_def isNoneEvent_def

lemmas conn_exec_new = conn_exec_trace [OF conn_trace.start, simplified]
lemmas exec_new = exec_trace [OF tcp_trace.start, simplified]
lemmas exec_local_new = exec_local_trace [OF local_trace.start, simplified]

section \<open>Properties\<close>



text \<open>Property C27. The bytes a connection writes to its socket are the messages it has accepted, in order and without loss or repetition: what has been
  accepted so far is what has been written followed by the content of the output buffer, and while the connection is open the channel waits for the socket
  exactly when that content is not empty.\<close>

theorem tcp_output_in_order:
  assumes "tcp_trace wc hw t c"
  shows "accepted t = written t @ content (outputBuffer c) \<and>
    (conn_state c = kConnected \<or> conn_state c = kDisconnecting \<longrightarrow> (writing c \<longleftrightarrow> content (outputBuffer c) \<noteq> []))"
  using tcp_trace_inv [OF assms] by (auto simp: trace_inv_def conn_inv_def open_state_def)

theorem tcp_output_in_order_witness:
  "\<exists>c. tcp_trace True True [ConnectionUp, Accept ''hello'', Write ''he''] c \<and> content (outputBuffer c) = ''llo'' \<and> writing c"
proof -
  let ?xs = "[SSwap, SRun (Room 0) [ApiSend ''hello'' (Room 2)]]"
  let ?n = "newTcpConnection True True" and ?t = "[ConnectionUp, Accept ''hello'', Write ''he'']"
  obtain b where b: "append_bytes ''llo'' (newBuffer kInitialSize) = Some b" using append_spec [OF new_inv] by blast
  have "map_option (\<lambda>(c, t). (conn_state c, t)) (exec False ?xs ?n) = Some (kConnected, ?t)"
    using b by (simp add: exec_defs enableWriting_def Let_def numeral_2_eq_2)
  then obtain c where c: "exec False ?xs ?n = Some (c, ?t)" "conn_state c = kConnected" by auto
  from tcp_output_in_order [OF exec_new [OF c(1)]] have "content (outputBuffer c) = ''llo'' \<and> writing c" using c(2) by auto
  with exec_new [OF c(1)] show ?thesis by blast
qed

text \<open>Property C28. The user sees one life of a connection that is used as its header says (only the loop thread closes it, other threads only send): the connection
  callback when it is established, once more when it is down, directly followed by the close callback, and nothing of this again, as the state of the connection
  says.  The only exception is a connection that the destructor of the server takes down: there the channel is removed and no close callback comes.\<close>

theorem tcp_callback_order:
  assumes "conn_trace wc hw t c"
  shows "life_cbs t = (case conn_state c of kConnecting \<Rightarrow> [] | kConnected \<Rightarrow> [ConnectionUp] | kDisconnecting \<Rightarrow> [ConnectionUp]
       | kDisconnected \<Rightarrow> [ConnectionUp, ConnectionDown, CloseCb]) \<or>
    conn_state c = kDisconnected \<and> life_cbs t = [ConnectionUp, ConnectionDown] \<and> (\<exists>a b. t = a @ [ConnectionDown, ChannelRemoved] @ b)"
  using conn_trace_ok [OF assms] by (auto simp: conn_ok_def trace_inv_def life_def taken_down_def)

theorem tcp_callback_order_witness:
  "\<exists>t c u d. conn_trace False False t c \<and> conn_state c = kDisconnected \<and> ChannelRemoved \<notin> set t \<and> life_cbs t = [ConnectionUp, ConnectionDown, CloseCb] \<and>
     conn_trace False False u d \<and> conn_state d = kConnected \<and> life_cbs u = [ConnectionUp]"
proof -
  let ?xs = "[Loop SSwap, Loop (SRun (Room 0) [ApiForceClose]), OtherSend ''late'', Loop SSwap, Loop (SRun (Room 0) [ApiSend ''x'' (Room 9)]), Loop (SRun (Room 9) [])]"
    and ?n = "newTcpConnection False False"
  have "map_option (\<lambda>(c, t). (conn_state c, ChannelRemoved \<in> set t)) (conn_exec ?xs ?n) = Some (kDisconnected, False)" by (simp add: conn_exec_defs)
  then obtain c t where e: "conn_exec ?xs ?n = Some (c, t)" "conn_state c = kDisconnected" "ChannelRemoved \<notin> set t" by auto
  note t = conn_exec_new [OF e(1)]
  have "map_option (conn_state \<circ> fst) (conn_exec [Loop SSwap, Loop (SRun (Room 0) [])] ?n) = Some kConnected" by (simp add: conn_exec_defs)
  then obtain d u where d: "conn_exec [Loop SSwap, Loop (SRun (Room 0) [])] ?n = Some (d, u)" "conn_state d = kConnected" by auto
  note u = conn_exec_new [OF d(1)]
  from tcp_callback_order [OF t] e(2,3) have "life_cbs t = [ConnectionUp, ConnectionDown, CloseCb]" by auto
  moreover from tcp_callback_order [OF u] d(2) have "life_cbs u = [ConnectionUp]" by simp
  ultimately show ?thesis using t u e(2,3) d(2) by blast
qed

text \<open>Property C29. Closing is orderly when only the loop thread sends: at the moment the write side of the socket is shut down every accepted byte has been
  written (unless the connection has gone down before), and after it nothing is accepted or written any more.\<close>

theorem tcp_orderly_shutdown:
  assumes "local_trace wc hw (pre @ ShutdownWrite # post) c"
  shows "(ConnectionDown \<notin> set pre \<longrightarrow> accepted pre = written pre) \<and> accepted post = [] \<and> written post = [] \<and>
    (conn_state c = kDisconnecting \<or> conn_state c = kDisconnected)"
proof -
  have "shut_ok (newTcpConnection wc hw) (pre @ ShutdownWrite # post) c" by (rule local_trace_shut [OF assms])
  then have "ConnectionDown \<notin> set pre \<longrightarrow> accepted pre = written pre" "silent post" "quiet c"
    unfolding shut_ok_def by (auto simp: newTcpConnection_def)
  then show ?thesis using silent_streams by (auto simp: quiet_def closing_def)
qed

theorem tcp_orderly_shutdown_witness:
  "\<exists>c. local_trace False False ([ConnectionUp, Accept ''hi'', Write ''hi''] @ ShutdownWrite # []) c \<and> conn_state c = kDisconnecting \<and>
    accepted [ConnectionUp, Accept ''hi'', Write ''hi''] = written [ConnectionUp, Accept ''hi'', Write ''hi'']"
proof -
  let ?xs = "[SSwap, SRun (Room 0) [ApiSend ''hi'' (Room 9), ApiShutdown]]"
  let ?n = "newTcpConnection False False" and ?p = "[ConnectionUp, Accept ''hi'', Write ''hi'']"
  have "map_option (\<lambda>(c, t). (conn_state c, t)) (exec True ?xs ?n) = Some (kDisconnecting, ?p @ ShutdownWrite # [])"
    by (simp add: exec_defs Let_def)
  then obtain c where c: "exec True ?xs ?n = Some (c, ?p @ ShutdownWrite # [])" "conn_state c = kDisconnecting" by auto
  from tcp_orderly_shutdown [OF exec_local_new [OF c(1)]] exec_local_new [OF c(1)] c(2) show ?thesis by (intro exI [of _ c]) simp
qed

text \<open>Why only the loop thread may close a connection: another thread that is interrupted between the check and the store of \<open>forceClose\<close> or of
  \<open>shutdown\<close> while the connection goes down brings it back to \<open>kDisconnecting\<close>.  The functor of \<open>forceClose\<close> then takes it down a second time, and
  after \<open>shutdown\<close> the assertion of the destructor fails.\<close>

lemma tcp_close_race:
  assumes "conn_trace wc hw t c" "conn_state c = kDisconnected"
  shows "\<exists>c'. forceCloseInLoop user (forceClose_store c) = Some (c', [ConnectionDown, CloseCb])"
    and "destroyTcpConnection (shutdown_store c) = None"
proof -
  let ?c = "disableAll (forceClose_store c\<lparr>conn_state := kDisconnected\<rparr>)"
  obtain u where "trace_inv u c" using conn_trace_ok [OF assms(1)] by (auto simp: conn_ok_def)
  then have "conn_inv ?c" by (auto simp: trace_inv_def conn_inv_def disableAll_def forceClose_store_def queueInLoop_def open_state_def)
  from callback_disconnected [OF _ this, of user] obtain b where "callback user ?c = Some (?c\<lparr>inputBuffer := b\<rparr>, [])" by (auto simp: disableAll_def)
  then show "\<exists>c'. forceCloseInLoop user (forceClose_store c) = Some (c', [ConnectionDown, CloseCb])"
    by (simp add: forceCloseInLoop_def handleClose_def forceClose_store_def seqc_def)
  show "destroyTcpConnection (shutdown_store c) = None" by (simp add: destroyTcpConnection_def shutdown_store_def)
qed

text \<open>A hang-up reported together with urgent data and nothing to read, followed by a read that finds the end of the stream, closes the connection twice: the
  assertion of \<open>handleClose\<close> fails.\<close>

lemma urgent_hangup_asserts:
  assumes "conn_trace wc hw t c" "urgent_hangup ev"
  shows "handleEventWithGuard ev (Some []) w user c = None"
proof -
  obtain u where i: "trace_inv u c" using conn_trace_ok [OF assms(1)] by (auto simp: conn_ok_def)
  show ?thesis
  proof (cases "conn_state c = kConnected \<or> conn_state c = kDisconnecting")
    case True
    let ?c = "disableAll (c\<lparr>conn_state := kDisconnected\<rparr>)"
    have j: "conn_inv ?c" using i by (auto simp: trace_inv_def conn_inv_def disableAll_def open_state_def)
    then obtain b where b: "callback user ?c = Some (?c\<lparr>inputBuffer := b\<rparr>, [])" using callback_disconnected [OF _ j, of user] by (auto simp: disableAll_def)
    have "handleRead (Some []) user (?c\<lparr>inputBuffer := b\<rparr>) = None"
      by (auto simp: handleRead_def handleClose_def disableAll_def Let_def split: option.splits)
    with True b assms(2) show ?thesis by (simp add: handleEventWithGuard_def urgent_hangup_def handleClose_def seqc_def handleError_def)
  qed (use assms(2) in \<open>simp add: handleEventWithGuard_def urgent_hangup_def handleClose_def seqc_def\<close>)
qed

text \<open>A message that another thread hands to \<open>send\<close> before the loop thread calls \<open>shutdown\<close> is lost: it waits in the queue of the loop while
  \<open>shutdown\<close>, which looks at the channel only, shuts the write side down at once; when the queued \<open>sendInLoop\<close> runs, the socket answers \<open>EPIPE\<close>.\<close>

theorem tcp_queued_send_lost:
  "map_option snd (exec False [SSwap, SRun (Room 0) [], SApi False (ApiSend ''x'' (Room 9)), SApi True ApiShutdown, SSwap, SRun (Fail EPIPE) []]
     (newTcpConnection False False)) = Some [ConnectionUp, ShutdownWrite]"
  by (simp add: exec_defs Let_def)

text \<open>Property C30. The destructor of the server destroys its connections with \<open>connectDestroyed\<close>; for a connection that is being closed, whose channel is
  still reading, the assertion in \<open>Channel::remove\<close> fails.\<close>

theorem server_destructor_asserts:
  assumes "tcp_trace wc hw t c" "conn_state c = kDisconnecting"
  shows "connectDestroyed user c = None"
  using tcp_trace_inv [OF assms(1)] assms(2)
  by (simp add: trace_inv_def conn_inv_def open_state_def connectDestroyed_def channel_remove_def isNoneEvent_def)

theorem server_destructor_asserts_witness:
  "\<exists>t c. tcp_trace False False t c \<and> conn_state c = kDisconnecting \<and> connectDestroyed [] c = None"
proof -
  let ?xs = "[SSwap, SRun (Room 0) [ApiShutdown]]" and ?n = "newTcpConnection False False"
  have "map_option (conn_state \<circ> fst) (exec False ?xs ?n) = Some kDisconnecting" by (simp add: exec_defs)
  then obtain c t where e: "exec False ?xs ?n = Some (c, t)" "conn_state c = kDisconnecting" by auto
  from server_destructor_asserts [OF exec_new [OF e(1)] e(2)] exec_new [OF e(1)] e(2) show ?thesis by blast
qed

end
