(* ===== verification/HttpServer.thy ===== *)
theory HttpServer
  imports NetBuffer StrLib
begin

text \<open>
  The HTTP server of the network library: \<^verbatim>\<open>src/muduo/net/http/\<close> (\<^verbatim>\<open>HttpRequest.h\<close>, \<^verbatim>\<open>HttpContext.h\<close>, \<^verbatim>\<open>HttpResponse.cc\<close>, \<^verbatim>\<open>HttpServer.cc\<close>).  The receive buffer of the
  connection is a \<open>Buffer\<close>; what the server does to the connection is a list of actions; the user's callback is a parameter.  A failed assertion is a
  result of its own, and so is the loop of \<open>parseRequest\<close> in a state for which it has no branch.
\<close>

section \<open>Requests\<close>

datatype Method = kInvalid | kGet | kPost | kHead | kPut | kDelete
datatype Version = kUnknown | kHttp10 | kHttp11

record HttpRequest =
  http_method :: Method
  http_version :: Version
  http_path :: string
  http_query :: string
  receiveTime :: int
  http_headers :: "string \<rightharpoonup> string"

definition newHttpRequest :: HttpRequest where
  "newHttpRequest = \<lparr>http_method = kInvalid, http_version = kUnknown, http_path = [], http_query = [], receiveTime = 0, http_headers = Map.empty\<rparr>"

definition method_of :: "string \<Rightarrow> Method" where
  "method_of s = (if s = ''GET'' then kGet else if s = ''POST'' then kPost else if s = ''HEAD'' then kHead
     else if s = ''PUT'' then kPut else if s = ''DELETE'' then kDelete else kInvalid)"

text \<open>\<open>setMethod\<close> asserts that no method has been set before.\<close>

definition setMethod :: "string \<Rightarrow> HttpRequest \<Rightarrow> (bool \<times> HttpRequest) option" where
  "setMethod s req = (if http_method req = kInvalid then Some (method_of s \<noteq> kInvalid, req\<lparr>http_method := method_of s\<rparr>) else None)"

definition methodString :: "HttpRequest \<Rightarrow> string" where
  "methodString req = (case http_method req of kGet \<Rightarrow> ''GET'' | kPost \<Rightarrow> ''POST'' | kHead \<Rightarrow> ''HEAD'' | kPut \<Rightarrow> ''PUT''
     | kDelete \<Rightarrow> ''DELETE'' | kInvalid \<Rightarrow> ''UNKNOWN'')"

text \<open>\<open>addHeader\<close>, for a line with a colon: the white space around the value is removed.\<close>

definition trim_end :: "string \<Rightarrow> string" where
  "trim_end s = rev (dropWhile isspace (rev s))"

definition addHeader :: "string \<Rightarrow> HttpRequest \<Rightarrow> HttpRequest" where
  "addHeader line req =
     (let field = takeWhile (\<lambda>c. c \<noteq> CHR '':'') line;
          val = trim_end (dropWhile isspace (drop (length field + 1) line))
      in req\<lparr>http_headers := (http_headers req)(field \<mapsto> val)\<rparr>)"

definition getHeader :: "string \<Rightarrow> HttpRequest \<Rightarrow> string" where
  "getHeader field req = (case http_headers req field of Some v \<Rightarrow> v | None \<Rightarrow> [])"

section \<open>Contexts\<close>

datatype HttpRequestParseState = kExpectRequestLine | kExpectHeaders | kExpectBody | kGotAll

record HttpContext =
  parse_state :: HttpRequestParseState
  http_request :: HttpRequest

definition newHttpContext :: HttpContext where
  "newHttpContext = \<lparr>parse_state = kExpectRequestLine, http_request = newHttpRequest\<rparr>"

text \<open>\<open>HttpRequest::swap\<close> leaves out the version; \<open>reset\<close> swaps the request of the context with a new one.\<close>

definition http_swap :: "HttpRequest \<Rightarrow> HttpRequest \<Rightarrow> HttpRequest \<times> HttpRequest" where
  "http_swap a b = (b\<lparr>http_version := http_version a\<rparr>, a\<lparr>http_version := http_version b\<rparr>)"

definition reset_context :: "HttpContext \<Rightarrow> HttpContext" where
  "reset_context ctx = \<lparr>parse_state = kExpectRequestLine, http_request = fst (http_swap (http_request ctx) newHttpRequest)\<rparr>"

lemma reset_context_request [simp]:
  "parse_state (reset_context ctx) = kExpectRequestLine"
  "http_request (reset_context ctx) = newHttpRequest\<lparr>http_version := http_version (http_request ctx)\<rparr>"
  by (simp_all add: reset_context_def http_swap_def)

section \<open>Parsing\<close>

text \<open>\<open>processRequestLine\<close>, on the bytes of the line.\<close>

definition processRequestLine :: "string \<Rightarrow> HttpRequest \<Rightarrow> (bool \<times> HttpRequest) option" where
  "processRequestLine line req =
     (let meth = takeWhile (\<lambda>c. c \<noteq> CHR '' '') line in
      if length meth = length line then Some (False, req)
      else case setMethod meth req of
        None \<Rightarrow> None
      | Some (False, req) \<Rightarrow> Some (False, req)
      | Some (True, req) \<Rightarrow>
          (let rest = drop (length meth + 1) line;
               target = takeWhile (\<lambda>c. c \<noteq> CHR '' '') rest
           in if length target = length rest then Some (False, req)
              else
                let path = takeWhile (\<lambda>c. c \<noteq> CHR ''?'') target;
                    req = (if length path \<noteq> length target then req\<lparr>http_path := path, http_query := drop (length path) target\<rparr>
                           else req\<lparr>http_path := target\<rparr>);
                    ver = drop (length target + 1) rest
                in if length ver = 8 \<and> take 7 ver = ''HTTP/1.'' then
                     (if ver ! 7 = CHR ''1'' then Some (True, req\<lparr>http_version := kHttp11\<rparr>)
                      else if ver ! 7 = CHR ''0'' then Some (True, req\<lparr>http_version := kHttp10\<rparr>)
                      else Some (False, req))
                   else Some (False, req)))"

datatype parse_result = ParseAssert | ParseHang | Parsed bool Buffer HttpContext

lemma retrieveUntil_less: "retrieveUntil (k + 2) b = Some b' \<Longrightarrow> readableBytes b' < readableBytes b"
  by (auto simp: retrieveUntil_def retrieve_def readableBytes_def sub64_def retrieveAll_def split: if_splits)

function parseRequest :: "int \<Rightarrow> Buffer \<Rightarrow> HttpContext \<Rightarrow> parse_result" where
  "parseRequest time buf ctx = (case parse_state ctx of
       kExpectRequestLine \<Rightarrow>
         (case findCRLF buf of
            None \<Rightarrow> Parsed True buf ctx
          | Some k \<Rightarrow>
              (case processRequestLine (take k (content buf)) (http_request ctx) of
                 None \<Rightarrow> ParseAssert
               | Some (False, req) \<Rightarrow> Parsed False buf (ctx\<lparr>http_request := req\<rparr>)
               | Some (True, req) \<Rightarrow>
                   (case retrieveUntil (k + 2) buf of
                      None \<Rightarrow> ParseAssert
                    | Some buf \<Rightarrow> parseRequest time buf \<lparr>parse_state = kExpectHeaders, http_request = req\<lparr>receiveTime := time\<rparr>\<rparr>)))
     | kExpectHeaders \<Rightarrow>
         (case findCRLF buf of
            None \<Rightarrow> Parsed True buf ctx
          | Some k \<Rightarrow>
              let line = take k (content buf) in
              (case retrieveUntil (k + 2) buf of
                 None \<Rightarrow> ParseAssert
               | Some buf \<Rightarrow>
                   if CHR '':'' \<in> set line then parseRequest time buf (ctx\<lparr>http_request := addHeader line (http_request ctx)\<rparr>)
                   else Parsed True buf (ctx\<lparr>parse_state := kGotAll\<rparr>)))
     | kExpectBody \<Rightarrow> ParseHang
     | kGotAll \<Rightarrow> ParseHang)"
  by pat_completeness auto
termination by (relation "measure (\<lambda>(time, buf, ctx). readableBytes buf)") (auto dest: retrieveUntil_less [simplified])

declare parseRequest.simps [simp del]

section \<open>Responses\<close>

record HttpResponse =
  resp_headers :: "(string \<times> string) list"
  statusCode :: int
  statusMessage :: string
  closeConnection :: bool
  resp_body :: string

definition newHttpResponse :: "bool \<Rightarrow> HttpResponse" where
  "newHttpResponse close = \<lparr>resp_headers = [], statusCode = 0, statusMessage = [], closeConnection = close, resp_body = []\<rparr>"

text \<open>\<open>std::map\<close> keeps its entries in the order of the keys.\<close>

fun str_less :: "string \<Rightarrow> string \<Rightarrow> bool" where
  "str_less s [] = False"
| "str_less [] (d # t) = True"
| "str_less (c # s) (d # t) = (byte c < byte d \<or> c = d \<and> str_less s t)"

fun header_put :: "string \<Rightarrow> string \<Rightarrow> (string \<times> string) list \<Rightarrow> (string \<times> string) list" where
  "header_put k v [] = [(k, v)]"
| "header_put k v ((k', v') # hs) = (if k = k' then (k, v) # hs else if str_less k k' then (k, v) # (k', v') # hs else (k', v') # header_put k v hs)"

definition addRespHeader :: "string \<Rightarrow> string \<Rightarrow> HttpResponse \<Rightarrow> HttpResponse" where
  "addRespHeader k v r = r\<lparr>resp_headers := header_put k v (resp_headers r)\<rparr>"

definition setContentType :: "string \<Rightarrow> HttpResponse \<Rightarrow> HttpResponse" where
  "setContentType t = addRespHeader ''Content-Type'' t"

text \<open>\<open>snprintf\<close> into a buffer of 32 bytes.\<close>

definition snprintf32 :: "string \<Rightarrow> string" where
  "snprintf32 s = take 31 s"

primrec append_all :: "string list \<Rightarrow> Buffer \<Rightarrow> Buffer option" where
  "append_all [] b = Some b"
| "append_all (d # ds) b = Option.bind (append_bytes d b) (append_all ds)"

definition response_pieces :: "HttpResponse \<Rightarrow> string list" where
  "response_pieces r =
     [snprintf32 (''HTTP/1.1 '' @ fmt_d (statusCode r) @ '' ''), statusMessage r, kCRLF] @
     (if closeConnection r then [''Connection: close'' @ kCRLF]
      else [snprintf32 (''Content-Length: '' @ decimal (length (resp_body r)) @ kCRLF), ''Connection: Keep-Alive'' @ kCRLF]) @
     concat (map (\<lambda>(k, v). [k, '': '', v, kCRLF]) (resp_headers r)) @
     [kCRLF, resp_body r]"

definition appendToBuffer :: "HttpResponse \<Rightarrow> Buffer \<Rightarrow> Buffer option" where
  "appendToBuffer r output = append_all (response_pieces r) output"

definition defaultHttpCallback :: "HttpRequest \<Rightarrow> HttpResponse \<Rightarrow> HttpResponse" where
  "defaultHttpCallback req resp = resp\<lparr>statusCode := 404, statusMessage := ''Not Found'', closeConnection := True\<rparr>"

section \<open>The server\<close>

datatype http_action = HttpSend string | HttpShutdown

text \<open>\<open>onRequest\<close>; \<open>conn->send(&buf)\<close> hands over the content of the buffer.\<close>

definition onRequest :: "(HttpRequest \<Rightarrow> HttpResponse \<Rightarrow> HttpResponse) \<Rightarrow> HttpRequest \<Rightarrow> http_action list option" where
  "onRequest httpCallback req =
     (let connection = getHeader ''Connection'' req;
          close = (connection = ''close'' \<or> (http_version req = kHttp10 \<and> connection \<noteq> ''Keep-Alive''));
          response = httpCallback req (newHttpResponse close)
      in map_option (\<lambda>buf. HttpSend (content buf) # (if closeConnection response then [HttpShutdown] else []))
           (appendToBuffer response (newBuffer kInitialSize)))"

text \<open>The context of a connection is set when it comes up.\<close>

definition http_onConnection :: "bool \<Rightarrow> HttpContext option \<Rightarrow> HttpContext option" where
  "http_onConnection up ctx = (if up then Some newHttpContext else ctx)"

datatype message_result = MessageAssert | MessageHang | Handled Buffer HttpContext "http_action list"

definition http_onMessage :: "(HttpRequest \<Rightarrow> HttpResponse \<Rightarrow> HttpResponse) \<Rightarrow> int \<Rightarrow> Buffer \<Rightarrow> HttpContext \<Rightarrow> message_result" where
  "http_onMessage httpCallback time buf ctx = (case parseRequest time buf ctx of
       ParseAssert \<Rightarrow> MessageAssert
     | ParseHang \<Rightarrow> MessageHang
     | Parsed ok buf ctx \<Rightarrow>
         let acts = (if \<not> ok then [HttpSend (''HTTP/1.1 400 Bad Request'' @ kCRLF @ kCRLF), HttpShutdown] else []) in
         if parse_state ctx = kGotAll then
           (case onRequest httpCallback (http_request ctx) of
              None \<Rightarrow> MessageAssert
            | Some as \<Rightarrow> Handled buf (reset_context ctx) (acts @ as))
         else Handled buf ctx acts)"

end
