(* ===== verification/HttpProps.thy ===== *)
theory HttpProps
  imports HttpServer
begin

text \<open>
  The theorems about the HTTP server.  \<open>parse_str\<close> is the parser over the plain string of unread bytes; \<open>parseRequest\<close> refines it, and cutting the input does not
  change what it computes.  A well-formed request is read back and answered once, however the bytes arrive; parsing never hangs.  A request line that is refused
  after its method has been read makes the next message fail an assertion.
\<close>

section \<open>The parser over strings\<close>

datatype str_result = SAssert | SHang | SParsed bool string HttpContext

lemma search_CRLF_length: "search kCRLF s = Some k \<Longrightarrow> k + 2 \<le> length s"
  by (auto simp: search_Some kCRLF_def)

function parse_str :: "int \<Rightarrow> string \<Rightarrow> HttpContext \<Rightarrow> str_result" where
  "parse_str time s ctx = (case parse_state ctx of
       kExpectRequestLine \<Rightarrow>
         (case search kCRLF s of
            None \<Rightarrow> SParsed True s ctx
          | Some k \<Rightarrow>
              (case processRequestLine (take k s) (http_request ctx) of
                 None \<Rightarrow> SAssert
               | Some (False, req) \<Rightarrow> SParsed False s (ctx\<lparr>http_request := req\<rparr>)
               | Some (True, req) \<Rightarrow> parse_str time (drop (k + 2) s) \<lparr>parse_state = kExpectHeaders, http_request = req\<lparr>receiveTime := time\<rparr>\<rparr>))
     | kExpectHeaders \<Rightarrow>
         (case search kCRLF s of
            None \<Rightarrow> SParsed True s ctx
          | Some k \<Rightarrow>
              if CHR '':'' \<in> set (take k s)
              then parse_str time (drop (k + 2) s) (ctx\<lparr>http_request := addHeader (take k s) (http_request ctx)\<rparr>)
              else SParsed True (drop (k + 2) s) (ctx\<lparr>parse_state := kGotAll\<rparr>))
     | kExpectBody \<Rightarrow> SHang
     | kGotAll \<Rightarrow> SHang)"
  by pat_completeness auto

termination by (relation "measure (\<lambda>(time, s, ctx). length s)") (auto dest: search_CRLF_length)

declare parse_str.simps [simp del]

lemma retrieveUntil_spec:
  "buf_inv b \<Longrightarrow> n \<le> length (content b) \<Longrightarrow> \<exists>b'. retrieveUntil n b = Some b' \<and> buf_inv b' \<and> content b' = drop n (content b)"
  using retrieve_spec [of b n] by (auto simp: retrieveUntil_def)

definition refines :: "parse_result \<Rightarrow> str_result \<Rightarrow> bool" where
  "refines p q = (case q of SAssert \<Rightarrow> p = ParseAssert | SHang \<Rightarrow> p = ParseHang
     | SParsed ok r ctx \<Rightarrow> \<exists>b. p = Parsed ok b ctx \<and> buf_inv b \<and> content b = r)"

lemma parseRequest_refines: "buf_inv buf \<Longrightarrow> refines (parseRequest time buf ctx) (parse_str time (content buf) ctx)"
proof (induction "content buf" arbitrary: buf ctx rule: length_induct)
  case 1
  note b = "1.prems"
  have rec: "refines (parseRequest time b' c) (parse_str time (drop (k + 2) (content buf)) c)"
    if "retrieveUntil (k + 2) buf = Some b'" "search kCRLF (content buf) = Some k" for b' k c
  proof -
    have l: "k + 2 \<le> length (content buf)" by (rule search_CRLF_length [OF that(2)])
    then have "buf_inv b'" "content b' = drop (k + 2) (content buf)" using retrieveUntil_spec [OF b] that(1) by fastforce+
    then show ?thesis using "1.hyps" [rule_format, of "content b'" b' c] l by simp
  qed
  have ret: "\<exists>b'. retrieveUntil (k + 2) buf = Some b' \<and> buf_inv b' \<and> content b' = drop (k + 2) (content buf)"
    if "search kCRLF (content buf) = Some k" for k using retrieveUntil_spec [OF b search_CRLF_length [OF that]] .
  show ?case
  proof (cases "search kCRLF (content buf)")
    case None
    then show ?thesis using b
      by (subst parseRequest.simps, subst parse_str.simps) (auto simp: refines_def findCRLF_def split: HttpRequestParseState.splits)
  next
    case (Some k)
    then obtain b' where b': "retrieveUntil (k + 2) buf = Some b'" "buf_inv b'" "content b' = drop (k + 2) (content buf)" using ret by blast
    show ?thesis
      using Some b b' rec [OF b'(1) Some]
      by (subst parseRequest.simps, subst parse_str.simps)
        (auto simp: findCRLF_def refines_def [of ParseAssert] refines_def [of ParseHang] refines_def [of "Parsed _ _ _"] Let_def
          split: HttpRequestParseState.splits option.splits bool.splits)
  qed
qed

section \<open>Cutting the input\<close>

lemma search_CRLF_append: "search kCRLF a = Some k \<Longrightarrow> search kCRLF (a @ b) = Some k"
proof (induction a arbitrary: k)
  case (Cons c a)
  then show ?case by (cases a) (auto simp: kCRLF_def split: if_splits)
qed (simp add: kCRLF_def)

lemma search_CRLF_first: "CHR 0x0D \<notin> set l \<Longrightarrow> search kCRLF (l @ kCRLF @ r) = Some (length l)"
  by (induction l) (auto simp: kCRLF_def)

definition waiting :: "HttpContext \<Rightarrow> bool" where
  "waiting ctx \<longleftrightarrow> parse_state ctx = kExpectRequestLine \<or> parse_state ctx = kExpectHeaders"

text \<open>One line of the parser.\<close>

lemma parse_str_wait: "waiting ctx \<Longrightarrow> search kCRLF s = None \<Longrightarrow> parse_str time s ctx = SParsed True s ctx"
  by (subst parse_str.simps) (auto simp: waiting_def)

lemma parse_str_request:
  "parse_state ctx = kExpectRequestLine \<Longrightarrow> search kCRLF s = Some k \<Longrightarrow> parse_str time s ctx =
    (case processRequestLine (take k s) (http_request ctx) of
       None \<Rightarrow> SAssert
     | Some (False, req) \<Rightarrow> SParsed False s (ctx\<lparr>http_request := req\<rparr>)
     | Some (True, req) \<Rightarrow> parse_str time (drop (k + 2) s) \<lparr>parse_state = kExpectHeaders, http_request = req\<lparr>receiveTime := time\<rparr>\<rparr>)"
  by (subst parse_str.simps) simp

lemma parse_str_header:
  "parse_state ctx = kExpectHeaders \<Longrightarrow> search kCRLF s = Some k \<Longrightarrow> parse_str time s ctx =
    (if CHR '':'' \<in> set (take k s)
     then parse_str time (drop (k + 2) s) (ctx\<lparr>http_request := addHeader (take k s) (http_request ctx)\<rparr>)
     else SParsed True (drop (k + 2) s) (ctx\<lparr>parse_state := kGotAll\<rparr>))"
  by (subst parse_str.simps) simp

lemma parse_str_line_cases [consumes 1, case_names wait assert refuse request header complete]:
  assumes "waiting ctx"
    "search kCRLF s = None \<Longrightarrow> parse_str time s ctx = SParsed True s ctx \<Longrightarrow> P"
    "\<And>k. search kCRLF s = Some k \<Longrightarrow> parse_state ctx = kExpectRequestLine \<Longrightarrow> processRequestLine (take k s) (http_request ctx) = None \<Longrightarrow>
      parse_str time s ctx = SAssert \<Longrightarrow> P"
    "\<And>k req. search kCRLF s = Some k \<Longrightarrow> parse_state ctx = kExpectRequestLine \<Longrightarrow> processRequestLine (take k s) (http_request ctx) = Some (False, req) \<Longrightarrow>
      parse_str time s ctx = SParsed False s (ctx\<lparr>http_request := req\<rparr>) \<Longrightarrow> P"
    "\<And>k req. search kCRLF s = Some k \<Longrightarrow> parse_state ctx = kExpectRequestLine \<Longrightarrow> processRequestLine (take k s) (http_request ctx) = Some (True, req) \<Longrightarrow>
      parse_str time s ctx = parse_str time (drop (k + 2) s) \<lparr>parse_state = kExpectHeaders, http_request = req\<lparr>receiveTime := time\<rparr>\<rparr> \<Longrightarrow> P"
    "\<And>k. search kCRLF s = Some k \<Longrightarrow> parse_state ctx = kExpectHeaders \<Longrightarrow> CHR '':'' \<in> set (take k s) \<Longrightarrow>
      parse_str time s ctx = parse_str time (drop (k + 2) s) (ctx\<lparr>http_request := addHeader (take k s) (http_request ctx)\<rparr>) \<Longrightarrow> P"
    "\<And>k. search kCRLF s = Some k \<Longrightarrow> parse_state ctx = kExpectHeaders \<Longrightarrow> CHR '':'' \<notin> set (take k s) \<Longrightarrow>
      parse_str time s ctx = SParsed True (drop (k + 2) s) (ctx\<lparr>parse_state := kGotAll\<rparr>) \<Longrightarrow> P"
  shows P
proof (cases "search kCRLF s")
  case None
  then show ?thesis using assms(1,2) parse_str_wait by blast
next
  case (Some k)
  from assms(1) consider "parse_state ctx = kExpectRequestLine" | "parse_state ctx = kExpectHeaders" by (auto simp: waiting_def)
  then show ?thesis
  proof cases
    case 1
    then show ?thesis using assms(3-5) [OF Some 1] parse_str_request [OF 1 Some, of time]
      by (cases "processRequestLine (take k s) (http_request ctx)") (auto split: bool.splits)
  next
    case 2
    then show ?thesis using assms(6,7) [OF Some 2] parse_str_header [OF 2 Some, of time] by (cases "CHR '':'' \<in> set (take k s)") simp_all
  qed
qed

text \<open>What the rest of the input does to a result.\<close>

definition continue_str :: "int \<Rightarrow> string \<Rightarrow> str_result \<Rightarrow> str_result" where
  "continue_str time b q = (case q of
     SParsed ok r ctx \<Rightarrow> if ok \<and> waiting ctx then parse_str time (r @ b) ctx else SParsed ok (r @ b) ctx | _ \<Rightarrow> q)"

lemma parse_str_append: "waiting ctx \<Longrightarrow> parse_str time (a @ b) ctx = continue_str time b (parse_str time a ctx)"
proof (induction a arbitrary: ctx rule: length_induct)
  case (1 a)
  have IH: "waiting c \<Longrightarrow> parse_str time (drop (k + 2) a @ b) c = continue_str time b (parse_str time (drop (k + 2) a) c)"
    if "search kCRLF a = Some k" for c k using "1.IH" [rule_format, of "drop (k + 2) a" c] search_CRLF_length [OF that] by simp
  from "1.prems" show ?case
  proof (cases rule: parse_str_line_cases [where s = a and time = time])
    case (header k)
    then show ?thesis using IH [OF header(1)] search_CRLF_append [OF header(1), of b] search_CRLF_length [OF header(1)]
        parse_str_header [of ctx "a @ b" k time] by (simp add: waiting_def)
  next
    case (request k req)
    then show ?thesis using IH [OF request(1)] search_CRLF_append [OF request(1), of b] search_CRLF_length [OF request(1)]
        parse_str_request [of ctx "a @ b" k time] by (simp add: waiting_def)
  next
    case (refuse k req)
    then show ?thesis using search_CRLF_append [OF refuse(1), of b] search_CRLF_length [OF refuse(1)]
        parse_str_request [of ctx "a @ b" k time] by (simp add: continue_str_def)
  next
    case (assert k)
    then show ?thesis using search_CRLF_append [OF assert(1), of b] search_CRLF_length [OF assert(1)]
        parse_str_request [of ctx "a @ b" k time] by (simp add: continue_str_def)
  next
    case (complete k)
    then show ?thesis using search_CRLF_append [OF complete(1), of b] search_CRLF_length [OF complete(1)]
        parse_str_header [of ctx "a @ b" k time] by (simp add: continue_str_def waiting_def)
  qed (use "1.prems" in \<open>simp add: continue_str_def\<close>)
qed

text \<open>A successful parse that waits for more has used up all complete lines.\<close>

definition result_ok :: "str_result \<Rightarrow> bool" where
  "result_ok q = (case q of SHang \<Rightarrow> False | SAssert \<Rightarrow> True
     | SParsed ok r ctx \<Rightarrow> if waiting ctx then ok \<longrightarrow> search kCRLF r = None else ok \<and> parse_state ctx = kGotAll)"

lemma parse_str_result: "waiting ctx \<Longrightarrow> result_ok (parse_str time s ctx)"
proof (induction s arbitrary: ctx rule: length_induct)
  case (1 s)
  have IH: "waiting c \<Longrightarrow> result_ok (parse_str time (drop (k + 2) s) c)"
    if "search kCRLF s = Some k" for c k using "1.IH" [rule_format, of "drop (k + 2) s" c] search_CRLF_length [OF that] by simp
  from "1.prems" show ?case
  proof (cases rule: parse_str_line_cases [where s = s and time = time])
    case (request k req)
    then show ?thesis using IH [OF request(1)] by (simp add: waiting_def)
  next
    case (header k)
    then show ?thesis using IH [OF header(1)] by (simp add: waiting_def)
  qed (use "1.prems" in \<open>auto simp: waiting_def result_ok_def\<close>)
qed

section \<open>Times\<close>

text \<open>Only the receive time of the request depends on the time.\<close>

definition at_time :: "int \<Rightarrow> HttpContext \<Rightarrow> HttpContext" where
  "at_time t ctx = ctx\<lparr>http_request := (http_request ctx)\<lparr>receiveTime := t\<rparr>\<rparr>"

lemma processRequestLine_time:
  "processRequestLine line (req\<lparr>receiveTime := t\<rparr>) = map_option (\<lambda>(ok, r). (ok, r\<lparr>receiveTime := t\<rparr>)) (processRequestLine line req)"
  by (auto simp: processRequestLine_def setMethod_def Let_def split: option.splits bool.splits if_splits)

definition erase_time :: "str_result \<Rightarrow> str_result" where
  "erase_time q = (case q of SParsed ok r ctx \<Rightarrow> SParsed ok r (at_time 0 ctx) | _ \<Rightarrow> q)"

lemma at_time_sel [simp]: "parse_state (at_time t ctx) = parse_state ctx" "http_request (at_time t ctx) = (http_request ctx)\<lparr>receiveTime := t\<rparr>"
  "waiting (at_time t ctx) = waiting ctx"
  by (simp_all add: at_time_def waiting_def)

lemma addHeader_time: "addHeader l (req\<lparr>receiveTime := t\<rparr>) = (addHeader l req)\<lparr>receiveTime := t\<rparr>"
  by (simp add: addHeader_def Let_def)

lemma parse_str_erase: "waiting ctx \<Longrightarrow> parse_str 0 s (at_time 0 ctx) = erase_time (parse_str time s ctx)"
proof (induction s arbitrary: ctx rule: length_induct)
  case (1 s)
  have IH: "waiting c \<Longrightarrow> parse_str 0 (drop (k + 2) s) (at_time 0 c) = erase_time (parse_str time (drop (k + 2) s) c)"
    if "search kCRLF s = Some k" for c k using "1.IH" [rule_format, of "drop (k + 2) s" c] search_CRLF_length [OF that] by simp
  let ?c = "at_time 0 ctx"
  from "1.prems" show ?case
  proof (cases rule: parse_str_line_cases [where s = s and time = time])
    case wait
    then show ?thesis using parse_str_wait [of ?c s 0] "1.prems" by (simp add: erase_time_def)
  next
    case (assert k)
    then show ?thesis using parse_str_request [of ?c s k 0] by (simp add: processRequestLine_time erase_time_def)
  next
    case (refuse k req)
    then show ?thesis using parse_str_request [of ?c s k 0] by (simp add: processRequestLine_time erase_time_def at_time_def)
  next
    case (request k req)
    then show ?thesis using parse_str_request [of ?c s k 0] IH [OF request(1), of "\<lparr>parse_state = kExpectHeaders, http_request = req\<lparr>receiveTime := time\<rparr>\<rparr>"]
      by (simp add: processRequestLine_time waiting_def at_time_def)
  next
    case (header k)
    then show ?thesis using parse_str_header [of ?c s k 0] IH [OF header(1), of "ctx\<lparr>http_request := addHeader (take k s) (http_request ctx)\<rparr>"]
      by (simp add: addHeader_time waiting_def at_time_def)
  next
    case (complete k)
    then show ?thesis using parse_str_header [of ?c s k 0] by (simp add: erase_time_def at_time_def)
  qed
qed

section \<open>Requests on the wire\<close>

definition method_text :: "Method \<Rightarrow> string" where
  "method_text mt = methodString (newHttpRequest\<lparr>http_method := mt\<rparr>)"

definition version_text :: "Version \<Rightarrow> string" where
  "version_text v = ''HTTP/1.'' @ (if v = kHttp11 then ''1'' else ''0'')"

definition header_line :: "string \<times> string \<Rightarrow> string" where
  "header_line h = fst h @ '': '' @ snd h"

definition request_line :: "Method \<Rightarrow> Version \<Rightarrow> string \<Rightarrow> string \<Rightarrow> string" where
  "request_line mt v path query = method_text mt @ '' '' @ path @ query @ '' '' @ version_text v"

definition render :: "Method \<Rightarrow> Version \<Rightarrow> string \<Rightarrow> string \<Rightarrow> (string \<times> string) list \<Rightarrow> string" where
  "render mt v path query hs = request_line mt v path query @ kCRLF @ concat (map (\<lambda>h. header_line h @ kCRLF) hs) @ kCRLF"

definition clean :: "string \<Rightarrow> string \<Rightarrow> bool" where
  "clean bad s \<longleftrightarrow> (\<forall>c \<in> set s. c \<noteq> CHR 0x0D \<and> c \<notin> set bad)"

definition wf_header :: "string \<times> string \<Rightarrow> bool" where
  "wf_header h \<longleftrightarrow> clean '':'' (fst h) \<and> clean [] (snd h) \<and> dropWhile isspace (snd h) = snd h \<and> trim_end (snd h) = snd h"

definition wf_request :: "Method \<Rightarrow> Version \<Rightarrow> string \<Rightarrow> string \<Rightarrow> (string \<times> string) list \<Rightarrow> bool" where
  "wf_request mt v path query hs \<longleftrightarrow> mt \<noteq> kInvalid \<and> v \<noteq> kUnknown \<and> clean '' ?'' path \<and> clean '' '' query \<and>
     (query \<noteq> [] \<longrightarrow> hd query = CHR ''?'') \<and> list_all wf_header hs"

definition the_request :: "Method \<Rightarrow> Version \<Rightarrow> string \<Rightarrow> string \<Rightarrow> (string \<times> string) list \<Rightarrow> int \<Rightarrow> HttpRequest" where
  "the_request mt v path query hs time = \<lparr>http_method = mt, http_version = v, http_path = path, http_query = query,
     receiveTime = time, http_headers = map_of (rev hs)\<rparr>"

definition fresh_context :: "Version \<Rightarrow> HttpContext" where
  "fresh_context v = \<lparr>parse_state = kExpectRequestLine, http_request = newHttpRequest\<lparr>http_version := v\<rparr>\<rparr>"

lemma takeWhile_sep: "x \<notin> set a \<Longrightarrow> takeWhile (\<lambda>c. c \<noteq> x) (a @ x # b) = a"
  by (induction a) auto

lemma takeWhile_all: "x \<notin> set a \<Longrightarrow> takeWhile (\<lambda>c. c \<noteq> x) a = a"
  by (induction a) auto

lemma method_text_ok: "mt \<noteq> kInvalid \<Longrightarrow> method_of (method_text mt) = mt \<and> CHR '' '' \<notin> set (method_text mt) \<and> CHR 0x0D \<notin> set (method_text mt)"
  by (cases mt) (simp_all add: method_text_def methodString_def method_of_def)

lemma process_request_line:
  assumes "wf_request mt v path query hs"
  shows "processRequestLine (request_line mt v path query) (newHttpRequest\<lparr>http_version := v0\<rparr>) =
    Some (True, (the_request mt v path query [] 0))"
proof -
  have mt: "mt \<noteq> kInvalid" "v \<noteq> kUnknown" and pq: "CHR '' '' \<notin> set (path @ query)" "CHR ''?'' \<notin> set path" "query \<noteq> [] \<longrightarrow> hd query = CHR ''?''"
    using assms by (auto simp: wf_request_def clean_def)
  note m = method_text_ok [OF mt(1)]
  have sp: "takeWhile (\<lambda>c. c \<noteq> CHR '' '') (request_line mt v path query) = method_text mt"
    using takeWhile_sep [of "CHR '' ''" "method_text mt"] m by (simp add: request_line_def)
  have sp2: "takeWhile (\<lambda>c. c \<noteq> CHR '' '') (path @ query @ '' '' @ version_text v) = path @ query"
    using takeWhile_sep [of "CHR '' ''" "path @ query" "version_text v"] pq(1) by simp
  have q: "takeWhile (\<lambda>c. c \<noteq> CHR ''?'') (path @ query) = path"
    using takeWhile_sep [of "CHR ''?''" path "tl query"] takeWhile_all [of "CHR ''?''" path] pq(2,3) by (cases query) auto
  have v: "length (version_text v) = 8" "take 7 (version_text v) = ''HTTP/1.''" "version_text v ! 7 = (if v = kHttp11 then CHR ''1'' else CHR ''0'')"
    by (simp_all add: version_text_def)
  have d: "drop (length (method_text mt) + 1) (request_line mt v path query) = path @ query @ '' '' @ version_text v"
    by (simp add: request_line_def)
  have d2: "drop (length (path @ query) + 1) (path @ query @ '' '' @ version_text v) = version_text v" by simp
  show ?thesis
    unfolding processRequestLine_def sp Let_def setMethod_def d sp2 q d2
    using m v mt by (cases v) (auto simp: request_line_def newHttpRequest_def the_request_def)
qed

lemma add_header_line:
  assumes "wf_header h"
  shows "addHeader (header_line h) req = req\<lparr>http_headers := (http_headers req)(fst h \<mapsto> snd h)\<rparr>"
proof -
  have "takeWhile (\<lambda>c. c \<noteq> CHR '':'') (header_line h) = fst h"
    using assms takeWhile_sep [of "CHR '':''" "fst h"] by (auto simp: wf_header_def clean_def header_line_def)
  moreover have "isspace (CHR '' '')" by (simp add: isspace_def byte_def)
  ultimately show ?thesis using assms by (simp add: addHeader_def wf_header_def Let_def header_line_def)
qed

lemma parse_line_prefix:
  assumes "CHR 0x0D \<notin> set l"
  shows "search kCRLF (l @ kCRLF @ r) = Some (length l)" "take (length l) (l @ kCRLF @ r) = l" "drop (length l + 2) (l @ kCRLF @ r) = r"
  using search_CRLF_first [OF assms] by (simp_all add: kCRLF_def)

lemma parse_headers:
  assumes "list_all wf_header hs" "parse_state ctx = kExpectHeaders"
  shows "parse_str time (concat (map (\<lambda>h. header_line h @ kCRLF) hs) @ kCRLF) ctx =
    SParsed True [] (ctx\<lparr>parse_state := kGotAll,
      http_request := (http_request ctx)\<lparr>http_headers := http_headers (http_request ctx) ++ map_of (rev hs)\<rparr>\<rparr>)"
  using assms
proof (induction hs arbitrary: ctx)
  case Nil
  then show ?case using parse_str_header [OF Nil.prems(2), of kCRLF 0 time] by (simp add: kCRLF_def)
next
  case (Cons h hs)
  let ?rest = "concat (map (\<lambda>h. header_line h @ kCRLF) hs) @ kCRLF"
  have h: "wf_header h" "list_all wf_header hs" using Cons.prems(1) by simp_all
  then have cr: "CHR 0x0D \<notin> set (header_line h)" and col: "CHR '':'' \<in> set (header_line h)"
    by (auto simp: wf_header_def clean_def header_line_def)
  note l = parse_line_prefix [OF cr, of ?rest]
  let ?c = "ctx\<lparr>http_request := (http_request ctx)\<lparr>http_headers := (http_headers (http_request ctx))(fst h \<mapsto> snd h)\<rparr>\<rparr>"
  have "parse_str time (concat (map (\<lambda>h. header_line h @ kCRLF) (h # hs)) @ kCRLF) ctx = parse_str time ?rest ?c"
    using parse_str_header [OF Cons.prems(2) l(1)] l(2,3) col add_header_line [OF h(1)] by simp
  also have "\<dots> = SParsed True [] (?c\<lparr>parse_state := kGotAll,
      http_request := (http_request ?c)\<lparr>http_headers := http_headers (http_request ?c) ++ map_of (rev hs)\<rparr>\<rparr>)"
    by (rule Cons.IH [OF h(2)]) (use Cons.prems(2) in simp)
  also have "http_headers (http_request ?c) ++ map_of (rev hs) = http_headers (http_request ctx) ++ map_of (rev (h # hs))"
    by (auto simp: map_add_def fun_eq_iff split: option.splits)
  finally show ?case by simp
qed

lemma parse_rendered:
  assumes "wf_request mt v path query hs"
  shows "parse_str time (render mt v path query hs) (fresh_context v0) =
    SParsed True [] \<lparr>parse_state = kGotAll, http_request = the_request mt v path query hs time\<rparr>"
proof -
  have cr: "CHR 0x0D \<notin> set (request_line mt v path query)"
    using assms method_text_ok [of mt] by (auto simp: wf_request_def clean_def request_line_def version_text_def)
  let ?rest = "concat (map (\<lambda>h. header_line h @ kCRLF) hs) @ kCRLF"
  note l = parse_line_prefix [OF cr, of ?rest]
  let ?c = "\<lparr>parse_state = kExpectHeaders, http_request = (the_request mt v path query [] 0)\<lparr>receiveTime := time\<rparr>\<rparr>"
  have "parse_str time (render mt v path query hs) (fresh_context v0) = parse_str time ?rest ?c"
    using parse_str_request [of "fresh_context v0", OF _ l(1)] l(2,3) process_request_line [OF assms]
    by (simp add: render_def fresh_context_def)
  also have "\<dots> = SParsed True [] \<lparr>parse_state = kGotAll, http_request = the_request mt v path query hs time\<rparr>"
    using parse_headers [of hs ?c time] assms by (simp add: wf_request_def the_request_def)
  finally show ?thesis .
qed

section \<open>The server\<close>

lemma append_all_put_all: "append_all ds = bq.put_all ds"
  by (induction ds) (rule ext, simp)+

lemma appendToBuffer_content:
  "buf_inv b \<Longrightarrow> \<exists>b'. appendToBuffer r b = Some b' \<and> buf_inv b' \<and> content b' = content b @ concat (response_pieces r)"
  unfolding appendToBuffer_def append_all_put_all by (rule bq.put_all_bytes)

lemma onRequest_total: "\<exists>as. onRequest cb req = Some as"
  using appendToBuffer_content [OF new_inv] by (auto simp: onRequest_def Let_def)

lemma http_onMessage_parsed:
  assumes "buf_inv buf" "parse_str time (content buf) ctx = SParsed True r ctx'"
  shows "\<exists>b. buf_inv b \<and> content b = r \<and> http_onMessage cb time buf ctx =
    (if parse_state ctx' = kGotAll then Handled b (reset_context ctx') (the (onRequest cb (http_request ctx'))) else Handled b ctx' [])"
proof -
  obtain b where b: "parseRequest time buf ctx = Parsed True b ctx'" "buf_inv b" "content b = r"
    using parseRequest_refines [OF assms(1), of time ctx] assms(2) by (auto simp: refines_def)
  obtain as where "onRequest cb (http_request ctx') = Some as" using onRequest_total by blast
  with b show ?thesis by (auto simp: http_onMessage_def)
qed

text \<open>The bytes of a connection arrive in pieces, each with its receive time; every piece is one call of the message callback.\<close>

primrec http_feed :: "(HttpRequest \<Rightarrow> HttpResponse \<Rightarrow> HttpResponse) \<Rightarrow> (int \<times> string) list \<Rightarrow> Buffer \<Rightarrow> HttpContext \<Rightarrow>
    (Buffer \<times> HttpContext \<times> http_action list) option" where
  "http_feed cb [] buf ctx = Some (buf, ctx, [])"
| "http_feed cb (td # cs) buf ctx =
     (case readFd (Some (snd td)) buf of
        None \<Rightarrow> None
      | Some buf \<Rightarrow> (case http_onMessage cb (fst td) buf ctx of
          Handled buf ctx acts \<Rightarrow> map_option (\<lambda>(b, c, as). (b, c, acts @ as)) (http_feed cb cs buf ctx)
        | _ \<Rightarrow> None))"

lemma erase_time_Parsed: "erase_time q = SParsed ok r c \<Longrightarrow> \<exists>c'. q = SParsed ok r c' \<and> at_time 0 c' = c"
  by (cases q) (auto simp: erase_time_def)

text \<open>The remaining pieces complete the request that the context has begun.\<close>

lemma http_feed_completes:
  assumes "buf_inv buf" "waiting ctx" "search kCRLF (content buf) = None" "\<forall>td \<in> set cs. snd td \<noteq> []"
    "parse_str 0 (content buf @ concat (map snd cs)) (at_time 0 ctx) = SParsed True [] \<lparr>parse_state = kGotAll, http_request = req\<rparr>"
  shows "\<exists>buf' t as. http_feed cb cs buf ctx = Some (buf', fresh_context (http_version req), as) \<and> buf_inv buf' \<and> content buf' = [] \<and>
    onRequest cb (req\<lparr>receiveTime := t\<rparr>) = Some as"
  using assms
proof (induction cs arbitrary: buf ctx)
  case Nil
  have "parse_str 0 (content buf) (at_time 0 ctx) = SParsed True (content buf) (at_time 0 ctx)" by (rule parse_str_wait) (use Nil.prems in simp_all)
  with Nil.prems(2,5) show ?case by (auto simp: waiting_def at_time_def dest: arg_cong [of _ _ parse_state])
next
  case (Cons td cs)
  obtain t d where td: "td = (t, d)" by (cases td)
  obtain b where b: "readFd (Some d) buf = Some b" "buf_inv b" "content b = content buf @ d" using readFd_spec [OF Cons.prems(1)] by blast
  let ?rest = "concat (map snd cs)"
  have w0: "waiting (at_time 0 ctx)" using Cons.prems(2) by simp
  have whole: "continue_str 0 ?rest (parse_str 0 (content b) (at_time 0 ctx)) = SParsed True [] \<lparr>parse_state = kGotAll, http_request = req\<rparr>"
    using Cons.prems(5) parse_str_append [OF w0, of 0 "content b" ?rest] b(3) td by simp
  then obtain r c where rc: "parse_str 0 (content b) (at_time 0 ctx) = SParsed True r c"
    by (cases "parse_str 0 (content b) (at_time 0 ctx)") (auto simp: continue_str_def split: if_splits)
  then obtain c' where c': "parse_str t (content b) ctx = SParsed True r c'" "at_time 0 c' = c"
    using parse_str_erase [OF Cons.prems(2), of "content b" t] erase_time_Parsed by metis
  obtain b2 where b2: "buf_inv b2" "content b2 = r" and h: "http_onMessage cb t b ctx =
      (if parse_state c' = kGotAll then Handled b2 (reset_context c') (the (onRequest cb (http_request c'))) else Handled b2 c' [])"
    using http_onMessage_parsed [OF b(2) c'(1)] by blast
  have ok: "result_ok (SParsed True r c')" using parse_str_result [OF Cons.prems(2), of t "content b"] c'(1) by simp
  show ?case
  proof (cases "waiting c'")
    case True
    then have w: "search kCRLF r = None" "parse_state c' \<noteq> kGotAll" using ok by (auto simp: result_ok_def waiting_def)
    have "parse_str 0 (content b2 @ ?rest) (at_time 0 c') = SParsed True [] \<lparr>parse_state = kGotAll, http_request = req\<rparr>"
      using whole rc c'(2) True b2(2) by (auto simp: continue_str_def)
    from Cons.IH [OF b2(1) True _ _ this] w b2(2) Cons.prems(4) obtain buf' t' as where
      f: "http_feed cb cs b2 c' = Some (buf', fresh_context (http_version req), as)" "buf_inv buf'" "content buf' = []"
        "onRequest cb (req\<lparr>receiveTime := t'\<rparr>) = Some as" by auto
    moreover have "http_feed cb (td # cs) buf ctx = Some (buf', fresh_context (http_version req), as)" using td b(1) h w(2) f(1) by simp
    ultimately show ?thesis by blast
  next
    case False
    then have g: "parse_state c' = kGotAll" using ok by (simp add: result_ok_def)
    have nw: "\<not> waiting c" using False c'(2) by (metis at_time_sel(3))
    have e: "r @ ?rest = []" "c = \<lparr>parse_state = kGotAll, http_request = req\<rparr>" using whole rc nw by (simp_all add: continue_str_def)
    then have cs: "cs = []" using Cons.prems(4) by (cases cs) auto
    have rq: "http_request c' = req\<lparr>receiveTime := receiveTime (http_request c')\<rparr>" "http_version (http_request c') = http_version req"
      using c'(2) e(2) by (cases c'; cases "http_request c'"; force simp: at_time_def)+
    obtain as where as: "onRequest cb (http_request c') = Some as" using onRequest_total by blast
    have "http_feed cb (td # cs) buf ctx = Some (b2, fresh_context (http_version req), as)"
      using td b(1) h g cs as rq(2) by (simp add: reset_context_def http_swap_def fresh_context_def)
    moreover have "onRequest cb (req\<lparr>receiveTime := receiveTime (http_request c')\<rparr>) = Some as" using as rq(1) by simp
    ultimately show ?thesis using b2 e(1) by blast
  qed
qed

section \<open>Properties\<close>

text \<open>Property C31. A well-formed request without a body is read back and answered exactly once: however its bytes are cut into pieces, with whatever receive
  times, the server does nothing until the last piece, then calls \<open>onRequest\<close> with the method, path, query, version and headers that were sent, and is left
  with an empty buffer and a context that is ready for the next request of the connection.  The answer includes the shutdown of the write side when the request
  (\<open>Connection: close\<close>, or HTTP/1.0 without \<open>Keep-Alive\<close>) or the callback asks for it.  A body is not read: \<open>http_body_stays\<close> below.\<close>

theorem http_request_answered:
  assumes "wf_request mt v path query hs" "concat (map snd chunks) = render mt v path query hs" "\<forall>td \<in> set chunks. snd td \<noteq> []"
    "buf_inv buf" "content buf = []"
  shows "\<exists>buf' time as. http_feed cb chunks buf (fresh_context v0) = Some (buf', fresh_context v, as) \<and> buf_inv buf' \<and> content buf' = [] \<and>
    onRequest cb (the_request mt v path query hs time) = Some as"
proof -
  have "at_time 0 (fresh_context v0) = fresh_context v0" by (simp add: at_time_def fresh_context_def newHttpRequest_def)
  then have "parse_str 0 (content buf @ concat (map snd chunks)) (at_time 0 (fresh_context v0)) =
      SParsed True [] \<lparr>parse_state = kGotAll, http_request = the_request mt v path query hs 0\<rparr>"
    using parse_rendered [OF assms(1), of 0 v0] assms(2,5) by simp
  from http_feed_completes [OF assms(4) _ _ assms(3) this, of cb] assms(5)
  show ?thesis by (auto simp: waiting_def fresh_context_def kCRLF_def the_request_def)
qed

theorem http_request_answered_witness:
  "\<exists>buf' time as. http_feed defaultHttpCallback [(1, ''GET /a?x=1 HTTP''), (2, ''/1.1'' @ [CHR 0x0D]), (3, [CHR 0x0A] @ ''Host: h'' @ kCRLF @ kCRLF)]
      (newBuffer kInitialSize) newHttpContext = Some (buf', fresh_context kHttp11, as) \<and> content buf' = [] \<and>
    onRequest defaultHttpCallback (the_request kGet kHttp11 ''/a'' ''?x=1'' [(''Host'', ''h'')] time) = Some as"
proof -
  let ?cs = "[(1::int, ''GET /a?x=1 HTTP''), (2, ''/1.1'' @ [CHR 0x0D]), (3, [CHR 0x0A] @ ''Host: h'' @ kCRLF @ kCRLF)]"
  have w: "wf_request kGet kHttp11 ''/a'' ''?x=1'' [(''Host'', ''h'')]" by code_simp
  have c: "concat (map snd ?cs) = render kGet kHttp11 ''/a'' ''?x=1'' [(''Host'', ''h'')]" by code_simp
  have n: "newHttpContext = fresh_context kUnknown" by (simp add: newHttpContext_def fresh_context_def newHttpRequest_def)
  show ?thesis using http_request_answered [OF w c _ new_inv, of kInitialSize defaultHttpCallback kUnknown] unfolding n by auto
qed

text \<open>A body stays in the buffer, where it is taken for the beginning of the next request.\<close>

lemma http_body_stays:
  assumes "wf_request mt v path query hs" "buf_inv buf" "content buf = []"
  shows "\<exists>buf' as. http_feed cb [(t, render mt v path query hs @ body)] buf (fresh_context v0) = Some (buf', fresh_context v, as) \<and> content buf' = body \<and>
    onRequest cb (the_request mt v path query hs t) = Some as"
proof -
  let ?d = "render mt v path query hs @ body" and ?c = "\<lparr>parse_state = kGotAll, http_request = the_request mt v path query hs t\<rparr>"
  obtain b where b: "readFd (Some ?d) buf = Some b" "buf_inv b" "content b = ?d" using readFd_spec [OF assms(2)] assms(3) by (metis append_Nil)
  have w: "waiting (fresh_context v0)" by (simp add: waiting_def fresh_context_def)
  have "parse_str t (content b) (fresh_context v0) = SParsed True body ?c"
    using parse_str_append [OF w, of t "render mt v path query hs" body] parse_rendered [OF assms(1), of t v0] b(3) by (simp add: continue_str_def waiting_def)
  from http_onMessage_parsed [OF b(2) this, of cb] obtain b2 where b2: "content b2 = body"
    "http_onMessage cb t b (fresh_context v0) = Handled b2 (reset_context ?c) (the (onRequest cb (the_request mt v path query hs t)))" by auto
  obtain as where "onRequest cb (the_request mt v path query hs t) = Some as" using onRequest_total by blast
  with b(1) b2 show ?thesis by (simp add: reset_context_def http_swap_def fresh_context_def the_request_def)
qed

text \<open>The message handler never gets stuck in the loop of \<open>parseRequest\<close>: from a context that waits for a request line or headers it returns, or
  fails an assertion, and the context it leaves is again such a context, so the branches for a body and for a complete request are never entered.\<close>

theorem http_onMessage_returns:
  assumes "buf_inv buf" "waiting ctx"
  shows "http_onMessage cb time buf ctx \<noteq> MessageHang \<and>
    (\<forall>b c as. http_onMessage cb time buf ctx = Handled b c as \<longrightarrow> buf_inv b \<and> waiting c)"
proof -
  note r = parseRequest_refines [OF assms(1), of time ctx] and ok = parse_str_result [OF assms(2), of time "content buf"]
  obtain as where as: "\<And>req. onRequest cb req = Some (as req)" using onRequest_total by metis
  show ?thesis
  proof (cases "parse_str time (content buf) ctx")
    case SHang
    then show ?thesis using ok by (simp add: result_ok_def)
  next
    case SAssert
    then show ?thesis using r by (simp add: refines_def http_onMessage_def)
  next
    case (SParsed k s c)
    then obtain b where b: "parseRequest time buf ctx = Parsed k b c" "buf_inv b" using r by (auto simp: refines_def)
    have "waiting c \<or> parse_state c = kGotAll" using ok SParsed by (auto simp: result_ok_def split: if_splits)
    then show ?thesis using b as by (auto simp: http_onMessage_def Let_def waiting_def reset_context_def http_swap_def)
  qed
qed

theorem http_onMessage_returns_witness:
  "http_onMessage defaultHttpCallback 0 (newBuffer 4) newHttpContext \<noteq> MessageHang \<and> waiting newHttpContext"
proof -
  have w: "waiting newHttpContext" by (simp add: waiting_def newHttpContext_def)
  with http_onMessage_returns [OF new_inv w, of defaultHttpCallback 0] show ?thesis by blast
qed

text \<open>Property C32. A request line that is refused after its method has been recognised makes the server abort on the next bytes: the line is answered with 400 and the
  connection shut down for writing, but the line stays in the buffer and the method in the context, so when the peer sends anything more the line is parsed
  again and the assertion of \<open>setMethod\<close> fails.\<close>

theorem http_refused_line_asserts:
  assumes "CHR 0x0D \<notin> set line" "processRequestLine line (newHttpRequest\<lparr>http_version := v0\<rparr>) = Some (False, req)" "http_method req \<noteq> kInvalid"
    "buf_inv buf" "content buf = []"
  shows "http_feed cb [(t1, line @ kCRLF)] buf (fresh_context v0) \<noteq> None \<and> http_feed cb [(t1, line @ kCRLF), (t2, extra)] buf (fresh_context v0) = None"
proof -
  obtain b where b: "readFd (Some (line @ kCRLF)) buf = Some b" "buf_inv b" "content b = line @ kCRLF @ []"
    using readFd_spec [OF assms(4)] assms(5) by auto
  note l = parse_line_prefix [OF assms(1)]
  let ?c = "(fresh_context v0)\<lparr>http_request := req\<rparr>"
  have "parse_str t1 (content b) (fresh_context v0) = SParsed False (content b) ?c"
    unfolding b(3) using parse_str_request [of "fresh_context v0", OF _ l(1) [of "[]"]] l(2) [of "[]"] assms(2) by (simp add: fresh_context_def)
  then obtain b1 where b1: "parseRequest t1 b (fresh_context v0) = Parsed False b1 ?c" "buf_inv b1" "content b1 = line @ kCRLF"
    using parseRequest_refines [OF b(2), of t1 "fresh_context v0"] b(3) by (auto simp: refines_def)
  then have h: "\<exists>as. http_onMessage cb t1 b (fresh_context v0) = Handled b1 ?c as" by (simp add: http_onMessage_def fresh_context_def Let_def)
  obtain b2 where b2: "readFd (Some extra) b1 = Some b2" "buf_inv b2" "content b2 = line @ kCRLF @ extra"
    using readFd_spec [OF b1(2), of extra] b1(3) by auto
  have "setMethod x req = None" for x using assms(3) by (simp add: setMethod_def)
  moreover have "length (takeWhile (\<lambda>c. c \<noteq> CHR '' '') line) \<noteq> length line"
    using assms(2,3) by (auto simp: processRequestLine_def newHttpRequest_def Let_def)
  ultimately have "processRequestLine line req = None" by (simp add: processRequestLine_def Let_def)
  then have "parse_str t2 (content b2) ?c = SAssert"
    unfolding b2(3) using parse_str_request [of ?c, OF _ l(1) [of extra]] l(2) [of extra] by (simp add: fresh_context_def)
  then have "http_onMessage cb t2 b2 ?c = MessageAssert"
    using parseRequest_refines [OF b2(2), of t2 ?c] by (simp add: refines_def http_onMessage_def)
  with h b(1) b2(1) show ?thesis by auto
qed

theorem http_refused_line_asserts_witness:
  "http_feed defaultHttpCallback [(1, ''GET / HTTP/2.0'' @ kCRLF), (2, ''x'')] (newBuffer kInitialSize) (fresh_context kUnknown) = None"
proof -
  let ?req = "newHttpRequest\<lparr>http_method := kGet, http_path := ''/''\<rparr>"
  have "CHR 0x0D \<notin> set ''GET / HTTP/2.0''" by simp
  moreover have "processRequestLine ''GET / HTTP/2.0'' (newHttpRequest\<lparr>http_version := kUnknown\<rparr>) = Some (False, ?req)"
    by (simp add: processRequestLine_def setMethod_def method_of_def newHttpRequest_def Let_def)
  moreover have "http_method ?req \<noteq> kInvalid" by simp
  ultimately have "http_feed defaultHttpCallback [(1, ''GET / HTTP/2.0'' @ kCRLF)] (newBuffer kInitialSize) (fresh_context kUnknown) \<noteq> None \<and>
      http_feed defaultHttpCallback [(1, ''GET / HTTP/2.0'' @ kCRLF), (2, ''x'')] (newBuffer kInitialSize) (fresh_context kUnknown) = None"
    using new_inv new_ok(2) by (rule http_refused_line_asserts)
  then show ?thesis by (rule conjunct2)
qed

end
