(* ===== verification/Lexer.thy ===== *)
theory Lexer
  imports StrLib Zio
begin

text \<open>
  The lexical analyser: \<^verbatim>\<open>src/lua/llex.h\<close> and \<^verbatim>\<open>src/lua/llex.c\<close>, with \<open>luaO_str2d\<close> of \<^verbatim>\<open>lobject.c\<close>.  The current character is \<open>None\<close> at the end of
  the stream; reading on after the end has no meaning in the code (\<open>zgetc\<close> has wrapped its counter) and is \<open>ErrUB\<close>, as is the overflow of a counter.  The number
  functions and the decimal point of the C library are an argument.  Interning the string of a token and anchoring it in the table of the function being
  compiled only matters to the collector and is left out; the \<open>reserved\<close> byte of the interned strings is a field of the lexer state.
\<close>

section \<open>Data\<close>

record libc_num =
  strtod :: "string \<Rightarrow> lua_Number \<times> nat"
  strtoul16 :: "string \<Rightarrow> lua_Number \<times> nat"
  decimal_point :: char

definition FIRST_RESERVED :: int where "FIRST_RESERVED = 257"
definition NUM_RESERVED :: nat where "NUM_RESERVED = 21"

definition luaX_tokens :: "string list" where
  "luaX_tokens = [''and'', ''break'', ''do'', ''else'', ''elseif'', ''end'', ''false'', ''for'', ''function'', ''if'',
     ''in'', ''local'', ''nil'', ''not'', ''or'', ''repeat'', ''return'', ''then'', ''true'', ''until'', ''while'',
     ''..'', ''...'', ''=='', ''>='', ''<='', ''~='', ''<number>'', ''<name>'', ''<string>'', ''<eof>'']"

definition TK_CONCAT :: int where "TK_CONCAT = FIRST_RESERVED + 21"
definition TK_DOTS :: int where "TK_DOTS = FIRST_RESERVED + 22"
definition TK_EQ :: int where "TK_EQ = FIRST_RESERVED + 23"
definition TK_GE :: int where "TK_GE = FIRST_RESERVED + 24"
definition TK_LE :: int where "TK_LE = FIRST_RESERVED + 25"
definition TK_NE :: int where "TK_NE = FIRST_RESERVED + 26"
definition TK_NUMBER :: int where "TK_NUMBER = FIRST_RESERVED + 27"
definition TK_NAME :: int where "TK_NAME = FIRST_RESERVED + 28"
definition TK_STRING :: int where "TK_STRING = FIRST_RESERVED + 29"
definition TK_EOS :: int where "TK_EOS = FIRST_RESERVED + 30"

lemmas TK_defs = TK_CONCAT_def TK_DOTS_def TK_EQ_def TK_GE_def TK_LE_def TK_NE_def TK_NUMBER_def TK_NAME_def TK_STRING_def TK_EOS_def FIRST_RESERVED_def

datatype SemInfo = SemNone | SemNum lua_Number | SemStr string

record Token =
  token :: int
  seminfo :: SemInfo

record LexState =
  current :: "char option"
  linenumber :: int
  lastline :: int
  ls_t :: Token
  ls_lookahead :: Token
  ls_z :: Zio
  buff :: string
  buffsize :: nat
  ls_source :: string
  decpoint :: char
  ls_reserved :: "string \<Rightarrow> nat"

text \<open>\<open>luaX_init\<close> gives the reserved words their index, counted from 1.\<close>

definition luaX_init :: "(string \<Rightarrow> nat) \<Rightarrow> string \<Rightarrow> nat" where
  "luaX_init r = fold (\<lambda>i r. r(luaX_tokens ! i := i + 1)) [0..<NUM_RESERVED] r"

section \<open>Reading and saving characters\<close>

definition zgetc :: "Zio \<Rightarrow> char option \<times> Zio" where
  "zgetc z = (case z_buf z of c # cs \<Rightarrow> (Some c, z\<lparr>z_buf := cs\<rparr>) | [] \<Rightarrow> luaZ_fill z)"

definition next_ch :: "LexState \<Rightarrow> LexState res" where
  "next_ch ls = (if current ls = None then Inl (ErrUB ''read after the end of the stream'')
     else case zgetc (ls_z ls) of (c, z) \<Rightarrow> Inr (ls\<lparr>current := c, ls_z := z\<rparr>))"

definition is_newline :: "char \<Rightarrow> bool" where
  "is_newline c \<longleftrightarrow> c = CHR 0x0A \<or> c = CHR 0x0D"

definition curr_is :: "(char \<Rightarrow> bool) \<Rightarrow> LexState \<Rightarrow> bool" where
  "curr_is P ls = (case current ls of None \<Rightarrow> False | Some c \<Rightarrow> P c)"

abbreviation currIsNewline :: "LexState \<Rightarrow> bool" where
  "currIsNewline \<equiv> curr_is is_newline"

definition MAXSRC :: nat where "MAXSRC = 80"
definition MAX_SIZET :: nat where "MAX_SIZET = 2 ^ 64 - 3"

text \<open>The message of an error, without the token near which it is.\<close>

definition lex_message :: "string \<Rightarrow> LexState \<Rightarrow> string" where
  "lex_message msg ls = luaO_chunkid (ls_source ls) MAXSRC @ '':'' @ fmt_d (linenumber ls) @ '': '' @ msg"

definition save :: "char \<Rightarrow> LexState \<Rightarrow> LexState res" where
  "save c ls =
     (if length (buff ls) + 1 > buffsize ls then
        (if buffsize ls \<ge> MAX_SIZET div 2 then Inl (ErrSyntax (lex_message ''lexical element too long'' ls))
         else Inr (ls\<lparr>buffsize := buffsize ls * 2, buff := buff ls @ [c]\<rparr>))
      else Inr (ls\<lparr>buff := buff ls @ [c]\<rparr>))"

definition save_and_next :: "LexState \<Rightarrow> LexState res" where
  "save_and_next ls = bindE (save (case current ls of Some c \<Rightarrow> c | None \<Rightarrow> CHR 0xFF) ls) next_ch"

abbreviation resetbuffer :: "LexState \<Rightarrow> LexState" where
  "resetbuffer ls \<equiv> ls\<lparr>buff := []\<rparr>"

definition luaX_token2str :: "int \<Rightarrow> string" where
  "luaX_token2str tok =
     (if tok < FIRST_RESERVED then
        (let c = char_of (nat tok) in if iscntrl c then ''char('' @ fmt_d tok @ '')'' else [c])
      else luaX_tokens ! nat (tok - FIRST_RESERVED))"

definition txtToken :: "int \<Rightarrow> LexState \<Rightarrow> string res" where
  "txtToken tok ls =
     (if tok = TK_NAME \<or> tok = TK_STRING \<or> tok = TK_NUMBER
      then bindE (save (CHR 0x00) ls) (\<lambda>ls. Inr (takeWhile (\<lambda>c. c \<noteq> CHR 0x00) (buff ls)))
      else Inr (luaX_token2str tok))"

definition luaX_lexerror :: "string \<Rightarrow> int \<Rightarrow> LexState \<Rightarrow> 'a res" where
  "luaX_lexerror msg tok ls =
     (if tok = 0 then Inl (ErrSyntax (lex_message msg ls))
      else bindE (txtToken tok ls) (\<lambda>txt. Inl (ErrSyntax (lex_message msg ls @ '' near '' @ [CHR 0x27] @ txt @ [CHR 0x27]))))"

definition luaX_syntaxerror :: "string \<Rightarrow> LexState \<Rightarrow> 'a res" where
  "luaX_syntaxerror msg ls = luaX_lexerror msg (token (ls_t ls)) ls"

definition inclinenumber :: "LexState \<Rightarrow> LexState res" where
  "inclinenumber ls =
     (let old = current ls in
      bindE (next_ch ls) (\<lambda>ls.
      bindE (if currIsNewline ls \<and> current ls \<noteq> old then next_ch ls else Inr ls) (\<lambda>ls.
      let ls = ls\<lparr>linenumber := linenumber ls + 1\<rparr>
      in if linenumber ls \<ge> MAX_INT then luaX_syntaxerror ''chunk has too many lines'' ls else Inr ls)))"

definition no_token :: Token where
  "no_token = \<lparr>token = TK_EOS, seminfo = SemNone\<rparr>"

text \<open>The buffer and the current token keep what they had before; a new state has none.\<close>

definition luaX_setinput :: "(string \<Rightarrow> nat) \<Rightarrow> Token \<Rightarrow> string \<Rightarrow> Zio \<Rightarrow> string \<Rightarrow> LexState" where
  "luaX_setinput reserved t b z source =
     (case zgetc z of (c, z) \<Rightarrow>
        \<lparr>current = c, linenumber = 1, lastline = 1, ls_t = t, ls_lookahead = no_token, ls_z = z, buff = b, buffsize = LUA_MINBUFFER,
         ls_source = source, decpoint = CHR ''.'', ls_reserved = reserved\<rparr>)"

section \<open>The input that is left\<close>

definition rest :: "LexState \<Rightarrow> string" where
  "rest ls = (case current ls of None \<Rightarrow> [] | Some c \<Rightarrow> c # zbytes (ls_z ls))"

lemma rest_update [simp]: "rest (ls\<lparr>buff := b\<rparr>) = rest ls" "rest (ls\<lparr>linenumber := n\<rparr>) = rest ls" "rest (ls\<lparr>buffsize := m\<rparr>) = rest ls"
  "rest (ls\<lparr>decpoint := d\<rparr>) = rest ls" "rest (ls\<lparr>lastline := n\<rparr>) = rest ls" "rest (ls\<lparr>ls_t := t\<rparr>) = rest ls" "rest (ls\<lparr>ls_lookahead := t\<rparr>) = rest ls"
  by (simp_all add: rest_def split: option.split)

lemma zgetc_spec: "zgetc z = (r, z') \<Longrightarrow> zbytes z = (case r of None \<Rightarrow> [] | Some c \<Rightarrow> c # zbytes z')"
  by (auto simp: zgetc_def luaZ_fill_def zbytes_def split: list.splits)

lemma next_rest: "next_ch ls = Inr ls' \<Longrightarrow> rest ls \<noteq> [] \<and> rest ls' = tl (rest ls)"
  by (auto simp: next_ch_def rest_def split: prod.splits option.splits if_splits dest: zgetc_spec)

lemma save_rest: "save c ls = Inr ls' \<Longrightarrow> rest ls' = rest ls"
  by (auto simp: save_def split: if_splits)

lemma save_and_next_rest: "save_and_next ls = Inr ls' \<Longrightarrow> rest ls \<noteq> [] \<and> rest ls' = tl (rest ls)"
  by (auto simp: save_and_next_def bindE_eq_Inr dest!: save_rest next_rest)

lemma next_less: "next_ch ls = Inr ls' \<Longrightarrow> length (rest ls') < length (rest ls)"
  by (auto dest!: next_rest simp: neq_Nil_conv)

lemma save_and_next_less: "save_and_next ls = Inr ls' \<Longrightarrow> length (rest ls') < length (rest ls)"
  by (auto dest!: save_and_next_rest simp: neq_Nil_conv)

lemma lexerror_Inr [simp]: "luaX_lexerror msg tok ls \<noteq> Inr x" "luaX_syntaxerror msg ls \<noteq> Inr x"
  by (simp_all add: luaX_syntaxerror_def luaX_lexerror_def bindE_eq_Inr)

lemma inclinenumber_rest: "inclinenumber ls = Inr ls' \<Longrightarrow> length (rest ls') < length (rest ls)"
  by (auto simp: inclinenumber_def Let_def bindE_eq_Inr split: if_splits dest!: next_less intro: less_trans)

function save_while :: "(char \<Rightarrow> bool) \<Rightarrow> LexState \<Rightarrow> LexState res" where
  "save_while P ls = (if curr_is P ls then bindE (save_and_next ls) (save_while P) else Inr ls)"
  by pat_completeness auto
termination by (relation "measure (\<lambda>(P, ls). length (rest ls))") (auto dest!: save_and_next_less)

declare save_while.simps [simp del]

section \<open>Numerals\<close>

text \<open>\<open>strchr\<close> also finds the terminating zero of the set.\<close>

definition check_next :: "string \<Rightarrow> LexState \<Rightarrow> (bool \<times> LexState) res" where
  "check_next cs ls =
     (if curr_is (\<lambda>c. c \<in> set cs \<or> c = CHR 0x00) ls then bindE (save_and_next ls) (\<lambda>ls. Inr (True, ls)) else Inr (False, ls))"

definition buffreplace :: "char \<Rightarrow> char \<Rightarrow> LexState \<Rightarrow> LexState" where
  "buffreplace a b ls = ls\<lparr>buff := map (\<lambda>c. if c = a then b else c) (buff ls)\<rparr>"

text \<open>\<open>luaO_str2d\<close>, on the characters of a C string; the functions of the C library return the number and where they stopped.\<close>

definition luaO_str2d :: "libc_num \<Rightarrow> string \<Rightarrow> lua_Number option" where
  "luaO_str2d libc s =
     (case strtod libc s of (r, e) \<Rightarrow>
        if e = 0 then None
        else
          case (if e < length s \<and> s ! e \<in> {CHR ''x'', CHR ''X''} then strtoul16 libc s else (r, e)) of (r, e) \<Rightarrow>
            if dropWhile isspace (drop e s) = [] then Some r else None)"

abbreviation cbuffer :: "LexState \<Rightarrow> string" where
  "cbuffer ls \<equiv> takeWhile (\<lambda>c. c \<noteq> CHR 0x00) (buff ls)"

definition trydecpoint :: "libc_num \<Rightarrow> LexState \<Rightarrow> (SemInfo \<times> LexState) res" where
  "trydecpoint libc ls =
     (let old = decpoint ls;
          ls = buffreplace old (decimal_point libc) (ls\<lparr>decpoint := decimal_point libc\<rparr>)
      in case luaO_str2d libc (cbuffer ls) of
           None \<Rightarrow> luaX_lexerror ''malformed number'' TK_NUMBER (buffreplace (decpoint ls) (CHR ''.'') ls)
         | Some r \<Rightarrow> Inr (SemNum r, ls))"

definition read_numeral :: "libc_num \<Rightarrow> LexState \<Rightarrow> (SemInfo \<times> LexState) res" where
  "read_numeral libc ls =
     bindE (save_and_next ls) (\<lambda>ls.
     bindE (save_while (\<lambda>c. isdigit c \<or> c = CHR ''.'') ls) (\<lambda>ls.
     bindE (check_next ''Ee'' ls) (\<lambda>(e, ls).
     bindE (if e then check_next ''+-'' ls else Inr (False, ls)) (\<lambda>(_, ls).
     bindE (save_while (\<lambda>c. isalnum c \<or> c = CHR ''_'') ls) (\<lambda>ls.
     bindE (save (CHR 0x00) ls) (\<lambda>ls.
     let ls = buffreplace (CHR ''.'') (decpoint ls) ls
     in case luaO_str2d libc (cbuffer ls) of
          None \<Rightarrow> trydecpoint libc ls
        | Some r \<Rightarrow> Inr (SemNum r, ls)))))))"

section \<open>Strings\<close>

function count_eq :: "int \<Rightarrow> LexState \<Rightarrow> (int \<times> LexState) res" where
  "count_eq n ls =
     (if current ls = Some (CHR ''='') then
        bindE (save_and_next ls) (\<lambda>ls. if n = INT_MAX then Inl (ErrUB ''overflow'') else count_eq (n + 1) ls)
      else Inr (n, ls))"
  by pat_completeness auto
termination by (relation "measure (\<lambda>(n, ls). length (rest ls))") (auto dest!: save_and_next_less)

declare count_eq.simps [simp del]

definition skip_sep :: "LexState \<Rightarrow> (int \<times> LexState) res" where
  "skip_sep ls =
     (let s = current ls in
      bindE (save_and_next ls) (\<lambda>ls.
      bindE (count_eq 0 ls) (\<lambda>(n, ls).
      Inr (if current ls = s then n else - n - 1, ls))))"

lemma count_eq_rest: "count_eq n ls = Inr (m, ls') \<Longrightarrow> length (rest ls') \<le> length (rest ls)"
proof (induction n ls rule: count_eq.induct)
  case (1 n ls)
  then show ?case
    by (subst (asm) (2) count_eq.simps) (fastforce simp: bindE_eq_Inr split: if_splits dest: save_and_next_less)
qed

lemma skip_sep_rest: "skip_sep ls = Inr (m, ls') \<Longrightarrow> length (rest ls') < length (rest ls)"
  by (fastforce simp: skip_sep_def Let_def bindE_eq_Inr dest!: save_and_next_less count_eq_rest)

text \<open>The loop of \<open>read_long_string\<close>; \<open>is_str\<close> tells a string from a comment, which has no \<open>seminfo\<close>.  The nesting level is only counted by other settings of
  \<open>LUA_COMPAT_LSTR\<close>.\<close>

function long_string_loop :: "bool \<Rightarrow> int \<Rightarrow> LexState \<Rightarrow> LexState res" where
  "long_string_loop is_str sep ls = (case current ls of
       None \<Rightarrow> luaX_lexerror (if is_str then ''unfinished long string'' else ''unfinished long comment'') TK_EOS ls
     | Some c \<Rightarrow>
         if c = CHR ''['' then
           bindE (skip_sep ls) (\<lambda>(n, ls).
             if n = sep then
               bindE (save_and_next ls) (\<lambda>ls.
                 if sep = 0 then luaX_lexerror (''nesting of '' @ [CHR ''['', CHR ''[''] @ ''...'' @ [CHR '']'', CHR '']''] @ '' is deprecated'') 91 ls
                 else long_string_loop is_str sep ls)
             else long_string_loop is_str sep ls)
         else if c = CHR '']'' then
           bindE (skip_sep ls) (\<lambda>(n, ls).
             if n = sep then save_and_next ls else long_string_loop is_str sep ls)
         else if is_newline c then
           bindE (save (CHR 0x0A) ls) (\<lambda>ls.
           bindE (inclinenumber ls) (\<lambda>ls. long_string_loop is_str sep (if is_str then ls else resetbuffer ls)))
         else bindE (if is_str then save_and_next ls else next_ch ls) (long_string_loop is_str sep))"
  by pat_completeness auto
termination
  by (relation "measure (\<lambda>(is_str, sep, ls). length (rest ls))")
    (auto dest!: save_and_next_less next_less skip_sep_rest inclinenumber_rest save_rest split: if_splits)

declare long_string_loop.simps [simp del]

lemma long_string_loop_rest: "long_string_loop is_str sep ls = Inr ls' \<Longrightarrow> length (rest ls') \<le> length (rest ls)"
proof (induction ls rule: measure_induct_rule [of "\<lambda>ls. length (rest ls)"])
  case (less ls)
  have step: "length (rest ls') \<le> length (rest ls)" if "long_string_loop b sep l = Inr ls'" "length (rest l) < length (rest ls)" "b = is_str" for l b
    using less.IH [of l] that by simp
  from less.prems show ?case
    by (subst (asm) long_string_loop.simps)
      (auto simp: bindE_eq_Inr split: option.splits if_splits
        dest!: skip_sep_rest save_and_next_less next_less save_rest inclinenumber_rest dest: step intro: less_imp_le less_trans)
qed

text \<open>The string of a token: \<open>len\<close> characters of the buffer from \<open>start\<close>.\<close>

definition buffer_string :: "nat \<Rightarrow> nat \<Rightarrow> LexState \<Rightarrow> string res" where
  "buffer_string start len_off ls =
     (if len_off \<le> length (buff ls) \<and> start + (length (buff ls) - len_off) \<le> length (buff ls)
      then Inr (take (length (buff ls) - len_off) (drop start (buff ls))) else Inl (ErrUB ''string outside of the buffer''))"

definition read_long_string :: "bool \<Rightarrow> SemInfo \<Rightarrow> int \<Rightarrow> LexState \<Rightarrow> (SemInfo \<times> LexState) res" where
  "read_long_string is_str si sep ls =
     bindE (save_and_next ls) (\<lambda>ls.
     bindE (if currIsNewline ls then inclinenumber ls else Inr ls) (\<lambda>ls.
     bindE (long_string_loop is_str sep ls) (\<lambda>ls.
     if is_str then
       (if 2 * (2 + sep) > INT_MAX then Inl (ErrUB ''overflow'')
        else bindE (buffer_string (nat (2 + sep)) (nat (2 * (2 + sep))) ls) (\<lambda>s. Inr (SemStr s, ls)))
     else Inr (si, ls))))"

definition escape_char :: "char \<Rightarrow> char option" where
  "escape_char c =
     (if c = CHR ''a'' then Some (CHR 0x07) else if c = CHR ''b'' then Some (CHR 0x08) else if c = CHR ''f'' then Some (CHR 0x0C)
      else if c = CHR ''n'' then Some (CHR 0x0A) else if c = CHR ''r'' then Some (CHR 0x0D) else if c = CHR ''t'' then Some (CHR 0x09)
      else if c = CHR ''v'' then Some (CHR 0x0B) else None)"

text \<open>The digits of \<open>\xxx\<close>: at most \<open>n\<close>.\<close>

primrec decimal_escape :: "nat \<Rightarrow> nat \<Rightarrow> LexState \<Rightarrow> (nat \<times> LexState) res" where
  "decimal_escape 0 c ls = Inr (c, ls)"
| "decimal_escape (Suc n) c ls =
     (let c = 10 * c + (case current ls of Some d \<Rightarrow> byte d - 48 | None \<Rightarrow> 0) in
      bindE (next_ch ls) (\<lambda>ls. if 0 < n \<and> curr_is isdigit ls then decimal_escape n c ls else Inr (c, ls)))"

lemma decimal_escape_rest: "decimal_escape n c ls = Inr (d, ls') \<Longrightarrow> length (rest ls') \<le> length (rest ls) \<and> (0 < n \<longrightarrow> length (rest ls') < length (rest ls))"
proof (induction n arbitrary: c ls)
  case (Suc n)
  then show ?case by (fastforce simp: Let_def bindE_eq_Inr split: if_splits dest!: next_less)
qed simp

function string_loop :: "char \<Rightarrow> LexState \<Rightarrow> LexState res" where
  "string_loop del ls = (case current ls of
       None \<Rightarrow> luaX_lexerror ''unfinished string'' TK_EOS ls
     | Some c \<Rightarrow>
         if c = del then Inr ls
         else if is_newline c then luaX_lexerror ''unfinished string'' TK_STRING ls
         else if c = CHR 0x5C then
           bindE (next_ch ls) (\<lambda>ls. case current ls of
               None \<Rightarrow> string_loop del ls
             | Some e \<Rightarrow> (case escape_char e of
                   Some c \<Rightarrow> bindE (save c ls) (\<lambda>ls. bindE (next_ch ls) (string_loop del))
                 | None \<Rightarrow>
                     if is_newline e then bindE (save (CHR 0x0A) ls) (\<lambda>ls. bindE (inclinenumber ls) (string_loop del))
                     else if \<not> isdigit e then bindE (save_and_next ls) (string_loop del)
                     else bindE (decimal_escape 3 0 ls) (\<lambda>(c, ls).
                       if c > 255 then luaX_lexerror ''escape sequence too large'' TK_STRING ls
                       else bindE (save (char_of c) ls) (string_loop del))))
         else bindE (save_and_next ls) (string_loop del))"
  by pat_completeness auto
termination
  by (relation "measure (\<lambda>(del, ls). length (rest ls))")
    (auto dest!: save_and_next_less next_less inclinenumber_rest save_rest decimal_escape_rest)

declare string_loop.simps [simp del]

definition read_string :: "char \<Rightarrow> LexState \<Rightarrow> (SemInfo \<times> LexState) res" where
  "read_string del ls =
     bindE (save_and_next ls) (\<lambda>ls.
     bindE (string_loop del ls) (\<lambda>ls.
     bindE (save_and_next ls) (\<lambda>ls.
     bindE (buffer_string 1 2 ls) (\<lambda>s. Inr (SemStr s, ls)))))"

section \<open>Tokens\<close>

lemma read_long_string_rest: "read_long_string is_str si sep ls = Inr (si', ls') \<Longrightarrow> length (rest ls') < length (rest ls)"
  using long_string_loop_rest by (fastforce simp: read_long_string_def bindE_eq_Inr split: if_splits dest!: save_and_next_less inclinenumber_rest)

function skip_line :: "LexState \<Rightarrow> LexState res" where
  "skip_line ls = (if current ls \<noteq> None \<and> \<not> currIsNewline ls then bindE (next_ch ls) skip_line else Inr ls)"
  by pat_completeness auto
termination by (relation "measure (\<lambda>ls. length (rest ls))") (auto dest!: next_less)

declare skip_line.simps [simp del]

lemma skip_line_rest: "skip_line ls = Inr ls' \<Longrightarrow> length (rest ls') \<le> length (rest ls)"
proof (induction ls rule: skip_line.induct)
  case (1 ls)
  then show ?case by (subst (asm) (2) skip_line.simps) (fastforce simp: bindE_eq_Inr split: if_splits dest: next_less)
qed

text \<open>A comment: a long one, or the rest of the line.\<close>

definition skip_comment :: "LexState \<Rightarrow> LexState res" where
  "skip_comment ls =
     bindE (if current ls = Some (CHR ''['') then bindE (skip_sep ls) (\<lambda>(sep, ls). Inr (sep, resetbuffer ls)) else Inr (-1, ls)) (\<lambda>(sep, ls).
     if sep \<ge> 0 then bindE (read_long_string False SemNone sep ls) (\<lambda>(_, ls). Inr (resetbuffer ls)) else skip_line ls)"

lemma skip_comment_rest: "skip_comment ls = Inr ls' \<Longrightarrow> length (rest ls') \<le> length (rest ls)"
  by (fastforce simp: skip_comment_def bindE_eq_Inr split: if_splits dest!: skip_sep_rest read_long_string_rest skip_line_rest)

text \<open>The operators that may be followed by \<open>=\<close>.\<close>

definition eq_token :: "char \<Rightarrow> int option" where
  "eq_token c = (if c = CHR ''='' then Some TK_EQ else if c = CHR ''<'' then Some TK_LE else if c = CHR ''>'' then Some TK_GE
     else if c = CHR ''~'' then Some TK_NE else None)"

function llex_loop :: "libc_num \<Rightarrow> SemInfo \<Rightarrow> LexState \<Rightarrow> (Token \<times> LexState) res" where
  "llex_loop libc si ls = (case current ls of
       None \<Rightarrow> Inr (\<lparr>token = TK_EOS, seminfo = si\<rparr>, ls)
     | Some c \<Rightarrow>
         if is_newline c then bindE (inclinenumber ls) (llex_loop libc si)
         else if c = CHR ''-'' then
           bindE (next_ch ls) (\<lambda>ls.
             if current ls \<noteq> Some (CHR ''-'') then Inr (\<lparr>token = 45, seminfo = si\<rparr>, ls)
             else bindE (next_ch ls) (\<lambda>ls. bindE (skip_comment ls) (llex_loop libc si)))
         else if c = CHR ''['' then
           bindE (skip_sep ls) (\<lambda>(sep, ls).
             if sep \<ge> 0 then bindE (read_long_string True si sep ls) (\<lambda>(si, ls). Inr (\<lparr>token = TK_STRING, seminfo = si\<rparr>, ls))
             else if sep = -1 then Inr (\<lparr>token = 91, seminfo = si\<rparr>, ls)
             else luaX_lexerror ''invalid long string delimiter'' TK_STRING ls)
         else if eq_token c \<noteq> None then
           bindE (next_ch ls) (\<lambda>ls.
             if current ls \<noteq> Some (CHR ''='') then Inr (\<lparr>token = int (byte c), seminfo = si\<rparr>, ls)
             else bindE (next_ch ls) (\<lambda>ls. Inr (\<lparr>token = the (eq_token c), seminfo = si\<rparr>, ls)))
         else if c = CHR 0x22 \<or> c = CHR 0x27 then
           bindE (read_string c ls) (\<lambda>(si, ls). Inr (\<lparr>token = TK_STRING, seminfo = si\<rparr>, ls))
         else if c = CHR ''.'' then
           bindE (save_and_next ls) (\<lambda>ls.
           bindE (check_next ''.'' ls) (\<lambda>(b, ls).
             if b then bindE (check_next ''.'' ls) (\<lambda>(b, ls). Inr (\<lparr>token = if b then TK_DOTS else TK_CONCAT, seminfo = si\<rparr>, ls))
             else if \<not> curr_is isdigit ls then Inr (\<lparr>token = 46, seminfo = si\<rparr>, ls)
             else bindE (read_numeral libc ls) (\<lambda>(si, ls). Inr (\<lparr>token = TK_NUMBER, seminfo = si\<rparr>, ls))))
         else if isspace c then bindE (next_ch ls) (llex_loop libc si)
         else if isdigit c then bindE (read_numeral libc ls) (\<lambda>(si, ls). Inr (\<lparr>token = TK_NUMBER, seminfo = si\<rparr>, ls))
         else if isalpha c \<or> c = CHR ''_'' then
           bindE (save_and_next ls) (\<lambda>ls.
           bindE (save_while (\<lambda>c. isalnum c \<or> c = CHR ''_'') ls) (\<lambda>ls.
             Inr (if ls_reserved ls (buff ls) > 0 then \<lparr>token = int (ls_reserved ls (buff ls)) - 1 + FIRST_RESERVED, seminfo = si\<rparr>
                  else \<lparr>token = TK_NAME, seminfo = SemStr (buff ls)\<rparr>, ls)))
         else bindE (next_ch ls) (\<lambda>ls. Inr (\<lparr>token = int (byte c), seminfo = si\<rparr>, ls)))"
  by pat_completeness auto
termination
  by (relation "measure (\<lambda>(libc, si, ls). length (rest ls))")
    (auto dest!: next_less inclinenumber_rest skip_comment_rest)

declare llex_loop.simps [simp del]

definition llex :: "libc_num \<Rightarrow> SemInfo \<Rightarrow> LexState \<Rightarrow> (Token \<times> LexState) res" where
  "llex libc si ls = llex_loop libc si (resetbuffer ls)"

definition luaX_next :: "libc_num \<Rightarrow> LexState \<Rightarrow> LexState res" where
  "luaX_next libc ls =
     (let ls = ls\<lparr>lastline := linenumber ls\<rparr>
      in if token (ls_lookahead ls) \<noteq> TK_EOS
         then Inr (ls\<lparr>ls_t := ls_lookahead ls, ls_lookahead := (ls_lookahead ls)\<lparr>token := TK_EOS\<rparr>\<rparr>)
         else bindE (llex libc (seminfo (ls_t ls)) ls) (\<lambda>(t, ls). Inr (ls\<lparr>ls_t := t\<rparr>)))"

definition luaX_lookahead :: "libc_num \<Rightarrow> LexState \<Rightarrow> LexState res" where
  "luaX_lookahead libc ls = bindE (llex libc (seminfo (ls_lookahead ls)) ls) (\<lambda>(t, ls). Inr (ls\<lparr>ls_lookahead := t\<rparr>))"

end
