(* ===== verification/LexerProps.thy ===== *)
theory LexerProps
  imports Lexer
begin

text \<open>
  The theorems about the lexical analyser.  Every routine meets one contract, \<open>lexes\<close>: it fails with a syntax error or goes on to a state that has used up input,
  counted its line ends and left the rest of the state alone.  On top of it: the lexer never reads past the end of its stream or of its buffer, every
  token uses up input, line numbers are right, and what the program prints (quoted strings, tokens) is read back.
\<close>

section \<open>The contract\<close>

text \<open>Line ends: a carriage return and a line feed next to each other count once.\<close>

fun newlines :: "string \<Rightarrow> nat" where
  "newlines [] = 0"
| "newlines [c] = (if is_newline c then 1 else 0)"
| "newlines (c # d # s) =
     (if is_newline c then 1 + (if is_newline d \<and> d \<noteq> c then newlines s else newlines (d # s)) else newlines (d # s))"

lemma newlines_Cons [simp]: "\<not> is_newline c \<Longrightarrow> newlines (c # s) = newlines s"
  by (cases s) auto

definition adv :: "nat \<Rightarrow> LexState \<Rightarrow> LexState \<Rightarrow> bool" where
  "adv d ls ls' \<longleftrightarrow> length (rest ls') + d \<le> length (rest ls) \<and>
     linenumber ls' + int (newlines (rest ls')) = linenumber ls + int (newlines (rest ls)) \<and>
     ls_reserved ls' = ls_reserved ls \<and> ls_t ls' = ls_t ls \<and> ls_lookahead ls' = ls_lookahead ls \<and> ls_source ls' = ls_source ls"

definition grows :: "nat \<Rightarrow> LexState \<Rightarrow> LexState \<Rightarrow> bool" where
  "grows k ls ls' \<longleftrightarrow> length (buff ls) + k \<le> length (buff ls')"

lemma adv_refl [simp]: "adv 0 ls ls" by (simp add: adv_def)
lemma adv_trans [trans]: "adv d x y \<Longrightarrow> adv e y z \<Longrightarrow> adv (d + e) x z" by (auto simp: adv_def)
lemma adv_weaken: "adv d x y \<Longrightarrow> e \<le> d \<Longrightarrow> adv e x y" by (auto simp: adv_def)
lemma adv_length: "adv d x y \<Longrightarrow> length (rest y) + d \<le> length (rest x)" by (simp add: adv_def)

lemma adv_update [simp]: "adv d x (y\<lparr>buff := b\<rparr>) = adv d x y" "adv d (x\<lparr>buff := b\<rparr>) y = adv d x y"
  "adv d x (y\<lparr>buffsize := n\<rparr>) = adv d x y" "adv d x (y\<lparr>decpoint := p\<rparr>) = adv d x y"
  by (simp_all add: adv_def)

definition lex_error :: "nat \<Rightarrow> lua_error \<Rightarrow> bool" where
  "lex_error N e \<longleftrightarrow> (N < 2 ^ 29 \<longrightarrow> (\<exists>m. e = ErrSyntax m))"

abbreviation lexes :: "nat \<Rightarrow> ('a \<Rightarrow> bool) \<Rightarrow> 'a res \<Rightarrow> bool" where
  "lexes N \<equiv> outcome (lex_error N)"

lemmas lexes_bind = outcome_bind [where E = "lex_error N" for N]
lemmas lexes_weaken = outcome_weaken [where E = "lex_error N" for N]
lemmas lexes_if = outcome_if [where E = "lex_error N" for N]

lemma lex_error_syntax [simp]: "lex_error N (ErrSyntax m)" by (simp add: lex_error_def)

lemma lexesD: "lexes N Q m \<Longrightarrow> m = Inr x \<Longrightarrow> Q x" by simp

lemma save_lexes: "lexes N (\<lambda>ls'. adv 0 ls ls' \<and> rest ls' = rest ls \<and> current ls' = current ls \<and> buff ls' = buff ls @ [c]) (save c ls)"
  by (simp add: save_def adv_def)

lemma lexerror_lexes [simp]: "lexes N Q (luaX_lexerror msg tok ls)" "lexes N Q (luaX_syntaxerror msg ls)"
proof -
  have t: "lexes N (\<lambda>_. True) (txtToken k ls)" for k
    by (auto simp: txtToken_def intro: lexes_bind [OF save_lexes])
  show e: "lexes N Q (luaX_lexerror msg tok ls)" for tok
    by (auto simp: luaX_lexerror_def intro: lexes_bind [OF t])
  show "lexes N Q (luaX_syntaxerror msg ls)" unfolding luaX_syntaxerror_def by (rule e)
qed

lemma current_rest: "current ls = (case rest ls of [] \<Rightarrow> None | c # s \<Rightarrow> Some c)"
  by (simp add: rest_def split: option.split)

lemma next_ch_Some:
  assumes "current ls = Some c"
  shows "\<exists>d z. next_ch ls = Inr (ls\<lparr>current := d, ls_z := z\<rparr>) \<and> rest ls = c # rest (ls\<lparr>current := d, ls_z := z\<rparr>)"
proof -
  obtain d z where z: "zgetc (ls_z ls) = (d, z)" by fastforce
  have "rest ls = c # rest (ls\<lparr>current := d, ls_z := z\<rparr>)"
    using assms zgetc_spec [OF z] by (simp add: rest_def split: option.splits)
  with z assms show ?thesis by (auto simp: next_ch_def)
qed

lemma next_lexes:
  assumes "current ls = Some c" "\<not> is_newline c"
  shows "lexes N (\<lambda>ls'. adv 1 ls ls' \<and> buff ls' = buff ls \<and> rest ls = c # rest ls') (next_ch ls)"
  using next_ch_Some [OF assms(1)] assms(2) by (auto simp: adv_def)

lemma inclinenumber_lexes:
  assumes "currIsNewline ls"
  shows "lexes N (\<lambda>ls'. adv 1 ls ls' \<and> buff ls' = buff ls) (inclinenumber ls)"
proof -
  from assms obtain c where c: "current ls = Some c" "is_newline c" by (auto simp: curr_is_def split: option.splits)
  from next_ch_Some [OF c(1)] obtain d z where n: "next_ch ls = Inr (ls\<lparr>current := d, ls_z := z\<rparr>)" "rest ls = c # rest (ls\<lparr>current := d, ls_z := z\<rparr>)" by blast
  let ?l = "ls\<lparr>current := d, ls_z := z\<rparr>"
  show ?thesis
  proof (cases "currIsNewline ?l \<and> current ?l \<noteq> Some c")
    case True
    then obtain e where e: "current ?l = Some e" "is_newline e" "e \<noteq> c" by (auto simp: curr_is_def split: option.splits)
    from next_ch_Some [OF e(1)] obtain d' z' where m: "next_ch ?l = Inr (?l\<lparr>current := d', ls_z := z'\<rparr>)" "rest ?l = e # rest (?l\<lparr>current := d', ls_z := z'\<rparr>)" by blast
    with n c True e show ?thesis by (auto simp: inclinenumber_def Let_def adv_def)
  next
    case False
    have "newlines (c # rest ?l) = 1 + newlines (rest ?l)"
      using False c current_rest [of ?l] by (cases "rest ?l") (auto simp: curr_is_def)
    with n c False show ?thesis by (auto simp: inclinenumber_def Let_def adv_def)
  qed
qed

lemma save_and_next_lexes:
  assumes "current ls = Some c" "\<not> is_newline c"
  shows "lexes N (\<lambda>ls'. adv 1 ls ls' \<and> buff ls' = buff ls @ [c] \<and> rest ls = c # rest ls') (save_and_next ls)"
  unfolding save_and_next_def using assms
  by (auto intro!: lexes_bind [OF save_lexes] lexes_weaken [OF next_lexes] dest: adv_trans [of 0])


lemma lexes_after:
  assumes "lexes N (\<lambda>z. adv e y z \<and> Q z) m" "adv d x y" "k \<le> d + e" "\<And>z. Q z \<Longrightarrow> Q' z"
  shows "lexes N (\<lambda>z. adv k x z \<and> Q' z) m"
  using assms(1) by (rule lexes_weaken) (use assms adv_trans [OF assms(2)] adv_weaken in blast)

lemma lexes_after_snd:
  assumes "lexes N (\<lambda>(v, z). adv e y z \<and> Q v z) m" "adv d x y" "k \<le> d + e" "\<And>v z. Q v z \<Longrightarrow> Q' v z"
  shows "lexes N (\<lambda>(v, z). adv k x z \<and> Q' v z) m"
  using assms(1) by (rule lexes_weaken) (use assms adv_trans [OF assms(2)] adv_weaken in blast)

lemma lexes_seq:
  assumes "adv d x y" "lexes N (\<lambda>z. adv e y z \<and> P z) m" "\<And>z. adv (d + e) x z \<Longrightarrow> P z \<Longrightarrow> lexes N Q (f z)"
  shows "lexes N Q (bindE m f)"
  by (rule lexes_bind [OF assms(2)]) (use assms(1,3) adv_trans in blast)

lemma lexes_seq_snd:
  assumes "adv d x y" "lexes N (\<lambda>(v, z). adv e y z \<and> P v z) m" "\<And>v z. adv (d + e) x z \<Longrightarrow> P v z \<Longrightarrow> lexes N Q (f (v, z))"
  shows "lexes N Q (bindE m f)"
  by (rule lexes_bind [OF assms(2)]) (use assms(1,3) adv_trans in blast)

lemma save_while_lexes:
  assumes "\<And>c. P c \<Longrightarrow> \<not> is_newline c"
  shows "lexes N (\<lambda>ls'. adv 0 ls ls' \<and> grows 0 ls ls') (save_while P ls)"
proof (induction ls rule: measure_induct_rule [of "\<lambda>ls. length (rest ls)"])
  case (less ls)
  show ?case
  proof (cases "curr_is P ls")
    case True
    then obtain c where c: "current ls = Some c" "P c" by (auto simp: curr_is_def split: option.splits)
    have "lexes N (\<lambda>ls'. adv 0 ls ls' \<and> grows 0 ls ls') (bindE (save_and_next ls) (save_while P))"
      using save_and_next_lexes [OF c(1) assms [OF c(2)]]
    proof (rule lexes_bind)
      fix l assume l: "adv 1 ls l \<and> buff l = buff ls @ [c] \<and> rest ls = c # rest l"
      then have "lexes N (\<lambda>ls'. adv 0 l ls' \<and> grows 0 l ls') (save_while P l)" by (intro less.IH) simp
      then show "lexes N (\<lambda>ls'. adv 0 ls ls' \<and> grows 0 ls ls') (save_while P l)"
        by (rule lexes_after) (use l in \<open>auto simp: grows_def\<close>)
    qed
    with True show ?thesis by (subst save_while.simps) simp
  next
    case False
    then show ?thesis by (subst save_while.simps) (simp add: grows_def)
  qed
qed

lemma curr_isE: "curr_is P ls \<Longrightarrow> (\<And>c. current ls = Some c \<Longrightarrow> P c \<Longrightarrow> thesis) \<Longrightarrow> thesis"
  by (auto simp: curr_is_def split: option.splits)

lemma check_next_lexes:
  assumes "\<And>c. c \<in> set cs \<Longrightarrow> \<not> is_newline c"
  shows "lexes N (\<lambda>(b, ls'). adv 0 ls ls' \<and> grows 0 ls ls') (check_next cs ls)"
proof (cases "curr_is (\<lambda>c. c \<in> set cs \<or> c = CHR 0x00) ls")
  case True
  then obtain c where c: "current ls = Some c" "c \<in> set cs \<or> c = CHR 0x00" by (rule curr_isE)
  then have "\<not> is_newline c" using assms by (auto simp: is_newline_def)
  from save_and_next_lexes [OF c(1) this] True show ?thesis
    by (auto simp: check_next_def grows_def intro!: lexes_bind intro: adv_weaken)
next
  case False
  then show ?thesis by (simp add: check_next_def grows_def)
qed

lemma number_tail_lexes:
  "adv d x ls \<Longrightarrow> lexes N (\<lambda>(si, ls'). adv d x ls') (trydecpoint libc ls)"
  by (auto simp: trydecpoint_def Let_def buffreplace_def split: option.split)

lemma plain_char: "isdigit c \<or> c = CHR ''.'' \<Longrightarrow> \<not> is_newline c" "isalnum c \<or> c = CHR ''_'' \<Longrightarrow> \<not> is_newline c"
  by (auto simp: is_newline_def isdigit_def isalnum_def isalpha_def islower_def isupper_def byte_def)

lemma read_numeral_lexes:
  assumes "current ls = Some c" "\<not> is_newline c"
  shows "lexes N (\<lambda>(si, ls'). adv 1 ls ls') (read_numeral libc ls)"
proof -
  have E: "lexes N (\<lambda>(b, ls'). adv 0 l ls' \<and> True) (check_next ''Ee'' l)" for l
    by (rule lexes_weaken [OF check_next_lexes]) (auto simp: is_newline_def)
  have sign: "lexes N (\<lambda>(b, ls'). adv 0 l ls' \<and> True) (if e then check_next ''+-'' l else Inr (False, l))" for e l
    by (auto intro!: lexes_weaken [OF check_next_lexes] simp: is_newline_def)
  show ?thesis
    unfolding read_numeral_def
    apply (rule lexes_seq [OF adv_refl save_and_next_lexes [OF assms]])
    apply (erule lexes_seq [OF _ save_while_lexes [OF plain_char(1)]], assumption)
    apply (erule lexes_seq_snd [OF _ E], unfold prod.case)
    apply (erule lexes_seq_snd [OF _ sign], unfold prod.case)
    apply (erule lexes_seq [OF _ save_while_lexes [OF plain_char(2)]], assumption)
    apply (erule lexes_seq [OF _ save_lexes])
    apply (auto simp: Let_def buffreplace_def number_tail_lexes split: option.split)
    done
qed

lemma count_eq_lexes:
  assumes "0 \<le> n" "n + int (length (rest ls)) \<le> int N"
  shows "lexes N (\<lambda>(m, ls'). adv 0 ls ls' \<and> grows (nat (m - n)) ls ls' \<and> n \<le> m \<and> m \<le> n + int (length (rest ls))) (count_eq n ls)"
  using assms
proof (induction ls arbitrary: n rule: measure_induct_rule [of "\<lambda>ls. length (rest ls)"])
  case (less ls)
  show ?case
  proof (cases "current ls = Some (CHR ''='')")
    case True
    have "lexes N (\<lambda>(m, ls'). adv 0 ls ls' \<and> grows (nat (m - n)) ls ls' \<and> n \<le> m \<and> m \<le> n + int (length (rest ls)))
       (bindE (save_and_next ls) (\<lambda>ls. if n = INT_MAX then Inl (ErrUB ''overflow'') else count_eq (n + 1) ls))"
      using save_and_next_lexes [OF True]
    proof (rule lexes_bind)
      fix l assume l: "adv 1 ls l \<and> buff l = buff ls @ [CHR ''=''] \<and> rest ls = CHR ''='' # rest l"
      have "lexes N (\<lambda>(m, ls'). adv 0 ls ls' \<and> grows (nat (m - n)) ls ls' \<and> n \<le> m \<and> m \<le> n + int (length (rest ls))) (count_eq (n + 1) l)"
        by (rule lexes_after_snd [OF less.IH]) (use l less.prems in \<open>auto simp: grows_def\<close>)
      moreover have "n = INT_MAX \<Longrightarrow> \<not> N < 2 ^ 29" using less.prems l by auto
      ultimately show "lexes N (\<lambda>(m, ls'). adv 0 ls ls' \<and> grows (nat (m - n)) ls ls' \<and> n \<le> m \<and> m \<le> n + int (length (rest ls)))
         (if n = INT_MAX then Inl (ErrUB ''overflow'') else count_eq (n + 1) l)"
        by (auto simp: lex_error_def)
    qed (simp add: is_newline_def)
    with True show ?thesis by (subst count_eq.simps) simp
  next
    case False
    then show ?thesis by (subst count_eq.simps) (simp add: grows_def)
  qed
qed

lemma skip_sep_lexes:
  assumes "current ls = Some c" "\<not> is_newline c" "length (rest ls) \<le> N"
  shows "lexes N (\<lambda>(n, ls'). adv 1 ls ls' \<and> n \<le> int N \<and> grows 0 ls ls' \<and> (0 \<le> n \<longrightarrow> current ls' = Some c \<and> grows (nat n + 1) ls ls')) (skip_sep ls)"
  unfolding skip_sep_def Let_def
proof (rule lexes_bind [OF save_and_next_lexes [OF assms(1,2)]])
  fix l assume l: "adv 1 ls l \<and> buff l = buff ls @ [c] \<and> rest ls = c # rest l"
  show "lexes N (\<lambda>(n, ls'). adv 1 ls ls' \<and> n \<le> int N \<and> grows 0 ls ls' \<and> (0 \<le> n \<longrightarrow> current ls' = Some c \<and> grows (nat n + 1) ls ls'))
      (bindE (count_eq 0 l) (\<lambda>(n, l). Inr (if current l = current ls then n else - n - 1, l)))"
  proof (rule lexes_seq_snd [OF conjunct1 [OF l] count_eq_lexes])
    show "0 + int (length (rest l)) \<le> int N" using l assms(3) by simp
  qed (use l assms in \<open>auto simp: grows_def elim: adv_weaken\<close>)
qed

lemma bracket_plain [simp]: "\<not> is_newline (CHR ''['')" "\<not> is_newline (CHR '']'')" "\<not> is_newline (CHR ''='')" "\<not> is_newline (CHR ''-'')" "\<not> is_newline (CHR ''.'')"
  "\<not> is_newline (CHR 0x5C)" "\<not> is_newline (CHR 0x22)" "\<not> is_newline (CHR 0x27)"
  by (simp_all add: is_newline_def)

lemma long_string_loop_lexes:
  assumes "0 \<le> sep" "length (rest ls) \<le> N"
  shows "lexes N (\<lambda>ls'. adv 1 ls ls' \<and> (is_str \<longrightarrow> grows (nat sep + 2) ls ls')) (long_string_loop is_str sep ls)"
  using assms
proof (induction ls rule: measure_induct_rule [of "\<lambda>ls. length (rest ls)"])
  case (less ls)
  let ?Q = "\<lambda>ls'. adv 1 ls ls' \<and> (is_str \<longrightarrow> grows (nat sep + 2) ls ls')"
  have step: "lexes N ?Q (long_string_loop is_str sep l)" if "adv d ls l" "is_str \<longrightarrow> grows 0 ls l" "0 < d" for l d
  proof -
    have "length (rest l) < length (rest ls)" using adv_length [OF that(1)] that(3) by simp
    from less.IH [OF this] less.prems this have "lexes N (\<lambda>ls'. adv 1 l ls' \<and> (is_str \<longrightarrow> grows (nat sep + 2) l ls')) (long_string_loop is_str sep l)" by simp
    then show ?thesis by (rule lexes_after [OF _ that(1)]) (use that in \<open>auto simp: grows_def\<close>)
  qed
  show ?case
  proof (cases "current ls")
    case None
    then show ?thesis by (subst long_string_loop.simps) simp
  next
    case (Some c)
    note sk = skip_sep_lexes [OF Some _ less.prems(2)]
    consider (op) "c = CHR ''[''" | (cl) "c = CHR '']''" | (nl) "c \<noteq> CHR ''['' \<and> c \<noteq> CHR '']'' \<and> is_newline c" | (other) "c \<noteq> CHR ''['' \<and> c \<noteq> CHR '']'' \<and> \<not> is_newline c"
      by blast
    then show ?thesis
    proof cases
      case op
      have "lexes N ?Q (bindE (skip_sep ls) (\<lambda>(n, ls). if n = sep then
               bindE (save_and_next ls) (\<lambda>ls. if sep = 0 then luaX_lexerror msg 91 ls else long_string_loop is_str sep ls)
             else long_string_loop is_str sep ls))" for msg
      proof (rule lexes_seq_snd [OF adv_refl sk], simp add: op, unfold prod.case, goal_cases)
        case (1 n l)
        show ?case
        proof (cases "n = sep")
          case True
          with 1 less.prems have l: "current l = Some (CHR ''['')" "adv 1 ls l" "grows 0 ls l" by (auto simp: op)
          have "lexes N ?Q (if sep = 0 then luaX_lexerror msg 91 m else long_string_loop is_str sep m)" if "adv (1 + 1) ls m" "buff m = buff l @ [CHR ''[''] \<and> rest l = CHR ''['' # rest m" for m
          proof (cases "sep = 0")
            case False
            have "grows 0 ls m" using that(2) l(3) by (simp add: grows_def)
            with False step [OF that(1)] show ?thesis by simp
          qed simp
          with True show ?thesis by (auto intro: lexes_seq [OF l(2) save_and_next_lexes [OF l(1)]])
        qed (use 1 step [of 1 l] in auto)
      qed
      with Some op show ?thesis by (subst long_string_loop.simps) simp
    next
      case cl
      have "lexes N ?Q (bindE (skip_sep ls) (\<lambda>(n, ls). if n = sep then save_and_next ls else long_string_loop is_str sep ls))"
      proof (rule lexes_seq_snd [OF adv_refl sk], simp add: cl, unfold prod.case, goal_cases)
        case (1 n l)
        show ?case
        proof (cases "n = sep")
          case True
          with 1 less.prems have l: "current l = Some (CHR '']'')" "adv 1 ls l" "grows (nat sep + 1) ls l" by (auto simp: cl)
          have "lexes N ?Q (save_and_next l)"
            by (rule lexes_after [OF save_and_next_lexes [OF l(1)] l(2)]) (use l(3) in \<open>auto simp: grows_def\<close>)
          with True show ?thesis by simp
        qed (use 1 step [of 1 l] in auto)
      qed
      with Some cl show ?thesis by (subst long_string_loop.simps) simp
    next
      case nl
      have "lexes N ?Q (bindE (save (CHR 0x0A) ls) (\<lambda>l. bindE (inclinenumber l) (\<lambda>l. long_string_loop is_str sep (if is_str then l else resetbuffer l))))"
      proof (rule lexes_seq [OF adv_refl save_lexes], goal_cases)
        case (1 l)
        then have l: "currIsNewline l" "adv 0 ls l" "grows 0 ls l" using Some nl by (auto simp: curr_is_def grows_def)
        have "lexes N ?Q (long_string_loop is_str sep (if is_str then m else resetbuffer m))" if "adv (0 + 1) ls m" "buff m = buff l" for m
          using that l(3) by (intro step [of 1]) (auto simp: grows_def)
        then show ?case by (rule lexes_seq [OF l(2) inclinenumber_lexes [OF l(1)]])
      qed
      with Some nl show ?thesis by (subst long_string_loop.simps) simp
    next
      case other
      have "lexes N (\<lambda>l. adv 1 ls l \<and> (is_str \<longrightarrow> grows 0 ls l)) (if is_str then save_and_next ls else next_ch ls)"
        using lexes_weaken [OF save_and_next_lexes [OF Some]] lexes_weaken [OF next_lexes [OF Some]] other by (auto simp: grows_def)
      then have "lexes N ?Q (bindE (if is_str then save_and_next ls else next_ch ls) (long_string_loop is_str sep))"
        by (rule lexes_bind) (use step [of 1] in auto)
      with Some other show ?thesis by (subst long_string_loop.simps) simp
    qed
  qed
qed

lemma first_newline_lexes: "lexes N (\<lambda>l. adv 0 ls l \<and> buff l = buff ls) (if currIsNewline ls then inclinenumber ls else Inr ls)"
  by (auto intro: lexes_weaken [OF inclinenumber_lexes] adv_weaken)

lemma buffer_string_lexes: "start \<le> off \<Longrightarrow> off \<le> length (buff ls) \<Longrightarrow> lexes N (\<lambda>_. True) (buffer_string start off ls)"
  by (auto simp: buffer_string_def)

lemma read_long_string_lexes:
  assumes "current ls = Some (CHR ''['')" "0 \<le> sep" "sep \<le> int N" "length (rest ls) \<le> N" "is_str \<longrightarrow> nat sep + 1 \<le> length (buff ls)"
  shows "lexes N (\<lambda>(si, ls'). adv 1 ls ls') (read_long_string is_str si sep ls)"
  unfolding read_long_string_def
proof (rule lexes_seq [OF adv_refl save_and_next_lexes [OF assms(1)]], simp, erule lexes_seq [OF _ first_newline_lexes], goal_cases)
  case (1 l1 l2)
  have "lexes N (\<lambda>l. adv 1 l2 l \<and> (is_str \<longrightarrow> grows (nat sep + 2) l2 l)) (long_string_loop is_str sep l2)"
    using adv_length [OF 1(2)] assms by (intro long_string_loop_lexes) auto
  with 1(2) show ?case
  proof (rule lexes_seq)
    fix l3 assume l3: "adv (0 + 1 + 0 + 1) ls l3" "is_str \<longrightarrow> grows (nat sep + 2) l2 l3"
    have "lexes N (\<lambda>_. True) (buffer_string (nat (2 + sep)) (nat (2 * (2 + sep))) l3)" if is_str
      using l3(2) 1 assms that by (intro buffer_string_lexes) (auto simp: grows_def)
    moreover have "\<not> N < 2 ^ 29" if "INT_MAX < 2 * (2 + sep)" using that assms(3) by auto
    ultimately show "lexes N (\<lambda>(si, ls'). adv 1 ls ls')
        (if is_str then if INT_MAX < 2 * (2 + sep) then Inl (ErrUB ''overflow'')
           else bindE (buffer_string (nat (2 + sep)) (nat (2 * (2 + sep))) l3) (\<lambda>s. Inr (SemStr s, l3))
         else Inr (si, l3))"
      using adv_weaken [OF l3(1), of 1] by (auto simp: lex_error_def intro!: lexes_bind [where P = "\<lambda>_. True"])
  qed
qed

lemma decimal_escape_lexes:
  assumes "curr_is isdigit ls"
  shows "lexes N (\<lambda>(d, ls'). adv 0 ls ls' \<and> buff ls' = buff ls) (decimal_escape n c ls)"
  using assms
proof (induction n arbitrary: c ls)
  case (Suc n)
  from Suc.prems obtain d where d: "current ls = Some d" "isdigit d" by (rule curr_isE)
  have nl: "\<not> is_newline d" using d(2) plain_char(1) by blast
  have "lexes N (\<lambda>(d, ls'). adv 0 ls ls' \<and> buff ls' = buff ls)
      (bindE (next_ch ls) (\<lambda>ls. if 0 < n \<and> curr_is isdigit ls then decimal_escape n (10 * c + (byte d - 48)) ls else Inr (10 * c + (byte d - 48), ls)))"
  proof (rule lexes_seq [OF adv_refl next_lexes [OF d(1) nl]], goal_cases)
    case (1 l)
    have "lexes N (\<lambda>(d, ls'). adv 0 ls ls' \<and> buff ls' = buff ls) (decimal_escape n e l)" if "curr_is isdigit l" for e
      by (rule lexes_after_snd [OF Suc.IH [OF that]]) (use 1 in auto)
    with 1 show ?case by (auto intro: adv_weaken)
  qed
  with d show ?case by (simp add: Let_def)
qed simp

lemma string_loop_lexes:
  assumes "\<not> is_newline del"
  shows "lexes N (\<lambda>ls'. adv 0 ls ls' \<and> grows 0 ls ls' \<and> current ls' = Some del) (string_loop del ls)"
proof (induction ls rule: measure_induct_rule [of "\<lambda>ls. length (rest ls)"])
  case (less ls)
  let ?Q = "\<lambda>ls'. adv 0 ls ls' \<and> grows 0 ls ls' \<and> current ls' = Some del"
  have step: "lexes N ?Q (string_loop del l)" if "adv d ls l" "0 < d" "length (buff ls) \<le> length (buff l)" for l d
  proof -
    have "length (rest l) < length (rest ls)" using adv_length [OF that(1)] that(2) by simp
    from less.IH [OF this] show ?thesis by (rule lexes_after [OF _ that(1)]) (use that(3) in \<open>auto simp: grows_def\<close>)
  qed
  have esc: "lexes N ?Q (case current l of
               None \<Rightarrow> string_loop del l
             | Some e \<Rightarrow> (case escape_char e of
                   Some c \<Rightarrow> bindE (save c l) (\<lambda>ls. bindE (next_ch ls) (string_loop del))
                 | None \<Rightarrow>
                     if is_newline e then bindE (save (CHR 0x0A) l) (\<lambda>ls. bindE (inclinenumber ls) (string_loop del))
                     else if \<not> isdigit e then bindE (save_and_next l) (string_loop del)
                     else bindE (decimal_escape 3 0 l) (\<lambda>(c, ls).
                       if c > 255 then luaX_lexerror ''escape sequence too large'' TK_STRING ls
                       else bindE (save (char_of c) ls) (string_loop del))))"
    if l: "adv 1 ls l" "buff l = buff ls" for l
  proof (cases "current l")
    case None
    with step [OF l(1)] l(2) show ?thesis by simp
  next
    case (Some e)
    have "lexes N ?Q (bindE (save c l) (\<lambda>ls. bindE (next_ch ls) (string_loop del)))" if "\<not> is_newline e" for c
      by (rule lexes_seq [OF l(1) save_lexes], rule lexes_seq [OF _ next_lexes [of _ e]], assumption) (use Some that l(2) in \<open>auto intro!: step\<close>)
    moreover have "lexes N ?Q (bindE (save (CHR 0x0A) l) (\<lambda>ls. bindE (inclinenumber ls) (string_loop del)))" if "is_newline e"
      by (rule lexes_seq [OF l(1) save_lexes], rule lexes_seq [OF _ inclinenumber_lexes], assumption) (use Some that l(2) in \<open>auto simp: curr_is_def intro!: step\<close>)
    moreover have "lexes N ?Q (bindE (save_and_next l) (string_loop del))" if "\<not> is_newline e"
      by (rule lexes_seq [OF l(1) save_and_next_lexes [OF Some that]]) (use l(2) in \<open>auto intro!: step\<close>)
    moreover have "lexes N ?Q (bindE (decimal_escape 3 0 l) (\<lambda>(c, ls). if c > 255 then luaX_lexerror ''escape sequence too large'' TK_STRING ls
                       else bindE (save (char_of c) ls) (string_loop del)))" if "isdigit e"
    proof (rule lexes_seq_snd [OF l(1) decimal_escape_lexes], goal_cases)
      case (2 c m)
      have "lexes N ?Q (bindE (save (char_of c) m) (string_loop del))"
        by (rule lexes_seq [OF 2(1) save_lexes]) (use 2 l(2) in \<open>auto intro!: step\<close>)
      then show ?case by simp
    qed (use Some that in \<open>simp add: curr_is_def\<close>)
    ultimately show ?thesis
      using Some by (cases "is_newline e") (auto simp: escape_char_def is_newline_def split: option.split)
  qed
  show ?case
  proof (cases "current ls")
    case None
    then show ?thesis by (subst string_loop.simps) simp
  next
    case (Some c)
    have "lexes N ?Q (bindE (save_and_next ls) (string_loop del))" if "\<not> is_newline c"
      by (rule lexes_seq [OF adv_refl save_and_next_lexes [OF Some that]]) (auto intro!: step)
    moreover have "lexes N ?Q (bindE (next_ch ls) f)" if "c = CHR 0x5C" "\<And>l. adv 1 ls l \<Longrightarrow> buff l = buff ls \<Longrightarrow> lexes N ?Q (f l)" for f
      by (rule lexes_seq [OF adv_refl next_lexes [OF Some]]) (use that in auto)
    ultimately show ?thesis using Some esc by (subst string_loop.simps) (auto simp: grows_def)
  qed
qed

lemma read_string_lexes:
  assumes "current ls = Some del" "\<not> is_newline del"
  shows "lexes N (\<lambda>(si, ls'). adv 1 ls ls') (read_string del ls)"
  unfolding read_string_def
proof (rule lexes_seq [OF adv_refl save_and_next_lexes [OF assms]], erule lexes_seq [OF _ string_loop_lexes [OF assms(2)]], goal_cases)
  case (1 l1 l2)
  show ?case
  proof (rule lexes_seq [OF 1(2) save_and_next_lexes [OF _ assms(2)]], goal_cases)
    case (2 l3)
    then have "lexes N (\<lambda>_. True) (buffer_string 1 2 l3)" using 1 by (intro buffer_string_lexes) (auto simp: grows_def)
    then show ?case using adv_weaken [OF 2(1), of 1] by (auto intro: lexes_bind)
  qed (use 1 in simp)
qed

lemma skip_line_lexes: "lexes N (\<lambda>ls'. adv 0 ls ls' \<and> buff ls' = buff ls) (skip_line ls)"
proof (induction ls rule: measure_induct_rule [of "\<lambda>ls. length (rest ls)"])
  case (less ls)
  show ?case
  proof (cases "current ls \<noteq> None \<and> \<not> currIsNewline ls")
    case True
    then obtain c where c: "current ls = Some c" "\<not> is_newline c" by (auto simp: curr_is_def)
    have "lexes N (\<lambda>ls'. adv 0 ls ls' \<and> buff ls' = buff ls) (bindE (next_ch ls) skip_line)"
    proof (rule lexes_seq [OF adv_refl next_lexes [OF c]], goal_cases)
      case (1 l)
      then have "lexes N (\<lambda>ls'. adv 0 l ls' \<and> buff ls' = buff l) (skip_line l)" by (intro less.IH) simp
      then show ?case by (rule lexes_after [OF _ 1(1)]) (use 1 in auto)
    qed
    with True show ?thesis by (subst skip_line.simps) simp
  next
    case False
    then show ?thesis by (subst skip_line.simps) auto
  qed
qed

lemma skip_comment_lexes:
  assumes "length (rest ls) \<le> N" "buff ls = []"
  shows "lexes N (\<lambda>ls'. adv 0 ls ls' \<and> buff ls' = []) (skip_comment ls)"
proof -
  have *: "lexes N (\<lambda>(n, ls'). adv 0 ls ls' \<and> n \<le> int N \<and> buff ls' = [] \<and> (0 \<le> n \<longrightarrow> current ls' = Some (CHR ''['')))
     (if current ls = Some (CHR ''['') then bindE (skip_sep ls) (\<lambda>(sep, ls). Inr (sep, resetbuffer ls)) else Inr (-1, ls))"
    by (auto intro!: lexes_bind [OF skip_sep_lexes] assms intro: adv_weaken)
  show ?thesis
    unfolding skip_comment_def
  proof (rule lexes_seq_snd [OF adv_refl *], unfold prod.case, goal_cases)
    case (1 n l)
    have "lexes N (\<lambda>ls'. adv 0 ls ls' \<and> buff ls' = []) (bindE (read_long_string False SemNone n l) (\<lambda>(_, ls). Inr (resetbuffer ls)))" if "0 \<le> n"
    proof (rule lexes_bind [OF read_long_string_lexes])
      show "length (rest l) \<le> N" using adv_length [OF 1(1)] assms by simp
      show "lexes N (\<lambda>ls'. adv 0 ls ls' \<and> buff ls' = []) (case x of (_, ls) \<Rightarrow> Inr (resetbuffer ls))" if "case x of (si, ls') \<Rightarrow> adv 1 l ls'" for x :: "SemInfo \<times> LexState"
        using that adv_trans [OF 1(1), of 1] by (auto split: prod.splits intro: adv_weaken [of 1])
    qed (use 1 that in auto)
    moreover have "lexes N (\<lambda>ls'. adv 0 ls ls' \<and> buff ls' = []) (skip_line l)"
      by (rule lexes_after [OF skip_line_lexes 1(1)]) (use 1 in auto)
    ultimately show ?case by simp
  qed
qed

text \<open>A token other than the end uses up input.\<close>

definition reserved_ok :: "LexState \<Rightarrow> bool" where
  "reserved_ok ls \<longleftrightarrow> (\<forall>s. ls_reserved ls s \<le> NUM_RESERVED)"

definition token_read :: "LexState \<Rightarrow> Token \<Rightarrow> LexState \<Rightarrow> bool" where
  "token_read ls t ls' \<longleftrightarrow> adv 0 ls ls' \<and> (token t \<noteq> TK_EOS \<longrightarrow> adv 1 ls ls') \<and> (reserved_ok ls \<longrightarrow> token t = TK_EOS \<longrightarrow> rest ls' = [])"

lemma reserved_ok_adv: "adv d ls l \<Longrightarrow> reserved_ok l = reserved_ok ls"
  by (simp add: reserved_ok_def adv_def)

lemma token_read_after: "adv d ls l \<Longrightarrow> token_read l t ls' \<Longrightarrow> token_read ls t ls'"
  using adv_trans [of d ls l 0 ls'] adv_trans [of d ls l 1 ls'] adv_weaken by (auto simp: token_read_def reserved_ok_adv)

lemma token_readI: "adv d ls ls' \<Longrightarrow> 0 < d \<Longrightarrow> reserved_ok ls \<longrightarrow> token t \<noteq> TK_EOS \<Longrightarrow> token_read ls t ls'"
  by (auto simp: token_read_def intro: adv_weaken)

lemma token_neq_EOS [simp]: "TK_STRING \<noteq> TK_EOS" "TK_NUMBER \<noteq> TK_EOS" "TK_NAME \<noteq> TK_EOS" "TK_DOTS \<noteq> TK_EOS" "TK_CONCAT \<noteq> TK_EOS"
  "int (byte c) \<noteq> TK_EOS" "eq_token c = Some k \<Longrightarrow> k \<noteq> TK_EOS" "45 \<noteq> TK_EOS" "46 \<noteq> TK_EOS" "91 \<noteq> TK_EOS"
proof -
  have "byte c < 256" by (simp add: byte_def)
  then show "int (byte c) \<noteq> TK_EOS" by (simp add: TK_defs)
qed (auto simp: TK_defs eq_token_def split: if_splits)

lemma reserved_neq_EOS: "reserved_ok ls \<Longrightarrow> int (ls_reserved ls s) - 1 + FIRST_RESERVED \<noteq> TK_EOS"
  by (auto simp: reserved_ok_def NUM_RESERVED_def TK_defs dest: spec [of _ s])

abbreviation reads_token :: "nat \<Rightarrow> LexState \<Rightarrow> (Token \<times> LexState) res \<Rightarrow> bool" where
  "reads_token N ls \<equiv> lexes N (\<lambda>(t, ls'). token_read ls t ls')"

lemma reads_token_bind:
  assumes "adv d ls l" "lexes N (\<lambda>(si, ls'). adv 1 l ls') m" "tok \<noteq> TK_EOS"
  shows "reads_token N ls (bindE m (\<lambda>(si, ls). Inr (\<lparr>token = tok, seminfo = si\<rparr>, ls)))"
  by (rule lexes_bind [OF assms(2)]) (use assms adv_trans [OF assms(1), of 1] in \<open>auto intro!: token_readI [of "Suc d"]\<close>)

lemma lex_minus_lexes:
  assumes "current ls = Some (CHR ''-'')" "length (rest ls) \<le> N" "buff ls = []" "\<And>l. adv 2 ls l \<Longrightarrow> buff l = [] \<Longrightarrow> reads_token N ls (f l)"
  shows "reads_token N ls (bindE (next_ch ls) (\<lambda>ls.
             if current ls \<noteq> Some (CHR ''-'') then Inr (\<lparr>token = 45, seminfo = si\<rparr>, ls)
             else bindE (next_ch ls) (\<lambda>ls. bindE (skip_comment ls) f)))"
proof (rule lexes_seq [OF adv_refl next_lexes [OF assms(1)]], simp, goal_cases)
  case (1 l)
  show ?case
  proof (cases "current l = Some (CHR ''-'')")
    case True
    have "reads_token N ls (bindE (skip_comment m) f)" if m: "adv (0 + 1 + 1) ls m" "buff m = buff l \<and> rest l = CHR ''-'' # rest m" for m
      by (rule lexes_seq [OF m(1) skip_comment_lexes]) (use 1 m assms(2,3) adv_length [OF m(1)] in \<open>auto intro!: assms(4) simp: numeral_2_eq_2\<close>)
    with True show ?thesis by (auto intro: lexes_seq [OF 1(1) next_lexes [OF True]])
  qed (use 1 in \<open>auto intro!: token_readI\<close>)
qed

lemma lex_bracket_lexes:
  assumes "current ls = Some (CHR ''['')" "length (rest ls) \<le> N" "buff ls = []"
  shows "reads_token N ls (bindE (skip_sep ls) (\<lambda>(sep, ls).
             if sep \<ge> 0 then bindE (read_long_string True si sep ls) (\<lambda>(si, ls). Inr (\<lparr>token = TK_STRING, seminfo = si\<rparr>, ls))
             else if sep = -1 then Inr (\<lparr>token = 91, seminfo = si\<rparr>, ls)
             else luaX_lexerror ''invalid long string delimiter'' TK_STRING ls))"
proof (rule lexes_seq_snd [OF adv_refl skip_sep_lexes [OF assms(1) _ assms(2)]], simp, unfold prod.case, goal_cases)
  case (1 n l)
  have "reads_token N ls (bindE (read_long_string True si n l) (\<lambda>(si, ls). Inr (\<lparr>token = TK_STRING, seminfo = si\<rparr>, ls)))" if "0 \<le> n"
    by (rule reads_token_bind [OF 1(1) read_long_string_lexes]) (use 1 that assms adv_length [OF 1(1)] in \<open>auto simp: grows_def\<close>)
  with 1 show ?case by (auto intro!: token_readI)
qed

lemma lex_eq_lexes:
  assumes "current ls = Some c" "\<not> is_newline c" "eq_token c \<noteq> None"
  shows "reads_token N ls (bindE (next_ch ls) (\<lambda>ls.
             if current ls \<noteq> Some (CHR ''='') then Inr (\<lparr>token = int (byte c), seminfo = si\<rparr>, ls)
             else bindE (next_ch ls) (\<lambda>ls. Inr (\<lparr>token = the (eq_token c), seminfo = si\<rparr>, ls))))"
proof (rule lexes_seq [OF adv_refl next_lexes [OF assms(1,2)]], goal_cases)
  case (1 l)
  have "reads_token N ls (bindE (next_ch l) (\<lambda>ls. Inr (\<lparr>token = the (eq_token c), seminfo = si\<rparr>, ls)))" if "current l = Some (CHR ''='')"
    by (rule lexes_seq [OF 1(1) next_lexes [OF that]]) (use assms(3) in \<open>auto intro!: token_readI\<close>)
  with 1 show ?case by (auto intro!: token_readI)
qed

lemma lex_dot_lexes:
  assumes "current ls = Some (CHR ''.'')"
  shows "reads_token N ls (bindE (save_and_next ls) (\<lambda>ls.
           bindE (check_next ''.'' ls) (\<lambda>(b, ls).
             if b then bindE (check_next ''.'' ls) (\<lambda>(b, ls). Inr (\<lparr>token = if b then TK_DOTS else TK_CONCAT, seminfo = si\<rparr>, ls))
             else if \<not> curr_is isdigit ls then Inr (\<lparr>token = 46, seminfo = si\<rparr>, ls)
             else bindE (read_numeral libc ls) (\<lambda>(si, ls). Inr (\<lparr>token = TK_NUMBER, seminfo = si\<rparr>, ls)))))"
proof (rule lexes_seq [OF adv_refl save_and_next_lexes [OF assms]], simp, rule lexes_seq_snd [OF _ check_next_lexes], assumption, simp, unfold prod.case, goal_cases)
  case (1 l1 b l2)
  have "reads_token N ls (bindE (check_next ''.'' l2) (\<lambda>(b, ls). Inr (\<lparr>token = if b then TK_DOTS else TK_CONCAT, seminfo = si\<rparr>, ls)))"
    by (rule lexes_seq_snd [OF 1(3) check_next_lexes]) (auto intro!: token_readI)
  moreover have "reads_token N ls (bindE (read_numeral libc l2) (\<lambda>(si, ls). Inr (\<lparr>token = TK_NUMBER, seminfo = si\<rparr>, ls)))" if d: "curr_is isdigit l2"
    using d
  proof (rule curr_isE)
    fix c assume "current l2 = Some c" "isdigit c"
    then show ?thesis by (intro reads_token_bind [OF 1(3) read_numeral_lexes]) (use plain_char(1) in auto)
  qed
  ultimately show ?case using 1 by (auto intro!: token_readI)
qed

lemma lex_name_lexes:
  assumes "current ls = Some c" "\<not> is_newline c"
  shows "reads_token N ls (bindE (save_and_next ls) (\<lambda>ls.
           bindE (save_while (\<lambda>c. isalnum c \<or> c = CHR ''_'') ls) (\<lambda>ls.
             Inr (if ls_reserved ls (buff ls) > 0 then \<lparr>token = int (ls_reserved ls (buff ls)) - 1 + FIRST_RESERVED, seminfo = si\<rparr>
                  else \<lparr>token = TK_NAME, seminfo = SemStr (buff ls)\<rparr>, ls))))"
proof (rule lexes_seq [OF adv_refl save_and_next_lexes [OF assms]], rule lexes_seq [OF _ save_while_lexes [OF plain_char(2)]], assumption, assumption, goal_cases)
  case (1 l1 l2)
  then show ?case using reserved_neq_EOS [of l2 "buff l2"] by (auto intro!: token_readI simp: reserved_ok_adv)
qed

lemma llex_loop_lexes:
  assumes "length (rest ls) \<le> N" "buff ls = []"
  shows "reads_token N ls (llex_loop libc si ls)"
  using assms
proof (induction ls rule: measure_induct_rule [of "\<lambda>ls. length (rest ls)"])
  case (less ls)
  have step: "reads_token N ls (llex_loop libc si l)" if "adv d ls l" "0 < d" "buff l = []" for l d
  proof -
    have "length (rest l) < length (rest ls)" using that by (simp add: adv_def)
    from less.IH [OF this] this that less.prems have "reads_token N l (llex_loop libc si l)" by simp
    then show ?thesis by (rule lexes_weaken) (use token_read_after [OF that(1)] in auto)
  qed
  show ?case
  proof (cases "current ls")
    case None
    then show ?thesis by (subst llex_loop.simps) (simp add: token_read_def rest_def)
  next
    case (Some c)
    show ?thesis
    proof (cases "is_newline c")
      case True
      have "reads_token N ls (bindE (inclinenumber ls) (llex_loop libc si))"
        by (rule lexes_seq [OF adv_refl inclinenumber_lexes]) (use Some True less.prems in \<open>auto simp: curr_is_def intro!: step\<close>)
      with Some True show ?thesis by (subst llex_loop.simps) simp
    next
      case nl: False
      have "reads_token N ls (bindE (next_ch ls) (llex_loop libc si))"
        by (rule lexes_seq [OF adv_refl next_lexes [OF Some nl]]) (use less.prems in \<open>auto intro!: step\<close>)
      moreover have "reads_token N ls (bindE (next_ch ls) (\<lambda>ls. Inr (\<lparr>token = int (byte c), seminfo = si\<rparr>, ls)))"
        by (rule lexes_seq [OF adv_refl next_lexes [OF Some nl]]) (auto intro!: token_readI)
      moreover note lex_name_lexes [OF Some nl, of N si] lex_eq_lexes [OF Some nl, of N si]
        reads_token_bind [OF adv_refl read_numeral_lexes [OF Some nl], of TK_NUMBER N libc]
        reads_token_bind [OF adv_refl read_string_lexes [OF Some nl], of TK_STRING N]
        lex_bracket_lexes [of ls N si] lex_dot_lexes [of ls N si libc]
      moreover have "reads_token N ls (bindE (next_ch ls) (\<lambda>ls. if current ls \<noteq> Some (CHR ''-'') then Inr (\<lparr>token = 45, seminfo = si\<rparr>, ls)
             else bindE (next_ch ls) (\<lambda>ls. bindE (skip_comment ls) (llex_loop libc si))))" if "c = CHR ''-''"
        by (rule lex_minus_lexes) (use Some that less.prems in \<open>auto intro: step\<close>)
      ultimately show ?thesis
        using Some nl less.prems by (subst llex_loop.simps, simp only: option.case if_not_P [OF nl], intro lexes_if) simp_all
    qed
  qed
qed

section \<open>Reading all tokens\<close>

text \<open>What a step of the parser sees: the token, and a state from which input has been used up or the look-ahead token taken.\<close>

definition pending :: "LexState \<Rightarrow> nat" where
  "pending ls = length (rest ls) + (if token (ls_lookahead ls) \<noteq> TK_EOS then 1 else 0)"

definition lines_left :: "LexState \<Rightarrow> int" where
  "lines_left ls = linenumber ls + int (newlines (rest ls))"

definition next_ok :: "LexState \<Rightarrow> LexState \<Rightarrow> bool" where
  "next_ok ls ls' \<longleftrightarrow> length (rest ls') \<le> length (rest ls) \<and> lines_left ls' = lines_left ls \<and> ls_reserved ls' = ls_reserved ls \<and> token (ls_lookahead ls') = TK_EOS \<and>
     (token (ls_t ls') \<noteq> TK_EOS \<longrightarrow> pending ls' < pending ls) \<and> (reserved_ok ls \<longrightarrow> token (ls_t ls') = TK_EOS \<longrightarrow> rest ls' = [])"

lemma lines_left_update [simp]: "lines_left (ls\<lparr>lastline := n\<rparr>) = lines_left ls" "lines_left (ls\<lparr>ls_t := t\<rparr>) = lines_left ls"
  "lines_left (ls\<lparr>ls_lookahead := t\<rparr>) = lines_left ls"
  by (simp_all add: lines_left_def)

lemma luaX_next_lexes: "length (rest ls) \<le> N \<Longrightarrow> lexes N (next_ok ls) (luaX_next libc ls)"
proof (cases "token (ls_lookahead ls) \<noteq> TK_EOS")
  case True
  then show ?thesis by (simp add: luaX_next_def next_ok_def pending_def)
next
  case False
  assume N: "length (rest ls) \<le> N"
  let ?l = "resetbuffer (ls\<lparr>lastline := linenumber ls\<rparr>)"
  have "lexes N (\<lambda>(t, ls'). token_read ?l t ls') (llex_loop libc (seminfo (ls_t ls)) ?l)"
    using N by (intro llex_loop_lexes) auto
  then have "lexes N (next_ok ls) (bindE (llex_loop libc (seminfo (ls_t ls)) ?l) (\<lambda>(t, ls). Inr (ls\<lparr>ls_t := t\<rparr>)))"
    by (rule lexes_bind) (use False in \<open>auto simp: token_read_def next_ok_def pending_def adv_def lines_left_def reserved_ok_def\<close>)
  with False show ?thesis by (simp add: luaX_next_def llex_def)
qed

function tokens :: "libc_num \<Rightarrow> LexState \<Rightarrow> (Token list \<times> LexState) res" where
  "tokens libc ls =
     bindE (luaX_next libc ls) (\<lambda>ls.
       if token (ls_t ls) = TK_EOS then Inr ([], ls)
       else bindE (tokens libc ls) (\<lambda>(ts, ls'). Inr (ls_t ls # ts, ls')))"
  by pat_completeness auto
termination
proof (relation "measure (\<lambda>(libc, ls). pending ls)")
  fix libc ls ls' assume "luaX_next libc ls = Inr ls'" "token (ls_t ls') \<noteq> TK_EOS"
  then show "((libc, ls'), libc, ls) \<in> measure (\<lambda>(libc, ls). pending ls)"
    using lexesD [OF luaX_next_lexes] by (fastforce simp: next_ok_def)
qed simp

declare tokens.simps [simp del]

lemma lines_tokens: "tokens libc ls = Inr (ts, ls') \<Longrightarrow> lines_left ls' = lines_left ls \<and> (reserved_ok ls \<longrightarrow> rest ls' = [])"
proof (induction libc ls arbitrary: ts rule: tokens.induct)
  case (1 libc ls)
  then obtain l where l: "luaX_next libc ls = Inr l" by (subst (asm) (2) tokens.simps) (auto simp: bindE_eq_Inr)
  with luaX_next_lexes [OF order.refl] have n: "next_ok ls l" by (rule lexesD)
  show ?case
  proof (cases "token (ls_t l) = TK_EOS")
    case True
    with "1.prems" l n show ?thesis by (subst (asm) tokens.simps) (auto simp: next_ok_def)
  next
    case False
    with "1.prems" l obtain ts' where "tokens libc l = Inr (ts', ls')" by (subst (asm) tokens.simps) (auto simp: bindE_eq_Inr)
    from "1.IH" [OF l False this] n show ?thesis by (auto simp: next_ok_def reserved_ok_def)
  qed
qed

lemma init_reserved_ok: "ls_reserved ls = luaX_init (\<lambda>_. 0) \<Longrightarrow> reserved_ok ls"
proof -
  have "(\<forall>i \<in> set xs. i + 1 \<le> B) \<Longrightarrow> (\<forall>s. r s \<le> B) \<Longrightarrow> \<forall>s. fold (\<lambda>i r. r(luaX_tokens ! i := i + 1)) xs r s \<le> B" for xs B and r :: "string \<Rightarrow> nat"
    by (induction xs arbitrary: r) auto
  from this [of "[0..<NUM_RESERVED]" NUM_RESERVED "\<lambda>_. 0"] show "ls_reserved ls = luaX_init (\<lambda>_. 0) \<Longrightarrow> reserved_ok ls"
    by (simp add: reserved_ok_def luaX_init_def)
qed

lemma setinput_state:
  "rest (luaX_setinput r t b (luaZ_init blocks) src) = zblocks_bytes blocks"
  "linenumber (luaX_setinput r t b (luaZ_init blocks) src) = 1"
  "ls_reserved (luaX_setinput r t b (luaZ_init blocks) src) = r"
  "token (ls_lookahead (luaX_setinput r t b (luaZ_init blocks) src)) = TK_EOS"
  "decpoint (luaX_setinput r t b (luaZ_init blocks) src) = CHR ''.''"
proof -
  obtain c z where z: "zgetc (luaZ_init blocks) = (c, z)" by fastforce
  have "zbytes (luaZ_init blocks) = zblocks_bytes blocks" by (simp add: luaZ_init_def zbytes_def)
  with zgetc_spec [OF z] show "rest (luaX_setinput r t b (luaZ_init blocks) src) = zblocks_bytes blocks"
    by (simp add: luaX_setinput_def z rest_def split: option.split)
qed (simp_all add: luaX_setinput_def no_token_def split: prod.split)

text \<open>Property C12. Line numbers: when the analyser has reached the end of the stream it has read all of it and its line number is one more than the number of
  line ends of the text, whatever tokens, strings, long strings and comments they are in and however the reader cuts the text into blocks; a carriage return and a
  line feed next to each other are one line end.\<close>

theorem lexer_counts_lines:
  assumes "tokens libc (luaX_setinput (luaX_init (\<lambda>_. 0)) t b (luaZ_init blocks) src) = Inr (ts, ls)"
  shows "linenumber ls = 1 + int (newlines (zblocks_bytes blocks)) \<and> rest ls = []"
  using lines_tokens [OF assms] by (auto simp: lines_left_def setinput_state init_reserved_ok)

text \<open>A C library for the witnesses: it converts the whole string to zero.\<close>

definition libc_zero :: libc_num where
  "libc_zero = \<lparr>strtod = (\<lambda>s. (0, length s)), strtoul16 = (\<lambda>s. (0, length s)), decimal_point = CHR ''.''\<rparr>"

theorem lexer_counts_lines_witness:
  "\<exists>ts ls. tokens libc_zero (luaX_setinput (luaX_init (\<lambda>_. 0)) no_token [] (luaZ_init [''x = 1'' @ [CHR 0x0D], [CHR 0x0A] @ ''--'' @ [CHR 0x0A]]) ''=w'') = Inr (ts, ls) \<and>
     linenumber ls = 3"
proof -
  let ?b = "[''x = 1'' @ [CHR 0x0D], [CHR 0x0A] @ ''--'' @ [CHR 0x0A]]"
  have "isl (tokens libc_zero (luaX_setinput (luaX_init (\<lambda>_. 0)) no_token [] (luaZ_init ?b) ''=w'')) = False" by code_simp
  then obtain ts ls where t: "tokens libc_zero (luaX_setinput (luaX_init (\<lambda>_. 0)) no_token [] (luaZ_init ?b) ''=w'') = Inr (ts, ls)"
    by (metis isl_def sum.exhaust surj_pair)
  have "newlines (zblocks_bytes ?b) = 2" by (simp add: is_newline_def)
  with lexer_counts_lines [OF t] t show ?thesis by auto
qed

text \<open>The calls of the parser: \<open>luaX_next\<close>, or \<open>luaX_lookahead\<close> when there is no look-ahead token yet.\<close>

datatype lex_call = Next | Lookahead

primrec lex_calls :: "libc_num \<Rightarrow> lex_call list \<Rightarrow> LexState \<Rightarrow> LexState res" where
  "lex_calls libc [] ls = Inr ls"
| "lex_calls libc (c # cs) ls = bindE (case c of Next \<Rightarrow> luaX_next libc ls | Lookahead \<Rightarrow> luaX_lookahead libc ls) (lex_calls libc cs)"

lemma luaX_lookahead_lexes: "length (rest ls) \<le> N \<Longrightarrow> lexes N (\<lambda>ls'. length (rest ls') \<le> length (rest ls)) (luaX_lookahead libc ls)"
  using llex_loop_lexes [of "resetbuffer ls" N libc "seminfo (ls_lookahead ls)"]
  by (auto simp: luaX_lookahead_def llex_def token_read_def elim!: lexes_bind dest: adv_length)

lemma lex_calls_lexes: "length (rest ls) \<le> N \<Longrightarrow> lexes N (\<lambda>_. True) (lex_calls libc cs ls)"
proof (induction cs arbitrary: ls)
  case (Cons c cs)
  have "lexes N (\<lambda>l. length (rest l) \<le> N) (case c of Next \<Rightarrow> luaX_next libc ls | Lookahead \<Rightarrow> luaX_lookahead libc ls)"
    using Cons.prems lexes_weaken [OF luaX_next_lexes] lexes_weaken [OF luaX_lookahead_lexes] by (cases c) (fastforce simp: next_ok_def)+
  then show ?case using Cons.IH by (auto intro: lexes_bind)
qed simp

text \<open>Property C33. The lexical analyser is safe on every text of fewer than \<open>2 ^ 29\<close> bytes (beyond that its \<open>int\<close> counters could overflow): whatever such a text, the blocks in which the reader delivers it and the order in
  which the parser calls \<open>luaX_next\<close> and \<open>luaX_lookahead\<close>, it fails only with a syntax error; it never reads the stream after its end, never takes the string of a token
  from outside the buffer and never overflows a counter.\<close>

theorem lexer_safe:
  assumes "length (zblocks_bytes blocks) < 2 ^ 29" "lex_calls libc cs (luaX_setinput r t b (luaZ_init blocks) src) = Inl e"
  shows "\<exists>msg. e = ErrSyntax msg"
  using lex_calls_lexes [of "luaX_setinput r t b (luaZ_init blocks) src" "length (zblocks_bytes blocks)" libc cs] assms
  by (simp add: setinput_state lex_error_def)

theorem lexer_safe_witness:
  "\<exists>e msg. lex_calls libc_zero [Next, Lookahead, Next] (luaX_setinput (luaX_init (\<lambda>_. 0)) no_token [] (luaZ_init [''x [= '']) ''=w'') = Inl e \<and> e = ErrSyntax msg"
proof -
  let ?ls = "luaX_setinput (luaX_init (\<lambda>_. 0)) no_token [] (luaZ_init [''x [= '']) ''=w''"
  have "isl (lex_calls libc_zero [Next, Lookahead, Next] ?ls)" by code_simp
  then obtain e where e: "lex_calls libc_zero [Next, Lookahead, Next] ?ls = Inl e" by (auto simp: isl_def)
  have "length (zblocks_bytes [''x [= '']) < 2 ^ 29" by simp
  from lexer_safe [OF this e] e show ?thesis by blast
qed

section \<open>Reading back\<close>

text \<open>Where the analyser is: the input left, the buffer and the line; the rest of the state is that of \<open>ls\<close>.\<close>

definition at :: "LexState \<Rightarrow> string \<Rightarrow> string \<Rightarrow> int \<Rightarrow> LexState \<Rightarrow> bool" where
  "at ls s b n ls' \<longleftrightarrow> rest ls' = s \<and> buff ls' = b \<and> linenumber ls' = n \<and> decpoint ls' = decpoint ls \<and> ls_reserved ls' = ls_reserved ls \<and>
     ls_t ls' = ls_t ls \<and> ls_lookahead ls' = ls_lookahead ls"

definition short :: "nat \<Rightarrow> bool" where
  "short n \<longleftrightarrow> n < 2 ^ 62"

lemma at_current: "at ls (c # s) b n l \<Longrightarrow> current l = Some c" "at ls [] b n l \<Longrightarrow> current l = None"
  by (simp_all add: at_def current_rest)

lemma at_curr_is: "at ls s b n l \<Longrightarrow> curr_is P l = (s \<noteq> [] \<and> P (hd s))"
  by (cases s) (auto simp: curr_is_def dest: at_current)

lemma next_at: "at ls (c # s) b n l \<Longrightarrow> \<exists>l'. next_ch l = Inr l' \<and> at ls s b n l'"
  using next_ch_Some [OF at_current(1)] by (fastforce simp: at_def)

lemma save_at: "at ls s b n l \<Longrightarrow> short (length b) \<Longrightarrow> \<exists>l'. save c l = Inr l' \<and> at ls s (b @ [c]) n l'"
  by (auto simp: at_def save_def short_def MAX_SIZET_def)

lemma save_and_next_at: "at ls (c # s) b n l \<Longrightarrow> short (length b) \<Longrightarrow> \<exists>l'. save_and_next l = Inr l' \<and> at ls s (b @ [c]) n l'"
  using save_at [of ls "c # s" b n l c] next_at [of ls c s "b @ [c]" n] by (auto simp: save_and_next_def at_current)

lemma inclinenumber_at:
  assumes "at ls (CHR 0x0A # s) b n l" "s = [] \<or> hd s \<noteq> CHR 0x0D" "n + 1 < MAX_INT"
  shows "\<exists>l'. inclinenumber l = Inr l' \<and> at ls s b (n + 1) l'"
proof -
  obtain l1 where l1: "next_ch l = Inr l1" "at ls s b n l1" using next_at [OF assms(1)] by blast
  have "\<not> (currIsNewline l1 \<and> current l1 \<noteq> current l)"
    using assms(2) at_current(1) [OF assms(1)] at_curr_is [OF l1(2)] l1(2)
    by (cases s) (auto simp: is_newline_def at_current)
  with l1 assms(3) show ?thesis by (auto simp: inclinenumber_def Let_def at_def)
qed

lemma save_while_at:
  "at ls (p @ s) b n l \<Longrightarrow> list_all P p \<Longrightarrow> s = [] \<or> \<not> P (hd s) \<Longrightarrow> short (length b + length p) \<Longrightarrow> \<exists>l'. save_while P l = Inr l' \<and> at ls s (b @ p) n l'"
proof (induction p arbitrary: b l)
  case Nil
  then show ?case by (subst save_while.simps) (auto simp: at_curr_is)
next
  case (Cons c p)
  then obtain l1 where l1: "save_and_next l = Inr l1" "at ls (p @ s) (b @ [c]) n l1"
    using save_and_next_at [of ls c "p @ s" b n l] by (auto simp: short_def)
  with Cons.IH [OF l1(2)] Cons.prems show ?case by (subst save_while.simps) (auto simp: at_curr_is)
qed

text \<open>A quoted character.\<close>

abbreviation quote_char :: "char \<Rightarrow> string" where
  "quote_char c \<equiv> (if c = CHR 0x22 \<or> c = CHR 0x5C \<or> c = CHR 0x0A then [CHR 0x5C, c]
      else if c = CHR 0x0D then [CHR 0x5C, CHR ''r''] else if c = CHR 0x00 then [CHR 0x5C, CHR ''0'', CHR ''0'', CHR ''0''] else [c])"

lemma string_loop_escape:
  assumes "at ls (CHR 0x5C # e # s) b n l"
  shows "\<exists>l1. at ls (e # s) b n l1 \<and> string_loop (CHR 0x22) l = (case escape_char e of
       Some c \<Rightarrow> bindE (save c l1) (\<lambda>ls. bindE (next_ch ls) (string_loop (CHR 0x22)))
     | None \<Rightarrow>
         if is_newline e then bindE (save (CHR 0x0A) l1) (\<lambda>ls. bindE (inclinenumber ls) (string_loop (CHR 0x22)))
         else if \<not> isdigit e then bindE (save_and_next l1) (string_loop (CHR 0x22))
         else bindE (decimal_escape 3 0 l1) (\<lambda>(c, ls).
           if c > 255 then luaX_lexerror ''escape sequence too large'' TK_STRING ls
           else bindE (save (char_of c) ls) (string_loop (CHR 0x22))))"
proof -
  obtain l1 where l1: "next_ch l = Inr l1" "at ls (e # s) b n l1" using next_at [OF assms] by blast
  with at_current(1) [OF assms] at_current(1) [OF l1(2)] show ?thesis by (subst string_loop.simps) auto
qed

lemma string_loop_at:
  assumes "at ls (quote_char c @ s) b n l" "s \<noteq> [] \<and> hd s \<noteq> CHR 0x0D" "n + 1 < MAX_INT" "short (length b)"
  shows "\<exists>l'. string_loop (CHR 0x22) l = string_loop (CHR 0x22) l' \<and> at ls s (b @ [c]) (if c = CHR 0x0A then n + 1 else n) l'"
proof -
  consider (nl) "c = CHR 0x0A" | (cr) "c = CHR 0x0D" | (zero) "c = CHR 0x00" | (quoted) "c = CHR 0x22 \<or> c = CHR 0x5C" | (plain) "c \<notin> {CHR 0x0A, CHR 0x0D, CHR 0x00, CHR 0x22, CHR 0x5C}"
    by blast
  then show ?thesis
  proof cases
    case nl
    with assms(1) string_loop_escape [of ls "CHR 0x0A" s b n l] obtain l1 where
      l1: "at ls (CHR 0x0A # s) b n l1" "string_loop (CHR 0x22) l = bindE (save (CHR 0x0A) l1) (\<lambda>ls. bindE (inclinenumber ls) (string_loop (CHR 0x22)))"
      by (auto simp: escape_char_def is_newline_def)
    from save_at [OF l1(1) assms(4)] obtain l2 where l2: "save (CHR 0x0A) l1 = Inr l2" "at ls (CHR 0x0A # s) (b @ [CHR 0x0A]) n l2" by blast
    with inclinenumber_at [OF l2(2)] assms(2,3) l1(2) nl show ?thesis by auto
  next
    case cr
    with assms(1) string_loop_escape [of ls "CHR ''r''" s b n l] obtain l1 where
      l1: "at ls (CHR ''r'' # s) b n l1" "string_loop (CHR 0x22) l = bindE (save (CHR 0x0D) l1) (\<lambda>ls. bindE (next_ch ls) (string_loop (CHR 0x22)))"
      by (auto simp: escape_char_def)
    from save_at [OF l1(1) assms(4)] obtain l2 where l2: "save (CHR 0x0D) l1 = Inr l2" "at ls (CHR ''r'' # s) (b @ [CHR 0x0D]) n l2" by blast
    with next_at [OF l2(2)] l1(2) cr show ?thesis by auto
  next
    case zero
    with assms(1) string_loop_escape [of ls "CHR ''0''" "CHR ''0'' # CHR ''0'' # s" b n l] obtain l1 where
      l1: "at ls (CHR ''0'' # CHR ''0'' # CHR ''0'' # s) b n l1" "string_loop (CHR 0x22) l = bindE (decimal_escape 3 0 l1) (\<lambda>(c, ls).
           if c > 255 then luaX_lexerror ''escape sequence too large'' TK_STRING ls
           else bindE (save (char_of c) ls) (string_loop (CHR 0x22)))"
      by (auto simp: escape_char_def is_newline_def isdigit_def byte_def)
    from next_at [OF l1(1)] obtain l2 where l2: "next_ch l1 = Inr l2" "at ls (CHR ''0'' # CHR ''0'' # s) b n l2" by blast
    from next_at [OF l2(2)] obtain l3 where l3: "next_ch l2 = Inr l3" "at ls (CHR ''0'' # s) b n l3" by blast
    from next_at [OF l3(2)] obtain l4 where l4: "next_ch l3 = Inr l4" "at ls s b n l4" by blast
    have "decimal_escape 3 0 l1 = Inr (0, l4)"
      using l1 l2 l3 l4 by (simp add: numeral_3_eq_3 at_current at_curr_is isdigit_def byte_def)
    moreover have "char_of (0 :: nat) = CHR 0x00" by code_simp
    ultimately show ?thesis using l1(2) save_at [OF l4(2) assms(4), of "CHR 0x00"] zero by auto
  next
    case quoted
    with assms(1) string_loop_escape [of ls c s b n l] obtain l1 where
      l1: "at ls (c # s) b n l1" "string_loop (CHR 0x22) l = bindE (save_and_next l1) (string_loop (CHR 0x22))"
      by (auto simp: escape_char_def is_newline_def isdigit_def byte_def)
    from save_and_next_at [OF l1(1) assms(4)] l1(2) quoted show ?thesis by auto
  next
    case plain
    with assms(1) have l: "at ls (c # s) b n l" by simp
    have "string_loop (CHR 0x22) l = bindE (save_and_next l) (string_loop (CHR 0x22))"
      using plain at_current(1) [OF l] by (subst string_loop.simps) (simp add: is_newline_def)
    with save_and_next_at [OF l assms(4)] plain show ?thesis by auto
  qed
qed

abbreviation feeds :: "string \<Rightarrow> int" where
  "feeds s \<equiv> int (count_list s (CHR 0x0A))"

lemma string_loop_quoted:
  "at ls (addquoted_loop s @ CHR 0x22 # r) b n l \<Longrightarrow> n + feeds s + 1 < MAX_INT \<Longrightarrow> short (length b + length s) \<Longrightarrow>
   \<exists>l'. string_loop (CHR 0x22) l = Inr l' \<and> at ls (CHR 0x22 # r) (b @ s) (n + feeds s) l'"
proof (induction s arbitrary: b n l)
  case Nil
  then show ?case by (subst string_loop.simps) (auto simp: at_current)
next
  case (Cons c s)
  let ?n = "if c = CHR 0x0A then n + 1 else n"
  have "addquoted_loop s @ CHR 0x22 # r \<noteq> [] \<and> hd (addquoted_loop s @ CHR 0x22 # r) \<noteq> CHR 0x0D" by (cases s) auto
  moreover have "at ls (quote_char c @ addquoted_loop s @ CHR 0x22 # r) b n l" using Cons.prems(1) by simp
  ultimately obtain l1 where l1: "string_loop (CHR 0x22) l = string_loop (CHR 0x22) l1" "at ls (addquoted_loop s @ CHR 0x22 # r) (b @ [c]) ?n l1"
    using string_loop_at [of ls c "addquoted_loop s @ CHR 0x22 # r" b n l] Cons.prems(2,3) by (auto simp: short_def)
  moreover have "?n + feeds s = n + feeds (c # s)" by simp
  ultimately show ?case using Cons.IH [OF l1(2)] Cons.prems(2,3) by (auto simp: short_def split: if_splits)
qed

text \<open>\<open>luaX_next\<close> reads one token from what the analyser has in front of it.\<close>

definition reads :: "libc_num \<Rightarrow> LexState \<Rightarrow> string \<Rightarrow> int \<Rightarrow> (Token \<Rightarrow> bool) \<Rightarrow> bool" where
  "reads libc ls r n P \<longleftrightarrow> (\<exists>ls'. luaX_next libc ls = Inr ls' \<and> P (ls_t ls') \<and> rest ls' = r \<and> linenumber ls' = n \<and>
     decpoint ls' = decpoint ls \<and> ls_reserved ls' = ls_reserved ls \<and> token (ls_lookahead ls') = TK_EOS)"

lemma reads_llex:
  assumes "token (ls_lookahead ls) = TK_EOS" "\<And>l. at ls (rest ls) [] (linenumber ls) l \<Longrightarrow> \<exists>t b l'. llex_loop libc (seminfo (ls_t ls)) l = Inr (t, l') \<and> P t \<and> at ls r b n l'"
  shows "reads libc ls r n P"
proof -
  have "at ls (rest ls) [] (linenumber ls) (resetbuffer (ls\<lparr>lastline := linenumber ls\<rparr>))" by (simp add: at_def)
  from assms(2) [OF this] obtain t b l' where "llex_loop libc (seminfo (ls_t ls)) (resetbuffer (ls\<lparr>lastline := linenumber ls\<rparr>)) = Inr (t, l')" "P t" "at ls r b n l'"
    by blast
  with assms(1) show ?thesis by (auto simp: reads_def luaX_next_def llex_def at_def)
qed

lemma llex_quoted:
  assumes "at ls (addquoted s @ r) [] n l" "n + feeds s + 1 < MAX_INT" "short (length s + 2)"
  shows "\<exists>b l'. llex_loop libc si l = Inr (\<lparr>token = TK_STRING, seminfo = SemStr s\<rparr>, l') \<and> at ls r b (n + feeds s) l'"
proof -
  from assms(1) have l: "at ls (CHR 0x22 # addquoted_loop s @ CHR 0x22 # r) [] n l" by (simp add: addquoted_def)
  from save_and_next_at [OF l] obtain l1 where l1: "save_and_next l = Inr l1" "at ls (addquoted_loop s @ CHR 0x22 # r) [CHR 0x22] n l1"
    by (auto simp: short_def)
  from string_loop_quoted [OF l1(2) assms(2)] assms(3) obtain l2 where
    l2: "string_loop (CHR 0x22) l1 = Inr l2" "at ls (CHR 0x22 # r) (CHR 0x22 # s) (n + feeds s) l2" by (auto simp: short_def)
  from save_and_next_at [OF l2(2)] assms(3) obtain l3 where
    l3: "save_and_next l2 = Inr l3" "at ls r (CHR 0x22 # s @ [CHR 0x22]) (n + feeds s) l3" by (auto simp: short_def)
  have "buffer_string 1 2 l3 = Inr s" using l3(2) by (simp add: at_def buffer_string_def)
  with l1 l2 l3 have "read_string (CHR 0x22) l = Inr (SemStr s, l3)" by (simp add: read_string_def)
  with at_current(1) [OF l] l3(2) show ?thesis by (subst llex_loop.simps) (auto simp: eq_token_def)
qed

subsection \<open>Printed tokens\<close>

datatype lexeme = Sym int | Name string | Str string | Num lua_Number

definition lexeme_of :: "Token \<Rightarrow> lexeme" where
  "lexeme_of t = (case seminfo t of
       SemStr s \<Rightarrow> if token t = TK_NAME then Name s else if token t = TK_STRING then Str s else Sym (token t)
     | SemNum r \<Rightarrow> if token t = TK_NUMBER then Num r else Sym (token t)
     | SemNone \<Rightarrow> Sym (token t))"

text \<open>The text of a token, with the program's own \<open>luaX_token2str\<close> and \<open>addquoted\<close>; \<open>num2s\<close> prints numbers.\<close>

definition lexeme_text :: "(lua_Number \<Rightarrow> string) \<Rightarrow> lexeme \<Rightarrow> string" where
  "lexeme_text num2s x = (case x of Sym k \<Rightarrow> luaX_token2str k | Name s \<Rightarrow> s | Str s \<Rightarrow> addquoted s | Num r \<Rightarrow> num2s r)"

definition symbol_char :: "char \<Rightarrow> bool" where
  "symbol_char c \<longleftrightarrow> \<not> isspace c \<and> \<not> isdigit c \<and> \<not> isalpha c \<and> \<not> iscntrl c \<and> c \<noteq> CHR ''_'' \<and> c \<noteq> CHR 0x22 \<and> c \<noteq> CHR 0x27"

definition name_char :: "char \<Rightarrow> bool" where
  "name_char c \<longleftrightarrow> isalnum c \<or> c = CHR ''_''"

definition wf_lexeme :: "libc_num \<Rightarrow> (lua_Number \<Rightarrow> string) \<Rightarrow> lexeme \<Rightarrow> bool" where
  "wf_lexeme libc num2s x = (case x of
       Sym k \<Rightarrow> FIRST_RESERVED \<le> k \<and> k \<le> TK_NE \<or> 0 \<le> k \<and> k < 256 \<and> symbol_char (char_of (nat k))
     | Name s \<Rightarrow> s \<noteq> [] \<and> \<not> isdigit (hd s) \<and> list_all name_char s \<and> s \<notin> set (take NUM_RESERVED luaX_tokens)
     | Str s \<Rightarrow> True
     | Num r \<Rightarrow> num2s r \<noteq> [] \<and> isdigit (hd (num2s r)) \<and> list_all (\<lambda>c. isdigit c \<or> c = CHR ''.'') (num2s r) \<and> luaO_str2d libc (num2s r) = Some r)"

lemma check_next_at:
  assumes "at ls (c # s) b n l" "short (length b)"
  shows "c \<in> set cs \<or> c = CHR 0x00 \<Longrightarrow> \<exists>l'. check_next cs l = Inr (True, l') \<and> at ls s (b @ [c]) n l'"
    "\<not> (c \<in> set cs \<or> c = CHR 0x00) \<Longrightarrow> check_next cs l = Inr (False, l)"
  using save_and_next_at [OF assms] at_curr_is [OF assms(1)] by (auto simp: check_next_def)

text \<open>\<open>llex_loop\<close> from \<open>l\<close> reads a token and stops before \<open>r\<close>.\<close>

definition lexed :: "libc_num \<Rightarrow> SemInfo \<Rightarrow> LexState \<Rightarrow> string \<Rightarrow> int \<Rightarrow> lexeme \<Rightarrow> LexState \<Rightarrow> bool" where
  "lexed libc si ls r n x l \<longleftrightarrow> (\<exists>t b l'. llex_loop libc si l = Inr (t, l') \<and> lexeme_of t = x \<and> at ls r b n l')"

lemma short_small [simp]: "n < 100 \<Longrightarrow> short n" by (simp add: short_def)

lemma lexeme_of_Sym: "k \<noteq> TK_NAME \<Longrightarrow> k \<noteq> TK_STRING \<Longrightarrow> k \<noteq> TK_NUMBER \<Longrightarrow> lexeme_of \<lparr>token = k, seminfo = si\<rparr> = Sym k"
  by (auto simp: lexeme_of_def split: SemInfo.split)

lemma byte_small: "int (byte c) \<noteq> TK_NAME" "int (byte c) \<noteq> TK_STRING" "int (byte c) \<noteq> TK_NUMBER"
proof -
  have "byte c < 256" by (simp add: byte_def)
  then show "int (byte c) \<noteq> TK_NAME" "int (byte c) \<noteq> TK_STRING" "int (byte c) \<noteq> TK_NUMBER" by (simp_all add: TK_defs)
qed

lemma space_plain [simp]: "\<not> isdigit (CHR '' '')" "\<not> is_newline (CHR '' '')" "\<not> isalnum (CHR '' '')"
  by (simp_all add: isdigit_def is_newline_def isalnum_def isalpha_def islower_def isupper_def byte_def)

lemma lexed_symbol:
  assumes "at ls (c # CHR '' '' # r) [] n l" "symbol_char c"
  shows "lexed libc si ls (CHR '' '' # r) n (Sym (int (byte c))) l"
proof -
  note cur = at_current(1) [OF assms(1)]
  have c: "\<not> is_newline c" using assms(2) by (auto simp: symbol_char_def is_newline_def iscntrl_def byte_def)
  obtain l1 where l1: "next_ch l = Inr l1" "at ls (CHR '' '' # r) [] n l1" using next_at [OF assms(1)] by blast
  obtain l2 where l2: "save_and_next l = Inr l2" "at ls (CHR '' '' # r) [c] n l2" using save_and_next_at [OF assms(1)] by auto
  note cur2 = at_current(1) [OF l2(2)] at_current(1) [OF l1(2)]
  note S = lexeme_of_Sym [OF byte_small, of c]
  consider (minus) "c = CHR ''-''" | (bracket) "c = CHR ''[''" | (dot) "c = CHR ''.''" | (eq) "eq_token c \<noteq> None" | (other) "c \<notin> {CHR ''-'', CHR ''['', CHR ''.''}" "eq_token c = None"
    by blast
  then show ?thesis
  proof cases
    case minus
    with cur l1 cur2 S show ?thesis unfolding lexed_def by (subst llex_loop.simps) (auto simp: byte_def)
  next
    case bracket
    have "skip_sep l = Inr (-1, l2)" using bracket cur l2 cur2 by (simp add: skip_sep_def Let_def) (subst count_eq.simps, simp)
    with bracket cur l2 S show ?thesis unfolding lexed_def by (subst llex_loop.simps) (auto simp: byte_def)
  next
    case dot
    with cur l2 S check_next_at(2) [OF l2(2), of "''.''"] at_curr_is [OF l2(2)] show ?thesis
      unfolding lexed_def by (subst llex_loop.simps) (auto simp: byte_def eq_token_def)
  next
    case eq
    then have "c \<noteq> CHR ''-''" "c \<noteq> CHR ''[''" by (auto simp: eq_token_def)
    with eq c cur l1 cur2 S show ?thesis unfolding lexed_def by (subst llex_loop.simps) auto
  next
    case other
    with c cur l1 S assms(2) show ?thesis unfolding lexed_def by (subst llex_loop.simps) (auto simp: symbol_char_def)
  qed
qed

lemma lexed_eq:
  assumes "at ls (c # CHR ''='' # r) [] n l" "eq_token c = Some k"
  shows "lexed libc si ls r n (Sym k) l"
proof -
  have c: "c \<noteq> CHR ''-''" "c \<noteq> CHR ''[''" "\<not> is_newline c" using assms(2) by (auto simp: eq_token_def is_newline_def split: if_splits)
  have S: "lexeme_of \<lparr>token = k, seminfo = si\<rparr> = Sym k" using assms(2) by (intro lexeme_of_Sym) (auto simp: eq_token_def TK_defs split: if_splits)
  obtain l1 where l1: "next_ch l = Inr l1" "at ls (CHR ''='' # r) [] n l1" using next_at [OF assms(1)] by blast
  obtain l2 where l2: "next_ch l1 = Inr l2" "at ls r [] n l2" using next_at [OF l1(2)] by blast
  from c S l1 l2 assms(2) at_current(1) [OF assms(1)] at_current(1) [OF l1(2)] show ?thesis
    unfolding lexed_def by (subst llex_loop.simps) auto
qed

lemma lexed_dots:
  assumes "at ls (CHR ''.'' # CHR ''.'' # d # r) [] n l"
  shows "d = CHR ''.'' \<Longrightarrow> lexed libc si ls r n (Sym TK_DOTS) l" "d = CHR '' '' \<Longrightarrow> lexed libc si ls (d # r) n (Sym TK_CONCAT) l"
proof -
  have S: "lexeme_of \<lparr>token = TK_DOTS, seminfo = si\<rparr> = Sym TK_DOTS" "lexeme_of \<lparr>token = TK_CONCAT, seminfo = si\<rparr> = Sym TK_CONCAT"
    by (rule lexeme_of_Sym; simp add: TK_defs)+
  obtain l1 where l1: "save_and_next l = Inr l1" "at ls (CHR ''.'' # d # r) [CHR ''.''] n l1" using save_and_next_at [OF assms(1)] by auto
  obtain l2 where l2: "check_next ''.'' l1 = Inr (True, l2)" "at ls (d # r) [CHR ''.'', CHR ''.''] n l2" using check_next_at(1) [OF l1(2), of "''.''"] by auto
  note cn = check_next_at [OF l2(2), of "''.''"]
  show "lexed libc si ls r n (Sym TK_DOTS) l" if "d = CHR ''.''"
    using that l1 l2 S cn at_current(1) [OF assms(1)] unfolding lexed_def by (subst llex_loop.simps) (auto simp: eq_token_def)
  show "lexed libc si ls (d # r) n (Sym TK_CONCAT) l" if "d = CHR '' ''"
    using that l1 l2 S cn at_current(1) [OF assms(1)] unfolding lexed_def by (subst llex_loop.simps) (auto simp: eq_token_def)
qed

lemma lexed_word:
  assumes "at ls (w @ CHR '' '' # r) [] n l" "w \<noteq> []" "\<not> isdigit (hd w)" "list_all name_char w" "short (length w)"
  shows "lexed libc si ls (CHR '' '' # r) n (if ls_reserved ls w > 0 then lexeme_of \<lparr>token = int (ls_reserved ls w) - 1 + FIRST_RESERVED, seminfo = si\<rparr> else Name w) l"
proof -
  obtain c v where w: "w = c # v" using assms(2) by (cases w) auto
  have c: "isalpha c \<or> c = CHR ''_''" using assms(3,4) w by (auto simp: name_char_def isalnum_def)
  then have "eq_token c = None" "c \<notin> {CHR ''-'', CHR ''['', CHR 0x22, CHR 0x27, CHR ''.''}" "\<not> isspace c" "\<not> is_newline c"
    by (auto simp: eq_token_def isalpha_def islower_def isupper_def isspace_def is_newline_def byte_def)
  moreover obtain l1 where l1: "save_and_next l = Inr l1" "at ls (v @ CHR '' '' # r) [c] n l1"
    using save_and_next_at [of ls c "v @ CHR '' '' # r" "[]" n l] assms(1) w by auto
  moreover obtain l2 where l2: "save_while (\<lambda>c. isalnum c \<or> c = CHR ''_'') l1 = Inr l2" "at ls (CHR '' '' # r) w n l2"
    using save_while_at [OF l1(2), of "\<lambda>c. isalnum c \<or> c = CHR ''_''"] assms(4,5) w by (auto simp: name_char_def list_all_iff short_def)
  moreover have "buff l2 = w" "ls_reserved l2 = ls_reserved ls" using l2(2) by (simp_all add: at_def)
  moreover have "current l = Some c" using at_current(1) [of ls c] assms(1) w by auto
  moreover have "\<not> isdigit c" using assms(3) w by simp
  ultimately have "llex_loop libc si l = Inr (if ls_reserved ls w > 0 then \<lparr>token = int (ls_reserved ls w) - 1 + FIRST_RESERVED, seminfo = si\<rparr>
      else \<lparr>token = TK_NAME, seminfo = SemStr w\<rparr>, l2)"
    using c by (subst llex_loop.simps) simp
  moreover have "lexeme_of \<lparr>token = TK_NAME, seminfo = SemStr w\<rparr> = Name w" by (simp add: lexeme_of_def)
  ultimately show ?thesis using l2(2) unfolding lexed_def by (cases "ls_reserved ls w > 0") auto
qed

lemma reserved_words: "i < NUM_RESERVED \<Longrightarrow> luaX_init (\<lambda>_. 0) (luaX_tokens ! i) = i + 1 \<and> luaX_tokens ! i \<noteq> [] \<and> \<not> isdigit (hd (luaX_tokens ! i)) \<and>
    list_all name_char (luaX_tokens ! i) \<and> length (luaX_tokens ! i) < 100"
proof -
  have "list_all (\<lambda>i. luaX_init (\<lambda>_. 0) (luaX_tokens ! i) = i + 1 \<and> luaX_tokens ! i \<noteq> [] \<and> \<not> isdigit (hd (luaX_tokens ! i)) \<and>
    list_all name_char (luaX_tokens ! i) \<and> length (luaX_tokens ! i) < 100) [0..<NUM_RESERVED]"
    by code_simp
  then show "i < NUM_RESERVED \<Longrightarrow> ?thesis" by (simp add: list_all_iff)
qed

lemma not_reserved: "s \<notin> set (take NUM_RESERVED luaX_tokens) \<Longrightarrow> luaX_init (\<lambda>_. 0) s = 0"
proof -
  have "s \<notin> (\<lambda>i. luaX_tokens ! i) ` set xs \<Longrightarrow> fold (\<lambda>i r. r(luaX_tokens ! i := i + 1)) xs r s = r s" for xs and r :: "string \<Rightarrow> nat"
    by (induction xs arbitrary: r) auto
  moreover have "(\<lambda>i. luaX_tokens ! i) ` set [0..<NUM_RESERVED] = set (take NUM_RESERVED luaX_tokens)"
    by code_simp
  ultimately show "s \<notin> set (take NUM_RESERVED luaX_tokens) \<Longrightarrow> ?thesis" by (simp add: luaX_init_def)
qed

lemma lexed_number:
  assumes "at ls (w @ CHR '' '' # r) [] n l" "w \<noteq> []" "isdigit (hd w)" "list_all (\<lambda>c. isdigit c \<or> c = CHR ''.'') w" "short (length w + 2)"
    "luaO_str2d libc w = Some x" "decpoint ls = CHR ''.''"
  shows "lexed libc si ls (CHR '' '' # r) n (Num x) l"
proof -
  obtain c v where w: "w = c # v" using assms(2) by (cases w) auto
  have c: "eq_token c = None" "c \<notin> {CHR ''-'', CHR ''['', CHR 0x22, CHR 0x27, CHR ''.''}" "\<not> isspace c" "\<not> is_newline c"
    using assms(3) w by (auto simp: eq_token_def isdigit_def isspace_def is_newline_def byte_def)
  obtain l1 where l1: "save_and_next l = Inr l1" "at ls (v @ CHR '' '' # r) [c] n l1"
    using save_and_next_at [of ls c "v @ CHR '' '' # r" "[]" n l] assms(1) w by auto
  obtain l2 where l2: "save_while (\<lambda>c. isdigit c \<or> c = CHR ''.'') l1 = Inr l2" "at ls (CHR '' '' # r) w n l2"
    using save_while_at [OF l1(2), of "\<lambda>c. isdigit c \<or> c = CHR ''.''"] assms(4,5) w by (auto simp: short_def)
  have l3: "check_next ''Ee'' l2 = Inr (False, l2)" using check_next_at(2) [OF l2(2), of "''Ee''"] assms(5) by (simp add: short_def)
  have l4: "save_while (\<lambda>c. isalnum c \<or> c = CHR ''_'') l2 = Inr l2" using at_curr_is [OF l2(2)] by (subst save_while.simps) simp
  obtain l5 where l5: "save (CHR 0x00) l2 = Inr l5" "at ls (CHR '' '' # r) (w @ [CHR 0x00]) n l5" using save_at [OF l2(2)] assms(5) by (auto simp: short_def)
  have z: "CHR 0x00 \<notin> set w" using assms(4) by (auto simp: list_all_iff isdigit_def byte_def)
  from z have tz: "takeWhile (\<lambda>c. c \<noteq> CHR 0x00) (w @ [CHR 0x00]) = w" by (induction w) auto
  have "buffreplace (CHR ''.'') (decpoint l5) l5 = l5" using l5(2) assms(7) by (simp add: buffreplace_def at_def)
  moreover have "cbuffer l5 = w" using l5(2) tz by (simp add: at_def)
  ultimately have "read_numeral libc l = Inr (SemNum x, l5)" using l1 l2 l3 l4 l5 assms(6) by (simp add: read_numeral_def)
  moreover have "current l = Some c" using at_current(1) [of ls c] assms(1) w by auto
  ultimately have "llex_loop libc si l = Inr (\<lparr>token = TK_NUMBER, seminfo = SemNum x\<rparr>, l5)" using assms(3) w c by (subst llex_loop.simps) simp
  moreover have "lexeme_of \<lparr>token = TK_NUMBER, seminfo = SemNum x\<rparr> = Num x" by (simp add: lexeme_of_def)
  ultimately show ?thesis using l5(2) unfolding lexed_def by auto
qed

definition lexeme_feeds :: "lexeme \<Rightarrow> int" where
  "lexeme_feeds x = (case x of Str s \<Rightarrow> feeds s | _ \<Rightarrow> 0)"

lemma lexed_Sym:
  assumes "at ls (luaX_token2str k @ CHR '' '' # r) [] n l" "wf_lexeme libc num2s (Sym k)" "ls_reserved ls = luaX_init (\<lambda>_. 0)"
  shows "lexed libc si ls (CHR '' '' # r) n (Sym k) l"
proof -
  have k: "FIRST_RESERVED \<le> k \<and> k \<le> TK_NE \<or> 0 \<le> k \<and> k < 256 \<and> symbol_char (char_of (nat k))" using assms(2) by (simp add: wf_lexeme_def)
  consider (char) "0 \<le> k" "k < 256" "symbol_char (char_of (nat k))" | (word) i where "k = int i + FIRST_RESERVED" "i < NUM_RESERVED" | (op) "k \<in> {TK_CONCAT, TK_DOTS, TK_EQ, TK_GE, TK_LE, TK_NE}"
  proof (cases "k < FIRST_RESERVED + int NUM_RESERVED")
    case True
    then show ?thesis using k char word [of "nat (k - FIRST_RESERVED)"] by (auto simp: FIRST_RESERVED_def NUM_RESERVED_def)
  next
    case False
    then have "k = TK_CONCAT \<or> k = TK_DOTS \<or> k = TK_EQ \<or> k = TK_GE \<or> k = TK_LE \<or> k = TK_NE" using k by (auto simp: TK_defs NUM_RESERVED_def)
    then show ?thesis using op by blast
  qed
  then show ?thesis
  proof cases
    case char
    then have t: "luaX_token2str k = [char_of (nat k)]" "int (byte (char_of (nat k))) = k"
      by (auto simp: luaX_token2str_def symbol_char_def FIRST_RESERVED_def Let_def byte_def)
    with assms(1) lexed_symbol [of ls "char_of (nat k)" r n l libc si] char(3) show ?thesis by simp
  next
    case word
    then have "luaX_token2str k = luaX_tokens ! i" by (simp add: luaX_token2str_def)
    moreover note R = reserved_words [OF word(2)]
    ultimately have "lexed libc si ls (CHR '' '' # r) n (lexeme_of \<lparr>token = k, seminfo = si\<rparr>) l"
      using lexed_word [of ls "luaX_tokens ! i" r n l libc si] assms(1,3) word by simp
    moreover have "lexeme_of \<lparr>token = k, seminfo = si\<rparr> = Sym k" using word by (intro lexeme_of_Sym) (auto simp: TK_defs NUM_RESERVED_def)
    ultimately show ?thesis by simp
  next
    case op
    have "luaX_token2str TK_CONCAT = ''..''" "luaX_token2str TK_DOTS = ''...''" "luaX_token2str TK_EQ = ''==''" "luaX_token2str TK_GE = ''>=''"
      "luaX_token2str TK_LE = ''<=''" "luaX_token2str TK_NE = ''~=''"
      by (simp_all add: luaX_token2str_def TK_defs luaX_tokens_def)
    moreover have "eq_token (CHR ''='') = Some TK_EQ" "eq_token (CHR ''>'') = Some TK_GE" "eq_token (CHR ''<'') = Some TK_LE" "eq_token (CHR ''~'') = Some TK_NE"
      by (simp_all add: eq_token_def)
    ultimately show ?thesis using op assms(1) by (auto intro: lexed_eq lexed_dots)
  qed
qed

lemma lexed_text:
  assumes "at ls (lexeme_text num2s x @ CHR '' '' # r) [] n l" "wf_lexeme libc num2s x" "ls_reserved ls = luaX_init (\<lambda>_. 0)" "decpoint ls = CHR ''.''"
    "n + lexeme_feeds x + 1 < MAX_INT" "short (length (lexeme_text num2s x) + 2)"
  shows "lexed libc si ls (CHR '' '' # r) (n + lexeme_feeds x) x l"
proof (cases x)
  case (Sym k)
  with assms show ?thesis using lexed_Sym by (simp add: lexeme_text_def lexeme_feeds_def)
next
  case (Name s)
  with assms not_reserved [of s] lexed_word [of ls s r n l libc si] show ?thesis by (simp add: wf_lexeme_def lexeme_text_def lexeme_feeds_def short_def)
next
  case (Str s)
  have "length s \<le> length (addquoted_loop s)" by (induction s) auto
  then have "short (length s + 2)" using assms(6) Str by (simp add: lexeme_text_def addquoted_def short_def)
  with assms Str obtain b l' where "llex_loop libc si l = Inr (\<lparr>token = TK_STRING, seminfo = SemStr s\<rparr>, l')" "at ls (CHR '' '' # r) b (n + feeds s) l'"
    using llex_quoted [of ls s "CHR '' '' # r" n l libc si] by (auto simp: lexeme_text_def lexeme_feeds_def)
  moreover have "lexeme_of \<lparr>token = TK_STRING, seminfo = SemStr s\<rparr> = Str s" by (simp add: lexeme_of_def TK_defs)
  ultimately show ?thesis using Str by (auto simp: lexed_def lexeme_feeds_def)
next
  case (Num y)
  with assms lexed_number [of ls "num2s y" r n l libc y si] show ?thesis by (simp add: wf_lexeme_def lexeme_text_def lexeme_feeds_def)
qed

lemma llex_space: "at ls (CHR '' '' # s) [] n l \<Longrightarrow> \<exists>l'. llex_loop libc si l = llex_loop libc si l' \<and> at ls s [] n l'"
proof -
  assume l: "at ls (CHR '' '' # s) [] n l"
  obtain l1 where l1: "next_ch l = Inr l1" "at ls s [] n l1" using next_at [OF l] by blast
  have "isspace (CHR '' '')" by (simp add: isspace_def byte_def)
  with l1 at_current(1) [OF l] have "llex_loop libc si l = llex_loop libc si l1" by (subst llex_loop.simps) (simp add: eq_token_def)
  with l1(2) show ?thesis by blast
qed

lemma reads_lexed:
  assumes "token (ls_lookahead ls) = TK_EOS" "rest ls = pre @ s" "pre = [] \<or> pre = '' ''"
    "\<And>l. at ls s [] (linenumber ls) l \<Longrightarrow> lexed libc (seminfo (ls_t ls)) ls r n x l"
  shows "reads libc ls r n (\<lambda>t. lexeme_of t = x)"
proof (rule reads_llex [OF assms(1)])
  fix l assume l: "at ls (rest ls) [] (linenumber ls) l"
  have "\<exists>l'. llex_loop libc (seminfo (ls_t ls)) l = llex_loop libc (seminfo (ls_t ls)) l' \<and> at ls s [] (linenumber ls) l'"
    using assms(2,3) l llex_space by auto
  with assms(4) show "\<exists>t b l'. llex_loop libc (seminfo (ls_t ls)) l = Inr (t, l') \<and> lexeme_of t = x \<and> at ls r b n l'"
    by (fastforce simp: lexed_def)
qed

definition print_tokens :: "(lua_Number \<Rightarrow> string) \<Rightarrow> lexeme list \<Rightarrow> string" where
  "print_tokens num2s xs = concat (map (\<lambda>x. lexeme_text num2s x @ '' '') xs)"

lemma lexeme_of_EOS: "lexeme_of t = Sym k \<Longrightarrow> token t = k" "token t = TK_EOS \<Longrightarrow> lexeme_of t = Sym TK_EOS"
  by (auto simp: lexeme_of_def TK_defs split: SemInfo.splits if_splits)

lemma feeds_nonneg: "0 \<le> sum_list (map lexeme_feeds xs)"
  by (induction xs) (auto simp: lexeme_feeds_def split: lexeme.split)

lemma tokens_printed:
  assumes "rest ls = pre @ print_tokens num2s xs" "pre = [] \<or> pre = '' ''" "list_all (wf_lexeme libc num2s) xs" "ls_reserved ls = luaX_init (\<lambda>_. 0)"
    "decpoint ls = CHR ''.''" "token (ls_lookahead ls) = TK_EOS" "linenumber ls + sum_list (map lexeme_feeds xs) + 1 < MAX_INT"
    "short (length (print_tokens num2s xs) + 2)"
  shows "\<exists>ts ls'. tokens libc ls = Inr (ts, ls') \<and> map lexeme_of ts = xs"
  using assms
proof (induction xs arbitrary: ls pre)
  case Nil
  have "lexed libc (seminfo (ls_t ls)) ls [] (linenumber ls) (Sym TK_EOS) l" if "at ls [] [] (linenumber ls) l" for l
    using that at_current(2) [OF that] lexeme_of_EOS(2) unfolding lexed_def by (subst llex_loop.simps) auto
  with Nil have "reads libc ls [] (linenumber ls) (\<lambda>t. lexeme_of t = Sym TK_EOS)" by (intro reads_lexed [of ls pre "[]"]) (auto simp: print_tokens_def)
  then show ?case by (subst tokens.simps) (auto simp: reads_def dest: lexeme_of_EOS(1))
next
  case (Cons x xs)
  let ?n = "linenumber ls + lexeme_feeds x"
  have "lexed libc (seminfo (ls_t ls)) ls (CHR '' '' # print_tokens num2s xs) ?n x l"
    if "at ls (lexeme_text num2s x @ CHR '' '' # print_tokens num2s xs) [] (linenumber ls) l" for l
    using that Cons.prems feeds_nonneg [of xs] by (intro lexed_text [of _ num2s]) (auto simp: print_tokens_def short_def)
  with Cons.prems(1,2,6) have "reads libc ls (CHR '' '' # print_tokens num2s xs) ?n (\<lambda>t. lexeme_of t = x)"
    by (intro reads_lexed [of ls pre "lexeme_text num2s x @ CHR '' '' # print_tokens num2s xs"]) (auto simp: print_tokens_def)
  then obtain l where l: "luaX_next libc ls = Inr l" "lexeme_of (ls_t l) = x" "rest l = '' '' @ print_tokens num2s xs" "linenumber l = ?n"
    "decpoint l = decpoint ls" "ls_reserved l = ls_reserved ls" "token (ls_lookahead l) = TK_EOS" by (auto simp: reads_def)
  have "token (ls_t l) \<noteq> TK_EOS" using l(2) Cons.prems(3) lexeme_of_EOS(2) [of "ls_t l"] by (auto simp: wf_lexeme_def TK_defs)
  moreover obtain ts ls' where "tokens libc l = Inr (ts, ls')" "map lexeme_of ts = xs"
    using Cons.IH [OF l(3)] l Cons.prems(3-8) by (auto simp: print_tokens_def short_def)
  ultimately show ?case using l(1,2) by (subst tokens.simps) auto
qed

text \<open>Property C34. Printed tokens are read back: reserved words, operators and other symbols printed by \<open>luaX_token2str\<close>, names, strings quoted by \<open>addquoted\<close> (\<open>%q\<close> of
  \<open>string.format\<close>) and unsigned decimal numbers, separated by spaces and cut into blocks in any way, are read as the same sequence of tokens.\<close>

theorem lexer_reads_back:
  assumes "zblocks_bytes blocks = print_tokens num2s xs" "list_all (wf_lexeme libc num2s) xs" "length (print_tokens num2s xs) < 2 ^ 30"
  shows "\<exists>ts ls. tokens libc (luaX_setinput (luaX_init (\<lambda>_. 0)) t b (luaZ_init blocks) src) = Inr (ts, ls) \<and> map lexeme_of ts = xs"
proof (rule tokens_printed [where pre = "[]" and num2s = num2s])
  have le: "lexeme_feeds x \<le> int (length (lexeme_text num2s x))" for x
  proof (cases x)
    case (Str s)
    have "count_list s (CHR 0x0A) \<le> length (addquoted_loop s)" by (induction s) auto
    with Str show ?thesis by (simp add: lexeme_feeds_def lexeme_text_def addquoted_def)
  qed (simp_all add: lexeme_feeds_def)
  have "sum_list (map lexeme_feeds xs) \<le> int (length (print_tokens num2s xs))"
    unfolding print_tokens_def
  proof (induction xs)
    case (Cons x xs)
    with le [of x] show ?case by simp
  qed simp
  with assms(3) show "linenumber (luaX_setinput (luaX_init (\<lambda>_. 0)) t b (luaZ_init blocks) src) + sum_list (map lexeme_feeds xs) + 1 < MAX_INT"
    by (simp add: setinput_state MAX_INT_def)
qed (use assms in \<open>auto simp: setinput_state short_def\<close>)

theorem lexer_reads_back_witness:
  "\<exists>ts ls. tokens libc_zero (luaX_setinput (luaX_init (\<lambda>_. 0)) no_token [] (luaZ_init [''local x = 0 '', ''.. '' @ addquoted [CHR 0x0A] @ '' '']) ''=w'') = Inr (ts, ls) \<and>
     map lexeme_of ts = [Sym 268, Name ''x'', Sym 61, Num 0, Sym TK_CONCAT, Str [CHR 0x0A]]"
proof -
  let ?xs = "[Sym 268, Name ''x'', Sym 61, Num 0, Sym TK_CONCAT, Str [CHR 0x0A]]"
  have "zblocks_bytes [''local x = 0 '', ''.. '' @ addquoted [CHR 0x0A] @ '' ''] = print_tokens (\<lambda>_. ''0'') ?xs" by code_simp
  moreover have "list_all (wf_lexeme libc_zero (\<lambda>_. ''0'')) ?xs" by code_simp
  moreover have "length (print_tokens (\<lambda>_. ''0'') ?xs) < 100" by code_simp
  then have "length (print_tokens (\<lambda>_. ''0'') ?xs) < 2 ^ 30" by simp
  ultimately show ?thesis by (rule lexer_reads_back)
qed

text \<open>\<open>%q\<close> quotes every string so that the program reads it back: for every byte string \<open>s\<close>, with quotes, backslashes, line ends and zeros, in front of any
  text \<open>r\<close>, the next token after \<open>addquoted s\<close> is the string \<open>s\<close>, the rest of the input is \<open>r\<close>, and the line ends inside are counted.\<close>

theorem lexer_reads_quoted:
  assumes "rest ls = addquoted s @ r" "token (ls_lookahead ls) = TK_EOS" "linenumber ls + feeds s + 1 < MAX_INT" "length s < 2 ^ 60"
  shows "\<exists>ls'. luaX_next libc ls = Inr ls' \<and> ls_t ls' = \<lparr>token = TK_STRING, seminfo = SemStr s\<rparr> \<and> rest ls' = r \<and> linenumber ls' = linenumber ls + feeds s"
proof -
  have "reads libc ls r (linenumber ls + feeds s) (\<lambda>t. t = \<lparr>token = TK_STRING, seminfo = SemStr s\<rparr>)"
    by (rule reads_llex [OF assms(2)]) (use assms llex_quoted [of ls s r "linenumber ls"] in \<open>auto simp: short_def\<close>)
  then show ?thesis by (auto simp: reads_def)
qed

theorem lexer_reads_quoted_witness:
  "\<exists>ls'. luaX_next libc_zero (luaX_setinput (luaX_init (\<lambda>_. 0)) no_token [] (luaZ_init [addquoted [CHR 0x22, CHR 0x00, CHR 0x0A] @ ''x'']) ''=w'') = Inr ls' \<and>
     ls_t ls' = \<lparr>token = TK_STRING, seminfo = SemStr [CHR 0x22, CHR 0x00, CHR 0x0A]\<rparr> \<and> rest ls' = ''x''"
  using lexer_reads_quoted [of "luaX_setinput (luaX_init (\<lambda>_. 0)) no_token [] (luaZ_init [addquoted [CHR 0x22, CHR 0x00, CHR 0x0A] @ ''x'']) ''=w''"
      "[CHR 0x22, CHR 0x00, CHR 0x0A]" "''x''" libc_zero]
  by (auto simp: setinput_state MAX_INT_def addquoted_def)

end
