(* ===== verification/TimerQueue.thy ===== *)
theory TimerQueue
  imports Prelude "HOL-Library.Product_Lexorder"
begin

text \<open>
  Timers: \<^verbatim>\<open>src/muduo/net/Timer.h\<close>, \<^verbatim>\<open>Timer.cc\<close>, \<^verbatim>\<open>TimerQueue.cc\<close>.  A \<open>Timer\<close> lives in a heap of addresses; the two \<open>std::set\<close>s of the queue are sorted lists without
  duplicates.  A time is its number of microseconds; a timer carries the increment that \<open>addTime\<close> computes from its interval.  A failed
  assertion and the use of a deleted timer are errors, as is the exception of \<open>new\<close>; the allocator is an argument.  Other threads create timers at once and queue the
  functor that inserts them.  Times are far from the ends of \<open>int64_t\<close>, where \<open>addTime\<close> would overflow; sequence numbers come from a counter of the queue, of
  which only that the numbers grow is used (\<open>s_numCreated_\<close> is shared by the queues of all threads).  What the clock shows and what the kernel answers whenever
  the timer descriptor is set is an argument of the queue.
\<close>

datatype timer_error = BadAlloc | TimerAssert | TimerDangling

type_synonym 'a tres = "timer_error + 'a"

section \<open>Sets\<close>

definition set_insert :: "'a::linorder \<Rightarrow> 'a list \<Rightarrow> 'a list \<times> bool" where
  "set_insert x xs = (if x \<in> set xs then (xs, False) else (insort x xs, True))"

definition set_erase :: "'a \<Rightarrow> 'a list \<Rightarrow> 'a list \<times> nat" where
  "set_erase x xs = (if x \<in> set xs then (remove1 x xs, 1) else (xs, 0))"

section \<open>Timers\<close>

record Timer =
  expiration :: int
  increment :: int
  repeat :: bool
  sequence :: int

definition restart :: "int \<Rightarrow> Timer \<Rightarrow> Timer" where
  "restart now t = (if repeat t then t\<lparr>expiration := now + increment t\<rparr> else t\<lparr>expiration := 0\<rparr>)"

type_synonym TimerId = "int \<times> int"

datatype timer_functor = AddTimerInLoop int | CancelInLoop TimerId

text \<open>The timer descriptor in the kernel: the time it is set for, the reading of the clock when it was last set, whether an attempt to set it has failed, and the
  environment: for every call of \<open>resetTimerfd\<close> the reading of the clock and whether \<open>timerfd_settime\<close> succeeds.\<close>

record Timerfd =
  set_for :: "int option"
  set_at :: int
  settime_failed :: bool
  fd_calls :: nat
  fd_sys :: "nat \<Rightarrow> int \<times> bool"

record TimerQueue =
  timers :: "(int \<times> int) list"
  activeTimers :: "(int \<times> int) list"
  callingExpiredTimers :: bool
  cancelingTimers :: "(int \<times> int) list"
  timer_heap :: "int \<rightharpoonup> Timer"
  timerfd :: Timerfd
  numCreated :: int
  pendingTimers :: "timer_functor list"

definition createTimerfd :: "(nat \<Rightarrow> int \<times> bool) \<Rightarrow> Timerfd" where
  "createTimerfd sys = \<lparr>set_for = None, set_at = 0, settime_failed = False, fd_calls = 0, fd_sys = sys\<rparr>"

definition newTimerQueue :: "(nat \<Rightarrow> int \<times> bool) \<Rightarrow> TimerQueue" where
  "newTimerQueue sys = \<lparr>timers = [], activeTimers = [], callingExpiredTimers = False, cancelingTimers = [], timer_heap = Map.empty,
     timerfd = createTimerfd sys, numCreated = 0, pendingTimers = []\<rparr>"

definition UINTPTR_MAX :: int where "UINTPTR_MAX = 2 ^ 64 - 1"

text \<open>\<open>howMuchTimeFromNow\<close> gives the delay as a \<open>timespec\<close> (seconds, nanoseconds), at least 100 microseconds; \<open>timerfd_settime\<close> sets the descriptor for the
  end of that delay.  A failure is only logged.\<close>

definition kMicroSecondsPerSecond :: int where "kMicroSecondsPerSecond = 1000 * 1000"

definition howMuchTimeFromNow :: "int \<Rightarrow> int \<Rightarrow> int \<times> int" where
  "howMuchTimeFromNow now when =
     (let microseconds = (if when - now < 100 then 100 else when - now)
      in (microseconds div kMicroSecondsPerSecond, (microseconds mod kMicroSecondsPerSecond) * 1000))"

definition timerfd_settime :: "int \<Rightarrow> int \<times> int \<Rightarrow> Timerfd \<Rightarrow> Timerfd" where
  "timerfd_settime now ts f = f\<lparr>set_for := Some (now + fst ts * kMicroSecondsPerSecond + snd ts div 1000), set_at := now\<rparr>"

definition reset_fd :: "int \<Rightarrow> Timerfd \<Rightarrow> Timerfd" where
  "reset_fd when f =
     (let (now, ok) = fd_sys f (fd_calls f);
          f = f\<lparr>fd_calls := Suc (fd_calls f)\<rparr>;
          newValue = howMuchTimeFromNow now when
      in if ok then timerfd_settime now newValue f else f\<lparr>settime_failed := True\<rparr>)"

definition resetTimerfd :: "int \<Rightarrow> TimerQueue \<Rightarrow> TimerQueue" where
  "resetTimerfd when q = q\<lparr>timerfd := reset_fd when (timerfd q)\<rparr>"

definition sizes_ok :: "TimerQueue \<Rightarrow> bool" where
  "sizes_ok q \<longleftrightarrow> length (timers q) = length (activeTimers q)"

definition timer_at :: "int \<Rightarrow> TimerQueue \<Rightarrow> Timer tres" where
  "timer_at a q = (case timer_heap q a of None \<Rightarrow> Inl TimerDangling | Some t \<Rightarrow> Inr t)"

definition insert_timer :: "int \<Rightarrow> TimerQueue \<Rightarrow> (bool \<times> TimerQueue) tres" where
  "insert_timer a q =
     (if \<not> sizes_ok q then Inl TimerAssert
      else bindE (timer_at a q) (\<lambda>t.
        let when = expiration t;
            earliestChanged = (timers q = [] \<or> when < fst (hd (timers q)));
            (ts, ok1) = set_insert (when, a) (timers q);
            (as, ok2) = set_insert (a, sequence t) (activeTimers q);
            q' = q\<lparr>timers := ts, activeTimers := as\<rparr>
        in if ok1 \<and> ok2 \<and> sizes_ok q' then Inr (earliestChanged, q') else Inl TimerAssert))"

definition addTimerInLoop :: "int \<Rightarrow> TimerQueue \<Rightarrow> TimerQueue tres" where
  "addTimerInLoop a q =
     bindE (insert_timer a q) (\<lambda>(earliestChanged, q).
     if earliestChanged then bindE (timer_at a q) (\<lambda>t. Inr (resetTimerfd (expiration t) q)) else Inr q)"

definition cancelInLoop :: "TimerId \<Rightarrow> TimerQueue \<Rightarrow> TimerQueue tres" where
  "cancelInLoop timer q =
     (if \<not> sizes_ok q then Inl TimerAssert
      else if timer \<in> set (activeTimers q) then
        bindE (timer_at (fst timer) q) (\<lambda>t.
        let (ts, n) = set_erase (expiration t, fst timer) (timers q);
            q' = q\<lparr>timers := ts, timer_heap := (timer_heap q)(fst timer := None), activeTimers := fst (set_erase timer (activeTimers q))\<rparr>
        in if n = 1 \<and> sizes_ok q' then Inr q' else Inl TimerAssert)
      else if callingExpiredTimers q then Inr (q\<lparr>cancelingTimers := fst (set_insert timer (cancelingTimers q))\<rparr>)
      else Inr q)"

text \<open>\<open>new Timer\<close>, the part of \<open>addTimer\<close> that runs in the calling thread.\<close>

type_synonym allocator = "(int \<rightharpoonup> Timer) \<Rightarrow> int option"

definition create_timer :: "allocator \<Rightarrow> int \<Rightarrow> int \<Rightarrow> bool \<Rightarrow> TimerQueue \<Rightarrow> (TimerId \<times> TimerQueue) tres" where
  "create_timer alloc when inc rep q = (case alloc (timer_heap q) of
       None \<Rightarrow> Inl BadAlloc
     | Some a \<Rightarrow>
         let s = numCreated q + 1
         in Inr ((a, s), q\<lparr>numCreated := s, timer_heap := (timer_heap q)(a \<mapsto> \<lparr>expiration = when, increment = inc, repeat = rep, sequence = s\<rparr>)\<rparr>))"

definition addTimer :: "allocator \<Rightarrow> bool \<Rightarrow> int \<Rightarrow> int \<Rightarrow> bool \<Rightarrow> TimerQueue \<Rightarrow> (TimerId \<times> TimerQueue) tres" where
  "addTimer alloc in_loop when inc rep q =
     bindE (create_timer alloc when inc rep q) (\<lambda>(tid, q).
     if in_loop then bindE (addTimerInLoop (fst tid) q) (\<lambda>q. Inr (tid, q))
     else Inr (tid, q\<lparr>pendingTimers := pendingTimers q @ [AddTimerInLoop (fst tid)]\<rparr>))"

definition cancel :: "bool \<Rightarrow> TimerId \<Rightarrow> TimerQueue \<Rightarrow> TimerQueue tres" where
  "cancel in_loop tid q = (if in_loop then cancelInLoop tid q else Inr (q\<lparr>pendingTimers := pendingTimers q @ [CancelInLoop tid]\<rparr>))"

section \<open>Expiry\<close>

primrec erase_active :: "(int \<times> int) list \<Rightarrow> TimerQueue \<Rightarrow> TimerQueue tres" where
  "erase_active [] q = Inr q"
| "erase_active (e # es) q =
     bindE (timer_at (snd e) q) (\<lambda>t.
     case set_erase (snd e, sequence t) (activeTimers q) of (as, n) \<Rightarrow>
       if n = 1 then erase_active es (q\<lparr>activeTimers := as\<rparr>) else Inl TimerAssert)"

definition getExpired :: "int \<Rightarrow> TimerQueue \<Rightarrow> ((int \<times> int) list \<times> TimerQueue) tres" where
  "getExpired now q =
     (if \<not> sizes_ok q then Inl TimerAssert
      else
        let sentry = (now, UINTPTR_MAX);
            expired = takeWhile (\<lambda>e. e < sentry) (timers q);
            left = dropWhile (\<lambda>e. e < sentry) (timers q)
        in if left = [] \<or> now < fst (hd left) then
             bindE (erase_active expired (q\<lparr>timers := left\<rparr>)) (\<lambda>q. if sizes_ok q then Inr (expired, q) else Inl TimerAssert)
           else Inl TimerAssert)"

text \<open>What a callback, or another thread meanwhile, does to the queue.\<close>

datatype timer_call = Add bool int int bool | Cancel bool TimerId

definition timer_call :: "allocator \<Rightarrow> timer_call \<Rightarrow> TimerQueue \<Rightarrow> TimerQueue tres" where
  "timer_call alloc c q = (case c of Add l w i r \<Rightarrow> bindE (addTimer alloc l w i r q) (\<lambda>(_, q). Inr q) | Cancel l tid \<Rightarrow> cancel l tid q)"

primrec timer_calls :: "allocator \<Rightarrow> timer_call list \<Rightarrow> TimerQueue \<Rightarrow> TimerQueue tres" where
  "timer_calls alloc [] q = Inr q"
| "timer_calls alloc (c # cs) q = bindE (timer_call alloc c q) (timer_calls alloc cs)"

text \<open>\<open>cbs\<close> gives the calls of the callback of the timer with a sequence number.\<close>

primrec run_expired :: "allocator \<Rightarrow> (int \<Rightarrow> timer_call list) \<Rightarrow> (int \<times> int) list \<Rightarrow> TimerQueue \<Rightarrow> (int list \<times> TimerQueue) tres" where
  "run_expired alloc cbs [] q = Inr ([], q)"
| "run_expired alloc cbs (e # es) q =
     bindE (timer_at (snd e) q) (\<lambda>t.
     bindE (timer_calls alloc (cbs (sequence t)) q) (\<lambda>q.
     bindE (run_expired alloc cbs es q) (\<lambda>(ss, q). Inr (sequence t # ss, q))))"

primrec reset_expired :: "int \<Rightarrow> (int \<times> int) list \<Rightarrow> TimerQueue \<Rightarrow> TimerQueue tres" where
  "reset_expired now [] q = Inr q"
| "reset_expired now (e # es) q =
     bindE (timer_at (snd e) q) (\<lambda>t.
     if repeat t \<and> (snd e, sequence t) \<notin> set (cancelingTimers q)
     then bindE (insert_timer (snd e) (q\<lparr>timer_heap := (timer_heap q)(snd e \<mapsto> restart now t)\<rparr>)) (\<lambda>(_, q). reset_expired now es q)
     else reset_expired now es (q\<lparr>timer_heap := (timer_heap q)(snd e := None)\<rparr>))"

definition rearm :: "TimerQueue \<Rightarrow> TimerQueue tres" where
  "rearm q = (case timers q of
       [] \<Rightarrow> Inr q
     | e # _ \<Rightarrow> bindE (timer_at (snd e) q) (\<lambda>t. Inr (if expiration t > 0 then resetTimerfd (expiration t) q else q)))"

definition reset :: "(int \<times> int) list \<Rightarrow> int \<Rightarrow> TimerQueue \<Rightarrow> TimerQueue tres" where
  "reset expired now q = bindE (reset_expired now expired q) rearm"

text \<open>The timer descriptor has expired when \<open>handleRead\<close> is called, and is not set any more.\<close>

definition timer_handleRead :: "allocator \<Rightarrow> (int \<Rightarrow> timer_call list) \<Rightarrow> int \<Rightarrow> TimerQueue \<Rightarrow> (int list \<times> TimerQueue) tres" where
  "timer_handleRead alloc cbs now q =
     bindE (getExpired now (q\<lparr>timerfd := (timerfd q)\<lparr>set_for := None\<rparr>\<rparr>)) (\<lambda>(expired, q).
     bindE (run_expired alloc cbs expired (q\<lparr>callingExpiredTimers := True, cancelingTimers := []\<rparr>)) (\<lambda>(ss, q).
     bindE (reset expired now (q\<lparr>callingExpiredTimers := False\<rparr>)) (\<lambda>q. Inr (ss, q))))"

text \<open>The loop runs a queued functor.\<close>

definition run_pending :: "TimerQueue \<Rightarrow> TimerQueue tres" where
  "run_pending q = (case pendingTimers q of
       [] \<Rightarrow> Inr q
     | AddTimerInLoop a # fs \<Rightarrow> addTimerInLoop a (q\<lparr>pendingTimers := fs\<rparr>)
     | CancelInLoop tid # fs \<Rightarrow> cancelInLoop tid (q\<lparr>pendingTimers := fs\<rparr>))"

text \<open>The destructor deletes the timers of the queue.\<close>

primrec delete_timers :: "(int \<times> int) list \<Rightarrow> TimerQueue \<Rightarrow> TimerQueue tres" where
  "delete_timers [] q = Inr q"
| "delete_timers (e # es) q = bindE (timer_at (snd e) q) (\<lambda>t. delete_timers es (q\<lparr>timer_heap := (timer_heap q)(snd e := None)\<rparr>))"

definition destroyTimerQueue :: "TimerQueue \<Rightarrow> TimerQueue tres" where
  "destroyTimerQueue q = delete_timers (timers q) q"

end
