(* ===== verification/TimerProps.thy ===== *)
theory TimerProps
  imports TimerQueue "HOL-Library.Multiset"
begin

text \<open>
  The theorems about timers.  The invariant ties the two sets of the queue to the heap of timers: every timer on the heap is in the queue, expired and about to be
  run (\<open>X\<close>), or in a functor that will insert it.  With it no assertion fails and no deleted timer is used, timers fire in order and never early, a cancelled
  timer is gone, and the timer descriptor is set for the first timer.
\<close>

section \<open>The invariant\<close>

abbreviation no_failure :: "('a \<Rightarrow> bool) \<Rightarrow> 'a tres \<Rightarrow> bool" where
  "no_failure \<equiv> outcome (\<lambda>e. e = BadAlloc)"

primrec pend_addrs :: "timer_functor list \<Rightarrow> int list" where
  "pend_addrs [] = []"
| "pend_addrs (f # fs) = (case f of AddTimerInLoop a \<Rightarrow> a # pend_addrs fs | CancelInLoop tid \<Rightarrow> pend_addrs fs)"

definition owned :: "(int \<times> int) list \<Rightarrow> TimerQueue \<Rightarrow> int list" where
  "owned X q = map snd (timers q) @ map snd X @ pend_addrs (pendingTimers q)"

definition seq_of :: "TimerQueue \<Rightarrow> int \<Rightarrow> int" where
  "seq_of q a = sequence (the (timer_heap q a))"

text \<open>What holds of every timer on the heap; \<open>P\<close> tells that all times of the run are positive.\<close>

definition heap_ok :: "bool \<Rightarrow> TimerQueue \<Rightarrow> bool" where
  "heap_ok P q \<longleftrightarrow>
     (\<forall>a t. timer_heap q a = Some t \<longrightarrow> a < UINTPTR_MAX \<and> sequence t \<le> numCreated q \<and> (P \<longrightarrow> 0 < expiration t \<and> 0 \<le> increment t)) \<and>
     (\<forall>a b t u. timer_heap q a = Some t \<longrightarrow> timer_heap q b = Some u \<longrightarrow> sequence t = sequence u \<longrightarrow> a = b)"

definition tq_inv :: "bool \<Rightarrow> (int \<times> int) list \<Rightarrow> TimerQueue \<Rightarrow> bool" where
  "tq_inv P X q \<longleftrightarrow> sorted (timers q) \<and> distinct (activeTimers q) \<and> distinct (owned X q) \<and> dom (timer_heap q) = set (owned X q) \<and>
     (\<forall>e \<in> set (timers q) \<union> set X. map_option expiration (timer_heap q (snd e)) = Some (fst e)) \<and>
     set (activeTimers q) = (\<lambda>e. (snd e, seq_of q (snd e))) ` set (timers q) \<and> heap_ok P q"

lemma tq_invD:
  assumes "tq_inv P X q"
  shows "sorted (timers q)" "distinct (activeTimers q)" "distinct (owned X q)" "dom (timer_heap q) = set (owned X q)"
    "\<And>e. e \<in> set (timers q) \<or> e \<in> set X \<Longrightarrow> map_option expiration (timer_heap q (snd e)) = Some (fst e)"
    "set (activeTimers q) = (\<lambda>e. (snd e, seq_of q (snd e))) ` set (timers q)" "heap_ok P q"
  using assms unfolding tq_inv_def by blast+

lemma timers_inj: "tq_inv P X q \<Longrightarrow> inj_on snd (set (timers q))" "tq_inv P X q \<Longrightarrow> distinct (timers q)"
  using tq_invD(3) [of P X q] by (auto simp: owned_def distinct_map)

lemma sizes: assumes "tq_inv P X q" shows "sizes_ok q"
proof -
  have "length (activeTimers q) = card (set (activeTimers q))" using tq_invD(2) [OF assms] by (simp add: distinct_card)
  also have "\<dots> = card ((\<lambda>e. (snd e, seq_of q (snd e))) ` set (timers q))" unfolding tq_invD(6) [OF assms] ..
  also have "\<dots> = card (set (timers q))" using timers_inj(1) [OF assms] by (intro card_image) (auto simp: inj_on_def)
  also have "\<dots> = length (timers q)" using timers_inj(2) [OF assms] by (simp add: distinct_card)
  finally show ?thesis by (simp add: sizes_ok_def)
qed

lemma timer_at_owned:
  assumes "tq_inv P X q" "a \<in> set (owned X q)"
  shows "\<exists>t. timer_at a q = Inr t \<and> timer_heap q a = Some t"
proof -
  have "a \<in> dom (timer_heap q)" using tq_invD(4) [OF assms(1)] assms(2) by simp
  then show ?thesis by (auto simp: timer_at_def)
qed

lemma new_tq_inv: "tq_inv P [] (newTimerQueue sys)"
  by (simp add: tq_inv_def newTimerQueue_def owned_def heap_ok_def)

section \<open>The operations\<close>

lemma insert_timer_ok:
  assumes "tq_inv P ((w, a) # X) q"
  shows "\<exists>as q'. insert_timer a q = Inr (timers q = [] \<or> w < fst (hd (timers q)), q') \<and> q' = q\<lparr>timers := insort (w, a) (timers q), activeTimers := as\<rparr> \<and> tq_inv P X q'"
proof -
  note D = tq_invD [OF assms]
  obtain t where t: "timer_at a q = Inr t" "timer_heap q a = Some t" using timer_at_owned [OF assms, of a] by (auto simp: owned_def)
  have w: "expiration t = w" "seq_of q a = sequence t" using D(5) [of "(w, a)"] t(2) by (auto simp: seq_of_def)
  have fresh: "a \<notin> snd ` set (timers q)" using D(3) by (auto simp: owned_def)
  then have n1: "(w, a) \<notin> set (timers q)" by force
  have n2: "(a, sequence t) \<notin> set (activeTimers q)" using D(6) fresh by force
  let ?q = "q\<lparr>timers := insort (w, a) (timers q), activeTimers := insort (a, sequence t) (activeTimers q)\<rparr>"
  have inv: "tq_inv P X ?q"
    unfolding tq_inv_def
  proof (intro conjI)
    show "sorted (timers ?q)" "distinct (activeTimers ?q)" using D(1,2) n2 by (simp_all add: sorted_insort distinct_insort)
    have m: "mset (owned X ?q) = mset (owned ((w, a) # X) q)" by (simp add: owned_def)
    show "distinct (owned X ?q)" "dom (timer_heap ?q) = set (owned X ?q)" 
      using D(3,4) mset_eq_imp_distinct_iff [OF m] mset_eq_setD [OF m] by auto
    show "\<forall>e \<in> set (timers ?q) \<union> set X. map_option expiration (timer_heap ?q (snd e)) = Some (fst e)" using D(5) by (auto simp: set_insort_key)
    have "seq_of ?q = seq_of q" by (simp add: seq_of_def fun_eq_iff)
    then show "set (activeTimers ?q) = (\<lambda>e. (snd e, seq_of ?q (snd e))) ` set (timers ?q)" using D(6) w by (simp add: set_insort_key)
    show "heap_ok P ?q" using D(7) by (simp add: heap_ok_def)
  qed
  have "insert_timer a q = Inr (timers q = [] \<or> w < fst (hd (timers q)), ?q)"
    using sizes [OF assms] sizes [OF inv] t(1) w n1 n2 by (simp add: insert_timer_def set_insert_def Let_def)
  with inv show ?thesis by blast
qed

text \<open>The parts of the state that the callers keep.\<close>

lemma tq_inv_frame [simp]:
  "tq_inv P X (q\<lparr>timerfd := w\<rparr>) = tq_inv P X q" "tq_inv P X (q\<lparr>callingExpiredTimers := b\<rparr>) = tq_inv P X q"
  "tq_inv P X (q\<lparr>cancelingTimers := c\<rparr>) = tq_inv P X q" "tq_inv P X (resetTimerfd d q) = tq_inv P X q"
  by (simp_all add: tq_inv_def owned_def seq_of_def heap_ok_def resetTimerfd_def)

definition keeps_heap :: "(int \<times> int) list \<Rightarrow> TimerQueue \<Rightarrow> TimerQueue \<Rightarrow> bool" where
  "keeps_heap X q q' \<longleftrightarrow> (\<forall>e \<in> set X. timer_heap q' (snd e) = timer_heap q (snd e))"

lemma addTimerInLoop_ok:
  assumes "tq_inv P ((w, a) # X) q"
  shows "\<exists>q'. addTimerInLoop a q = Inr q' \<and> tq_inv P X q' \<and> timer_heap q' = timer_heap q \<and> timers q' = insort (w, a) (timers q) \<and>
    numCreated q' = numCreated q \<and> pendingTimers q' = pendingTimers q \<and> cancelingTimers q' = cancelingTimers q \<and> callingExpiredTimers q' = callingExpiredTimers q \<and>
    timerfd q' = (if timers q = [] \<or> w < fst (hd (timers q)) then reset_fd w (timerfd q) else timerfd q)"
proof -
  obtain as q' where q': "insert_timer a q = Inr (timers q = [] \<or> w < fst (hd (timers q)), q')" "q' = q\<lparr>timers := insort (w, a) (timers q), activeTimers := as\<rparr>" "tq_inv P X q'"
    using insert_timer_ok [OF assms] by blast
  obtain t where t: "timer_heap q a = Some t" "expiration t = w" using tq_invD(5) [OF assms, of "(w, a)"] by auto
  then have "timer_at a q' = Inr t" using q'(2) by (simp add: timer_at_def)
  with q' t show ?thesis by (auto simp: addTimerInLoop_def resetTimerfd_def simp del: tq_inv_frame(4) dest: tq_inv_frame(1) [THEN iffD2])
qed

lemma cancelInLoop_ok:
  assumes "tq_inv P X q"
  shows "\<exists>q'. cancelInLoop tid q = Inr q' \<and> tq_inv P X q' \<and> keeps_heap X q q' \<and> numCreated q' = numCreated q \<and> pendingTimers q' = pendingTimers q \<and>
    callingExpiredTimers q' = callingExpiredTimers q \<and> timerfd q' = timerfd q \<and> set (timers q') \<subseteq> set (timers q) \<and> (\<forall>a t. timer_heap q' a = Some t \<longrightarrow> timer_heap q a = Some t) \<and>
    set (cancelingTimers q) \<subseteq> set (cancelingTimers q') \<and>
    (if tid \<in> set (activeTimers q) then timer_heap q' = (timer_heap q)(fst tid := None) else timer_heap q' = timer_heap q \<and> (callingExpiredTimers q \<longrightarrow> tid \<in> set (cancelingTimers q')))"
proof (cases "tid \<in> set (activeTimers q)")
  case True
  note D = tq_invD [OF assms]
  obtain a s where tid: "tid = (a, s)" by fastforce
  from True D(6) tid obtain w where e: "(w, a) \<in> set (timers q)" "s = seq_of q a" by auto
  obtain t where t: "timer_at a q = Inr t" "timer_heap q a = Some t" "expiration t = w"
    using timer_at_owned [OF assms, of a] D(5) [of "(w, a)"] e(1) by (force simp: owned_def)
  let ?q = "q\<lparr>timers := remove1 (w, a) (timers q), timer_heap := (timer_heap q)(a := None), activeTimers := remove1 tid (activeTimers q)\<rparr>"
  have "a \<in># image_mset snd (mset (timers q))" using e(1) by force
  then have m: "mset (owned X q) = add_mset a (mset (owned X ?q))" using e(1) by (simp add: owned_def image_mset_Diff insert_DiffM)
  have d: "distinct (a # owned X ?q)" using D(3) mset_eq_imp_distinct_iff [of "owned X q" "a # owned X ?q"] m by simp
  have s: "set (owned X q) = insert a (set (owned X ?q))" using mset_eq_setD [of "owned X q" "a # owned X ?q"] m by simp
  have r: "set (timers ?q) = set (timers q) - {(w, a)}" using timers_inj(2) [OF assms] by simp
  have na: "snd e \<noteq> a" if "e \<in> set (timers ?q) \<or> e \<in> set X" for e using that d by (auto simp: owned_def)
  have inv: "tq_inv P X ?q"
    unfolding tq_inv_def
  proof (intro conjI)
    show "sorted (timers ?q)" "distinct (activeTimers ?q)" using D(1,2) by (simp_all add: sorted_remove1)
    show "distinct (owned X ?q)" using d by simp
    show "dom (timer_heap ?q) = set (owned X ?q)" using D(4) s d by (simp add: insert_Diff_if)
    show "\<forall>e \<in> set (timers ?q) \<union> set X. map_option expiration (timer_heap ?q (snd e)) = Some (fst e)"
      using D(5) na r by auto
    have "(\<lambda>e. (snd e, seq_of ?q (snd e))) ` set (timers ?q) = (\<lambda>e. (snd e, seq_of q (snd e))) ` set (timers ?q)"
      using na by (intro image_cong) (auto simp: seq_of_def)
    also have "\<dots> = set (activeTimers q) - {tid}"
      unfolding D(6) r using e(2) tid inj_onD [OF timers_inj(1) [OF assms] _ _ e(1)] by force
    finally show "set (activeTimers ?q) = (\<lambda>e. (snd e, seq_of ?q (snd e))) ` set (timers ?q)" using D(2) by simp
    show "heap_ok P ?q" using D(7) by (simp add: heap_ok_def)
  qed
  have "cancelInLoop tid q = Inr ?q"
    using sizes [OF assms] sizes [OF inv] True tid t e(1) by (simp add: cancelInLoop_def set_erase_def)
  with inv na True tid show ?thesis using set_remove1_subset [of "(w, a)" "timers q"] by (auto simp: keeps_heap_def)
next
  case False
  with sizes [OF assms] assms show ?thesis by (auto simp: cancelInLoop_def keeps_heap_def set_insert_def set_insort_key)
qed

text \<open>The allocator never returns an address in use, nor the one that serves as the upper bound of all addresses.\<close>

definition fresh_alloc :: "allocator \<Rightarrow> bool" where
  "fresh_alloc alloc \<longleftrightarrow> (\<forall>h a. alloc h = Some a \<longrightarrow> h a = None \<and> a < UINTPTR_MAX)"

definition valid_call :: "bool \<Rightarrow> timer_call \<Rightarrow> bool" where
  "valid_call P c = (case c of Add l w i r \<Rightarrow> P \<longrightarrow> 0 < w \<and> 0 \<le> i | Cancel l tid \<Rightarrow> True)"

text \<open>A later state: the timers about to be run are untouched, timers only disappear or are new, and cancellations are remembered.\<close>

definition later :: "(int \<times> int) list \<Rightarrow> TimerQueue \<Rightarrow> TimerQueue \<Rightarrow> bool" where
  "later X q q' \<longleftrightarrow> keeps_heap X q q' \<and> numCreated q \<le> numCreated q' \<and> callingExpiredTimers q' = callingExpiredTimers q \<and>
     set (cancelingTimers q) \<subseteq> set (cancelingTimers q') \<and> (\<forall>a t. timer_heap q' a = Some t \<longrightarrow> timer_heap q a = Some t \<or> numCreated q < sequence t)"

lemma later_refl [simp]: "later X q q" by (simp add: later_def keeps_heap_def)

lemma later_trans: "later X q q' \<Longrightarrow> later X q' q'' \<Longrightarrow> later X q q''"
  unfolding later_def keeps_heap_def by (metis order.trans order.strict_trans1)

definition expires :: "TimerQueue \<Rightarrow> int \<Rightarrow> int" where
  "expires q a = expiration (the (timer_heap q a))"

lemma create_timer_ok:
  assumes "tq_inv P X q" "fresh_alloc alloc" "P \<longrightarrow> 0 < w \<and> 0 \<le> i"
  shows "no_failure (\<lambda>(tid, q'). tq_inv P ((w, fst tid) # X) q' \<and> later X q q' \<and> snd tid = numCreated q' \<and> numCreated q < snd tid \<and> timers q' = timers q \<and> timerfd q' = timerfd q \<and>
    pendingTimers q' = pendingTimers q) (create_timer alloc w i r q)"
proof (cases "alloc (timer_heap q)")
  case (Some a)
  note D = tq_invD [OF assms(1)]
  have a: "timer_heap q a = None" "a < UINTPTR_MAX" using Some assms(2) by (auto simp: fresh_alloc_def)
  then have na: "a \<notin> set (owned X q)" using D(4) by (auto simp: domIff)
  let ?t = "\<lparr>expiration = w, increment = i, repeat = r, sequence = numCreated q + 1\<rparr>"
  let ?q = "q\<lparr>numCreated := numCreated q + 1, timer_heap := (timer_heap q)(a \<mapsto> ?t)\<rparr>"
  have ne: "snd e \<noteq> a" if "e \<in> set (timers q) \<or> e \<in> set X" for e using that na by (auto simp: owned_def)
  have "tq_inv P ((w, a) # X) ?q"
    unfolding tq_inv_def
  proof (intro conjI)
    show "sorted (timers ?q)" "distinct (activeTimers ?q)" using D(1,2) by simp_all
    show "distinct (owned ((w, a) # X) ?q)" using D(3) na by (auto simp: owned_def)
    show "dom (timer_heap ?q) = set (owned ((w, a) # X) ?q)" using D(4) by (auto simp: owned_def)
    show "\<forall>e \<in> set (timers ?q) \<union> set ((w, a) # X). map_option expiration (timer_heap ?q (snd e)) = Some (fst e)" using D(5) ne by auto
    show "set (activeTimers ?q) = (\<lambda>e. (snd e, seq_of ?q (snd e))) ` set (timers ?q)"
      using D(6) ne by (auto simp: seq_of_def intro!: image_cong)
    show "heap_ok P ?q" using D(7) a assms(3) by (auto simp: heap_ok_def) force+
  qed
  moreover have "later X q ?q" using ne by (auto simp: later_def keeps_heap_def)
  ultimately show ?thesis using Some by (simp add: create_timer_def Let_def)
qed (simp add: create_timer_def)

lemma pend_addrs_append [simp]: "pend_addrs (fs @ gs) = pend_addrs fs @ pend_addrs gs"
  by (induction fs) (auto split: timer_functor.split)

lemma tq_inv_pending:
  "tq_inv P ((w, a) # X) q \<Longrightarrow> tq_inv P X (q\<lparr>pendingTimers := pendingTimers q @ [AddTimerInLoop a]\<rparr>)"
  "tq_inv P X q \<Longrightarrow> tq_inv P X (q\<lparr>pendingTimers := pendingTimers q @ [CancelInLoop tid]\<rparr>)"
  by (auto simp: tq_inv_def owned_def heap_ok_def seq_of_def)

lemma addTimer_ok:
  assumes "tq_inv P X q" "fresh_alloc alloc" "P \<longrightarrow> 0 < w \<and> 0 \<le> i"
  shows "no_failure (\<lambda>(tid, q'). tq_inv P X q' \<and> later X q q') (addTimer alloc l w i r q)"
  unfolding addTimer_def
proof (rule outcome_bind [OF create_timer_ok [OF assms]])
  fix x assume x: "case x of (tid, q') \<Rightarrow> tq_inv P ((w, fst tid) # X) q' \<and> later X q q' \<and> snd tid = numCreated q' \<and> numCreated q < snd tid \<and> timers q' = timers q \<and>
    timerfd q' = timerfd q \<and> pendingTimers q' = pendingTimers q"
  obtain a s q' where X: "x = ((a, s), q')" by (metis prod.collapse)
  from x X have q': "tq_inv P ((w, a) # X) q'" "later X q q'" by auto
  show "no_failure (\<lambda>(tid, q'). tq_inv P X q' \<and> later X q q') (case x of (tid, q) \<Rightarrow> if l then bindE (addTimerInLoop (fst tid) q) (\<lambda>q. Inr (tid, q))
     else Inr (tid, q\<lparr>pendingTimers := pendingTimers q @ [AddTimerInLoop (fst tid)]\<rparr>))"
  proof (cases l)
    case True
    with addTimerInLoop_ok [OF q'(1)] q'(2) X show ?thesis by (auto simp: later_def keeps_heap_def)
  next
    case False
    with tq_inv_pending(1) [OF q'(1)] q'(2) X show ?thesis by (auto simp: later_def keeps_heap_def)
  qed
qed

lemma timer_call_ok:
  assumes "tq_inv P X q" "fresh_alloc alloc" "valid_call P c"
  shows "no_failure (\<lambda>q'. tq_inv P X q' \<and> later X q q') (timer_call alloc c q)"
proof (cases c)
  case (Add l w i r)
  then have "P \<longrightarrow> 0 < w \<and> 0 \<le> i" using assms(3) by (simp add: valid_call_def)
  from outcome_bind [OF addTimer_ok [OF assms(1,2) this, of l r], of "\<lambda>q'. tq_inv P X q' \<and> later X q q'" "\<lambda>(_, q). Inr q"] Add show ?thesis
    by (auto simp: timer_call_def)
next
  case (Cancel l tid)
  show ?thesis
  proof (cases l)
    case True
    with cancelInLoop_ok [OF assms(1), of tid] Cancel show ?thesis by (auto simp: timer_call_def cancel_def later_def)
  next
    case False
    with Cancel assms(1) show ?thesis by (auto simp: timer_call_def cancel_def later_def keeps_heap_def intro: tq_inv_pending)
  qed
qed

text \<open>A timer that has been taken out to be run and is cancelled meanwhile is remembered.\<close>

definition remembered :: "(int \<times> int) list \<Rightarrow> timer_call list \<Rightarrow> TimerQueue \<Rightarrow> TimerQueue \<Rightarrow> bool" where
  "remembered X cs q q' \<longleftrightarrow> (callingExpiredTimers q \<longrightarrow> (\<forall>tid. Cancel True tid \<in> set cs \<longrightarrow> fst tid \<in> snd ` set X \<longrightarrow> tid \<in> set (cancelingTimers q')))"

lemma remembered_later: "remembered X cs q q' \<Longrightarrow> later X q' q'' \<Longrightarrow> remembered X cs q q''"
  unfolding remembered_def later_def by blast

lemma remembered_before: "later X q q' \<Longrightarrow> remembered X cs q' q'' \<Longrightarrow> remembered X cs q q''"
  unfolding remembered_def later_def by simp

lemma remembered_Cons: "remembered X [c] q q' \<Longrightarrow> remembered X cs q q' \<Longrightarrow> remembered X (c # cs) q q'"
  unfolding remembered_def by simp

lemma timer_call_remembered:
  assumes "tq_inv P X q" "timer_call alloc c q = Inr q'"
  shows "remembered X [c] q q'"
  unfolding remembered_def
proof (intro impI allI)
  fix tid assume r: "callingExpiredTimers q" "Cancel True tid \<in> set [c]" "fst tid \<in> snd ` set X"
  have "fst tid \<notin> snd ` set (timers q)" using tq_invD(3) [OF assms(1)] r(3) by (auto simp: owned_def)
  then have "tid \<notin> set (activeTimers q)" unfolding tq_invD(6) [OF assms(1)] by force
  with cancelInLoop_ok [OF assms(1), of tid] assms(2) r(1,2) show "tid \<in> set (cancelingTimers q')" by (auto simp: timer_call_def cancel_def)
qed

lemma timer_calls_ok:
  assumes "tq_inv P X q" "fresh_alloc alloc" "list_all (valid_call P) cs"
  shows "no_failure (\<lambda>q'. tq_inv P X q' \<and> later X q q' \<and> remembered X cs q q') (timer_calls alloc cs q)"
  using assms
proof (induction cs arbitrary: q)
  case (Cons c cs)
  have "no_failure (\<lambda>q'. tq_inv P X q' \<and> later X q q' \<and> remembered X [c] q q') (timer_call alloc c q)"
    using timer_call_ok [OF Cons.prems(1,2), of c] timer_call_remembered [OF Cons.prems(1), of alloc c] Cons.prems(3) by (cases "timer_call alloc c q") auto
  then have "no_failure (\<lambda>q''. tq_inv P X q'' \<and> later X q q'' \<and> remembered X (c # cs) q q'') (bindE (timer_call alloc c q) (timer_calls alloc cs))"
  proof (rule outcome_bind)
    fix q' assume q': "tq_inv P X q' \<and> later X q q' \<and> remembered X [c] q q'"
    then have "no_failure (\<lambda>q''. tq_inv P X q'' \<and> later X q' q'' \<and> remembered X cs q' q'') (timer_calls alloc cs q')" using Cons by auto
    then show "no_failure (\<lambda>q''. tq_inv P X q'' \<and> later X q q'' \<and> remembered X (c # cs) q q'') (timer_calls alloc cs q')"
    proof (rule outcome_weaken)
      fix q'' assume q'': "tq_inv P X q'' \<and> later X q' q'' \<and> remembered X cs q' q''"
      with q' have "remembered X (c # cs) q q''" by (blast intro: remembered_Cons remembered_later remembered_before)
      with q' q'' later_trans show "tq_inv P X q'' \<and> later X q q'' \<and> remembered X (c # cs) q q''" by blast
    qed
  qed
  then show ?case by simp
qed (simp add: remembered_def)

lemma sorted_split: "sorted xs \<Longrightarrow> takeWhile (\<lambda>x. x < b) xs = filter (\<lambda>x. x < b) xs \<and> dropWhile (\<lambda>x. x < b) xs = filter (\<lambda>x. \<not> x < b) xs" for b :: "'a::linorder"
proof (induction xs)
  case (Cons x xs)
  show ?case
  proof (cases "x < b")
    case False
    then have "\<forall>y \<in> set xs. \<not> y < b" using Cons.prems by force
    with False show ?thesis by simp
  qed (use Cons in simp)
qed simp

lemma erase_active_ok:
  assumes "distinct (map snd es)" "distinct (activeTimers q)" "\<And>e. e \<in> set es \<Longrightarrow> \<exists>t. timer_heap q (snd e) = Some t \<and> (snd e, sequence t) \<in> set (activeTimers q)"
  shows "\<exists>as. erase_active es q = Inr (q\<lparr>activeTimers := as\<rparr>) \<and> distinct as \<and> set as = set (activeTimers q) - (\<lambda>e. (snd e, seq_of q (snd e))) ` set es"
  using assms
proof (induction es arbitrary: q)
  case Nil
  then show ?case by (auto intro!: exI [of _ "activeTimers q"])
next
  case (Cons e es)
  obtain t where t: "timer_heap q (snd e) = Some t" "(snd e, sequence t) \<in> set (activeTimers q)" using Cons.prems(3) [of e] by auto
  let ?q = "q\<lparr>activeTimers := remove1 (snd e, sequence t) (activeTimers q)\<rparr>"
  have s: "set (activeTimers ?q) = set (activeTimers q) - {(snd e, sequence t)}" using Cons.prems(2) by simp
  have "\<exists>as. erase_active es ?q = Inr (?q\<lparr>activeTimers := as\<rparr>) \<and> distinct as \<and> set as = set (activeTimers ?q) - (\<lambda>e. (snd e, seq_of ?q (snd e))) ` set es"
  proof (rule Cons.IH)
    fix f assume f: "f \<in> set es"
    then have "snd f \<noteq> snd e" using Cons.prems(1) by simp (metis imageI)
    then show "\<exists>t. timer_heap ?q (snd f) = Some t \<and> (snd f, sequence t) \<in> set (activeTimers ?q)" using Cons.prems(3) [of f] f s by auto
  qed (use Cons.prems in auto)
  moreover have "seq_of ?q = seq_of q" "seq_of q (snd e) = sequence t" using t by (auto simp: seq_of_def fun_eq_iff)
  ultimately show ?case using t s by (auto simp: timer_at_def set_erase_def)
qed

lemma getExpired_ok:
  assumes "tq_inv P [] q"
  shows "\<exists>as q'. getExpired now q = Inr (filter (\<lambda>e. fst e \<le> now) (timers q), q') \<and> q' = q\<lparr>timers := filter (\<lambda>e. now < fst e) (timers q), activeTimers := as\<rparr> \<and>
    tq_inv P (filter (\<lambda>e. fst e \<le> now) (timers q)) q'"
proof -
  note D = tq_invD [OF assms]
  have "e < (now, UINTPTR_MAX) \<longleftrightarrow> fst e \<le> now" if e: "e \<in> set (timers q)" for e
  proof -
    obtain t where "timer_heap q (snd e) = Some t" using D(5) [of e] e by auto
    then have "snd e < UINTPTR_MAX" using D(7) by (auto simp: heap_ok_def)
    then show ?thesis by (cases e) (auto simp: less_prod_def')
  qed
  then have f: "takeWhile (\<lambda>e. e < (now, UINTPTR_MAX)) (timers q) = filter (\<lambda>e. fst e \<le> now) (timers q)"
    "dropWhile (\<lambda>e. e < (now, UINTPTR_MAX)) (timers q) = filter (\<lambda>e. now < fst e) (timers q)"
    using sorted_split [OF D(1), of "(now, UINTPTR_MAX)"] by (auto intro!: filter_cong simp: not_le)
  let ?X = "filter (\<lambda>e. fst e \<le> now) (timers q)" and ?L = "filter (\<lambda>e. now < fst e) (timers q)"
  let ?q = "q\<lparr>timers := ?L\<rparr>"
  have "distinct (map snd ?X)" using timers_inj [OF assms] by (simp add: distinct_map inj_on_def)
  moreover have "\<exists>t. timer_heap ?q (snd e) = Some t \<and> (snd e, sequence t) \<in> set (activeTimers ?q)" if "e \<in> set ?X" for e
    using that D(5) [of e] D(6) by (auto simp: seq_of_def intro!: image_eqI [of _ _ e])
  ultimately obtain as where as: "erase_active ?X ?q = Inr (?q\<lparr>activeTimers := as\<rparr>)" "distinct as"
      "set as = set (activeTimers q) - (\<lambda>e. (snd e, seq_of q (snd e))) ` set ?X"
    using erase_active_ok [of ?X ?q] D(2) by (auto simp: seq_of_def)
  let ?r = "?q\<lparr>activeTimers := as\<rparr>"
  have m: "mset (owned ?X ?r) = mset (owned [] q)"
    using multiset_partition [of "mset (timers q)" "\<lambda>e. fst e \<le> now"] by (simp add: owned_def not_le flip: image_mset_union)
  have inv: "tq_inv P ?X ?r"
    unfolding tq_inv_def
  proof (intro conjI)
    show "sorted (timers ?r)" "distinct (activeTimers ?r)" using D(1) as(2) by (simp_all add: sorted_wrt_filter)
    show "distinct (owned ?X ?r)" "dom (timer_heap ?r) = set (owned ?X ?r)" using D(3,4) mset_eq_imp_distinct_iff [OF m] mset_eq_setD [OF m] by auto
    show "\<forall>e \<in> set (timers ?r) \<union> set ?X. map_option expiration (timer_heap ?r (snd e)) = Some (fst e)" using D(5) by auto
    have "inj_on (\<lambda>e. (snd e, seq_of q (snd e))) (set (timers q))" using timers_inj(1) [OF assms] by (simp add: inj_on_def)
    then have "set as = (\<lambda>e. (snd e, seq_of q (snd e))) ` (set (timers q) - set ?X)"
      unfolding as(3) D(6) by (rule inj_on_image_set_diff [symmetric]) auto
    moreover have "set (timers q) - set ?X = set ?L" by auto
    ultimately have "set as = (\<lambda>e. (snd e, seq_of q (snd e))) ` set ?L" by simp
    then show "set (activeTimers ?r) = (\<lambda>e. (snd e, seq_of ?r (snd e))) ` set (timers ?r)" by (simp add: seq_of_def)
    show "heap_ok P ?r" using D(7) by (simp add: heap_ok_def)
  qed
  have "?L = [] \<or> now < fst (hd ?L)"
    using hd_in_set [of ?L] by (cases "?L = []") auto
  then have "getExpired now q = Inr (?X, ?r)"
    using sizes [OF assms] sizes [OF inv] as(1) unfolding getExpired_def Let_def f by simp
  with inv show ?thesis by blast
qed

lemma run_expired_ok:
  assumes "tq_inv P X q" "fresh_alloc alloc" "\<And>s. list_all (valid_call P) (cbs s)" "set es \<subseteq> set X"
  shows "no_failure (\<lambda>(ss, q'). ss = map (\<lambda>e. seq_of q (snd e)) es \<and> tq_inv P X q' \<and> later X q q' \<and> (\<forall>e \<in> set es. remembered X (cbs (seq_of q (snd e))) q q')) (run_expired alloc cbs es q)"
  using assms(1,4)
proof (induction es arbitrary: q)
  case (Cons e es)
  obtain t where t: "timer_at (snd e) q = Inr t" "timer_heap q (snd e) = Some t" using timer_at_owned [OF Cons.prems(1), of "snd e"] Cons.prems(2) by (auto simp: owned_def)
  have "no_failure (\<lambda>(ss, q'). ss = map (\<lambda>e. seq_of q (snd e)) (e # es) \<and> tq_inv P X q' \<and> later X q q' \<and> (\<forall>e \<in> set (e # es). remembered X (cbs (seq_of q (snd e))) q q'))
    (bindE (timer_calls alloc (cbs (sequence t)) q) (\<lambda>q. bindE (run_expired alloc cbs es q) (\<lambda>(ss, q). Inr (sequence t # ss, q))))"
  proof (rule outcome_bind [OF timer_calls_ok [OF Cons.prems(1) assms(2,3)]])
    fix q1 assume q1: "tq_inv P X q1 \<and> later X q q1 \<and> remembered X (cbs (sequence t)) q q1"
    have h: "seq_of q1 (snd f) = seq_of q (snd f)" if "f \<in> set es" for f
      using that q1 Cons.prems(2) by (auto simp: later_def keeps_heap_def seq_of_def)
    have "no_failure (\<lambda>(ss, q'). ss = map (\<lambda>e. seq_of q1 (snd e)) es \<and> tq_inv P X q' \<and> later X q1 q' \<and> (\<forall>e \<in> set es. remembered X (cbs (seq_of q1 (snd e))) q1 q')) (run_expired alloc cbs es q1)"
      using Cons q1 by auto
    then show "no_failure (\<lambda>(ss, q'). ss = map (\<lambda>e. seq_of q (snd e)) (e # es) \<and> tq_inv P X q' \<and> later X q q' \<and> (\<forall>e \<in> set (e # es). remembered X (cbs (seq_of q (snd e))) q q'))
        (bindE (run_expired alloc cbs es q1) (\<lambda>(ss, q). Inr (sequence t # ss, q)))"
    proof (rule outcome_bind)
      fix x assume "case x of (ss, q') \<Rightarrow> ss = map (\<lambda>e. seq_of q1 (snd e)) es \<and> tq_inv P X q' \<and> later X q1 q' \<and> (\<forall>e \<in> set es. remembered X (cbs (seq_of q1 (snd e))) q1 q')"
      then obtain q' where x: "x = (map (\<lambda>e. seq_of q (snd e)) es, q')" "tq_inv P X q'" "later X q1 q'" "\<forall>e \<in> set es. remembered X (cbs (seq_of q (snd e))) q1 q'"
        using h by (auto split: prod.splits)
      moreover have "seq_of q (snd e) = sequence t" using t(2) by (simp add: seq_of_def)
      moreover have "\<forall>f \<in> set (e # es). remembered X (cbs (seq_of q (snd f))) q q'"
        using q1 x(3,4) calculation(5) by (auto intro: remembered_later remembered_before)
      moreover have "later X q q'" using q1 x(3) later_trans by blast
      ultimately show "no_failure (\<lambda>(ss, q'). ss = map (\<lambda>e. seq_of q (snd e)) (e # es) \<and> tq_inv P X q' \<and> later X q q' \<and> (\<forall>e \<in> set (e # es). remembered X (cbs (seq_of q (snd e))) q q'))
          (case x of (ss, q) \<Rightarrow> Inr (sequence t # ss, q))" by simp
    qed
  qed
  with t(1) show ?case by simp
qed simp

lemma tq_inv_delete:
  assumes "tq_inv P ((w, a) # X) q"
  shows "tq_inv P X (q\<lparr>timer_heap := (timer_heap q)(a := None)\<rparr>)" (is "tq_inv P X ?q")
proof -
  note D = tq_invD [OF assms]
  have ne: "snd e \<noteq> a" if "e \<in> set (timers q) \<or> e \<in> set X" for e using that D(3) by (auto simp: owned_def)
  show ?thesis
    unfolding tq_inv_def
  proof (intro conjI)
    show "sorted (timers ?q)" "distinct (activeTimers ?q)" "distinct (owned X ?q)" using D(1-3) by (auto simp: owned_def)
    show "dom (timer_heap ?q) = set (owned X ?q)" using D(3,4) by (auto simp: owned_def)
    show "\<forall>e \<in> set (timers ?q) \<union> set X. map_option expiration (timer_heap ?q (snd e)) = Some (fst e)" using D(5) ne by auto
    show "set (activeTimers ?q) = (\<lambda>e. (snd e, seq_of ?q (snd e))) ` set (timers ?q)" using D(6) ne by (auto simp: seq_of_def intro!: image_cong)
    show "heap_ok P ?q" using D(7) by (simp add: heap_ok_def)
  qed
qed

lemma tq_inv_restart:
  assumes "tq_inv P ((w, a) # X) q" "timer_heap q a = Some t" "repeat t" "P \<longrightarrow> 0 < now"
  shows "tq_inv P ((now + increment t, a) # X) (q\<lparr>timer_heap := (timer_heap q)(a \<mapsto> restart now t)\<rparr>)" (is "tq_inv P ?X ?q")
proof -
  note D = tq_invD [OF assms(1)]
  have ne: "snd e \<noteq> a" if "e \<in> set (timers q) \<or> e \<in> set X" for e using that D(3) by (auto simp: owned_def)
  have r: "restart now t = t\<lparr>expiration := now + increment t\<rparr>" using assms(3) by (simp add: restart_def)
  show ?thesis
    unfolding tq_inv_def
  proof (intro conjI)
    show "sorted (timers ?q)" "distinct (activeTimers ?q)" "distinct (owned ?X ?q)" using D(1-3) by (auto simp: owned_def)
    show "dom (timer_heap ?q) = set (owned ?X ?q)" using D(4) by (auto simp: owned_def)
    show "\<forall>e \<in> set (timers ?q) \<union> set ?X. map_option expiration (timer_heap ?q (snd e)) = Some (fst e)" using D(5) ne r by auto
    show "set (activeTimers ?q) = (\<lambda>e. (snd e, seq_of ?q (snd e))) ` set (timers ?q)" using D(6) ne by (auto simp: seq_of_def intro!: image_cong)
    have "0 \<le> increment t" if P using D(7) assms(2) that by (auto simp: heap_ok_def)
    then show "heap_ok P ?q" using D(7) assms(2,4) by (auto simp: heap_ok_def r) force+
  qed
qed

text \<open>After the expired timers have been put back or deleted.\<close>

definition survives :: "(int \<times> int) list \<Rightarrow> TimerQueue \<Rightarrow> TimerQueue \<Rightarrow> bool" where
  "survives es q q' \<longleftrightarrow> (\<forall>a t'. timer_heap q' a = Some t' \<longrightarrow> (\<exists>t. timer_heap q a = Some t \<and> sequence t' = sequence t \<and>
     (a \<in> snd ` set es \<longrightarrow> repeat t \<and> (a, sequence t) \<notin> set (cancelingTimers q))))"

lemma survives_frame: "survives es (q\<lparr>callingExpiredTimers := b\<rparr>) q' = survives es q q'"
  by (simp add: survives_def)

lemma reset_expired_ok:
  assumes "tq_inv P es q" "P \<longrightarrow> 0 < now"
  shows "\<exists>q'. reset_expired now es q = Inr q' \<and> tq_inv P [] q' \<and> survives es q q' \<and> numCreated q' = numCreated q \<and> callingExpiredTimers q' = callingExpiredTimers q"
  using assms(1)
proof (induction es arbitrary: q)
  case Nil
  then show ?case by (auto simp: survives_def)
next
  case (Cons e es)
  obtain w a where e: "e = (w, a)" by fastforce
  obtain t where t: "timer_at a q = Inr t" "timer_heap q a = Some t" using timer_at_owned [OF Cons.prems, of a] e by (auto simp: owned_def)
  have na: "a \<notin> snd ` set es" using tq_invD(3) [OF Cons.prems] e by (auto simp: owned_def)
  show ?case
  proof (cases "repeat t \<and> (a, sequence t) \<notin> set (cancelingTimers q)")
    case True
    let ?q = "q\<lparr>timer_heap := (timer_heap q)(a \<mapsto> restart now t)\<rparr>"
    have "tq_inv P ((now + increment t, a) # es) ?q" using tq_inv_restart [of P w a es q t now] Cons.prems e t(2) True assms(2) by simp
    from insert_timer_ok [OF this] obtain as b q1 where q1: "insert_timer a ?q = Inr (b, q1)" "q1 = ?q\<lparr>timers := insort (now + increment t, a) (timers ?q), activeTimers := as\<rparr>"
        "tq_inv P es q1" by blast
    from Cons.IH [OF q1(3)] obtain q' where q': "reset_expired now es q1 = Inr q'" "tq_inv P [] q'" "survives es q1 q'" "numCreated q' = numCreated q1"
        "callingExpiredTimers q' = callingExpiredTimers q1" by blast
    have "survives (e # es) q q'"
      unfolding survives_def
    proof (intro allI impI)
      fix b t' assume "timer_heap q' b = Some t'"
      with q'(3) obtain u where "timer_heap q1 b = Some u" "sequence t' = sequence u" "b \<in> snd ` set es \<longrightarrow> repeat u \<and> (b, sequence u) \<notin> set (cancelingTimers q1)"
        unfolding survives_def by blast
      then show "\<exists>t. timer_heap q b = Some t \<and> sequence t' = sequence t \<and> (b \<in> snd ` set (e # es) \<longrightarrow> repeat t \<and> (b, sequence t) \<notin> set (cancelingTimers q))"
        using t(2) True e q1(2) by (cases "b = a") (auto simp: restart_def)
    qed
    with True t(1) e q1 q' show ?thesis by auto
  next
    case False
    let ?q = "q\<lparr>timer_heap := (timer_heap q)(a := None)\<rparr>"
    have "tq_inv P es ?q" using tq_inv_delete Cons.prems e by blast
    from Cons.IH [OF this] obtain q' where q': "reset_expired now es ?q = Inr q'" "tq_inv P [] q'" "survives es ?q q'" "numCreated q' = numCreated ?q"
        "callingExpiredTimers q' = callingExpiredTimers ?q" by blast
    have "survives (e # es) q q'" using q'(3) e unfolding survives_def by (auto split: if_splits) (metis option.distinct(1))+
    with False t(1) e q' show ?thesis by auto
  qed
qed

text \<open>The descriptor is set for a time.\<close>

lemma reset_fd_sets:
  "(case fd_sys f (fd_calls f) of (now, ok) \<Rightarrow>
     if ok then set_for (reset_fd w f) = Some (max w (now + 100)) \<and> set_at (reset_fd w f) = now \<and> settime_failed (reset_fd w f) = settime_failed f
     else settime_failed (reset_fd w f))"
proof -
  obtain now ok where sys: "fd_sys f (fd_calls f) = (now, ok)" by fastforce
  define us where "us = (if w - now < 100 then 100 else w - now)"
  have "us div kMicroSecondsPerSecond * kMicroSecondsPerSecond + us mod kMicroSecondsPerSecond = us" by simp
  then have "now + us div kMicroSecondsPerSecond * kMicroSecondsPerSecond + us mod kMicroSecondsPerSecond * 1000 div 1000 = max w (now + 100)"
    by (simp add: us_def)
  then show ?thesis using sys by (simp add: reset_fd_def howMuchTimeFromNow_def timerfd_settime_def us_def [symmetric] Let_def)
qed

text \<open>The descriptor is set for the first timer or earlier, or for 100 microseconds after it was set.\<close>

definition armed_ok :: "TimerQueue \<Rightarrow> bool" where
  "armed_ok q \<longleftrightarrow> timers q = [] \<or> settime_failed (timerfd q) \<or>
     set_for (timerfd q) \<noteq> None \<and> the (set_for (timerfd q)) \<le> max (fst (hd (timers q))) (set_at (timerfd q) + 100)"

lemma armed_reset_fd: "timers q \<noteq> [] \<Longrightarrow> w \<le> fst (hd (timers q)) \<Longrightarrow> timerfd q = reset_fd w f \<Longrightarrow> armed_ok q"
  using reset_fd_sets [where f = f and w = w] by (auto simp: armed_ok_def split: prod.splits if_splits)

lemma rearm_ok:
  assumes "tq_inv P [] q"
  shows "\<exists>w. rearm q = Inr (q\<lparr>timerfd := w\<rparr>) \<and> (P \<longrightarrow> armed_ok (q\<lparr>timerfd := w\<rparr>))"
proof (cases "timers q")
  case Nil
  then show ?thesis by (auto simp: rearm_def armed_ok_def intro: exI [of _ "timerfd q"])
next
  case (Cons e es)
  obtain t where t: "timer_at (snd e) q = Inr t" "timer_heap q (snd e) = Some t" using timer_at_owned [OF assms, of "snd e"] Cons by (auto simp: owned_def)
  have "expiration t = fst e" using tq_invD(5) [OF assms, of e] Cons t(2) by simp
  moreover have "P \<longrightarrow> 0 < expiration t" using tq_invD(7) [OF assms] t(2) by (auto simp: heap_ok_def)
  moreover have "armed_ok (q\<lparr>timerfd := reset_fd (fst e) (timerfd q)\<rparr>)" using Cons by (intro armed_reset_fd) simp_all
  ultimately show ?thesis using Cons t(1)
    by (cases "0 < expiration t") (auto simp: rearm_def resetTimerfd_def intro: exI [of _ "timerfd q"])
qed

text \<open>Timers after an alarm: old ones with their numbers, or new ones; an expired timer only when it repeats and has not been cancelled.\<close>

definition after_alarm :: "(int \<Rightarrow> timer_call list) \<Rightarrow> (int \<times> int) list \<Rightarrow> TimerQueue \<Rightarrow> TimerQueue \<Rightarrow> bool" where
  "after_alarm cbs X q q' \<longleftrightarrow> numCreated q \<le> numCreated q' \<and> (\<forall>a t'. timer_heap q' a = Some t' \<longrightarrow> numCreated q < sequence t' \<or>
     (\<exists>t. timer_heap q a = Some t \<and> sequence t' = sequence t \<and>
       (a \<in> snd ` set X \<longrightarrow> repeat t \<and> (\<forall>e \<in> set X. Cancel True (a, sequence t) \<notin> set (cbs (seq_of q (snd e)))))))"

lemma timer_handleRead_ok:
  assumes "tq_inv P [] q" "fresh_alloc alloc" "\<And>s. list_all (valid_call P) (cbs s)" "P \<longrightarrow> 0 < now"
  shows "no_failure (\<lambda>(ss, q'). ss = map (\<lambda>e. seq_of q (snd e)) (filter (\<lambda>e. fst e \<le> now) (timers q)) \<and> tq_inv P [] q' \<and> (P \<longrightarrow> armed_ok q') \<and>
    callingExpiredTimers q' = False \<and> after_alarm cbs (filter (\<lambda>e. fst e \<le> now) (timers q)) q q') (timer_handleRead alloc cbs now q)"
proof -
  let ?X = "filter (\<lambda>e. fst e \<le> now) (timers q)"
  from getExpired_ok [of P "q\<lparr>timerfd := (timerfd q)\<lparr>set_for := None\<rparr>\<rparr>" now] assms(1) obtain as q1 where
    q1: "getExpired now (q\<lparr>timerfd := (timerfd q)\<lparr>set_for := None\<rparr>\<rparr>) = Inr (?X, q1)" "q1 = q\<lparr>timerfd := (timerfd q)\<lparr>set_for := None\<rparr>, timers := filter (\<lambda>e. now < fst e) (timers q), activeTimers := as\<rparr>" "tq_inv P ?X q1"
    by (auto simp del: filter.simps)
  let ?q2 = "q1\<lparr>callingExpiredTimers := True, cancelingTimers := []\<rparr>"
  have q2: "tq_inv P ?X ?q2" "timer_heap ?q2 = timer_heap q" "numCreated ?q2 = numCreated q" "seq_of ?q2 = seq_of q" using q1 by (simp_all add: seq_of_def fun_eq_iff)
  have "no_failure (\<lambda>(ss, q'). ss = map (\<lambda>e. seq_of q (snd e)) ?X \<and> tq_inv P [] q' \<and> (P \<longrightarrow> armed_ok q') \<and> callingExpiredTimers q' = False \<and> after_alarm cbs ?X q q')
    (bindE (run_expired alloc cbs ?X ?q2) (\<lambda>(ss, q). bindE (reset ?X now (q\<lparr>callingExpiredTimers := False\<rparr>)) (\<lambda>q. Inr (ss, q))))"
  proof (rule outcome_bind [OF run_expired_ok [OF q2(1) assms(2,3) order.refl]])
    fix x assume x: "case x of (ss, q') \<Rightarrow> ss = map (\<lambda>e. seq_of ?q2 (snd e)) ?X \<and> tq_inv P ?X q' \<and> later ?X ?q2 q' \<and> (\<forall>e \<in> set ?X. remembered ?X (cbs (seq_of ?q2 (snd e))) ?q2 q')"
    obtain ss q3 where X: "x = (ss, q3)" by fastforce
    have q3: "ss = map (\<lambda>e. seq_of q (snd e)) ?X" "tq_inv P ?X q3" "later ?X ?q2 q3" "\<And>e. e \<in> set ?X \<Longrightarrow> remembered ?X (cbs (seq_of q (snd e))) ?q2 q3"
      using x unfolding X prod.case q2(4) by blast+
    from reset_expired_ok [of P ?X "q3\<lparr>callingExpiredTimers := False\<rparr>" now] q3(2) assms(4) obtain q4 where
      q4: "reset_expired now ?X (q3\<lparr>callingExpiredTimers := False\<rparr>) = Inr q4" "tq_inv P [] q4" "survives ?X (q3\<lparr>callingExpiredTimers := False\<rparr>) q4" "numCreated q4 = numCreated q3"
      "callingExpiredTimers q4 = False" by auto
    from rearm_ok [OF q4(2)] obtain w where w: "rearm q4 = Inr (q4\<lparr>timerfd := w\<rparr>)" "P \<longrightarrow> armed_ok (q4\<lparr>timerfd := w\<rparr>)" by blast
    have "after_alarm cbs ?X q (q4\<lparr>timerfd := w\<rparr>)"
      unfolding after_alarm_def
    proof (intro conjI allI impI)
      show "numCreated q \<le> numCreated (q4\<lparr>timerfd := w\<rparr>)" using q3(3) q2(3) q4(4) by (simp add: later_def)
      fix a t' assume "timer_heap (q4\<lparr>timerfd := w\<rparr>) a = Some t'"
      then have "timer_heap q4 a = Some t'" by simp
      then obtain t where t: "timer_heap q3 a = Some t" "sequence t' = sequence t" "a \<in> snd ` set ?X \<longrightarrow> repeat t \<and> (a, sequence t) \<notin> set (cancelingTimers q3)"
        using q4(3) unfolding survives_frame unfolding survives_def by blast
      have old: "timer_heap q a = Some t \<or> numCreated q < sequence t" using q3(3) t(1) q2(2,3) unfolding later_def by auto
      have "Cancel True (a, sequence t) \<notin> set (cbs (seq_of q (snd e)))" if "a \<in> snd ` set ?X" "e \<in> set ?X" for e
      proof
        assume "Cancel True (a, sequence t) \<in> set (cbs (seq_of q (snd e)))"
        moreover have "callingExpiredTimers ?q2" by simp
        ultimately have "(a, sequence t) \<in> set (cancelingTimers q3)" using q3(4) [OF that(2)] that(1) unfolding remembered_def by auto
        with t(3) that(1) show False by blast
      qed
      with old t show "numCreated q < sequence t' \<or> (\<exists>t. timer_heap q a = Some t \<and> sequence t' = sequence t \<and>
          (a \<in> snd ` set ?X \<longrightarrow> repeat t \<and> (\<forall>e \<in> set ?X. Cancel True (a, sequence t) \<notin> set (cbs (seq_of q (snd e))))))" by auto
    qed
    with X q3(1) q4 w show "no_failure (\<lambda>(ss, q'). ss = map (\<lambda>e. seq_of q (snd e)) ?X \<and> tq_inv P [] q' \<and> (P \<longrightarrow> armed_ok q') \<and> callingExpiredTimers q' = False \<and> after_alarm cbs ?X q q')
        (case x of (ss, q) \<Rightarrow> bindE (reset ?X now (q\<lparr>callingExpiredTimers := False\<rparr>)) (\<lambda>q. Inr (ss, q)))"
      by (simp add: reset_def)
  qed
  with q1(1) show ?thesis by (simp add: timer_handleRead_def)
qed

section \<open>Arming the descriptor\<close>

lemma hd_insort: "fst (hd (insort (w, a) (e # es))) = min w (fst e)"
  by (cases e) (auto simp: min_def)

lemma addTimerInLoop_armed:
  assumes "tq_inv P ((w, a) # X) q" "armed_ok q" "addTimerInLoop a q = Inr q'"
  shows "armed_ok q'"
proof -
  have q': "timers q' = insort (w, a) (timers q)" "timerfd q' = (if timers q = [] \<or> w < fst (hd (timers q)) then reset_fd w (timerfd q) else timerfd q)"
    using addTimerInLoop_ok [OF assms(1)] assms(3) by auto
  show ?thesis
  proof (cases "timers q")
    case Nil
    with q' show ?thesis by (intro armed_reset_fd [of q' w "timerfd q"]) simp_all
  next
    case (Cons e es)
    have h: "fst (hd (timers q')) = min w (fst e)" using hd_insort [of w a e es] q'(1) Cons by simp
    show ?thesis
    proof (cases "w < fst e")
      case True
      with q' Cons h show ?thesis by (intro armed_reset_fd [of q' w "timerfd q"]) (simp_all add: insort_not_Nil)
    next
      case False
      with q'(2) Cons h assms(2) show ?thesis by (auto simp: armed_ok_def)
    qed
  qed
qed

lemma cancelInLoop_armed:
  assumes "tq_inv P X q" "armed_ok q" "cancelInLoop tid q = Inr q'"
  shows "armed_ok q'"
proof -
  have q': "set (timers q') \<subseteq> set (timers q)" "timerfd q' = timerfd q" using cancelInLoop_ok [OF assms(1), of tid] assms(3) by auto
  show ?thesis
  proof (cases "timers q'")
    case (Cons f fs)
    then have f: "f \<in> set (timers q)" using q'(1) by auto
    then obtain e es where e: "timers q = e # es" by (cases "timers q") auto
    then have "e \<le> f" using f tq_invD(1) [OF assms(1)] by auto
    then have "fst e \<le> fst f" by (cases e, cases f) auto
    with e Cons q'(2) assms(2) show ?thesis by (auto simp: armed_ok_def)
  qed (simp add: armed_ok_def)
qed

lemma armed_frame [simp]: "armed_ok (q\<lparr>pendingTimers := fs\<rparr>) = armed_ok q" by (simp add: armed_ok_def)

lemma timer_call_armed:
  assumes "tq_inv P X q" "fresh_alloc alloc" "valid_call P c" "armed_ok q" "timer_call alloc c q = Inr q'"
  shows "armed_ok q'"
proof (cases c)
  case (Add l w i r)
  then obtain tid where "addTimer alloc l w i r q = Inr (tid, q')" using assms(5) by (auto simp: timer_call_def bindE_eq_Inr)
  then obtain q1 where q1: "create_timer alloc w i r q = Inr (tid, q1)"
    "if l then addTimerInLoop (fst tid) q1 = Inr q' else q' = q1\<lparr>pendingTimers := pendingTimers q1 @ [AddTimerInLoop (fst tid)]\<rparr>"
    by (auto simp: addTimer_def bindE_eq_Inr split: if_splits)
  have "P \<longrightarrow> 0 < w \<and> 0 \<le> i" using assms(3) Add by (simp add: valid_call_def)
  from create_timer_ok [OF assms(1,2) this, of r] q1(1) have "tq_inv P ((w, fst tid) # X) q1" "armed_ok q1" using assms(4) by (auto simp: armed_ok_def)
  with q1(2) addTimerInLoop_armed show ?thesis by (auto split: if_splits)
next
  case (Cancel l tid)
  with assms(1,4,5) cancelInLoop_armed show ?thesis by (auto simp: timer_call_def cancel_def split: if_splits)
qed

lemma run_pending_ok:
  assumes "tq_inv P [] q"
  shows "\<exists>q'. run_pending q = Inr q' \<and> tq_inv P [] q' \<and> later [] q q' \<and> (armed_ok q \<longrightarrow> armed_ok q')"
proof (cases "pendingTimers q")
  case Nil
  with assms show ?thesis by (simp add: run_pending_def)
next
  case (Cons f fs)
  show ?thesis
  proof (cases f)
    case (AddTimerInLoop a)
    obtain t where t: "timer_heap q a = Some t" using timer_at_owned [OF assms, of a] Cons AddTimerInLoop by (auto simp: owned_def)
    have i: "tq_inv P ((expiration t, a) # []) (q\<lparr>pendingTimers := fs\<rparr>)"
      using assms Cons AddTimerInLoop t by (auto simp: tq_inv_def owned_def heap_ok_def seq_of_def)
    obtain q' where q': "addTimerInLoop a (q\<lparr>pendingTimers := fs\<rparr>) = Inr q'" using addTimerInLoop_ok [OF i] by blast
    with addTimerInLoop_ok [OF i] addTimerInLoop_armed [OF i _ q'] Cons AddTimerInLoop show ?thesis by (auto simp: run_pending_def later_def keeps_heap_def)
  next
    case (CancelInLoop tid)
    have i: "tq_inv P [] (q\<lparr>pendingTimers := fs\<rparr>)" using assms Cons CancelInLoop by (auto simp: tq_inv_def owned_def heap_ok_def seq_of_def)
    obtain q' where q': "cancelInLoop tid (q\<lparr>pendingTimers := fs\<rparr>) = Inr q'" using cancelInLoop_ok [OF i] by blast
    with cancelInLoop_ok [OF i, of tid] cancelInLoop_armed [OF i _ q'] Cons CancelInLoop show ?thesis by (auto simp: run_pending_def later_def keeps_heap_def)
  qed
qed

section \<open>Runs\<close>

text \<open>What happens to a queue: calls of the loop thread and of others, functors that the loop runs, and alarms at a time, with the calls of every callback.\<close>

datatype timer_event = Call timer_call | Functor | Alarm int "int \<Rightarrow> timer_call list"

definition timer_event :: "allocator \<Rightarrow> timer_event \<Rightarrow> TimerQueue \<Rightarrow> (int list \<times> TimerQueue) tres" where
  "timer_event alloc ev q = (case ev of
       Call c \<Rightarrow> bindE (timer_call alloc c q) (\<lambda>q. Inr ([], q))
     | Functor \<Rightarrow> bindE (run_pending q) (\<lambda>q. Inr ([], q))
     | Alarm now cbs \<Rightarrow> timer_handleRead alloc cbs now q)"

primrec timer_run :: "allocator \<Rightarrow> timer_event list \<Rightarrow> TimerQueue \<Rightarrow> (int list \<times> TimerQueue) tres" where
  "timer_run alloc [] q = Inr ([], q)"
| "timer_run alloc (ev # evs) q =
     bindE (timer_event alloc ev q) (\<lambda>(ss, q). bindE (timer_run alloc evs q) (\<lambda>(ss', q). Inr (ss @ ss', q)))"

definition valid_event :: "bool \<Rightarrow> timer_event \<Rightarrow> bool" where
  "valid_event P ev \<longleftrightarrow> (case ev of Call c \<Rightarrow> valid_call P c | Functor \<Rightarrow> True | Alarm now cbs \<Rightarrow> (P \<longrightarrow> 0 < now) \<and> (\<forall>s. list_all (valid_call P) (cbs s)))"

text \<open>A number that no timer has or will have again.\<close>

definition gone :: "int \<Rightarrow> TimerQueue \<Rightarrow> bool" where
  "gone s q \<longleftrightarrow> s \<le> numCreated q \<and> (\<forall>a t. timer_heap q a = Some t \<longrightarrow> sequence t \<noteq> s)"

lemma gone_later: "gone s q \<Longrightarrow> later X q q' \<Longrightarrow> gone s q'"
  unfolding gone_def later_def by force

lemma gone_alarm: "gone s q \<Longrightarrow> after_alarm cbs X q q' \<Longrightarrow> gone s q'"
proof -
  assume g: "gone s q" and a: "after_alarm cbs X q q'"
  have "sequence t' \<noteq> s" if "timer_heap q' b = Some t'" for b t'
    using a g that unfolding after_alarm_def gone_def by fastforce
  then show "gone s q'" using a g unfolding after_alarm_def gone_def by fastforce
qed

lemma timer_event_ok:
  assumes "tq_inv P [] q" "fresh_alloc alloc" "valid_event P ev"
  shows "no_failure (\<lambda>(ss, q'). tq_inv P [] q' \<and> (P \<longrightarrow> armed_ok q \<longrightarrow> armed_ok q') \<and> (\<forall>s. gone s q \<longrightarrow> gone s q' \<and> s \<notin> set ss)) (timer_event alloc ev q)"
proof (cases ev)
  case (Call c)
  then have c: "valid_call P c" using assms(3) by (simp add: valid_event_def)
  show ?thesis
    using timer_call_ok [OF assms(1,2) c] timer_call_armed [OF assms(1,2) c] gone_later Call
    by (cases "timer_call alloc c q") (auto simp: timer_event_def)
next
  case Functor
  with run_pending_ok [OF assms(1)] gone_later show ?thesis by (auto simp: timer_event_def)
next
  case (Alarm now cbs)
  have v: "P \<longrightarrow> 0 < now" "\<And>s. list_all (valid_call P) (cbs s)" using assms(3) Alarm by (simp_all add: valid_event_def)
  let ?X = "filter (\<lambda>e. fst e \<le> now) (timers q)"
  have live: "\<exists>a t. timer_heap q a = Some t \<and> sequence t = seq_of q (snd e)" if "e \<in> set ?X" for e
    using tq_invD(5) [OF assms(1), of e] that by (fastforce simp: seq_of_def)
  have fired: "s \<notin> set (map (\<lambda>e. seq_of q (snd e)) ?X)" if "gone s q" for s
  proof
    assume "s \<in> set (map (\<lambda>e. seq_of q (snd e)) ?X)"
    then obtain e where "e \<in> set ?X" "s = seq_of q (snd e)" by auto
    with live that show False unfolding gone_def by metis
  qed
  have "no_failure (\<lambda>(ss, q'). ss = map (\<lambda>e. seq_of q (snd e)) ?X \<and> tq_inv P [] q' \<and> (P \<longrightarrow> armed_ok q') \<and> callingExpiredTimers q' = False \<and> after_alarm cbs ?X q q')
      (timer_handleRead alloc cbs now q)"
    by (rule timer_handleRead_ok) (use assms v in blast)+
  then have "no_failure (\<lambda>(ss, q'). tq_inv P [] q' \<and> (P \<longrightarrow> armed_ok q \<longrightarrow> armed_ok q') \<and> (\<forall>s. gone s q \<longrightarrow> gone s q' \<and> s \<notin> set ss)) (timer_handleRead alloc cbs now q)"
    by (rule outcome_weaken) (use fired gone_alarm in \<open>auto simp del: set_map set_filter\<close>)
  with Alarm show ?thesis by (simp add: timer_event_def)
qed

lemma timer_run_ok:
  assumes "tq_inv P [] q" "fresh_alloc alloc" "list_all (valid_event P) evs"
  shows "no_failure (\<lambda>(ss, q'). tq_inv P [] q' \<and> (P \<longrightarrow> armed_ok q \<longrightarrow> armed_ok q') \<and> (\<forall>s. gone s q \<longrightarrow> gone s q' \<and> s \<notin> set ss)) (timer_run alloc evs q)"
  using assms(1,3)
proof (induction evs arbitrary: q)
  case (Cons ev evs)
  have ev: "no_failure (\<lambda>(ss, q'). tq_inv P [] q' \<and> (P \<longrightarrow> armed_ok q \<longrightarrow> armed_ok q') \<and> (\<forall>s. gone s q \<longrightarrow> gone s q' \<and> s \<notin> set ss)) (timer_event alloc ev q)"
    using timer_event_ok [OF Cons.prems(1) assms(2)] Cons.prems(2) by simp
  show ?case
  proof (simp, rule outcome_bind [OF ev])
    fix x assume x: "case x of (ss, q') \<Rightarrow> tq_inv P [] q' \<and> (P \<longrightarrow> armed_ok q \<longrightarrow> armed_ok q') \<and> (\<forall>s. gone s q \<longrightarrow> gone s q' \<and> s \<notin> set ss)"
    obtain ss q1 where X: "x = (ss, q1)" by fastforce
    have "no_failure (\<lambda>(ss, q'). tq_inv P [] q' \<and> (P \<longrightarrow> armed_ok q1 \<longrightarrow> armed_ok q') \<and> (\<forall>s. gone s q1 \<longrightarrow> gone s q' \<and> s \<notin> set ss)) (timer_run alloc evs q1)"
      using Cons x X by auto
    with x X show "no_failure (\<lambda>(ss, q'). tq_inv P [] q' \<and> (P \<longrightarrow> armed_ok q \<longrightarrow> armed_ok q') \<and> (\<forall>s. gone s q \<longrightarrow> gone s q' \<and> s \<notin> set ss))
        (case x of (ss, q) \<Rightarrow> bindE (timer_run alloc evs q) (\<lambda>(ss', q). Inr (ss @ ss', q)))"
      by (auto intro!: outcome_bind)
  qed
qed simp

lemma delete_timers_ok:
  "tq_inv P es (q\<lparr>timers := [], activeTimers := []\<rparr>) \<Longrightarrow> \<exists>h. delete_timers es q = Inr (q\<lparr>timer_heap := h\<rparr>) \<and> dom h = set (pend_addrs (pendingTimers q))"
proof (induction es arbitrary: q)
  case Nil
  have "dom (timer_heap q) = set (pend_addrs (pendingTimers q))" using tq_invD(4) [OF Nil] by (simp add: owned_def)
  then show ?case by (auto intro!: exI [of _ "timer_heap q"])
next
  case (Cons e es)
  obtain w a where e: "e = (w, a)" by fastforce
  obtain t where t: "timer_heap q a = Some t" using timer_at_owned [OF Cons.prems, of a] e by (auto simp: owned_def)
  let ?q = "q\<lparr>timer_heap := (timer_heap q)(a := None)\<rparr>"
  have "tq_inv P es (q\<lparr>timers := [], activeTimers := [], timer_heap := (timer_heap q)(a := None)\<rparr>)"
    using tq_inv_delete [of P w a es "q\<lparr>timers := [], activeTimers := []\<rparr>"] Cons.prems e by simp
  moreover have "?q\<lparr>timers := [], activeTimers := []\<rparr> = q\<lparr>timers := [], activeTimers := [], timer_heap := (timer_heap q)(a := None)\<rparr>" by (cases q) simp
  ultimately have "tq_inv P es (?q\<lparr>timers := [], activeTimers := []\<rparr>)" by metis
  from Cons.IH [OF this] obtain h where "delete_timers es ?q = Inr (?q\<lparr>timer_heap := h\<rparr>)" "dom h = set (pend_addrs (pendingTimers q))" by auto
  with t e show ?case by (auto simp: timer_at_def)
qed

lemma destroy_ok:
  assumes "tq_inv P [] q"
  shows "\<exists>q'. destroyTimerQueue q = Inr q' \<and> dom (timer_heap q') = set (pend_addrs (pendingTimers q))"
proof -
  have "tq_inv P (timers q) (q\<lparr>timers := [], activeTimers := []\<rparr>)"
    using assms by (auto simp: tq_inv_def owned_def heap_ok_def)
  from delete_timers_ok [OF this] show ?thesis by (auto simp: destroyTimerQueue_def)
qed

text \<open>The events of a run in which the loop thread and others use the queue as they like; nothing is required of the times.\<close>

lemma valid_event_False [simp]: "valid_event False ev"
  by (auto simp: valid_event_def valid_call_def list_all_iff split: timer_event.split timer_call.split)

text \<open>An environment for the witnesses: a clock that goes on by a microsecond and a kernel that sets the descriptor; and an allocator, the lowest free address of a
  small range.\<close>

definition steady :: "nat \<Rightarrow> int \<times> bool" where
  "steady k = (int k, True)"

definition first_free :: allocator where
  "first_free h = find (\<lambda>a. h a = None) [1..8]"

lemma first_free_fresh: "fresh_alloc first_free"
  by (auto simp: fresh_alloc_def first_free_def UINTPTR_MAX_def find_Some_iff)

lemma tres_result: "\<not> isl r \<Longrightarrow> (\<And>ss q. r = Inr (ss, q) \<Longrightarrow> thesis) \<Longrightarrow> thesis" for r :: "('a \<times> 'b) tres"
  by (cases r) auto

text \<open>Property C35. Timers are handled safely: whatever sequence of additions and cancellations by the loop thread and by others, of queued functors and of alarms happens,
  and whatever the callbacks of the timers do to the queue, themselves included, no assertion fails and no deleted timer is used; the only error is the
  exception of the allocator.  The destructor then deletes every timer except those whose functor has not run yet.\<close>

theorem timer_queue_safe:
  assumes "fresh_alloc alloc"
  shows "case timer_run alloc evs (newTimerQueue sys) of Inl e \<Rightarrow> e = BadAlloc
     | Inr (ss, q) \<Rightarrow> \<exists>q'. destroyTimerQueue q = Inr q' \<and> dom (timer_heap q') = set (pend_addrs (pendingTimers q))"
proof -
  have "no_failure (\<lambda>(ss, q'). tq_inv False [] q' \<and> (False \<longrightarrow> armed_ok (newTimerQueue sys) \<longrightarrow> armed_ok q') \<and> (\<forall>s. gone s (newTimerQueue sys) \<longrightarrow> gone s q' \<and> s \<notin> set ss))
      (timer_run alloc evs (newTimerQueue sys))"
    by (rule timer_run_ok [OF new_tq_inv assms]) (simp add: list_all_iff)
  then show ?thesis using destroy_ok by (auto simp: outcome_def split: sum.splits)
qed

theorem timer_queue_safe_witness:
  "case timer_run first_free [Call (Add True 5 0 False), Alarm 7 (\<lambda>s. [Cancel True (1, 1), Add False 9 2 True]), Functor] (newTimerQueue steady) of Inl e \<Rightarrow> e = BadAlloc
     | Inr (ss, q) \<Rightarrow> \<exists>q'. destroyTimerQueue q = Inr q' \<and> dom (timer_heap q') = set (pend_addrs (pendingTimers q))"
  by (rule timer_queue_safe [OF first_free_fresh])

text \<open>Property C36. Timers fire in order and never early: an alarm at time \<open>now\<close> runs exactly the callbacks of the timers of the queue that expire at \<open>now\<close> or before, each
  once, ordered by their time of expiry, whatever the callbacks add or cancel meanwhile.\<close>

theorem timers_fire_in_order:
  assumes "fresh_alloc alloc" "timer_run alloc evs (newTimerQueue sys) = Inr (ss0, q)" "timer_handleRead alloc cbs now q = Inr (ss, q')"
  shows "ss = map (\<lambda>e. seq_of q (snd e)) (filter (\<lambda>e. fst e \<le> now) (timers q)) \<and> sorted (timers q) \<and> distinct ss \<and>
    (\<forall>e \<in> set (timers q). \<exists>t. timer_heap q (snd e) = Some t \<and> expiration t = fst e)"
proof -
  have v: "list_all (valid_event False) evs" by (simp add: list_all_iff)
  have i: "tq_inv False [] q" using timer_run_ok [OF new_tq_inv [of False sys] assms(1) v] assms(2) by simp
  have "no_failure (\<lambda>(ss, q'). ss = map (\<lambda>e. seq_of q (snd e)) (filter (\<lambda>e. fst e \<le> now) (timers q)) \<and> tq_inv False [] q' \<and> (False \<longrightarrow> armed_ok q') \<and>
      callingExpiredTimers q' = False \<and> after_alarm cbs (filter (\<lambda>e. fst e \<le> now) (timers q)) q q') (timer_handleRead alloc cbs now q)"
    by (rule timer_handleRead_ok [OF i assms(1)]) (auto simp: valid_call_def list_all_iff split: timer_call.split)
  with assms(3) have ss: "ss = map (\<lambda>e. seq_of q (snd e)) (filter (\<lambda>e. fst e \<le> now) (timers q))" by simp
  have t: "\<exists>t. timer_heap q (snd e) = Some t \<and> expiration t = fst e" if "e \<in> set (timers q)" for e using tq_invD(5) [OF i, of e] that by auto
  have "inj_on (\<lambda>e. seq_of q (snd e)) (set (timers q))"
  proof (rule inj_onI)
    fix e f assume ef: "e \<in> set (timers q)" "f \<in> set (timers q)" "seq_of q (snd e) = seq_of q (snd f)"
    then have "snd e = snd f" using t [OF ef(1)] t [OF ef(2)] tq_invD(7) [OF i] by (auto simp: heap_ok_def seq_of_def)
    then show "e = f" using inj_onD [OF timers_inj(1) [OF i]] ef by blast
  qed
  then have "distinct ss" unfolding ss using timers_inj(2) [OF i] by (simp add: distinct_map inj_on_def)
  with ss t tq_invD(1) [OF i] show ?thesis by blast
qed

theorem timers_fire_in_order_witness:
  "\<exists>ss0 q ss q'. timer_run first_free [Call (Add True 9 0 False), Call (Add True 5 0 False), Call (Add True 8 0 False)] (newTimerQueue steady) = Inr (ss0, q) \<and>
     timer_handleRead first_free (\<lambda>s. [Cancel True (3, 3)]) 8 q = Inr (ss, q') \<and> ss = [2, 3]"
proof -
  let ?evs = "[Call (Add True 9 0 False), Call (Add True 5 0 False), Call (Add True 8 0 False)]"
  have "case timer_run first_free ?evs (newTimerQueue steady) of Inl _ \<Rightarrow> False | Inr (ss0, q) \<Rightarrow>
      map (\<lambda>e. seq_of q (snd e)) (filter (\<lambda>e. fst e \<le> 8) (timers q)) = [2, 3] \<and> \<not> isl (timer_handleRead first_free (\<lambda>s. [Cancel True (3, 3)]) 8 q)"
    by code_simp
  then obtain ss0 q where q: "timer_run first_free ?evs (newTimerQueue steady) = Inr (ss0, q)" "map (\<lambda>e. seq_of q (snd e)) (filter (\<lambda>e. fst e \<le> 8) (timers q)) = [2, 3]"
    "\<not> isl (timer_handleRead first_free (\<lambda>s. [Cancel True (3, 3)]) 8 q)"
    by (cases "timer_run first_free ?evs (newTimerQueue steady)") (auto simp del: timer_run.simps)
  from q(3) obtain ss q' where h: "timer_handleRead first_free (\<lambda>s. [Cancel True (3, 3)]) 8 q = Inr (ss, q')" by (rule tres_result)
  from timers_fire_in_order [OF first_free_fresh q(1) h] q(2) have "ss = [2, 3]" by argo
  with q(1) h show ?thesis by blast
qed





text \<open>Property C19. No timer is forgotten: when all times are positive and no \<open>timerfd_settime\<close> has failed, the timer descriptor is set whenever the queue has a timer,
  and for no later than the expiry of its first timer or, when that is past or nearer than 100 microseconds, 100 microseconds after the descriptor was set; so the
  alarm that runs the timer will come.\<close>

theorem timer_descriptor_armed:
  assumes "fresh_alloc alloc" "list_all (valid_event True) evs" "timer_run alloc evs (newTimerQueue sys) = Inr (ss, q)" "timers q = (w, a) # es"
    "\<not> settime_failed (timerfd q)"
  shows "\<exists>v. set_for (timerfd q) = Some v \<and> v \<le> max w (set_at (timerfd q) + 100)"
proof -
  have "armed_ok (newTimerQueue sys)" by (simp add: armed_ok_def newTimerQueue_def)
  then have "armed_ok q" using timer_run_ok [OF new_tq_inv [of True sys] assms(1,2)] assms(3) by simp
  with assms(4,5) show ?thesis by (auto simp: armed_ok_def)
qed

theorem timer_descriptor_armed_witness:
  "\<exists>ss q v. timer_run first_free [Call (Add True 500 0 False), Call (Add True 300 0 False), Call (Cancel True (2, 2)), Call (Add True 5 0 False)] (newTimerQueue steady) = Inr (ss, q) \<and>
     timers q = [(5, 2), (500, 1)] \<and> set_for (timerfd q) = Some v \<and> v \<le> 102"
proof -
  let ?evs = "[Call (Add True 500 0 False), Call (Add True 300 0 False), Call (Cancel True (2, 2)), Call (Add True 5 0 False)]"
  have "case timer_run first_free ?evs (newTimerQueue steady) of Inl _ \<Rightarrow> False
      | Inr (ss, q) \<Rightarrow> timers q = [(5, 2), (500, 1)] \<and> \<not> settime_failed (timerfd q) \<and> set_at (timerfd q) = 2" by code_simp
  then obtain ss q where r: "timer_run first_free ?evs (newTimerQueue steady) = Inr (ss, q)" "timers q = [(5, 2), (500, 1)]" "\<not> settime_failed (timerfd q)"
    "set_at (timerfd q) = 2"
    by (auto split: sum.splits simp del: timer_run.simps)
  have "list_all (valid_event True) ?evs" by (simp add: valid_event_def valid_call_def)
  from timer_descriptor_armed [OF first_free_fresh this r(1-3)] r obtain v where "set_for (timerfd q) = Some v" "v \<le> 102" by auto
  with r(1,2) show ?thesis by blast
qed

text \<open>A cancellation by the loop thread has no effect while the functor that inserts the timer is still queued.\<close>

lemma queued_timer_not_cancelled:
  "case timer_run first_free [Call (Add False 5 0 False), Call (Cancel True (1, 1)), Functor, Alarm 6 (\<lambda>s. [])] (newTimerQueue steady) of Inl _ \<Rightarrow> False | Inr (ss, q) \<Rightarrow> ss = [1]"
  by code_simp

end
