(* ===== verification/Pollers.thy ===== *)
theory Pollers
  imports Prelude
begin

text \<open>
  The event loop of the network library and its two pollers: the channels of \<^verbatim>\<open>src/muduo/net/Channel.h\<close> and \<^verbatim>\<open>Channel.cc\<close> as the loop sees
  them, \<^verbatim>\<open>Poller.cc\<close>, \<^verbatim>\<open>poller/EPollPoller.cc\<close>, \<^verbatim>\<open>poller/PollPoller.cc\<close> and the turns of \<open>EventLoop::loop\<close> in \<^verbatim>\<open>EventLoop.cc\<close>.  Channels live in a
  heap and the pollers keep their addresses, so that a dereference of a deleted channel is an error of the model.  The loop is written over the
  virtual functions of the poller.  The calls \<open>epoll_ctl\<close>, \<open>epoll_wait\<close> and \<open>poll\<close> are the kernel's: \<open>epoll_ctl\<close> is an argument of the
  operations, and the answer of a wait is an argument of the turn.  All operations are run by the thread of the loop, which the code asserts.
\<close>

section \<open>Channels\<close>

type_synonym ev = "32 word"

record Channel =
  ch_fd :: int
  ch_events :: ev
  ch_revents :: ev
  ch_index :: int
  ch_handling :: bool
  ch_added :: bool

definition kNoneEvent :: ev where "kNoneEvent = 0"

definition kReadEvent :: ev where "kReadEvent = 1 OR 2"

definition kWriteEvent :: ev where "kWriteEvent = 4"

definition newChannel :: "int \<Rightarrow> Channel" where
  "newChannel fd = \<lparr>ch_fd = fd, ch_events = 0, ch_revents = 0, ch_index = - 1, ch_handling = False, ch_added = False\<rparr>"

definition ch_isNoneEvent :: "Channel \<Rightarrow> bool" where
  "ch_isNoneEvent c \<longleftrightarrow> ch_events c = kNoneEvent"

section \<open>The base class of the pollers\<close>

text \<open>
  \<open>channels\<close> is the member \<open>channels_\<close>, \<open>impl\<close> the members of the derived class; the heap of the channels is part of the state that its operations
  change.  \<open>SysFatal\<close> is the abort of \<open>LOG_SYSFATAL\<close>.
\<close>

datatype poller_error = AssertFailed | Dangling | SysFatal

record 'p Poller =
  ch_heap :: "nat \<Rightarrow> Channel option"
  channels :: "int \<Rightarrow> nat option"
  impl :: 'p

type_synonym 'p presult = "poller_error + 'p Poller"

definition deref :: "nat \<Rightarrow> 'p Poller \<Rightarrow> poller_error + Channel" where
  "deref p w = (case ch_heap w p of None \<Rightarrow> Inl Dangling | Some c \<Rightarrow> Inr c)"

definition set_chan :: "nat \<Rightarrow> Channel \<Rightarrow> 'p Poller \<Rightarrow> 'p Poller" where
  "set_chan p c w = w\<lparr>ch_heap := (ch_heap w)(p := Some c)\<rparr>"

definition hasChannel :: "nat \<Rightarrow> 'p Poller \<Rightarrow> poller_error + bool" where
  "hasChannel p w = bindE (deref p w) (\<lambda>c. Inr (channels w (ch_fd c) = Some p))"

definition assertE :: "bool \<Rightarrow> poller_error + unit" where
  "assertE b = guardE b AssertFailed"

section \<open>The poller over \<open>epoll\<close>\<close>

datatype ctl_op = EPOLL_CTL_ADD | EPOLL_CTL_MOD | EPOLL_CTL_DEL

text \<open>\<open>epoll_ctl\<close> takes the operation, the descriptor, the event with its pointer and the state of the kernel; \<open>None\<close> is its return value \<open>-1\<close>.\<close>

type_synonym 'k epoll_ctl = "ctl_op \<Rightarrow> int \<Rightarrow> ev \<times> nat \<Rightarrow> 'k \<Rightarrow> 'k option"

record 'k EPollPoller =
  kernel :: 'k
  event_list :: "(ev \<times> nat) list"

definition kNew :: int where "kNew = - 1"

definition kAdded :: int where "kAdded = 1"

definition kDeleted :: int where "kDeleted = 2"

definition kInitEventListSize :: nat where "kInitEventListSize = 16"

definition newEPollPoller :: "'k \<Rightarrow> 'k EPollPoller Poller" where
  "newEPollPoller k = \<lparr>ch_heap = Map.empty, channels = Map.empty, impl = \<lparr>kernel = k, event_list = replicate kInitEventListSize (0, 0)\<rparr>\<rparr>"

definition epoll_update :: "'k epoll_ctl \<Rightarrow> ctl_op \<Rightarrow> nat \<Rightarrow> 'k EPollPoller Poller \<Rightarrow> 'k EPollPoller presult" where
  "epoll_update ctl operation p w = bindE (deref p w) (\<lambda>c.
     case ctl operation (ch_fd c) (ch_events c, p) (kernel (impl w)) of
       None \<Rightarrow> if operation = EPOLL_CTL_DEL then Inr w else Inl SysFatal
     | Some k \<Rightarrow> Inr (w\<lparr>impl := (impl w)\<lparr>kernel := k\<rparr>\<rparr>))"

definition set_index :: "nat \<Rightarrow> int \<Rightarrow> 'p Poller \<Rightarrow> 'p presult" where
  "set_index p i w = bindE (deref p w) (\<lambda>c. Inr (set_chan p (c\<lparr>ch_index := i\<rparr>) w))"

definition epoll_updateChannel :: "'k epoll_ctl \<Rightarrow> nat \<Rightarrow> 'k EPollPoller Poller \<Rightarrow> 'k EPollPoller presult" where
  "epoll_updateChannel ctl p w = bindE (deref p w) (\<lambda>c.
     let index = ch_index c; fd = ch_fd c in
     if index = kNew \<or> index = kDeleted then
       bindE (if index = kNew then bindE (assertE (channels w fd = None)) (\<lambda>_. Inr (w\<lparr>channels := (channels w)(fd := Some p)\<rparr>))
              else bindE (assertE (channels w fd \<noteq> None)) (\<lambda>_. bindE (assertE (channels w fd = Some p)) (\<lambda>_. Inr w)))
         (\<lambda>w. bindE (set_index p kAdded w) (epoll_update ctl EPOLL_CTL_ADD p))
     else
       bindE (assertE (channels w fd \<noteq> None)) (\<lambda>_.
       bindE (assertE (channels w fd = Some p)) (\<lambda>_.
       bindE (assertE (index = kAdded)) (\<lambda>_.
       if ch_isNoneEvent c then bindE (epoll_update ctl EPOLL_CTL_DEL p w) (set_index p kDeleted)
       else epoll_update ctl EPOLL_CTL_MOD p w))))"

definition epoll_removeChannel :: "'k epoll_ctl \<Rightarrow> nat \<Rightarrow> 'k EPollPoller Poller \<Rightarrow> 'k EPollPoller presult" where
  "epoll_removeChannel ctl p w = bindE (deref p w) (\<lambda>c.
     let fd = ch_fd c; index = ch_index c in
     bindE (assertE (channels w fd \<noteq> None)) (\<lambda>_.
     bindE (assertE (channels w fd = Some p)) (\<lambda>_.
     bindE (assertE (ch_isNoneEvent c)) (\<lambda>_.
     bindE (assertE (index = kAdded \<or> index = kDeleted)) (\<lambda>_.
     let w1 = w\<lparr>channels := (channels w)(fd := None)\<rparr> in
     bindE (if index = kAdded then epoll_update ctl EPOLL_CTL_DEL p w1 else Inr w1) (set_index p kNew))))))"

text \<open>
  The answer of \<open>epoll_wait\<close>: \<open>None\<close> is \<open>-1\<close>, \<open>Some rs\<close> the events it wrote to the front of the list.  \<open>epoll_fill\<close> is the loop of
  \<open>fillActiveChannels\<close> over those.
\<close>

fun epoll_fill :: "(ev \<times> nat) list \<Rightarrow> 'p Poller \<Rightarrow> nat list \<Rightarrow> poller_error + ('p Poller \<times> nat list)" where
  "epoll_fill [] w acs = Inr (w, acs)"
| "epoll_fill ((r, p) # rs) w acs = bindE (deref p w) (\<lambda>c.
     bindE (assertE (channels w (ch_fd c) \<noteq> None)) (\<lambda>_.
     bindE (assertE (channels w (ch_fd c) = Some p)) (\<lambda>_.
     epoll_fill rs (set_chan p (c\<lparr>ch_revents := r\<rparr>) w) (acs @ [p]))))"

definition epoll_fillActiveChannels :: "nat \<Rightarrow> nat list \<Rightarrow> 'k EPollPoller Poller \<Rightarrow> poller_error + ('k EPollPoller Poller \<times> nat list)" where
  "epoll_fillActiveChannels n acs w = bindE (assertE (n \<le> length (event_list (impl w)))) (\<lambda>_. epoll_fill (take n (event_list (impl w))) w acs)"

definition epoll_poll :: "(ev \<times> nat) list option \<Rightarrow> nat list \<Rightarrow> 'k EPollPoller Poller \<Rightarrow> poller_error + ('k EPollPoller Poller \<times> nat list)" where
  "epoll_poll answer acs w = (case answer of
     None \<Rightarrow> Inr (w, acs)
   | Some rs \<Rightarrow>
       let numEvents = length rs;
           w1 = w\<lparr>impl := (impl w)\<lparr>event_list := rs @ drop numEvents (event_list (impl w))\<rparr>\<rparr> in
       if numEvents > 0 then bindE (epoll_fillActiveChannels numEvents acs w1) (\<lambda>(w2, acs).
         let n = length (event_list (impl w2)) in
         if numEvents = n then Inr (w2\<lparr>impl := (impl w2)\<lparr>event_list := event_list (impl w2) @ replicate n (0, 0)\<rparr>\<rparr>, acs)
         else Inr (w2, acs))
       else Inr (w1, acs))"

section \<open>The poller over \<open>poll\<close>\<close>

record pollfd =
  pfd_fd :: int
  pfd_events :: "16 word"
  pfd_revents :: "16 word"

type_synonym PollPoller = "pollfd list"

definition newPollPoller :: "PollPoller Poller" where
  "newPollPoller = \<lparr>ch_heap = Map.empty, channels = Map.empty, impl = []\<rparr>"

definition poll_updateChannel :: "nat \<Rightarrow> PollPoller Poller \<Rightarrow> PollPoller presult" where
  "poll_updateChannel p w = bindE (deref p w) (\<lambda>c.
     let fd = ch_fd c; pollfds = impl w in
     if ch_index c < 0 then
       bindE (assertE (channels w fd = None)) (\<lambda>_.
       let pollfds = pollfds @ [\<lparr>pfd_fd = fd, pfd_events = ucast (ch_events c), pfd_revents = 0\<rparr>] in
       bindE (set_index p (int (length pollfds) - 1) (w\<lparr>impl := pollfds\<rparr>)) (\<lambda>w.
       Inr (w\<lparr>channels := (channels w)(fd := Some p)\<rparr>)))
     else
       bindE (assertE (channels w fd \<noteq> None)) (\<lambda>_.
       bindE (assertE (channels w fd = Some p)) (\<lambda>_.
       let idx = ch_index c in
       bindE (assertE (0 \<le> idx \<and> idx < int (length pollfds))) (\<lambda>_.
       let pfd = pollfds ! nat idx in
       bindE (assertE (pfd_fd pfd = fd \<or> pfd_fd pfd = - fd - 1)) (\<lambda>_.
       let pfd = pfd\<lparr>pfd_events := ucast (ch_events c), pfd_revents := 0\<rparr>;
           pfd = (if ch_isNoneEvent c then pfd\<lparr>pfd_fd := - fd - 1\<rparr> else pfd) in
       Inr (w\<lparr>impl := pollfds[nat idx := pfd]\<rparr>))))))"

definition poll_removeChannel :: "nat \<Rightarrow> PollPoller Poller \<Rightarrow> PollPoller presult" where
  "poll_removeChannel p w = bindE (deref p w) (\<lambda>c.
     let fd = ch_fd c; pollfds = impl w in
     bindE (assertE (channels w fd \<noteq> None)) (\<lambda>_.
     bindE (assertE (channels w fd = Some p)) (\<lambda>_.
     bindE (assertE (ch_isNoneEvent c)) (\<lambda>_.
     let idx = ch_index c in
     bindE (assertE (0 \<le> idx \<and> idx < int (length pollfds))) (\<lambda>_.
     let pfd = pollfds ! nat idx in
     bindE (assertE (pfd_fd pfd = - fd - 1 \<and> scast (pfd_events pfd) = ch_events c)) (\<lambda>_.
     let w1 = w\<lparr>channels := (channels w)(fd := None)\<rparr> in
     if nat idx = length pollfds - 1 then Inr (w1\<lparr>impl := butlast pollfds\<rparr>)
     else
       let atEnd = pfd_fd (last pollfds);
           w2 = w1\<lparr>impl := pollfds[nat idx := last pollfds, length pollfds - 1 := pfd]\<rparr>;
           atEnd = (if atEnd < 0 then - atEnd - 1 else atEnd) in
       (case channels w2 atEnd of
          None \<Rightarrow> Inl Dangling
        | Some q \<Rightarrow> bindE (set_index q idx w2) (\<lambda>w3. Inr (w3\<lparr>impl := butlast (impl w3)\<rparr>)))))))))"

text \<open>The loop of \<open>fillActiveChannels\<close> over \<open>pollfds_\<close>, with the number of entries that are still to be found.\<close>

fun poll_fill :: "pollfd list \<Rightarrow> nat \<Rightarrow> 'p Poller \<Rightarrow> nat list \<Rightarrow> poller_error + ('p Poller \<times> nat list)" where
  "poll_fill [] numEvents w acs = Inr (w, acs)"
| "poll_fill (pfd # pfds) numEvents w acs =
     (if numEvents > 0 then
        if 0 < sint (pfd_revents pfd) then
          case channels w (pfd_fd pfd) of
            None \<Rightarrow> Inl AssertFailed
          | Some p \<Rightarrow> bindE (deref p w) (\<lambda>c.
              bindE (assertE (ch_fd c = pfd_fd pfd)) (\<lambda>_.
              poll_fill pfds (numEvents - 1) (set_chan p (c\<lparr>ch_revents := scast (pfd_revents pfd)\<rparr>) w) (acs @ [p])))
        else poll_fill pfds numEvents w acs
      else Inr (w, acs))"

text \<open>The answer of \<open>poll\<close>: \<open>None\<close> is \<open>-1\<close>, \<open>Some rs\<close> the \<open>revents\<close> it wrote to the entries; it returns the number of those that are not zero.\<close>

definition set_pfd_revents :: "16 word list \<Rightarrow> pollfd list \<Rightarrow> pollfd list" where
  "set_pfd_revents rs pfds = map (\<lambda>(r, pfd). pfd\<lparr>pfd_revents := r\<rparr>) (zip rs pfds)"

definition poll_poll :: "16 word list option \<Rightarrow> nat list \<Rightarrow> PollPoller Poller \<Rightarrow> poller_error + (PollPoller Poller \<times> nat list)" where
  "poll_poll answer acs w = (case answer of
     None \<Rightarrow> Inr (w, acs)
   | Some rs \<Rightarrow>
       let numEvents = length (filter (\<lambda>r. r \<noteq> 0) rs);
           w1 = w\<lparr>impl := set_pfd_revents rs (impl w)\<rparr> in
       if numEvents > 0 then poll_fill (impl w1) numEvents w1 acs else Inr (w1, acs))"

section \<open>The event loop\<close>

text \<open>
  \<open>loop_it\<close> is the iterator of the loop over the active channels and \<open>in_handler\<close> tells that the loop is inside the call of \<open>handleEvent\<close>: both are
  the control state of \<open>EventLoop::loop\<close>.  A new loop is taken before its constructor adds the wake-up channel and the channel of the timers, which are
  operations like those of other channels.
\<close>

record 'p EventLoop =
  world :: "'p Poller"
  activeChannels :: "nat list"
  currentActiveChannel :: "nat option"
  eventHandling :: bool
  loop_it :: nat
  in_handler :: bool

type_synonym 'p lresult = "poller_error + 'p EventLoop"

type_synonym 'p vfun = "nat \<Rightarrow> 'p Poller \<Rightarrow> 'p presult"

definition newEventLoop :: "'p Poller \<Rightarrow> 'p EventLoop" where
  "newEventLoop w = \<lparr>world = w, activeChannels = [], currentActiveChannel = None, eventHandling = False, loop_it = 0, in_handler = False\<rparr>"

definition loop_updateChannel :: "'p vfun \<Rightarrow> nat \<Rightarrow> 'p EventLoop \<Rightarrow> 'p lresult" where
  "loop_updateChannel up p l = bindE (up p (world l)) (\<lambda>w. Inr (l\<lparr>world := w\<rparr>))"

definition loop_removeChannel :: "'p vfun \<Rightarrow> nat \<Rightarrow> 'p EventLoop \<Rightarrow> 'p lresult" where
  "loop_removeChannel rm p l =
     bindE (assertE (eventHandling l \<longrightarrow> currentActiveChannel l = Some p \<or> p \<notin> set (activeChannels l))) (\<lambda>_.
     bindE (rm p (world l)) (\<lambda>w. Inr (l\<lparr>world := w\<rparr>)))"

subsection \<open>The operations of a channel\<close>

definition ch_update :: "'p vfun \<Rightarrow> nat \<Rightarrow> 'p EventLoop \<Rightarrow> 'p lresult" where
  "ch_update up p l = bindE (deref p (world l)) (\<lambda>c.
     loop_updateChannel up p (l\<lparr>world := set_chan p (c\<lparr>ch_added := True\<rparr>) (world l)\<rparr>))"

definition set_events :: "'p vfun \<Rightarrow> nat \<Rightarrow> (ev \<Rightarrow> ev) \<Rightarrow> 'p EventLoop \<Rightarrow> 'p lresult" where
  "set_events up p f l = bindE (deref p (world l)) (\<lambda>c.
     ch_update up p (l\<lparr>world := set_chan p (c\<lparr>ch_events := f (ch_events c)\<rparr>) (world l)\<rparr>))"

datatype ev_op = EnableReading | DisableReading | EnableWriting | DisableWriting | DisableAll

fun ev_change :: "ev_op \<Rightarrow> ev \<Rightarrow> ev" where
  "ev_change EnableReading e = e OR kReadEvent"
| "ev_change DisableReading e = e AND NOT kReadEvent"
| "ev_change EnableWriting e = e OR kWriteEvent"
| "ev_change DisableWriting e = e AND NOT kWriteEvent"
| "ev_change DisableAll e = kNoneEvent"

definition ch_remove :: "'p vfun \<Rightarrow> nat \<Rightarrow> 'p EventLoop \<Rightarrow> 'p lresult" where
  "ch_remove rm p l = bindE (deref p (world l)) (\<lambda>c.
     bindE (assertE (ch_isNoneEvent c)) (\<lambda>_.
     loop_removeChannel rm p (l\<lparr>world := set_chan p (c\<lparr>ch_added := False\<rparr>) (world l)\<rparr>)))"

definition destroyChannel :: "nat \<Rightarrow> 'p EventLoop \<Rightarrow> 'p lresult" where
  "destroyChannel p l = bindE (deref p (world l)) (\<lambda>c.
     bindE (assertE (\<not> ch_handling c)) (\<lambda>_.
     bindE (assertE (\<not> ch_added c)) (\<lambda>_.
     bindE (hasChannel p (world l)) (\<lambda>has.
     bindE (assertE (\<not> has)) (\<lambda>_.
     Inr (l\<lparr>world := (world l)\<lparr>ch_heap := (ch_heap (world l))(p := None)\<rparr>\<rparr>))))))"

datatype chan_op = NewChannel nat int | Update nat ev_op | Remove nat | DeleteChannel nat

fun chan_exec :: "'p vfun \<Rightarrow> 'p vfun \<Rightarrow> chan_op \<Rightarrow> 'p EventLoop \<Rightarrow> 'p lresult" where
  "chan_exec up rm (NewChannel p fd) l = Inr (l\<lparr>world := set_chan p (newChannel fd) (world l)\<rparr>)"
| "chan_exec up rm (Update p op) l = set_events up p (ev_change op) l"
| "chan_exec up rm (Remove p) l = ch_remove rm p l"
| "chan_exec up rm (DeleteChannel p) l = destroyChannel p l"

subsection \<open>The turns of the loop\<close>

text \<open>
  \<open>loop_poll\<close> is the beginning of a turn, up to the loop over the active channels.  \<open>loop_begin\<close> calls \<open>handleEvent\<close> of the next channel, where
  \<open>alive\<close> is false when the channel is tied to an object that is gone; the callbacks are operations that happen before \<open>loop_end\<close>, which is the return
  of \<open>handleEvent\<close>.  \<open>loop_finish\<close> is what follows the loop over the active channels; then the pending functors run.
\<close>

definition loop_poll :: "('a \<Rightarrow> nat list \<Rightarrow> 'p Poller \<Rightarrow> poller_error + ('p Poller \<times> nat list)) \<Rightarrow> 'a \<Rightarrow> 'p EventLoop \<Rightarrow> 'p lresult" where
  "loop_poll poll answer l = bindE (poll answer [] (world l)) (\<lambda>(w, acs).
     Inr (l\<lparr>world := w, activeChannels := acs, eventHandling := True, loop_it := 0\<rparr>))"

definition loop_begin :: "bool \<Rightarrow> 'p EventLoop \<Rightarrow> 'p lresult" where
  "loop_begin alive l = (let p = activeChannels l ! loop_it l; l = l\<lparr>currentActiveChannel := Some p\<rparr> in
     bindE (deref p (world l)) (\<lambda>c.
     if alive then Inr (l\<lparr>world := set_chan p (c\<lparr>ch_handling := True\<rparr>) (world l), in_handler := True\<rparr>)
     else Inr (l\<lparr>loop_it := loop_it l + 1\<rparr>)))"

definition loop_end :: "'p EventLoop \<Rightarrow> 'p lresult" where
  "loop_end l = (let p = activeChannels l ! loop_it l in
     bindE (deref p (world l)) (\<lambda>c.
     Inr (l\<lparr>world := set_chan p (c\<lparr>ch_handling := False\<rparr>) (world l), in_handler := False, loop_it := loop_it l + 1\<rparr>)))"

definition loop_finish :: "'p EventLoop \<Rightarrow> 'p EventLoop" where
  "loop_finish l = l\<lparr>currentActiveChannel := None, eventHandling := False\<rparr>"

section \<open>How channels are used\<close>

text \<open>
  What the owner of a channel has to keep to, beside what \<open>assert\<close> of \<open>remove\<close> and of the destructor ask for: a channel is added for a descriptor that
  no other channel is added for, with some event, and before it has been removed; \<open>R\<close> restricts how the events of an added channel may change.
\<close>

definition may_update :: "(ev \<Rightarrow> ev \<Rightarrow> bool) \<Rightarrow> nat \<Rightarrow> Channel \<Rightarrow> ev \<Rightarrow> 'p Poller \<Rightarrow> bool" where
  "may_update R p c e w \<longleftrightarrow> channels w (ch_fd c) = Some p \<and> R (ch_events c) e
     \<or> channels w (ch_fd c) = None \<and> ch_index c < 0 \<and> e \<noteq> 0"

fun may_op :: "(ev \<Rightarrow> ev \<Rightarrow> bool) \<Rightarrow> chan_op \<Rightarrow> 'p EventLoop \<Rightarrow> bool" where
  "may_op R (NewChannel p fd) l \<longleftrightarrow> ch_heap (world l) p = None \<and> 0 \<le> fd"
| "may_op R (Update p op) l \<longleftrightarrow> (case ch_heap (world l) p of None \<Rightarrow> False | Some c \<Rightarrow> may_update R p c (ev_change op (ch_events c)) (world l))"
| "may_op R (Remove p) l \<longleftrightarrow> (case ch_heap (world l) p of None \<Rightarrow> False | Some c \<Rightarrow> ch_events c = 0 \<and> channels (world l) (ch_fd c) = Some p)
     \<and> (eventHandling l \<longrightarrow> currentActiveChannel l = Some p \<or> p \<notin> set (activeChannels l))"
| "may_op R (DeleteChannel p) l \<longleftrightarrow> (case ch_heap (world l) p of None \<Rightarrow> False | Some c \<Rightarrow> \<not> ch_handling c \<and> \<not> ch_added c)"

text \<open>
  The loop and its channels as a state machine.  A step gives the result of the code, an error or the next state; operations on channels happen in
  the callbacks and outside of the loop over the active channels.
\<close>

inductive loop_step :: "'p vfun \<Rightarrow> 'p vfun \<Rightarrow> ('a \<Rightarrow> nat list \<Rightarrow> 'p Poller \<Rightarrow> poller_error + ('p Poller \<times> nat list)) \<Rightarrow> ('p Poller \<Rightarrow> 'a \<Rightarrow> bool)
  \<Rightarrow> (ev \<Rightarrow> ev \<Rightarrow> bool) \<Rightarrow> 'p EventLoop \<Rightarrow> 'p lresult \<Rightarrow> bool" for up rm poll answers R where
  user: "\<not> eventHandling l \<or> in_handler l \<Longrightarrow> may_op R op l \<Longrightarrow> loop_step up rm poll answers R l (chan_exec up rm op l)"
| wait: "\<not> eventHandling l \<Longrightarrow> answers (world l) a \<Longrightarrow> loop_step up rm poll answers R l (loop_poll poll a l)"
| handle: "eventHandling l \<Longrightarrow> \<not> in_handler l \<Longrightarrow> loop_it l < length (activeChannels l) \<Longrightarrow> loop_step up rm poll answers R l (loop_begin alive l)"
| handled: "in_handler l \<Longrightarrow> loop_step up rm poll answers R l (loop_end l)"
| finish: "eventHandling l \<Longrightarrow> \<not> in_handler l \<Longrightarrow> loop_it l = length (activeChannels l) \<Longrightarrow> loop_step up rm poll answers R l (Inr (loop_finish l))"

inductive loop_reach :: "'p vfun \<Rightarrow> 'p vfun \<Rightarrow> ('a \<Rightarrow> nat list \<Rightarrow> 'p Poller \<Rightarrow> poller_error + ('p Poller \<times> nat list)) \<Rightarrow> ('p Poller \<Rightarrow> 'a \<Rightarrow> bool)
  \<Rightarrow> (ev \<Rightarrow> ev \<Rightarrow> bool) \<Rightarrow> 'p Poller \<Rightarrow> 'p EventLoop \<Rightarrow> bool" for up rm poll answers R w0 where
  start: "loop_reach up rm poll answers R w0 (newEventLoop w0)"
| step: "loop_reach up rm poll answers R w0 l \<Longrightarrow> loop_step up rm poll answers R l (Inr l') \<Longrightarrow> loop_reach up rm poll answers R w0 l'"

end
