(* ===== verification/PollerProps.thy ===== *)
theory PollerProps
  imports Pollers
begin

text \<open>
  The contract of a poller, as a locale: what the loop and the channels rely on when they call its virtual functions.  The loop is shown safe once,
  over the contract; the two pollers of the library are shown to fulfil it, the one over \<open>epoll\<close> under the documented behaviour of \<open>epoll_ctl\<close>.
\<close>

section \<open>Channels and their registration\<close>

lemma deref_Some [simp]: "ch_heap w p = Some c \<Longrightarrow> deref p w = Inr c"
  by (simp add: deref_def)

lemma assertE_simps [simp]: "assertE True = Inr ()" "assertE False = Inl AssertFailed"
  by (simp_all add: assertE_def)

lemma set_chan_simps [simp]:
  "ch_heap (set_chan p c w) = (ch_heap w)(p := Some c)" "channels (set_chan p c w) = channels w" "impl (set_chan p c w) = impl w"
  "set_chan p c (set_chan p c' w) = set_chan p c w"
  by (simp_all add: set_chan_def)

lemma ch_isNoneEvent_iff [simp]: "ch_isNoneEvent c \<longleftrightarrow> ch_events c = 0"
  by (simp add: ch_isNoneEvent_def kNoneEvent_def)

text \<open>A channel up to the two fields that the pollers write, and two heaps that agree up to these.\<close>

definition owner_view :: "Channel \<Rightarrow> Channel" where
  "owner_view c = c\<lparr>ch_index := 0, ch_revents := 0\<rparr>"

definition same_view :: "'p Poller \<Rightarrow> 'p Poller \<Rightarrow> bool" where
  "same_view w w' \<longleftrightarrow> (\<forall>p. map_option owner_view (ch_heap w' p) = map_option owner_view (ch_heap w p))"

lemma owner_view_eq: "owner_view c = owner_view d \<Longrightarrow>
  ch_fd c = ch_fd d \<and> ch_events c = ch_events d \<and> ch_handling c = ch_handling d \<and> ch_added c = ch_added d"
  by (cases c; cases d) (simp add: owner_view_def)

lemma owner_view_upd [simp]:
  "owner_view (c\<lparr>ch_index := i\<rparr>) = owner_view c" "owner_view (c\<lparr>ch_revents := r\<rparr>) = owner_view c"
  by (simp_all add: owner_view_def)

lemma same_view_refl [simp]: "same_view w w"
  by (simp add: same_view_def)

lemma same_view_members [simp]: "same_view (w\<lparr>channels := m\<rparr>) w' = same_view w w'" "same_view w (w'\<lparr>channels := m\<rparr>) = same_view w w'"
  "same_view (w\<lparr>impl := i\<rparr>) w' = same_view w w'" "same_view w (w'\<lparr>impl := i\<rparr>) = same_view w w'"
  by (simp_all add: same_view_def)

lemma same_view_trans: "same_view w w' \<Longrightarrow> same_view w' w'' \<Longrightarrow> same_view w w''"
  by (simp add: same_view_def)

lemma same_view_Some: "same_view w w' \<Longrightarrow> ch_heap w p = Some c \<Longrightarrow> \<exists>c'. ch_heap w' p = Some c' \<and> owner_view c' = owner_view c"
  unfolding same_view_def by (drule spec [of _ p], cases "ch_heap w' p"; cases "ch_heap w p") auto

lemma same_view_Some_back: "same_view w w' \<Longrightarrow> ch_heap w' p = Some c' \<Longrightarrow> \<exists>c. ch_heap w p = Some c \<and> owner_view c' = owner_view c"
  unfolding same_view_def by (drule spec [of _ p], cases "ch_heap w' p"; cases "ch_heap w p") auto

text \<open>\<open>reg_ok\<close>: the map of the poller leads to live channels; \<open>added_ok\<close>: \<open>addedToLoop_\<close> of a channel tells whether it is in the map.\<close>

definition reg_ok :: "'p Poller \<Rightarrow> bool" where
  "reg_ok w \<longleftrightarrow> (\<forall>fd p. channels w fd = Some p \<longrightarrow> (\<exists>c. ch_heap w p = Some c \<and> ch_fd c = fd \<and> 0 \<le> fd))"

definition added_ok :: "'p Poller \<Rightarrow> bool" where
  "added_ok w \<longleftrightarrow> (\<forall>p c. ch_heap w p = Some c \<longrightarrow> 0 \<le> ch_fd c \<and> (ch_added c \<longleftrightarrow> channels w (ch_fd c) = Some p))"

definition registered :: "'p Poller \<Rightarrow> nat \<Rightarrow> bool" where
  "registered w p \<longleftrightarrow> (\<exists>c. ch_heap w p = Some c \<and> channels w (ch_fd c) = Some p)"

text \<open>What the channels ask for: the events and the channel of each descriptor.\<close>

definition interest :: "'p Poller \<Rightarrow> int \<Rightarrow> (ev \<times> nat) option" where
  "interest w fd = (case channels w fd of None \<Rightarrow> None | Some p \<Rightarrow>
     (case ch_heap w p of None \<Rightarrow> None | Some c \<Rightarrow> if ch_events c = 0 then None else Some (ch_events c, p)))"

lemma reg_okD: "reg_ok w \<Longrightarrow> channels w fd = Some p \<Longrightarrow> \<exists>c. ch_heap w p = Some c \<and> ch_fd c = fd \<and> 0 \<le> fd"
  by (simp add: reg_ok_def)

lemma reg_ok_inj: "reg_ok w \<Longrightarrow> channels w fd = Some p \<Longrightarrow> channels w fd' = Some p \<Longrightarrow> fd = fd'"
  using reg_okD [of w fd p] reg_okD [of w fd' p] by auto

lemma reg_ok_put:
  assumes "reg_ok w" "ch_heap w p = Some c" "ch_fd d = ch_fd c" "ch_heap w' = (ch_heap w)(p := Some d)" "channels w' = channels w"
  shows "reg_ok w'"
  unfolding reg_ok_def
proof (intro allI impI)
  fix fd q assume "channels w' fd = Some q"
  then show "\<exists>c. ch_heap w' q = Some c \<and> ch_fd c = fd \<and> 0 \<le> fd" using reg_okD [OF assms(1), of fd q] assms by (cases "q = p") auto
qed

lemma reg_registered: "reg_ok w \<Longrightarrow> channels w fd = Some p \<Longrightarrow> registered w p"
  using reg_okD [of w fd p] by (auto simp: registered_def)

lemma added_okD: "added_ok w \<Longrightarrow> ch_heap w p = Some c \<Longrightarrow> 0 \<le> ch_fd c \<and> (ch_added c \<longleftrightarrow> channels w (ch_fd c) = Some p)"
  by (simp add: added_ok_def)

text \<open>The control state of the loop: the channels that are still to be handled are in the map of the poller, and the one in its handler is alive.\<close>

definition to_handle :: "'p EventLoop \<Rightarrow> nat list" where
  "to_handle l = (if in_handler l then drop (Suc (loop_it l)) (activeChannels l) else drop (loop_it l) (activeChannels l))"

definition turn_ok :: "'p EventLoop \<Rightarrow> bool" where
  "turn_ok l \<longleftrightarrow> (in_handler l \<longrightarrow> eventHandling l \<and> loop_it l < length (activeChannels l) \<and> currentActiveChannel l = Some (activeChannels l ! loop_it l)
       \<and> (\<exists>c. ch_heap (world l) (activeChannels l ! loop_it l) = Some c \<and> ch_handling c))
     \<and> (eventHandling l \<longrightarrow> distinct (activeChannels l) \<and> loop_it l \<le> length (activeChannels l) \<and> (\<forall>p\<in>set (to_handle l). registered (world l) p))"

definition loop_ok :: "('p Poller \<Rightarrow> bool) \<Rightarrow> 'p EventLoop \<Rightarrow> bool" where
  "loop_ok invar l \<longleftrightarrow> invar (world l) \<and> added_ok (world l) \<and> turn_ok l"

lemma nth_not_in_drop: "distinct xs \<Longrightarrow> i < length xs \<Longrightarrow> xs ! i \<notin> set (drop (Suc i) xs)"
  using distinct_drop [of xs i] by (simp add: Cons_nth_drop_Suc [symmetric])

lemma turn_ok_world:
  assumes "turn_ok l" "\<And>p c. ch_heap (world l) p = Some c \<Longrightarrow> ch_handling c \<Longrightarrow> \<exists>c'. ch_heap w' p = Some c' \<and> ch_handling c'"
    and "\<And>p. eventHandling l \<Longrightarrow> p \<in> set (to_handle l) \<Longrightarrow> registered (world l) p \<Longrightarrow> registered w' p"
  shows "turn_ok (l\<lparr>world := w'\<rparr>)"
proof -
  have "to_handle (l\<lparr>world := w'\<rparr>) = to_handle l" by (simp add: to_handle_def)
  then show ?thesis using assms by (simp add: turn_ok_def) blast
qed

lemma same_view_registered:
  assumes "registered w p" "same_view w w'" "channels w' = channels w"
  shows "registered w' p"
  using assms by (auto simp: registered_def dest!: same_view_Some owner_view_eq)

lemma added_ok_update:
  assumes "same_view (set_chan p (c\<lparr>ch_events := e, ch_added := True\<rparr>) w) w'" "channels w' = (channels w)(ch_fd c := Some p)"
    and "added_ok w" "ch_heap w p = Some c" "channels w (ch_fd c) \<in> {None, Some p}"
  shows "added_ok w'"
  unfolding added_ok_def
proof (intro allI impI)
  fix q d assume "ch_heap w' q = Some d"
  then obtain d' where d: "ch_heap (set_chan p (c\<lparr>ch_events := e, ch_added := True\<rparr>) w) q = Some d'" "owner_view d = owner_view d'"
    using same_view_Some_back [OF assms(1)] by blast
  then show "0 \<le> ch_fd d \<and> (ch_added d \<longleftrightarrow> channels w' (ch_fd d) = Some q)"
    using assms(2-5) added_okD [OF assms(3), of q] added_okD [OF assms(3), of p c] owner_view_eq [OF d(2)] by (auto split: if_splits)
qed

lemma turn_ok_update:
  assumes "turn_ok l" "same_view (set_chan p (c\<lparr>ch_events := e, ch_added := True\<rparr>) (world l)) w'"
    and "channels w' = (channels (world l))(ch_fd c := Some p)" "ch_heap (world l) p = Some c" "channels (world l) (ch_fd c) \<in> {None, Some p}"
  shows "turn_ok (l\<lparr>world := w'\<rparr>)"
  using assms(1)
proof (rule turn_ok_world)
  have seen: "\<exists>d'. ch_heap w' q = Some d' \<and> ch_fd d' = ch_fd d \<and> ch_handling d' = ch_handling d" if "ch_heap (world l) q = Some d" for q d
    using same_view_Some [OF assms(2), of q] that assms(4) by (cases "q = p") (auto dest!: owner_view_eq)
  show "\<exists>d'. ch_heap w' q = Some d' \<and> ch_handling d'" if "ch_heap (world l) q = Some d" "ch_handling d" for q d
    using seen that by blast
  show "registered w' q" if "registered (world l) q" for q
    using that assms(3-5) by (auto simp: registered_def dest!: seen)
qed

lemma added_ok_remove:
  assumes "same_view (set_chan p (c\<lparr>ch_added := False\<rparr>) w) w'" "channels w' = (channels w)(ch_fd c := None)"
    and "added_ok w" "ch_heap w p = Some c" "ch_events c = 0" "channels w (ch_fd c) = Some p"
  shows "added_ok w'"
  unfolding added_ok_def
proof (intro allI impI)
  fix q d assume "ch_heap w' q = Some d"
  then obtain d' where d: "ch_heap (set_chan p (c\<lparr>ch_added := False\<rparr>) w) q = Some d'" "owner_view d = owner_view d'"
    using same_view_Some_back [OF assms(1)] by blast
  then show "0 \<le> ch_fd d \<and> (ch_added d \<longleftrightarrow> channels w' (ch_fd d) = Some q)"
    using assms(2-6) added_okD [OF assms(3), of q] added_okD [OF assms(3), of p c] owner_view_eq [OF d(2)] by (auto split: if_splits)
qed

lemma turn_ok_remove:
  assumes "turn_ok l" "same_view (set_chan p (c\<lparr>ch_added := False\<rparr>) (world l)) w'"
    and "channels w' = (channels (world l))(ch_fd c := None)" "ch_heap (world l) p = Some c" "channels (world l) (ch_fd c) = Some p"
    and cur: "eventHandling l \<longrightarrow> currentActiveChannel l = Some p \<or> p \<notin> set (activeChannels l)" and "\<not> eventHandling l \<or> in_handler l"
  shows "turn_ok (l\<lparr>world := w'\<rparr>)"
  using assms(1)
proof (rule turn_ok_world)
  have seen: "\<exists>d'. ch_heap w' q = Some d' \<and> ch_fd d' = ch_fd d \<and> ch_handling d' = ch_handling d" if "ch_heap (world l) q = Some d" for q d
    using same_view_Some [OF assms(2), of q] that assms(4) by (cases "q = p") (auto dest!: owner_view_eq)
  show "\<exists>d'. ch_heap w' q = Some d' \<and> ch_handling d'" if "ch_heap (world l) q = Some d" "ch_handling d" for q d
    using seen that by blast
  show "registered w' q" if "eventHandling l" "q \<in> set (to_handle l)" and reg: "registered (world l) q" for q
  proof -
    have "q \<noteq> p" using that(1,2) cur assms(1,7)
      by (auto simp: turn_ok_def to_handle_def nth_not_in_drop dest: in_set_dropD)
    moreover obtain d where d: "ch_heap (world l) q = Some d" "channels (world l) (ch_fd d) = Some q" using reg by (auto simp: registered_def)
    moreover obtain d' where "ch_heap w' q = Some d'" "ch_fd d' = ch_fd d" using seen [OF d(1)] by blast
    moreover have "ch_fd d \<noteq> ch_fd c" using calculation(1,3) assms(5) by auto
    ultimately show ?thesis using assms(3) by (simp add: registered_def)
  qed
qed

lemma loop_reach_user:
  assumes "loop_reach up rm poll answers R w0 l" "\<not> eventHandling l \<or> in_handler l" "may_op R op l" "chan_exec up rm op l = Inr l'"
  shows "loop_reach up rm poll answers R w0 l'"
  using assms(1) loop_step.user [OF assms(2,3), of up rm poll answers] unfolding assms(4) by (rule loop_reach.step)

section \<open>The contract\<close>

locale poller =
  fixes up rm :: "'p vfun"
    and poll :: "'a \<Rightarrow> nat list \<Rightarrow> 'p Poller \<Rightarrow> poller_error + ('p Poller \<times> nat list)"
    and answers :: "'p Poller \<Rightarrow> 'a \<Rightarrow> bool"
    and R :: "ev \<Rightarrow> ev \<Rightarrow> bool"
    and E :: "poller_error \<Rightarrow> bool"
    and invar :: "'p Poller \<Rightarrow> bool"
    and w0 :: "'p Poller"
  assumes empty_ok: "invar w0" "ch_heap w0 = Map.empty"
    and inv_reg: "invar w \<Longrightarrow> reg_ok w"
    and inv_new: "invar w \<Longrightarrow> ch_heap w p = None \<Longrightarrow> 0 \<le> fd \<Longrightarrow> invar (set_chan p (newChannel fd) w)"
    and inv_delete: "invar w \<Longrightarrow> ch_heap w p = Some c \<Longrightarrow> channels w (ch_fd c) \<noteq> Some p \<Longrightarrow> invar (w\<lparr>ch_heap := (ch_heap w)(p := None)\<rparr>)"
    and inv_handling: "invar w \<Longrightarrow> ch_heap w p = Some c \<Longrightarrow> invar (set_chan p (c\<lparr>ch_handling := b\<rparr>) w)"
    and update_ok: "invar w \<Longrightarrow> ch_heap w p = Some c \<Longrightarrow> 0 \<le> ch_fd c \<Longrightarrow> may_update R p c e w \<Longrightarrow>
      w1 = set_chan p (c\<lparr>ch_events := e, ch_added := True\<rparr>) w \<Longrightarrow>
      outcome E (\<lambda>w'. invar w' \<and> same_view w1 w' \<and> channels w' = (channels w)(ch_fd c := Some p)) (up p w1)"
    and remove_ok: "invar w \<Longrightarrow> ch_heap w p = Some c \<Longrightarrow> ch_events c = 0 \<Longrightarrow> channels w (ch_fd c) = Some p \<Longrightarrow>
      w1 = set_chan p (c\<lparr>ch_added := False\<rparr>) w \<Longrightarrow>
      outcome E (\<lambda>w'. invar w' \<and> same_view w1 w' \<and> channels w' = (channels w)(ch_fd c := None)) (rm p w1)"
    and poll_ok: "invar w \<Longrightarrow> answers w a \<Longrightarrow>
      outcome E (\<lambda>(w', acs). invar w' \<and> same_view w w' \<and> channels w' = channels w \<and> distinct acs \<and> (\<forall>p\<in>set acs. registered w p)) (poll a [] w)"
begin

lemma user_new:
  assumes ok: "loop_ok invar l" and may: "may_op R (NewChannel p fd) l"
  shows "outcome E (loop_ok invar) (chan_exec up rm (NewChannel p fd) l)"
proof -
  let ?w = "set_chan p (newChannel fd) (world l)"
  have fresh: "ch_heap (world l) p = None" "0 \<le> fd" using may by auto
  have "invar ?w" using ok fresh by (simp add: loop_ok_def inv_new)
  moreover have "added_ok ?w"
    using ok fresh inv_reg [of "world l"] by (auto simp: loop_ok_def added_ok_def newChannel_def dest!: reg_okD)
  moreover have "turn_ok (l\<lparr>world := ?w\<rparr>)"
    using ok fresh by (intro turn_ok_world) (auto simp: loop_ok_def registered_def)
  ultimately show ?thesis by (simp add: loop_ok_def)
qed

lemma user_delete:
  assumes ok: "loop_ok invar l" and may: "may_op R (DeleteChannel p) l"
  shows "outcome E (loop_ok invar) (chan_exec up rm (DeleteChannel p) l)"
proof -
  let ?w = "(world l)\<lparr>ch_heap := (ch_heap (world l))(p := None)\<rparr>"
  obtain c where c: "ch_heap (world l) p = Some c" "\<not> ch_handling c" "\<not> ch_added c" using may by (auto split: option.splits)
  have no: "channels (world l) (ch_fd c) \<noteq> Some p" using ok c by (auto simp: loop_ok_def dest: added_okD)
  have "invar ?w" using ok c no by (auto simp: loop_ok_def intro: inv_delete)
  moreover have "added_ok ?w" using ok by (auto simp: loop_ok_def added_ok_def)
  moreover have "turn_ok (l\<lparr>world := ?w\<rparr>)"
    using ok c no by (intro turn_ok_world) (auto simp: loop_ok_def registered_def)
  ultimately show ?thesis using c no by (simp add: loop_ok_def destroyChannel_def hasChannel_def)
qed

lemma user_update:
  assumes ok: "loop_ok invar l" and may: "may_op R (Update p op) l"
  shows "outcome E (loop_ok invar) (chan_exec up rm (Update p op) l)"
proof -
  obtain c where c: "ch_heap (world l) p = Some c" and m: "may_update R p c (ev_change op (ch_events c)) (world l)"
    using may by (auto split: option.splits)
  let ?d = "c\<lparr>ch_events := ev_change op (ch_events c), ch_added := True\<rparr>"
  let ?w1 = "set_chan p ?d (world l)"
  have w: "invar (world l)" "added_ok (world l)" "turn_ok l" using ok by (auto simp: loop_ok_def)
  have "outcome E (\<lambda>w'. invar w' \<and> same_view ?w1 w' \<and> channels w' = (channels (world l))(ch_fd c := Some p)) (up p ?w1)"
    using w c m by (intro update_ok) (auto dest: added_okD)
  moreover have "loop_ok invar (l\<lparr>world := w'\<rparr>)"
    if "invar w'" "same_view ?w1 w'" "channels w' = (channels (world l))(ch_fd c := Some p)" for w'
  proof -
    have free: "channels (world l) (ch_fd c) \<in> {None, Some p}" using m by (auto simp: may_update_def)
    have "added_ok w'" using that(2,3) w(2) c free by (rule added_ok_update)
    moreover have "turn_ok (l\<lparr>world := w'\<rparr>)" using w(3) that(2,3) c free by (rule turn_ok_update)
    ultimately show ?thesis using that by (simp add: loop_ok_def)
  qed
  ultimately show ?thesis
    using c by (auto simp: set_events_def ch_update_def loop_updateChannel_def intro: outcome_bind)
qed

lemma user_remove:
  assumes ok: "loop_ok invar l" and at: "\<not> eventHandling l \<or> in_handler l" and may: "may_op R (Remove p) l"
  shows "outcome E (loop_ok invar) (chan_exec up rm (Remove p) l)"
proof -
  obtain c where c: "ch_heap (world l) p = Some c" "ch_events c = 0" "channels (world l) (ch_fd c) = Some p"
    and cur: "eventHandling l \<longrightarrow> currentActiveChannel l = Some p \<or> p \<notin> set (activeChannels l)"
    using may by (auto split: option.splits)
  let ?w1 = "set_chan p (c\<lparr>ch_added := False\<rparr>) (world l)"
  have w: "invar (world l)" "added_ok (world l)" "turn_ok l" using ok by (auto simp: loop_ok_def)
  have "outcome E (\<lambda>w'. invar w' \<and> same_view ?w1 w' \<and> channels w' = (channels (world l))(ch_fd c := None)) (rm p ?w1)"
    using w c by (intro remove_ok) auto
  moreover have "loop_ok invar (l\<lparr>world := w'\<rparr>)"
    if "invar w'" "same_view ?w1 w'" "channels w' = (channels (world l))(ch_fd c := None)" for w'
  proof -
    have "added_ok w'" using that(2,3) w(2) c by (rule added_ok_remove)
    moreover have "turn_ok (l\<lparr>world := w'\<rparr>)" using w(3) that(2,3) c(1,3) cur at by (rule turn_ok_remove)
    ultimately show ?thesis using that by (simp add: loop_ok_def)
  qed
  ultimately show ?thesis
    using c cur by (auto simp: ch_remove_def loop_removeChannel_def assertE_def guardE_def intro: outcome_bind)
qed

lemma loop_wait:
  assumes ok: "loop_ok invar l" and "\<not> eventHandling l" "answers (world l) a"
  shows "outcome E (loop_ok invar) (loop_poll poll a l)"
proof -
  have w: "invar (world l)" "added_ok (world l)" "turn_ok l" using ok by (auto simp: loop_ok_def)
  show ?thesis unfolding loop_poll_def
  proof (rule outcome_bind [OF poll_ok [OF w(1) assms(3)]])
    fix x :: "'p Poller \<times> nat list"
    assume x: "case x of (w', acs) \<Rightarrow> invar w' \<and> same_view (world l) w' \<and> channels w' = channels (world l) \<and> distinct acs
      \<and> (\<forall>p\<in>set acs. registered (world l) p)"
    obtain w' acs where [simp]: "x = (w', acs)" by (cases x)
    have s: "same_view (world l) w'" "channels w' = channels (world l)" using x by auto
    have "added_ok w'" using w(2) s by (auto simp: added_ok_def dest!: same_view_Some_back owner_view_eq)
    moreover have "registered w' p" if "registered (world l) p" for p using that s by (rule same_view_registered)
    ultimately show "outcome E (loop_ok invar) (case x of (w, acs) \<Rightarrow>
        Inr (l\<lparr>world := w, activeChannels := acs, eventHandling := True, loop_it := 0\<rparr>))"
      using x w(3) assms(2) by (auto simp: loop_ok_def turn_ok_def to_handle_def)
  qed
qed

lemma loop_handle:
  assumes ok: "loop_ok invar l" and ev: "eventHandling l" "\<not> in_handler l" "loop_it l < length (activeChannels l)"
  shows "outcome E (loop_ok invar) (loop_begin alive l)"
proof -
  let ?p = "activeChannels l ! loop_it l"
  have todo: "drop (loop_it l) (activeChannels l) = ?p # drop (Suc (loop_it l)) (activeChannels l)" using ev(3) by (simp add: Cons_nth_drop_Suc)
  have reg: "\<forall>q\<in>set (?p # drop (Suc (loop_it l)) (activeChannels l)). registered (world l) q"
    using ok ev todo by (simp add: loop_ok_def turn_ok_def to_handle_def)
  then obtain c where c: "ch_heap (world l) ?p = Some c" "channels (world l) (ch_fd c) = Some ?p" by (auto simp: registered_def)
  let ?w = "set_chan ?p (c\<lparr>ch_handling := True\<rparr>) (world l)"
  have "invar ?w" "added_ok ?w" using ok c by (auto simp: loop_ok_def inv_handling added_ok_def)
  moreover have "registered ?w q" if "registered (world l) q" for q using that c by (auto simp: registered_def)
  ultimately show ?thesis using ok ev c reg
    by (auto simp: loop_begin_def Let_def loop_ok_def turn_ok_def to_handle_def)
qed

lemma loop_handled:
  assumes ok: "loop_ok invar l" and ev: "in_handler l"
  shows "outcome E (loop_ok invar) (loop_end l)"
proof -
  let ?p = "activeChannels l ! loop_it l"
  obtain c where c: "ch_heap (world l) ?p = Some c" using ok ev by (auto simp: loop_ok_def turn_ok_def)
  let ?w = "set_chan ?p (c\<lparr>ch_handling := False\<rparr>) (world l)"
  have "invar ?w" "added_ok ?w" using ok c by (auto simp: loop_ok_def inv_handling added_ok_def)
  moreover have "registered ?w q" if "registered (world l) q" for q using that c by (auto simp: registered_def)
  ultimately show ?thesis using ok ev c by (auto simp: loop_end_def Let_def loop_ok_def turn_ok_def to_handle_def)
qed

theorem step_ok:
  assumes "loop_ok invar l" "loop_step up rm poll answers R l r"
  shows "outcome E (loop_ok invar) r"
  using assms(2,1)
proof (cases rule: loop_step.cases)
  case (user op)
  then show ?thesis using assms(1) user_new user_update user_remove user_delete by (cases op) auto
next
  case finish
  then show ?thesis using assms(1) by (auto simp: loop_finish_def loop_ok_def turn_ok_def)
qed (auto intro: loop_wait loop_handle loop_handled)

theorem reach_ok: "loop_reach up rm poll answers R w0 l \<Longrightarrow> loop_ok invar l"
proof (induction rule: loop_reach.induct)
  case start
  show ?case using empty_ok by (simp add: loop_ok_def newEventLoop_def turn_ok_def added_ok_def)
next
  case (step l l')
  then show ?case using step_ok by fastforce
qed

theorem loop_safe: "loop_reach up rm poll answers R w0 l \<Longrightarrow> loop_step up rm poll answers R l r \<Longrightarrow> outcome E (loop_ok invar) r"
  by (rule step_ok [OF reach_ok])

end

end
