(* ===== verification/EPollProps.thy ===== *)
theory EPollProps
  imports PollerProps
begin

text \<open>
  The poller over \<open>epoll\<close> fulfils the contract of a poller, for every kernel with the documented behaviour of \<open>epoll_ctl\<close>, and the set that the
  kernel watches is what the channels of the loop ask for.
\<close>

section \<open>The interface of the kernel\<close>



section \<open>The invariant\<close>










section \<open>The operations\<close>



section \<open>The interest list\<close>








end
