(* ===== verification/PollProps.thy ===== *)
theory PollProps
  imports PollerProps
begin

text \<open>
  The poller over \<open>poll\<close> fulfils the contract of a poller: its vector has one entry for each channel, at the index that the channel keeps, through the
  exchange of entries when a channel is removed.  With channels whose events are not set again after they have been cleared, the entries are what the
  channels ask for.
\<close>

section \<open>The invariant\<close>

text \<open>
  The entry of a channel.  An entry is ignored by \<open>poll\<close> when its descriptor is negative; the code makes it so when a channel has no events, but does
  not make it positive again.  \<open>strict\<close> is the invariant for the use of channels under which that does not matter.
\<close>

definition pfd_ok :: "bool \<Rightarrow> Channel \<Rightarrow> pollfd \<Rightarrow> bool" where
  "pfd_ok strict c f \<longleftrightarrow> pfd_events f = ucast (ch_events c) \<and> (pfd_fd f = ch_fd c \<or> pfd_fd f = - ch_fd c - 1)
     \<and> (ch_events c = 0 \<longrightarrow> pfd_fd f = - ch_fd c - 1) \<and> (strict \<longrightarrow> ch_events c \<noteq> 0 \<longrightarrow> pfd_fd f = ch_fd c)"

definition owns :: "'p Poller \<Rightarrow> nat \<Rightarrow> nat \<Rightarrow> bool" where
  "owns w p i \<longleftrightarrow> (\<exists>c. ch_heap w p = Some c \<and> channels w (ch_fd c) = Some p \<and> ch_index c = int i)"

definition poll_inv :: "bool \<Rightarrow> PollPoller Poller \<Rightarrow> bool" where
  "poll_inv strict w \<longleftrightarrow> reg_ok w
     \<and> (\<forall>p c. ch_heap w p = Some c \<longrightarrow> channels w (ch_fd c) = Some p \<longrightarrow>
          (\<exists>i<length (impl w). ch_index c = int i \<and> pfd_ok strict c (impl w ! i)))
     \<and> (\<forall>i<length (impl w). \<exists>p. owns w p i)"

definition fd_decode :: "int \<Rightarrow> int" where
  "fd_decode f = (if f < 0 then - f - 1 else f)"

lemma ownsI: "ch_heap w p = Some c \<Longrightarrow> channels w (ch_fd c) = Some p \<Longrightarrow> ch_index c = int i \<Longrightarrow> owns w p i"
  by (simp add: owns_def)

lemma ownsE:
  assumes "owns w p i"
  obtains c where "ch_heap w p = Some c" "channels w (ch_fd c) = Some p" "ch_index c = int i"
  using assms by (auto simp: owns_def)

lemma pfd_ok_decode: "pfd_ok strict c f \<Longrightarrow> 0 \<le> ch_fd c \<Longrightarrow> fd_decode (pfd_fd f) = ch_fd c"
  by (auto simp: pfd_ok_def fd_decode_def)

lemma poll_inv_regD: "poll_inv strict w \<Longrightarrow> reg_ok w"
  by (simp add: poll_inv_def)

lemma poll_inv_entry:
  assumes "poll_inv strict w" "ch_heap w p = Some c" "channels w (ch_fd c) = Some p"
  obtains i where "i < length (impl w)" "ch_index c = int i" "pfd_ok strict c (impl w ! i)"
  using assms unfolding poll_inv_def by blast

lemma poll_inv_owner: "poll_inv strict w \<Longrightarrow> i < length (impl w) \<Longrightarrow> \<exists>p. owns w p i"
  by (simp add: poll_inv_def)

lemma owns_fd:
  assumes ok: "poll_inv strict w" and p: "owns w p i"
  obtains c where "ch_heap w p = Some c" "channels w (ch_fd c) = Some p" "ch_index c = int i" "i < length (impl w)" "0 \<le> ch_fd c"
    "pfd_ok strict c (impl w ! i)" "fd_decode (pfd_fd (impl w ! i)) = ch_fd c"
proof -
  obtain c where c: "ch_heap w p = Some c" "channels w (ch_fd c) = Some p" "ch_index c = int i" using p by (auto simp: owns_def)
  have "0 \<le> ch_fd c" using reg_okD [OF poll_inv_regD [OF ok] c(2)] by auto
  moreover obtain j where "j < length (impl w)" "ch_index c = int j" "pfd_ok strict c (impl w ! j)" using ok c(1,2) by (rule poll_inv_entry)
  ultimately show thesis using c that [of c] by (simp add: pfd_ok_decode)
qed

lemma owns_unique: "poll_inv strict w \<Longrightarrow> owns w p i \<Longrightarrow> owns w q i \<Longrightarrow> p = q"
  by (metis owns_fd option.inject)

text \<open>Changes that keep the map, the indices and the entries up to the fields that only matter to the kernel.\<close>

lemma poll_inv_view:
  assumes ok: "poll_inv strict w" and w': "channels w' = channels w" "length (impl w') = length (impl w)"
    and f: "\<And>i. i < length (impl w) \<Longrightarrow> pfd_fd (impl w' ! i) = pfd_fd (impl w ! i) \<and> pfd_events (impl w' ! i) = pfd_events (impl w ! i)"
    and h: "\<And>p. map_option (\<lambda>c. (ch_fd c, ch_events c, ch_index c)) (ch_heap w' p) = map_option (\<lambda>c. (ch_fd c, ch_events c, ch_index c)) (ch_heap w p)"
  shows "poll_inv strict w'"
proof -
  have before: "\<exists>d. ch_heap w q = Some d \<and> ch_fd d = ch_fd c \<and> ch_events d = ch_events c \<and> ch_index d = ch_index c" if "ch_heap w' q = Some c" for q c
    using h [of q] that by (cases "ch_heap w q") auto
  have after: "\<exists>d. ch_heap w' q = Some d \<and> ch_fd d = ch_fd c \<and> ch_events d = ch_events c \<and> ch_index d = ch_index c" if "ch_heap w q = Some c" for q c
    using h [of q] that by (cases "ch_heap w' q") auto
  have "reg_ok w'" using poll_inv_regD [OF ok] w' by (auto simp: reg_ok_def dest!: after)
  moreover have "\<exists>i<length (impl w'). ch_index c = int i \<and> pfd_ok strict c (impl w' ! i)"
    if q: "ch_heap w' q = Some c" "channels w' (ch_fd c) = Some q" for q c
  proof -
    obtain d where d: "ch_heap w q = Some d" "ch_fd d = ch_fd c" "ch_events d = ch_events c" "ch_index d = ch_index c" using before [OF q(1)] by blast
    then have "channels w (ch_fd d) = Some q" using q(2) w'(1) by simp
    with ok d(1) obtain i where i: "i < length (impl w)" "ch_index d = int i" "pfd_ok strict d (impl w ! i)" by (rule poll_inv_entry)
    then have "pfd_ok strict c (impl w' ! i)" using d f [OF i(1)] by (simp add: pfd_ok_def)
    then show ?thesis using i d w'(2) by auto
  qed
  moreover have "owns w' p i" if "owns w p i" for p i
    using that w'(1) unfolding owns_def by (metis after)
  ultimately show ?thesis using ok w'(2) unfolding poll_inv_def by metis
qed

section \<open>The operations\<close>

lemma poll_add:
  assumes ok: "poll_inv strict w" and c: "ch_heap w p = Some c" "0 \<le> ch_fd c" "channels w (ch_fd c) = None" "ch_index c < 0" and e: "e \<noteq> 0"
    and w': "ch_heap w' = (ch_heap w)(p := Some (c\<lparr>ch_events := e, ch_added := True, ch_index := int (length (impl w))\<rparr>))"
      "channels w' = (channels w)(ch_fd c := Some p)"
      "impl w' = impl w @ [\<lparr>pfd_fd = ch_fd c, pfd_events = ucast e, pfd_revents = 0\<rparr>]"
  shows "poll_inv strict w'"
proof -
  have p: "q \<noteq> p" if "channels w fd = Some q" for fd q
    using that c reg_okD [OF poll_inv_regD [OF ok] that] by auto
  have "reg_ok w'" using poll_inv_regD [OF ok] c w' p by (auto simp: reg_ok_def)
  moreover have "\<exists>i<length (impl w'). ch_index d = int i \<and> pfd_ok strict d (impl w' ! i)"
    if "ch_heap w' q = Some d" "channels w' (ch_fd d) = Some q" for q d
  proof (cases "q = p")
    case True
    then show ?thesis using that w' e by (auto simp: pfd_ok_def)
  next
    case False
    then have "ch_heap w q = Some d" "channels w (ch_fd d) = Some q" using that w' by (auto split: if_splits)
    with ok obtain i where "i < length (impl w)" "ch_index d = int i" "pfd_ok strict d (impl w ! i)" by (rule poll_inv_entry)
    then show ?thesis using w'(3) by (auto simp: nth_append)
  qed
  moreover have "\<exists>q. owns w' q i" if "i < length (impl w')" for i
  proof (cases "i = length (impl w)")
    case True
    then have "owns w' p i" using w' by (simp add: owns_def)
    then show ?thesis ..
  next
    case False
    then have "i < length (impl w)" using that w'(3) by simp
    then obtain q where "owns w q i" using poll_inv_owner [OF ok] by blast
    then obtain d where d: "ch_heap w q = Some d" "channels w (ch_fd d) = Some q" "ch_index d = int i" by (rule ownsE)
    then have "ch_fd d \<noteq> ch_fd c" "q \<noteq> p" using c(3) p by auto
    then have "owns w' q i" using w' d by (intro ownsI) auto
    then show ?thesis ..
  qed
  ultimately show ?thesis by (simp add: poll_inv_def)
qed

lemma poll_change:
  assumes ok: "poll_inv strict w" and p: "owns w p i" "ch_heap w p = Some c"
    and d: "ch_fd d = ch_fd c" "ch_index d = int i" "pfd_ok strict d f"
    and w': "ch_heap w' = (ch_heap w)(p := Some d)" "channels w' = channels w" "impl w' = (impl w)[i := f]"
  shows "poll_inv strict w'"
proof -
  have "reg_ok w'" using poll_inv_regD [OF ok] p(2) d(1) w'(1,2) by (rule reg_ok_put)
  moreover have "\<exists>j<length (impl w'). ch_index e = int j \<and> pfd_ok strict e (impl w' ! j)"
    if q: "ch_heap w' q = Some e" "channels w' (ch_fd e) = Some q" for q e
  proof (cases "q = p")
    case True
    moreover have "i < length (impl w)" using ok p(1) by (rule owns_fd)
    ultimately show ?thesis using q w' d by auto
  next
    case False
    then have e: "ch_heap w q = Some e" "channels w (ch_fd e) = Some q" using q w' by auto
    with ok obtain j where j: "j < length (impl w)" "ch_index e = int j" "pfd_ok strict e (impl w ! j)" by (rule poll_inv_entry)
    moreover have "j \<noteq> i" using owns_unique [OF ok p(1)] False e j(2) by (auto simp: owns_def)
    ultimately show ?thesis using w'(3) by auto
  qed
  moreover have "owns w' q j" if "owns w q j" for q j
    using that p w' d by (auto simp: owns_def)
  ultimately show ?thesis using ok w'(3) unfolding poll_inv_def by (metis length_list_update)
qed

lemma poll_update_ok:
  assumes ok: "poll_inv strict w" and c: "ch_heap w p = Some c" "0 \<le> ch_fd c"
    and may: "may_update (\<lambda>old new. strict \<longrightarrow> old = 0 \<longrightarrow> new = 0) p c e w"
    and w1: "w1 = set_chan p (c\<lparr>ch_events := e, ch_added := True\<rparr>) w"
  shows "outcome E (\<lambda>w'. poll_inv strict w' \<and> same_view w1 w' \<and> channels w' = (channels w)(ch_fd c := Some p)) (poll_updateChannel p w1)"
proof (cases "channels w (ch_fd c)")
  case None
  then have new: "ch_index c < 0" "e \<noteq> 0" using may by (auto simp: may_update_def)
  let ?c = "c\<lparr>ch_events := e, ch_added := True, ch_index := int (length (impl w))\<rparr>"
  let ?w' = "\<lparr>ch_heap = (ch_heap w)(p := Some ?c), channels = (channels w)(ch_fd c := Some p),
    impl = impl w @ [\<lparr>pfd_fd = ch_fd c, pfd_events = ucast e, pfd_revents = 0\<rparr>]\<rparr>"
  have "poll_inv strict ?w'" using ok c None new by (rule poll_add) simp_all
  moreover have "same_view w1 ?w'" using w1 by (simp add: same_view_def owner_view_def)
  moreover have "poll_updateChannel p w1 = Inr ?w'"
    using new None w1 by (cases w) (simp add: poll_updateChannel_def set_index_def set_chan_def Let_def)
  ultimately show ?thesis by simp
next
  case (Some q)
  then have q: "channels w (ch_fd c) = Some p" "strict \<longrightarrow> ch_events c = 0 \<longrightarrow> e = 0" using may by (auto simp: may_update_def)
  obtain i where i: "i < length (impl w)" "ch_index c = int i" "pfd_ok strict c (impl w ! i)" using ok c(1) q(1) by (rule poll_inv_entry)
  let ?c = "c\<lparr>ch_events := e, ch_added := True\<rparr>"
  let ?f = "(impl w ! i)\<lparr>pfd_events := ucast e, pfd_revents := 0, pfd_fd := (if e = 0 then - ch_fd c - 1 else pfd_fd (impl w ! i))\<rparr>"
  let ?w' = "w1\<lparr>impl := (impl w)[i := ?f]\<rparr>"
  have "owns w p i" using c(1) q(1) i(2) by (rule ownsI)
  moreover have "pfd_ok strict ?c ?f" using i(3) q(2) by (auto simp: pfd_ok_def)
  ultimately have "poll_inv strict ?w'" using i(2) w1 by (intro poll_change [OF ok, of p i c ?c ?f]) (simp_all add: c(1))
  moreover have "same_view w1 ?w'" by simp
  moreover have "channels ?w' = (channels w)(ch_fd c := Some p)" using q(1) w1 by auto
  moreover have "poll_updateChannel p w1 = Inr ?w'"
    using i q(1) w1 by (auto simp: poll_updateChannel_def Let_def pfd_ok_def)
  ultimately show ?thesis by simp
qed

text \<open>Removal: the last entry takes the place of the removed one, and its channel the index.\<close>

lemma poll_drop_last:
  assumes ok: "poll_inv strict w" and p: "owns w p i" "ch_heap w p = Some c" and i: "Suc i = length (impl w)"
    and w': "ch_heap w' = (ch_heap w)(p := Some d)" "ch_fd d = ch_fd c" "channels w' = (channels w)(ch_fd c := None)" "impl w' = butlast (impl w)"
  shows "poll_inv strict w'"
proof -
  have c: "channels w (ch_fd c) = Some p" "ch_index c = int i" using p by (auto elim: ownsE)
  have other: "q \<noteq> p" if "fd \<noteq> ch_fd c" "channels w fd = Some q" for fd q
    using that p(2) reg_okD [OF poll_inv_regD [OF ok], of fd q] by auto
  have "reg_ok w'" using poll_inv_regD [OF ok] w' other by (auto simp: reg_ok_def)
  moreover have "\<exists>j<length (impl w'). ch_index e = int j \<and> pfd_ok strict e (impl w' ! j)"
    if q: "ch_heap w' q = Some e" "channels w' (ch_fd e) = Some q" for q e
  proof -
    have "q \<noteq> p" using q w' by auto
    then have e: "ch_heap w q = Some e" "channels w (ch_fd e) = Some q" using q w' by (auto split: if_splits)
    with ok obtain j where j: "j < length (impl w)" "ch_index e = int j" "pfd_ok strict e (impl w ! j)" by (rule poll_inv_entry)
    have "j \<noteq> i" using owns_unique [OF ok p(1), of q] ownsI [OF e j(2)] \<open>q \<noteq> p\<close> by auto
    then show ?thesis using j i w'(4) by (auto simp: nth_butlast)
  qed
  moreover have "\<exists>q. owns w' q j" if j: "j < length (impl w')" for j
  proof -
    have "j < length (impl w)" using j w'(4) by simp
    then obtain q where q: "owns w q j" using poll_inv_owner [OF ok] by blast
    then obtain e where e: "ch_heap w q = Some e" "channels w (ch_fd e) = Some q" "ch_index e = int j" by (rule ownsE)
    have "q \<noteq> p" using e p(2) c(2) j w'(4) i by auto
    then have "ch_fd e \<noteq> ch_fd c" using e c by auto
    then have "owns w' q j" using w' e \<open>q \<noteq> p\<close> by (intro ownsI) auto
    then show ?thesis ..
  qed
  ultimately show ?thesis by (simp add: poll_inv_def)
qed

lemma poll_swap:
  assumes ok: "poll_inv strict w" and p: "owns w p i" "ch_heap w p = Some c" and q: "owns w q j" "ch_heap w q = Some d" and ij: "i \<noteq> j"
    and w': "ch_heap w' = (ch_heap w)(p := Some (c\<lparr>ch_index := int j\<rparr>), q := Some (d\<lparr>ch_index := int i\<rparr>))" "channels w' = channels w"
      "impl w' = (impl w)[i := impl w ! j, j := impl w ! i]"
  shows "poll_inv strict w'"
proof -
  have c: "channels w (ch_fd c) = Some p" "ch_index c = int i" using p by (auto elim: ownsE)
  have d: "channels w (ch_fd d) = Some q" "ch_index d = int j" using q by (auto elim: ownsE)
  have pq: "p \<noteq> q" using c d ij p(2) q(2) by auto
  have i: "i < length (impl w)" "pfd_ok strict c (impl w ! i)" using owns_fd [OF ok p(1)] p(2) by auto
  have j: "j < length (impl w)" "pfd_ok strict d (impl w ! j)" using owns_fd [OF ok q(1)] q(2) by auto
  have "reg_ok (w\<lparr>ch_heap := (ch_heap w)(p := Some (c\<lparr>ch_index := int j\<rparr>))\<rparr>)"
    using poll_inv_regD [OF ok] p(2) by (rule reg_ok_put) simp_all
  then have "reg_ok w'" using pq q(2) w' by (elim reg_ok_put) simp_all
  moreover have "\<exists>k<length (impl w'). ch_index e = int k \<and> pfd_ok strict e (impl w' ! k)"
    if r: "ch_heap w' r = Some e" "channels w' (ch_fd e) = Some r" for r e
  proof -
    have new: "(impl w') ! i = impl w ! j" "(impl w') ! j = impl w ! i" "length (impl w') = length (impl w)" using w'(3) i(1) j(1) ij by auto
    consider "r = p" | "r = q" | "r \<noteq> p" "r \<noteq> q" by blast
    then show ?thesis
    proof cases
      case 1
      then have "e = c\<lparr>ch_index := int j\<rparr>" using r(1) w'(1) pq by simp
      then show ?thesis using new i(2) j(1) by (intro exI [of _ j]) (simp add: pfd_ok_def)
    next
      case 2
      then have "e = d\<lparr>ch_index := int i\<rparr>" using r(1) w'(1) by simp
      then show ?thesis using new j(2) i(1) by (intro exI [of _ i]) (simp add: pfd_ok_def)
    next
      case 3
      then have e: "ch_heap w r = Some e" "channels w (ch_fd e) = Some r" using r w' by auto
      with ok obtain k where k: "k < length (impl w)" "ch_index e = int k" "pfd_ok strict e (impl w ! k)" by (rule poll_inv_entry)
      have "k \<noteq> i" "k \<noteq> j" using owns_unique [OF ok p(1), of r] owns_unique [OF ok q(1), of r] ownsI [OF e k(2)] 3 by auto
      then show ?thesis using k w'(3) by auto
    qed
  qed
  moreover have "\<exists>r. owns w' r k" if k: "k < length (impl w')" for k
  proof -
    consider "k = i" | "k = j" | "k \<noteq> i" "k \<noteq> j" by blast
    then show ?thesis
    proof cases
      case 1
      then have "owns w' q k" using d w' by (simp add: owns_def)
      then show ?thesis ..
    next
      case 2
      then have "owns w' p k" using c pq w' by (simp add: owns_def)
      then show ?thesis ..
    next
      case 3
      obtain r where "owns w r k" using poll_inv_owner [OF ok, of k] k w'(3) by auto
      then obtain e where e: "ch_heap w r = Some e" "channels w (ch_fd e) = Some r" "ch_index e = int k" by (rule ownsE)
      then have "r \<noteq> p" "r \<noteq> q" using 3 c d p(2) q(2) by auto
      then have "owns w' r k" using e w' by (intro ownsI) auto
      then show ?thesis ..
    qed
  qed
  ultimately show ?thesis by (simp add: poll_inv_def)
qed

lemma poll_remove_ok:
  assumes ok: "poll_inv strict w" and c: "ch_heap w p = Some c" "ch_events c = 0" "channels w (ch_fd c) = Some p"
    and w1: "w1 = set_chan p (c\<lparr>ch_added := False\<rparr>) w"
  shows "outcome E (\<lambda>w'. poll_inv strict w' \<and> same_view w1 w' \<and> channels w' = (channels w)(ch_fd c := None)) (poll_removeChannel p w1)"
proof -
  obtain i where i: "i < length (impl w)" "ch_index c = int i" "pfd_ok strict c (impl w ! i)" using ok c(1,3) by (rule poll_inv_entry)
  have p: "owns w p i" using c(1,3) i(2) by (rule ownsI)
  let ?m = "(channels w)(ch_fd c := None)"
  have pfd: "pfd_fd (impl w ! i) = - ch_fd c - 1" "pfd_events (impl w ! i) = 0" using i(3) c(2) by (auto simp: pfd_ok_def)
  show ?thesis
  proof (cases "Suc i = length (impl w)")
    case True
    let ?w' = "w1\<lparr>channels := ?m, impl := butlast (impl w)\<rparr>"
    have "poll_inv strict ?w'" using ok p c(1) True by (rule poll_drop_last [where d = "c\<lparr>ch_added := False\<rparr>"]) (use w1 in simp_all)
    moreover have "poll_removeChannel p w1 = Inr ?w'" using c i pfd True w1 by (auto simp: poll_removeChannel_def Let_def)
    ultimately show ?thesis by simp
  next
    case False
    let ?n = "length (impl w) - 1"
    have n: "?n < length (impl w)" "i \<noteq> ?n" "impl w \<noteq> []" using i(1) False by auto
    obtain q where q: "owns w q ?n" using poll_inv_owner [OF ok n(1)] by blast
    with ok obtain d where d: "ch_heap w q = Some d" "channels w (ch_fd d) = Some q" "ch_index d = int ?n" "fd_decode (pfd_fd (impl w ! ?n)) = ch_fd d"
      by (rule owns_fd)
    have qp: "q \<noteq> p" using d(1,3) c(1) i(2) n(2) by auto
    have fd: "ch_fd d \<noteq> ch_fd c" using d(2) c(3) qp by auto
    let ?s = "w\<lparr>ch_heap := (ch_heap w)(p := Some (c\<lparr>ch_index := int ?n\<rparr>), q := Some (d\<lparr>ch_index := int i\<rparr>)),
      impl := (impl w)[i := impl w ! ?n, ?n := impl w ! i]\<rparr>"
    let ?w' = "w\<lparr>ch_heap := (ch_heap w)(p := Some (c\<lparr>ch_added := False\<rparr>), q := Some (d\<lparr>ch_index := int i\<rparr>)), channels := ?m,
      impl := butlast ((impl w)[i := impl w ! ?n, ?n := impl w ! i])\<rparr>"
    have s: "poll_inv strict ?s" using ok p c(1) q d(1) n(2) by (rule poll_swap) simp_all
    have "owns ?s p ?n" using c qp by (simp add: owns_def)
    with s have "poll_inv strict ?w'"
      by (rule poll_drop_last [where c = "c\<lparr>ch_index := int ?n\<rparr>" and d = "c\<lparr>ch_added := False\<rparr>"]) (use qp n in \<open>auto simp: fun_upd_twist\<close>)
    moreover have "same_view w1 ?w'" using w1 d(1) qp by (simp add: same_view_def)
    moreover have "poll_removeChannel p w1 = Inr ?w'"
      using c i pfd n w1 d qp fd by (simp add: poll_removeChannel_def Let_def last_conv_nth fd_decode_def set_index_def set_chan_def)
    ultimately show ?thesis by simp
  qed
qed

section \<open>Polling\<close>

text \<open>What \<open>poll\<close> may answer: it ignores the entries with a negative descriptor, and its events are not negative numbers.\<close>

definition poll_answers :: "PollPoller Poller \<Rightarrow> 16 word list option \<Rightarrow> bool" where
  "poll_answers w answer \<longleftrightarrow> (case answer of None \<Rightarrow> True | Some rs \<Rightarrow> length rs = length (impl w)
     \<and> (\<forall>i<length rs. 0 \<le> sint (rs ! i) \<and> (pfd_fd (impl w ! i) < 0 \<longrightarrow> rs ! i = 0)))"

definition has_events :: "pollfd \<Rightarrow> bool" where
  "has_events f \<longleftrightarrow> 0 < sint (pfd_revents f)"

lemma poll_fill_ok:
  assumes "poll_inv strict w" "\<forall>f\<in>set fs. has_events f \<longrightarrow> (\<exists>p. channels w (pfd_fd f) = Some p)"
  shows "\<exists>w'. poll_fill fs n w acs = Inr (w', acs @ map (\<lambda>f. the (channels w (pfd_fd f))) (take n (filter has_events fs)))
    \<and> poll_inv strict w' \<and> same_view w w' \<and> channels w' = channels w"
  using assms
proof (induction fs arbitrary: n w acs)
  case (Cons f fs)
  show ?case
  proof (cases "0 < n \<and> has_events f")
    case True
    then obtain m p where m: "n = Suc m" and p: "channels w (pfd_fd f) = Some p" using Cons.prems(2) by (auto simp: gr0_conv_Suc)
    then obtain c where c: "ch_heap w p = Some c" "ch_fd c = pfd_fd f" using reg_okD [OF poll_inv_regD [OF Cons.prems(1)] p] by auto
    let ?w = "set_chan p (c\<lparr>ch_revents := scast (pfd_revents f)\<rparr>) w"
    have "poll_inv strict ?w" using Cons.prems(1) by (rule poll_inv_view) (simp_all add: c)
    then obtain w' where "poll_fill fs m ?w (acs @ [p]) = Inr (w', (acs @ [p]) @ map (\<lambda>f. the (channels ?w (pfd_fd f))) (take m (filter has_events fs)))"
      "poll_inv strict w'" "same_view ?w w'" "channels w' = channels ?w" using Cons.IH [of ?w m "acs @ [p]"] Cons.prems(2) by auto
    moreover have "same_view w ?w" using c by (simp add: same_view_def)
    ultimately show ?thesis using True m p c same_view_trans by (auto simp: has_events_def [of f])
  next
    case False
    then show ?thesis using Cons.IH [of w n acs] Cons.prems by (auto simp: has_events_def [of f])
  qed
qed simp

lemma poll_fds:
  assumes ok: "poll_inv strict w"
  shows "distinct (map pfd_fd (impl w))" "i < length (impl w) \<Longrightarrow> 0 \<le> pfd_fd (impl w ! i) \<Longrightarrow> \<exists>p. channels w (pfd_fd (impl w ! i)) = Some p"
proof -
  have at: "\<exists>p. owns w p i \<and> channels w (fd_decode (pfd_fd (impl w ! i))) = Some p" if "i < length (impl w)" for i
    using poll_inv_owner [OF ok that] owns_fd [OF ok] by metis
  have "i = j" if ij: "i < length (impl w)" "j < length (impl w)" "pfd_fd (impl w ! i) = pfd_fd (impl w ! j)" for i j
  proof -
    obtain p where "owns w p i" "owns w p j" using at [OF ij(1)] at [OF ij(2)] ij(3) by auto
    then show ?thesis by (auto simp: owns_def)
  qed
  then show "distinct (map pfd_fd (impl w))" by (auto simp: distinct_conv_nth)
  show "\<exists>p. channels w (pfd_fd (impl w ! i)) = Some p" if "i < length (impl w)" "0 \<le> pfd_fd (impl w ! i)"
    using at [OF that(1)] that(2) by (auto simp: fd_decode_def)
qed

lemma poll_poll_ok:
  assumes ok: "poll_inv strict w" and a: "poll_answers w answer"
  shows "outcome E (\<lambda>(w', acs). poll_inv strict w' \<and> same_view w w' \<and> channels w' = channels w \<and> distinct acs \<and> (\<forall>p\<in>set acs. registered w p))
    (poll_poll answer [] w)"
proof (cases answer)
  case (Some rs)
  let ?w = "w\<lparr>impl := set_pfd_revents rs (impl w)\<rparr>" and ?n = "length (filter (\<lambda>r. r \<noteq> 0) rs)"
  have len: "length rs = length (impl w)" and neg: "\<And>i. i < length rs \<Longrightarrow> pfd_fd (impl w ! i) < 0 \<Longrightarrow> rs ! i = 0"
    using a Some by (auto simp: poll_answers_def)
  have ok': "poll_inv strict ?w" using ok by (rule poll_inv_view) (auto simp: set_pfd_revents_def len)
  let ?on = "filter has_events (impl ?w)"
  have live: "\<exists>p. channels w (pfd_fd f) = Some p" if f: "f \<in> set ?on" for f
  proof -
    obtain i where i: "i < length (impl w)" "f = (impl w ! i)\<lparr>pfd_revents := rs ! i\<rparr>" "0 < sint (rs ! i)"
      using f len by (auto simp: has_events_def in_set_conv_nth set_pfd_revents_def)
    then have "0 \<le> pfd_fd (impl w ! i)" using neg [of i] len by fastforce
    then show ?thesis using poll_fds(2) [OF ok i(1)] i(2) by simp
  qed
  obtain w' where w': "poll_fill (impl ?w) ?n ?w [] = Inr (w', map (\<lambda>f. the (channels w (pfd_fd f))) (take ?n ?on))"
    "poll_inv strict w'" "same_view ?w w'" "channels w' = channels ?w"
    using poll_fill_ok [OF ok', of "impl ?w" ?n "[]"] live by auto
  have "distinct (map pfd_fd (take ?n ?on))"
    using poll_fds(1) [OF ok'] by (simp add: distinct_map_filter take_map [symmetric])
  moreover have "inj_on (\<lambda>fd. the (channels w fd)) (set (map pfd_fd (take ?n ?on)))"
  proof (rule inj_onI)
    fix x y assume "x \<in> set (map pfd_fd (take ?n ?on))" "y \<in> set (map pfd_fd (take ?n ?on))" and eq: "the (channels w x) = the (channels w y)"
    then obtain p q where "channels w x = Some p" "channels w y = Some q" using live by (auto dest!: in_set_takeD) blast
    then show "x = y" using eq reg_ok_inj [OF poll_inv_regD [OF ok]] by auto
  qed
  ultimately have "distinct (map (\<lambda>fd. the (channels w fd)) (map pfd_fd (take ?n ?on)))" unfolding distinct_map ..
  then have "distinct (map (\<lambda>f. the (channels w (pfd_fd f))) (take ?n ?on))" by (simp add: comp_def)
  moreover have "\<forall>p\<in>set (map (\<lambda>f. the (channels w (pfd_fd f))) (take ?n ?on)). registered w p"
    using live reg_registered [OF poll_inv_regD [OF ok]] by (force dest: in_set_takeD)
  ultimately show ?thesis using Some w' ok' by (auto simp: poll_poll_def Let_def)
qed (use ok in \<open>simp add: poll_poll_def\<close>)

section \<open>The poller over \<open>poll\<close> is a poller\<close>

text \<open>Once for every use of the channels, and once for channels whose events are not set again after they have been cleared.\<close>

lemma poll_poller:
  "poller poll_updateChannel poll_removeChannel poll_poll poll_answers (\<lambda>old new. strict \<longrightarrow> old = 0 \<longrightarrow> new = 0) (\<lambda>_. False) (poll_inv strict) newPollPoller"
proof unfold_locales
  show "poll_inv strict newPollPoller" by (simp add: poll_inv_def newPollPoller_def reg_ok_def)
  show "ch_heap newPollPoller = Map.empty" by (simp add: newPollPoller_def)
next
  fix w p c assume ok: "poll_inv strict w" and c: "ch_heap w p = Some c" "channels w (ch_fd c) \<noteq> Some p"
  have p: "channels w fd \<noteq> Some p" for fd using poll_inv_regD [OF ok] c reg_okD [of w fd p] by auto
  let ?w = "w\<lparr>ch_heap := (ch_heap w)(p := None)\<rparr>"
  have own: "owns ?w q i" if "owns w q i" for q i using that p by (auto simp: owns_def)
  have "reg_ok ?w" using poll_inv_regD [OF ok] p by (simp add: reg_ok_def)
  moreover have "\<exists>q. owns ?w q i" if "i < length (impl w)" for i using poll_inv_owner [OF ok that] own by blast
  ultimately show "poll_inv strict ?w" using ok by (simp add: poll_inv_def)
next
  fix w p fd assume ok: "poll_inv strict w" and c: "ch_heap w p = None" "0 \<le> (fd :: int)"
  have p: "channels w fd \<noteq> Some p" for fd using poll_inv_regD [OF ok] c reg_okD [of w fd p] by auto
  let ?w = "set_chan p (newChannel fd) w"
  have own: "owns ?w q i" if "owns w q i" for q i using that p by (auto simp: owns_def)
  have "reg_ok ?w" using poll_inv_regD [OF ok] p by (simp add: reg_ok_def)
  moreover have "\<exists>q. owns ?w q i" if "i < length (impl w)" for i using poll_inv_owner [OF ok that] own by blast
  ultimately show "poll_inv strict ?w" using ok p by (auto simp: poll_inv_def)
next
  fix w p c b assume ok: "poll_inv strict w" and c: "ch_heap w p = Some c"
  show "poll_inv strict (set_chan p (c\<lparr>ch_handling := b\<rparr>) w)" using ok by (rule poll_inv_view) (simp_all add: c)
qed (rule poll_update_ok poll_remove_ok poll_poll_ok poll_inv_regD; assumption)+

interpretation pl: poller poll_updateChannel poll_removeChannel poll_poll poll_answers "\<lambda>_ _. True" "\<lambda>_. False" "poll_inv False" newPollPoller
  using poll_poller [of False] by simp

interpretation ps: poller poll_updateChannel poll_removeChannel poll_poll poll_answers "\<lambda>old new. old = 0 \<longrightarrow> new = 0" "\<lambda>_. False"
  "poll_inv True" newPollPoller
  using poll_poller [of True] by simp

section \<open>What is polled\<close>

definition polled :: "PollPoller Poller \<Rightarrow> int \<Rightarrow> 16 word option" where
  "polled w = map_of (map (\<lambda>f. (pfd_fd f, pfd_events f)) (filter (\<lambda>f. 0 \<le> pfd_fd f) (impl w)))"

definition asked :: "'p Poller \<Rightarrow> int \<Rightarrow> 16 word option" where
  "asked w fd = map_option (\<lambda>(e, p). ucast e) (interest w fd)"

lemma polled_iff:
  assumes ok: "poll_inv strict w"
  shows "polled w fd = Some x \<longleftrightarrow> (\<exists>i<length (impl w). pfd_fd (impl w ! i) = fd \<and> 0 \<le> fd \<and> pfd_events (impl w ! i) = x)"
proof -
  have "distinct (map fst (map (\<lambda>f. (pfd_fd f, pfd_events f)) (filter (\<lambda>f. 0 \<le> pfd_fd f) (impl w))))"
    using poll_fds(1) [OF ok] by (simp add: comp_def distinct_map_filter)
  then show ?thesis unfolding polled_def by (subst map_of_eq_Some_iff) (auto simp: in_set_conv_nth)
qed

lemma polled_asked:
  assumes ok: "poll_inv strict w" and x: "polled w fd = Some x"
  shows "asked w fd = Some x"
proof -
  obtain i where i: "i < length (impl w)" "pfd_fd (impl w ! i) = fd" "0 \<le> fd" "pfd_events (impl w ! i) = x" using x polled_iff [OF ok] by auto
  obtain p where "owns w p i" using poll_inv_owner [OF ok i(1)] by blast
  with ok obtain c where "ch_heap w p = Some c" "channels w (ch_fd c) = Some p" "0 \<le> ch_fd c" "pfd_ok strict c (impl w ! i)" by (rule owns_fd)
  then show ?thesis using i by (auto simp: asked_def interest_def pfd_ok_def)
qed

lemma polled_ignored:
  assumes ok: "poll_inv strict w" and p: "owns w p i" "ch_heap w p = Some c" and neg: "pfd_fd (impl w ! i) < 0"
  shows "polled w (ch_fd c) = None"
proof (rule ccontr)
  assume "polled w (ch_fd c) \<noteq> None"
  then obtain j where j: "j < length (impl w)" "pfd_fd (impl w ! j) = ch_fd c" "0 \<le> ch_fd c" using polled_iff [OF ok] by auto
  obtain q where q: "owns w q j" using poll_inv_owner [OF ok j(1)] by blast
  from ok q obtain e where "ch_heap w q = Some e" and e: "channels w (ch_fd e) = Some q" and "ch_index e = int j" "j < length (impl w)" "0 \<le> ch_fd e"
    "pfd_ok strict e (impl w ! j)" and f: "fd_decode (pfd_fd (impl w ! j)) = ch_fd e" by (rule owns_fd)
  have c: "channels w (ch_fd c) = Some p" "ch_index c = int i" using p by (auto elim: ownsE)
  have "q = p" using e f j(2,3) c(1) by (simp add: fd_decode_def)
  then have "j = i" using q p(2) c(2) by (auto elim!: ownsE)
  then show False using j neg by simp
qed

lemma asked_polled:
  assumes ok: "poll_inv True w" and x: "asked w fd = Some x"
  shows "polled w fd = Some x"
proof -
  obtain p c where c: "channels w fd = Some p" "ch_heap w p = Some c" "ch_events c \<noteq> 0" "x = ucast (ch_events c)"
    using x by (auto simp: asked_def interest_def split: option.splits if_splits)
  have fd: "ch_fd c = fd" "0 \<le> fd" using reg_okD [OF poll_inv_regD [OF ok] c(1)] c(2) by auto
  obtain i where "i < length (impl w)" "pfd_ok True c (impl w ! i)" using ok c(2) fd(1) c(1) by (metis poll_inv_entry)
  then show ?thesis using c fd polled_iff [OF ok] by (auto simp: pfd_ok_def)
qed

text \<open>
  Property C14.  The event loop over \<open>poll\<close> is safe: within the rules of the use of channels no step of it fails, whatever the callbacks, the functors
  and the answers of \<open>poll\<close> are.  What it polls is asked for by a channel, and when no channel that has been without events gets events again, all that
  the channels ask for is polled.
\<close>

theorem poll_loop_refines:
  assumes "loop_reach poll_updateChannel poll_removeChannel poll_poll poll_answers (\<lambda>old new. strict \<longrightarrow> old = 0 \<longrightarrow> new = 0) newPollPoller l"
    and "loop_step poll_updateChannel poll_removeChannel poll_poll poll_answers (\<lambda>old new. strict \<longrightarrow> old = 0 \<longrightarrow> new = 0) l r"
  shows "outcome (\<lambda>_. False) (\<lambda>l'. polled (world l') \<subseteq>\<^sub>m asked (world l') \<and> (strict \<longrightarrow> polled (world l') = asked (world l'))) r"
  using poller.loop_safe [OF poll_poller assms]
proof (rule outcome_weaken)
  fix l' assume "loop_ok (poll_inv strict) l'"
  then have ok: "poll_inv strict (world l')" by (simp add: loop_ok_def)
  have "polled (world l') fd = asked (world l') fd" if strict for fd
    using ok that polled_asked [of strict "world l'" fd] asked_polled [of "world l'" fd] by (cases "asked (world l') fd"; cases "polled (world l') fd") auto
  then show "polled (world l') \<subseteq>\<^sub>m asked (world l') \<and> (strict \<longrightarrow> polled (world l') = asked (world l'))"
    using polled_asked [OF ok] by (auto simp: map_le_def)
qed

lemmas poll_eval = newEventLoop_def newPollPoller_def newChannel_def kReadEvent_def kWriteEvent_def kNoneEvent_def set_events_def ch_update_def
  loop_updateChannel_def poll_updateChannel_def set_index_def set_chan_def may_update_def Let_def

text \<open>The loop with one channel, at descriptor 5, after some of its operations.\<close>

abbreviation loop_with :: "ev \<Rightarrow> int \<Rightarrow> bool \<Rightarrow> pollfd list \<Rightarrow> PollPoller EventLoop" where
  "loop_with e i added fs \<equiv> newEventLoop \<lparr>ch_heap = Map.empty(0 := Some \<lparr>ch_fd = 5, ch_events = e, ch_revents = 0, ch_index = i, ch_handling = False,
     ch_added = added\<rparr>), channels = if added then Map.empty(5 := Some 0) else Map.empty, impl = fs\<rparr>"

lemma reach_new:
  "loop_reach poll_updateChannel poll_removeChannel poll_poll poll_answers R newPollPoller (loop_with 0 (- 1) False [])"
  by (rule loop_reach_user [OF loop_reach.start, where op = "NewChannel 0 5"]) (simp_all add: poll_eval)

theorem poll_loop_refines_witness:
  "\<exists>l l'. loop_reach poll_updateChannel poll_removeChannel poll_poll poll_answers (\<lambda>old new. True \<longrightarrow> old = 0 \<longrightarrow> new = 0) newPollPoller l
    \<and> chan_exec poll_updateChannel poll_removeChannel (Update 0 EnableReading) l = Inr l'
    \<and> polled (world l') = asked (world l') \<and> polled (world l') 5 = Some 3"
proof -
  let ?R = "\<lambda>old new. True \<longrightarrow> old = 0 \<longrightarrow> new = (0 :: ev)" and ?l = "loop_with 0 (- 1) False []"
  let ?r = "chan_exec poll_updateChannel poll_removeChannel (Update 0 EnableReading) ?l"
  have step: "loop_step poll_updateChannel poll_removeChannel poll_poll poll_answers ?R ?l ?r"
    by (rule loop_step.user) (simp_all add: poll_eval)
  obtain l' where "?r = Inr l'" "polled (world l') 5 = Some 3" by (simp add: poll_eval polled_def)
  then show ?thesis using reach_new [of ?R] poll_loop_refines [OF reach_new step] by auto
qed

text \<open>
  Property C37.  The poller over \<open>poll\<close> forgets a channel that is used again: a channel of the loop that has no events and gets some is still ignored by
  \<open>poll\<close>, although the update succeeds and the channel asks for the events.
\<close>

theorem poll_forgets_reenabled:
  assumes "loop_reach poll_updateChannel poll_removeChannel poll_poll poll_answers (\<lambda>_ _. True) newPollPoller l"
    and "ch_heap (world l) p = Some c" "channels (world l) (ch_fd c) = Some p" "ch_events c = 0" "ev_change op 0 = e" "e \<noteq> 0"
  shows "\<exists>l'. chan_exec poll_updateChannel poll_removeChannel (Update p op) l = Inr l'
    \<and> interest (world l') (ch_fd c) = Some (e, p) \<and> polled (world l') (ch_fd c) = None"
proof -
  let ?w = "world l" and ?d = "c\<lparr>ch_events := e, ch_added := True\<rparr>"
  have ok: "poll_inv False ?w" using pl.reach_ok [OF assms(1)] by (simp add: loop_ok_def)
  obtain i where i: "i < length (impl ?w)" "ch_index c = int i" "pfd_ok False c (impl ?w ! i)" using ok assms(2,3) by (rule poll_inv_entry)
  have ign: "pfd_fd (impl ?w ! i) = - ch_fd c - 1" using i(3) assms(4) by (simp add: pfd_ok_def)
  let ?f = "(impl ?w ! i)\<lparr>pfd_events := ucast e, pfd_revents := 0\<rparr>"
  let ?w' = "(set_chan p ?d ?w)\<lparr>impl := (impl ?w)[i := ?f]\<rparr>"
  have run: "chan_exec poll_updateChannel poll_removeChannel (Update p op) l = Inr (l\<lparr>world := ?w'\<rparr>)"
    using assms i ign by (simp add: set_events_def ch_update_def loop_updateChannel_def poll_updateChannel_def Let_def)
  have own: "owns ?w p i" using assms(2,3) i(2) by (rule ownsI)
  have fd: "0 \<le> ch_fd c" using reg_okD [OF poll_inv_regD [OF ok] assms(3)] by auto
  have "poll_inv False ?w'" using ok own assms(2) by (rule poll_change [where d = ?d and f = ?f]) (use i ign assms(6) in \<open>auto simp: pfd_ok_def\<close>)
  moreover have "owns ?w' p i" using assms(3) i(2) by (simp add: owns_def)
  ultimately have "polled ?w' (ch_fd ?d) = None" using ign i(1) fd by (intro polled_ignored [of False ?w' p i ?d]) simp_all
  moreover have "interest ?w' (ch_fd c) = Some (e, p)" using assms(3,6) by (simp add: interest_def)
  ultimately show ?thesis using run by simp
qed

theorem poll_forgets_reenabled_witness:
  "\<exists>l l'. loop_reach poll_updateChannel poll_removeChannel poll_poll poll_answers (\<lambda>_ _. True) newPollPoller l
    \<and> chan_exec poll_updateChannel poll_removeChannel (Update 0 EnableWriting) l = Inr l'
    \<and> interest (world l') 5 = Some (4, 0) \<and> polled (world l') 5 = None"
proof -
  let ?l = "loop_with 3 0 True [\<lparr>pfd_fd = 5, pfd_events = 3, pfd_revents = 0\<rparr>]"
  let ?k = "loop_with 0 0 True [\<lparr>pfd_fd = - 6, pfd_events = 0, pfd_revents = 0\<rparr>]"
  have "loop_reach poll_updateChannel poll_removeChannel poll_poll poll_answers (\<lambda>_ _. True) newPollPoller ?l"
    by (rule loop_reach_user [OF reach_new, where op = "Update 0 EnableReading"]) (simp_all add: poll_eval)
  then have reach: "loop_reach poll_updateChannel poll_removeChannel poll_poll poll_answers (\<lambda>_ _. True) newPollPoller ?k"
    by (rule loop_reach_user [where op = "Update 0 DisableAll"]) (simp_all add: poll_eval)
  then show ?thesis
    using poll_forgets_reenabled [OF reach, of 0 "\<lparr>ch_fd = 5, ch_events = 0, ch_revents = 0, ch_index = 0, ch_handling = False, ch_added = True\<rparr>" EnableWriting 4]
    by (auto simp: newEventLoop_def kWriteEvent_def)
qed

end
