(* ===== verification/TableLib.thy ===== *)
theory TableLib
  imports Prelude "HOL-Library.Multiset"
begin

text \<open>
  The table library of Lua: \<^verbatim>\<open>src/lua/ltablib.c\<close>.  The functions reach a table through \<open>lua_rawgeti\<close> and \<open>lua_rawseti\<close> only, so that a table is here the map
  of its integer keys, with \<open>None\<close> for nil; \<open>TableMap\<close> shows that a table of \<^verbatim>\<open>ltable.c\<close> is such a map.  The length \<open>n\<close> of the table (\<open>aux_getn\<close>) and
  the order of \<open>sort\<close> (a Lua function, or the comparison of the interpreter, both of which can raise an error) are arguments.  The order is taken
  to depend on the two values only and not to change the table; the table that \<open>sort\<close> leaves behind when the order or \<open>sort\<close> itself raises an error is not
  part of its result.
\<close>

type_synonym 'v tab = "int \<Rightarrow> 'v option"

type_synonym 'v order = "'v option \<Rightarrow> 'v option \<Rightarrow> bool res"

section \<open>Insertion, removal, concatenation\<close>

text \<open>The arguments of \<open>table.insert\<close> after the table: a value, a position and a value, or another number of them.\<close>

datatype 'v insert_args = InsertEnd "'v option" | InsertAt int "'v option" | InsertOther

function move_up :: "int \<Rightarrow> int \<Rightarrow> 'v tab \<Rightarrow> 'v tab" where
  "move_up pos i t = (if i > pos then move_up pos (i - 1) (t(i := t (i - 1))) else t)"
  by auto
termination
  by (relation "measure (\<lambda>(pos, i, t). nat (i - pos))") auto

definition tinsert :: "int \<Rightarrow> 'v insert_args \<Rightarrow> 'v tab \<Rightarrow> 'v tab res" where
  "tinsert n args t = (let e = n + 1 in
     case args of
       InsertEnd v \<Rightarrow> Inr (t(e := v))
     | InsertAt pos v \<Rightarrow> (let e = (if pos > e then pos else e) in Inr ((move_up pos e t)(pos := v)))
     | InsertOther \<Rightarrow> Inl (ErrRun ''wrong number of arguments to `insert`''))"

function move_down :: "int \<Rightarrow> int \<Rightarrow> 'v tab \<Rightarrow> 'v tab" where
  "move_down pos e t = (if pos < e then move_down (pos + 1) e (t(pos := t (pos + 1))) else t)"
  by auto
termination
  by (relation "measure (\<lambda>(pos, e, t). nat (e - pos))") auto

text \<open>The result is the removed value, or no value when the position is out of bounds.\<close>

definition tremove :: "int \<Rightarrow> int option \<Rightarrow> 'v tab \<Rightarrow> 'v option option \<times> 'v tab" where
  "tremove n arg t = (let e = n; pos = (case arg of None \<Rightarrow> e | Some p \<Rightarrow> p) in
     if \<not> (1 \<le> pos \<and> pos \<le> e) then (None, t)
     else (Some (t pos), (move_down pos e t)(e := None)))"

text \<open>\<open>str\<close> gives the characters of a string or a number, and none for other values; \<open>lua_isstring\<close> accepts just these.\<close>

definition addfield :: "('v \<Rightarrow> string option) \<Rightarrow> 'v tab \<Rightarrow> int \<Rightarrow> string \<Rightarrow> string res" where
  "addfield str t i b = (case Option.bind (t i) str of
     None \<Rightarrow> Inl (ErrRun ''invalid value in table for `concat`'')
   | Some s \<Rightarrow> Inr (b @ s))"

function concat_loop :: "('v \<Rightarrow> string option) \<Rightarrow> string \<Rightarrow> 'v tab \<Rightarrow> int \<Rightarrow> int \<Rightarrow> string \<Rightarrow> string res" where
  "concat_loop str sep t i hi b =
     (if i < hi then bindE (addfield str t i b) (\<lambda>b. concat_loop str sep t (i + 1) hi (b @ sep))
      else if i = hi then addfield str t i b else Inr b)"
  by auto
termination
  by (relation "measure (\<lambda>(str, sep, t, i, hi, b). nat (hi - i))") auto

definition tconcat :: "('v \<Rightarrow> string option) \<Rightarrow> int \<Rightarrow> string option \<Rightarrow> int option \<Rightarrow> int option \<Rightarrow> 'v tab \<Rightarrow> string res" where
  "tconcat str n sep first stop t = concat_loop str (case sep of None \<Rightarrow> [] | Some s \<Rightarrow> s) t
     (case first of None \<Rightarrow> 1 | Some i \<Rightarrow> i) (case stop of None \<Rightarrow> n | Some j \<Rightarrow> j) []"

section \<open>Sorting\<close>

definition swap_at :: "int \<Rightarrow> int \<Rightarrow> 'v tab \<Rightarrow> 'v tab" where
  "swap_at i j t = t(i := t j, j := t i)"

definition order_error :: lua_error where
  "order_error = ErrRun ''invalid order function for sorting''"

text \<open>The first comparisons of \<open>auxsort\<close>: the ends, and for more than two elements the middle one.\<close>

definition sort_ends :: "'v order \<Rightarrow> int \<Rightarrow> int \<Rightarrow> 'v tab \<Rightarrow> 'v tab res" where
  "sort_ends lt l u t = bindE (lt (t u) (t l)) (\<lambda>b. Inr (if b then swap_at l u t else t))"

definition sort_middle :: "'v order \<Rightarrow> int \<Rightarrow> int \<Rightarrow> int \<Rightarrow> 'v tab \<Rightarrow> 'v tab res" where
  "sort_middle lt l u i t = bindE (lt (t i) (t l)) (\<lambda>b.
     if b then Inr (swap_at i l t)
     else bindE (lt (t u) (t i)) (\<lambda>b. Inr (if b then swap_at i u t else t)))"

function scan_up :: "'v order \<Rightarrow> 'v option \<Rightarrow> int \<Rightarrow> int \<Rightarrow> 'v tab \<Rightarrow> int res" where
  "scan_up lt P u i t = bindE (lt (t (i + 1)) P) (\<lambda>b.
     if b then if i + 1 > u then Inl order_error else scan_up lt P u (i + 1) t else Inr (i + 1))"
  by auto
termination
  by (relation "measure (\<lambda>(lt, P, u, i, t). nat (u - i))") auto

function scan_down :: "'v order \<Rightarrow> 'v option \<Rightarrow> int \<Rightarrow> int \<Rightarrow> 'v tab \<Rightarrow> int res" where
  "scan_down lt P l j t = bindE (lt P (t (j - 1))) (\<lambda>b.
     if b then if j - 1 < l then Inl order_error else scan_down lt P l (j - 1) t else Inr (j - 1))"
  by auto
termination
  by (relation "measure (\<lambda>(lt, P, l, j, t). nat (j - l))") auto

declare move_up.simps [simp del] move_down.simps [simp del] concat_loop.simps [simp del] scan_up.simps [simp del] scan_down.simps [simp del]

lemma scan_up_bounds: "scan_up lt P u i t = Inr i' \<Longrightarrow> i < i' \<and> (i \<le> u \<longrightarrow> i' \<le> u + 1)"
proof (induction lt P u i t rule: scan_up.induct)
  case (1 lt P u i t)
  from 1(2) obtain b where b: "lt (t (i + 1)) P = Inr b" by (auto simp: scan_up.simps [of lt P u i] res_simps)
  then show ?case using 1(2) 1(1) [OF b] by (auto simp: scan_up.simps [of lt P u i] split: if_splits)
qed

lemma scan_down_bounds: "scan_down lt P l j t = Inr j' \<Longrightarrow> j' < j \<and> (l \<le> j \<longrightarrow> l - 1 \<le> j')"
proof (induction lt P l j t rule: scan_down.induct)
  case (1 lt P l j t)
  from 1(2) obtain b where b: "lt P (t (j - 1)) = Inr b" by (auto simp: scan_down.simps [of lt P l j] res_simps)
  then show ?case using 1(2) 1(1) [OF b] by (auto simp: scan_down.simps [of lt P l j] split: if_splits)
qed

text \<open>The loop that moves small elements to the front and large ones to the back.\<close>

function partition_loop :: "'v order \<Rightarrow> 'v option \<Rightarrow> int \<Rightarrow> int \<Rightarrow> int \<Rightarrow> int \<Rightarrow> 'v tab \<Rightarrow> (int \<times> 'v tab) res" where
  "partition_loop lt P l u i j t = bindE (scan_up lt P u i t) (\<lambda>i. bindE (scan_down lt P l j t) (\<lambda>j.
     if j < i then Inr (i, t) else partition_loop lt P l u i j (swap_at i j t)))"
  by auto
termination
  by (relation "measure (\<lambda>(lt, P, l, u, i, j, t). nat (j - i))") (auto dest!: scan_up_bounds scan_down_bounds)

declare partition_loop.simps [simp del]

text \<open>
  One turn of the loop of \<open>auxsort\<close> up to its recursive call: nothing is left to do, or the range is split at the final place of the pivot.  The sum
  of the ends is an \<open>int\<close>.
\<close>

datatype turn = Sorted | Split int

definition sort_turn :: "'v order \<Rightarrow> int \<Rightarrow> int \<Rightarrow> 'v tab \<Rightarrow> (turn \<times> 'v tab) res" where
  "sort_turn lt l u t = bindE (sort_ends lt l u t) (\<lambda>t.
     if u - l = 1 then Inr (Sorted, t)
     else bindE (guardE (l + u \<le> INT_MAX) (ErrUB ''overflow'')) (\<lambda>_.
     let i = (l + u) div 2 in
     bindE (sort_middle lt l u i t) (\<lambda>t.
     if u - l = 2 then Inr (Sorted, t)
     else let P = t i in
       bindE (partition_loop lt P l u l (u - 1) (swap_at i (u - 1) t)) (\<lambda>(i, t).
       Inr (Split i, swap_at (u - 1) i t)))))"

text \<open>
  With an order that is none the loop need not make progress, so that \<open>auxsort\<close> is a partial function; \<open>None\<close> is not to return.
\<close>

partial_function (option) auxsort :: "'v order \<Rightarrow> int \<Rightarrow> int \<Rightarrow> 'v tab \<Rightarrow> 'v tab res option" where
  "auxsort lt l u t =
     (if l < u then
        (case sort_turn lt l u t of
           Inl e \<Rightarrow> Some (Inl e)
         | Inr (x, t1) \<Rightarrow>
             (case x of
                Sorted \<Rightarrow> Some (Inr t1)
              | Split i \<Rightarrow>
                  if i - l < u - i then
                    Option.bind (auxsort lt l (i - 1) t1) (\<lambda>r. if isl r then Some r else auxsort lt (i + 1) u (projr r))
                  else
                    Option.bind (auxsort lt (i + 1) u t1) (\<lambda>r. if isl r then Some r else auxsort lt l (i - 1) (projr r))))
      else Some (Inr t))"

definition table_sort :: "'v order \<Rightarrow> int \<Rightarrow> 'v tab \<Rightarrow> 'v tab res option" where
  "table_sort lt n t = auxsort lt 1 n t"

end
