(* ===== verification/TableLibProps.thy ===== *)
theory TableLibProps
  imports TableLib
begin

text \<open>
  The table library does what the manual says: \<open>sort\<close> with a strict weak order returns and leaves the elements sorted and rearranged in place; with any
  other function it still only rearranges, and reaches no further than one place beyond the ends; \<open>insert\<close> and \<open>remove\<close> are inverse; \<open>concat\<close> joins.
\<close>

section \<open>Rearranging a range\<close>

definition rearr :: "int \<Rightarrow> int \<Rightarrow> 'v tab \<Rightarrow> 'v tab \<Rightarrow> bool" where
  "rearr l u t t' \<longleftrightarrow> (\<forall>k. k < l \<or> u < k \<longrightarrow> t' k = t k) \<and> image_mset t' (mset_set {l..u}) = image_mset t (mset_set {l..u})"

lemma rearr_refl [simp]: "rearr l u t t"
  by (simp add: rearr_def)

lemma rearr_trans [trans]: "rearr l u t t' \<Longrightarrow> rearr l u t' t'' \<Longrightarrow> rearr l u t t''"
  by (simp add: rearr_def)

lemma rearr_image: "rearr l u t t' \<Longrightarrow> t' ` {l..u} = t ` {l..u}"
  unfolding rearr_def by (metis finite_atLeastAtMost_int finite_set_mset_mset_set set_image_mset)

lemma rearr_outside: "rearr l u t t' \<Longrightarrow> k < l \<or> u < k \<Longrightarrow> t' k = t k"
  by (auto simp: rearr_def)

lemma rearr_mono:
  assumes "rearr l u t t'" "l' \<le> l" "u \<le> u'"
  shows "rearr l' u' t t'"
proof -
  have "mset_set {l'..u'} = mset_set {l..u} + mset_set ({l'..u'} - {l..u})"
    using assms by (subst mset_set_Union [symmetric]) (auto intro!: arg_cong [where f = mset_set])
  moreover have "image_mset t' (mset_set ({l'..u'} - {l..u})) = image_mset t (mset_set ({l'..u'} - {l..u}))"
    using assms(1) by (intro image_mset_cong) (auto simp: rearr_def)
  ultimately show ?thesis using assms by (auto simp: rearr_def)
qed

lemma rearr_swap:
  assumes "i \<in> {l..u}" "j \<in> {l..u}"
  shows "rearr l u t (swap_at i j t)"
proof (cases "i = j")
  case False
  let ?A = "{l..u} - {i, j}"
  have "mset_set {l..u} = add_mset i (add_mset j (mset_set ?A))"
    using assms False by (simp add: mset_set.remove [of _ i] mset_set.remove [of _ j] Diff_insert2 [symmetric] insert_commute)
  moreover have "image_mset (swap_at i j t) (mset_set ?A) = image_mset t (mset_set ?A)"
    by (intro image_mset_cong) (simp add: swap_at_def)
  ultimately show ?thesis using assms False by (auto simp: rearr_def swap_at_def)
qed (simp add: swap_at_def rearr_def)

section \<open>Sorting with any function\<close>

lemma partition_loop_rearr:
  "partition_loop lt P l u i j t = Inr (i', t') \<Longrightarrow> l \<le> i \<Longrightarrow> i \<le> u \<Longrightarrow> j \<le> u \<Longrightarrow> rearr (l - 1) (u + 1) t t' \<and> l < i' \<and> i' \<le> u + 1"
proof (induction lt P l u i j t rule: partition_loop.induct)
  case (1 lt P l u i j t)
  obtain a b where ab: "scan_up lt P u i t = Inr a" "scan_down lt P l j t = Inr b"
    and r: "if b < a then (i', t') = (a, t) else partition_loop lt P l u a b (swap_at a b t) = Inr (i', t')"
    using 1(2) by (auto simp: partition_loop.simps [of lt P l u i j t] res_simps split: if_splits)
  have a: "i < a" "a \<le> u + 1" and b: "b < j" using scan_up_bounds [OF ab(1)] scan_down_bounds [OF ab(2)] 1(4) by auto
  show ?case
  proof (cases "b < a")
    case True
    then show ?thesis using r a 1(3) by simp
  next
    case False
    have "rearr (l - 1) (u + 1) (swap_at a b t) t' \<and> l < i' \<and> i' \<le> u + 1"
      using 1(1) [OF ab False] r False a b 1(3,5) by simp
    moreover have "rearr (l - 1) (u + 1) t (swap_at a b t)" using False a b 1(3,5) by (intro rearr_swap) auto
    ultimately show ?thesis by (blast intro: rearr_trans)
  qed
qed

lemma sort_ends_rearr: "sort_ends lt l u t = Inr t' \<Longrightarrow> l < u \<Longrightarrow> rearr l u t t'"
  by (auto simp: sort_ends_def res_simps intro!: rearr_swap)

lemma sort_middle_rearr: "sort_middle lt l u i t = Inr t' \<Longrightarrow> l \<le> i \<Longrightarrow> i \<le> u \<Longrightarrow> rearr l u t t'"
  by (auto simp: sort_middle_def res_simps intro!: rearr_swap split: if_splits)

lemma sort_turn_rearr:
  assumes "sort_turn lt l u t = Inr (x, t')" "l < u"
  shows "rearr (l - 1) (u + 1) t t'" "x = Split i \<Longrightarrow> l < i \<and> i \<le> u + 1"
proof -
  let ?m = "(l + u) div 2"
  have m: "l \<le> ?m" "?m \<le> u" using assms(2) by auto
  obtain t1 where t1: "sort_ends lt l u t = Inr t1" using assms(1) by (auto simp: sort_turn_def res_simps)
  note r1 = rearr_mono [OF sort_ends_rearr [OF t1 assms(2)], of "l - 1" "u + 1"]
  have "rearr (l - 1) (u + 1) t t' \<and> (x = Split i \<longrightarrow> l < i \<and> i \<le> u + 1)"
  proof (cases "u - l = 1")
    case True
    then show ?thesis using assms(1) t1 r1 by (simp add: sort_turn_def)
  next
    case False
    then obtain t2 where t2: "sort_middle lt l u ?m t1 = Inr t2" using assms(1) t1 by (auto simp: sort_turn_def res_simps Let_def)
    note r2 = rearr_trans [OF r1 rearr_mono [OF sort_middle_rearr [OF t2 m], of "l - 1" "u + 1"]]
    show ?thesis
    proof (cases "u - l = 2")
      case True
      then show ?thesis using assms(1) t1 t2 r2 by (auto simp: sort_turn_def res_simps Let_def)
    next
      case big: False
      then obtain i3 t3 where p: "partition_loop lt (t2 ?m) l u l (u - 1) (swap_at ?m (u - 1) t2) = Inr (i3, t3)"
        and x: "x = Split i3" "t' = swap_at (u - 1) i3 t3"
        using assms(1) t1 t2 False by (auto simp: sort_turn_def res_simps Let_def)
      have "rearr (l - 1) (u + 1) t2 (swap_at ?m (u - 1) t2)" using m assms(2) by (intro rearr_swap) auto
      moreover have i3: "rearr (l - 1) (u + 1) (swap_at ?m (u - 1) t2) t3" "l < i3" "i3 \<le> u + 1"
        using partition_loop_rearr [OF p] assms(2) by auto
      moreover have "rearr (l - 1) (u + 1) t3 t'" unfolding x using i3 assms(2) by (intro rearr_swap) auto
      ultimately show ?thesis using r2 x by (auto intro: rearr_trans)
    qed
  qed
  then show "rearr (l - 1) (u + 1) t t'" "x = Split i \<Longrightarrow> l < i \<and> i \<le> u + 1" by auto
qed

lemma auxsort_rearr:
  assumes "auxsort lt l u t = Some r"
  shows "\<forall>t'. r = Inr t' \<longrightarrow> rearr (l - 1) (u + 1) t t'"
proof (rule auxsort.raw_induct [where P = "\<lambda>lt l u t r. \<forall>t'. r = Inr t' \<longrightarrow> rearr (l - 1) (u + 1) t t'", OF _ assms], goal_cases)
  case (1 aux lt l u t r)
  show ?case
  proof (cases "l < u")
    case True
    note lu = this
    show ?thesis
    proof (cases "sort_turn lt l u t")
      case (Inr z)
      obtain x t1 where z: "z = (x, t1)" by (cases z)
      note turn = sort_turn_rearr [OF Inr [unfolded z] lu]
      show ?thesis
      proof (cases x)
        case Sorted
        then show ?thesis using 1(2) lu Inr z turn(1) by auto
      next
        case (Split i)
        have i: "l < i" "i \<le> u + 1" using turn(2) [OF Split] by auto
        have step: "rearr (l - 1) (u + 1) t t'"
          if h: "aux lt a b t1 = Some r1" "if isl r1 then r = r1 else aux lt c d (projr r1) = Some r" "r = Inr t'" "l \<le> a" "b \<le> u" "l \<le> c" "d \<le> u"
          for a b c d r1 t'
        proof -
          obtain t2 where r1: "r1 = Inr t2" using h(2,3) by (cases r1) auto
          have "rearr (a - 1) (b + 1) t1 t2" "rearr (c - 1) (d + 1) t2 t'" using 1(1) h(1-3) r1 by auto
          then have "rearr (l - 1) (u + 1) t1 t2" "rearr (l - 1) (u + 1) t2 t'" using h(4-7) by (auto intro: rearr_mono)
          then show ?thesis using turn(1) by (blast intro: rearr_trans)
        qed
        show ?thesis using 1(2) lu Inr z Split i
          by (auto simp: bind_eq_Some_conv split: if_splits intro!: step)
      qed
    qed (use 1(2) lu in auto)
  qed (use 1(2) in auto)
qed

section \<open>Sorting with an order\<close>

text \<open>The function answers for the values of \<open>S\<close>, without an error, by the strict weak order \<open>R\<close>.\<close>

definition orders :: "'v order \<Rightarrow> ('v option \<Rightarrow> 'v option \<Rightarrow> bool) \<Rightarrow> 'v option set \<Rightarrow> bool" where
  "orders lt R S \<longleftrightarrow> (\<forall>x\<in>S. \<forall>y\<in>S. lt x y = Inr (R x y) \<and> (R x y \<longrightarrow> \<not> R y x))
     \<and> (\<forall>x\<in>S. \<forall>y\<in>S. \<forall>z\<in>S. \<not> R y x \<longrightarrow> \<not> R z y \<longrightarrow> \<not> R z x)"

definition sorted_range :: "('v option \<Rightarrow> 'v option \<Rightarrow> bool) \<Rightarrow> int \<Rightarrow> int \<Rightarrow> 'v tab \<Rightarrow> bool" where
  "sorted_range R l u t \<longleftrightarrow> (\<forall>i j. l \<le> i \<longrightarrow> i < j \<longrightarrow> j \<le> u \<longrightarrow> \<not> R (t j) (t i))"

lemma orders_lt: "orders lt R S \<Longrightarrow> x \<in> S \<Longrightarrow> y \<in> S \<Longrightarrow> lt x y = Inr (R x y)"
  unfolding orders_def by blast

lemma orders_asym: "orders lt R S \<Longrightarrow> x \<in> S \<Longrightarrow> y \<in> S \<Longrightarrow> R x y \<Longrightarrow> \<not> R y x"
  unfolding orders_def by blast

lemma orders_trans: "orders lt R S \<Longrightarrow> x \<in> S \<Longrightarrow> y \<in> S \<Longrightarrow> z \<in> S \<Longrightarrow> \<not> R y x \<Longrightarrow> \<not> R z y \<Longrightarrow> \<not> R z x"
  unfolding orders_def by blast

lemma scan_up_finds:
  assumes ord: "orders lt R S" "P \<in> S" and stop: "\<not> R (t m) P" "m \<le> u"
  shows "i < m \<Longrightarrow> t ` {i<..m} \<subseteq> S \<Longrightarrow> \<exists>i'. scan_up lt P u i t = Inr i' \<and> i < i' \<and> i' \<le> m \<and> \<not> R (t i') P \<and> (\<forall>k. i < k \<longrightarrow> k < i' \<longrightarrow> R (t k) P)"
proof (induction "nat (m - i)" arbitrary: i)
  case (Suc d)
  have lt: "lt (t (i + 1)) P = Inr (R (t (i + 1)) P)" using Suc.prems by (intro orders_lt [OF ord(1)]) (auto simp: ord(2))
  show ?case
  proof (cases "R (t (i + 1)) P")
    case True
    then have less: "i + 1 < m" using Suc.prems(1) stop(1) by (cases "i + 1 = m") auto
    then obtain i' where i': "scan_up lt P u (i + 1) t = Inr i'" "i + 1 < i'" "i' \<le> m" "\<not> R (t i') P" "\<forall>k. i + 1 < k \<longrightarrow> k < i' \<longrightarrow> R (t k) P"
      using Suc.hyps(1) [of "i + 1"] Suc.hyps(2) Suc.prems by fastforce
    moreover have "R (t k) P" if "i < k" "k < i'" for k using that i'(5) True by (cases "k = i + 1") auto
    ultimately show ?thesis using lt True less stop(2) by (simp add: scan_up.simps [of lt P u i])
  next
    case False
    then show ?thesis using lt Suc.prems(1) by (auto simp: scan_up.simps [of lt P u i])
  qed
qed simp

lemma scan_down_finds:
  assumes ord: "orders lt R S" "P \<in> S" and stop: "\<not> R P (t m)" "l \<le> m"
  shows "m < j \<Longrightarrow> t ` {m..<j} \<subseteq> S \<Longrightarrow> \<exists>j'. scan_down lt P l j t = Inr j' \<and> m \<le> j' \<and> j' < j \<and> \<not> R P (t j') \<and> (\<forall>k. j' < k \<longrightarrow> k < j \<longrightarrow> R P (t k))"
proof (induction "nat (j - m)" arbitrary: j)
  case (Suc d)
  have lt: "lt P (t (j - 1)) = Inr (R P (t (j - 1)))" using Suc.prems by (intro orders_lt [OF ord(1)]) (auto simp: ord(2))
  show ?case
  proof (cases "R P (t (j - 1))")
    case True
    then have less: "m < j - 1" using Suc.prems(1) stop(1) by (cases "j - 1 = m") auto
    then obtain j' where j': "scan_down lt P l (j - 1) t = Inr j'" "m \<le> j'" "j' < j - 1" "\<not> R P (t j')" "\<forall>k. j' < k \<longrightarrow> k < j - 1 \<longrightarrow> R P (t k)"
      using Suc.hyps(1) [of "j - 1"] Suc.hyps(2) Suc.prems by fastforce
    moreover have "R P (t k)" if "j' < k" "k < j" for k using that j'(5) True by (cases "k = j - 1") auto
    ultimately show ?thesis using lt True less stop(2) by (simp add: scan_down.simps [of lt P l j])
  next
    case False
    then show ?thesis using lt Suc.prems(1) by (auto simp: scan_down.simps [of lt P l j])
  qed
qed simp

text \<open>The state of the partition: what is left of the first index is not above the pivot, what is right of the second not below.\<close>

definition parted :: "('v option \<Rightarrow> 'v option \<Rightarrow> bool) \<Rightarrow> 'v option \<Rightarrow> int \<Rightarrow> int \<Rightarrow> int \<Rightarrow> int \<Rightarrow> 'v tab \<Rightarrow> bool" where
  "parted R P l u i j t \<longleftrightarrow> l \<le> i \<and> i \<le> j \<and> j \<le> u - 1 \<and> (i = j \<longrightarrow> l < i \<and> j < u - 1) \<and> t (u - 1) = P
     \<and> (\<forall>k. l \<le> k \<longrightarrow> k \<le> i \<longrightarrow> \<not> R P (t k)) \<and> (\<forall>k. j \<le> k \<longrightarrow> k \<le> u \<longrightarrow> \<not> R (t k) P)"

text \<open>The range is split at the place of the pivot.\<close>

definition split_at :: "('v option \<Rightarrow> 'v option \<Rightarrow> bool) \<Rightarrow> 'v option \<Rightarrow> int \<Rightarrow> int \<Rightarrow> int \<Rightarrow> 'v tab \<Rightarrow> bool" where
  "split_at R P l u i t \<longleftrightarrow> l < i \<and> i < u \<and> (\<forall>k. l \<le> k \<longrightarrow> k < i \<longrightarrow> \<not> R P (t k)) \<and> (\<forall>k. i \<le> k \<longrightarrow> k \<le> u \<longrightarrow> \<not> R (t k) P)"

lemma scans_meet:
  assumes ord: "orders lt R S" "P \<in> S" and S: "t ` {l..u} \<subseteq> S" and part: "parted R P l u i j t"
  obtains a b where "scan_up lt P u i t = Inr a" "scan_down lt P l j t = Inr b" "i < a" "a \<le> u - 1" "l \<le> b" "b < j" "\<not> R (t a) P" "\<not> R P (t b)"
    "\<forall>k. l \<le> k \<longrightarrow> k < a \<longrightarrow> \<not> R P (t k)" "\<forall>k. b < k \<longrightarrow> k \<le> u \<longrightarrow> \<not> R (t k) P"
proof -
  have lo: "\<And>k. l \<le> k \<Longrightarrow> k \<le> i \<Longrightarrow> \<not> R P (t k)" and hi: "\<And>k. j \<le> k \<Longrightarrow> k \<le> u \<Longrightarrow> \<not> R (t k) P"
    and ij: "l \<le> i" "i \<le> j" "j \<le> u - 1" "i = j \<longrightarrow> l < i \<and> j < u - 1" using part by (auto simp: parted_def)
  define m where "m = (if i < j then j else j + 1)"
  define n where "n = (if i < j then i else i - 1)"
  have m: "\<not> R (t m) P" "m \<le> u" "i < m" "m \<le> u - 1" and n: "\<not> R P (t n)" "l \<le> n" "n < j" using ij hi lo by (auto simp: m_def n_def)
  have SS: "t ` {i<..m} \<subseteq> S" "t ` {n..<j} \<subseteq> S" using S ij m n by auto
  obtain a where a: "scan_up lt P u i t = Inr a" "i < a" "a \<le> m" "\<not> R (t a) P" "\<forall>k. i < k \<longrightarrow> k < a \<longrightarrow> R (t k) P"
    using scan_up_finds [OF ord m(1,2,3) SS(1)] by blast
  obtain b where b: "scan_down lt P l j t = Inr b" "n \<le> b" "b < j" "\<not> R P (t b)" "\<forall>k. b < k \<longrightarrow> k < j \<longrightarrow> R P (t k)"
    using scan_down_finds [OF ord n SS(2)] by blast
  have in_S: "t k \<in> S" if "l \<le> k" "k \<le> u" for k using that S by auto
  have "\<not> R P (t k)" if "l \<le> k" "k < a" for k
    using that lo a(3,5) m(4) orders_asym [OF ord(1) in_S [of k] ord(2)] by (cases "k \<le> i") auto
  moreover have "\<not> R (t k) P" if "b < k" "k \<le> u" for k
    using that hi b(2,5) n(2) orders_asym [OF ord(1) ord(2) in_S [of k]] by (cases "j \<le> k") auto
  ultimately show thesis using that [of a b] a b m n by auto
qed

lemma partition_loop_parts:
  "orders lt R S \<Longrightarrow> P \<in> S \<Longrightarrow> t ` {l..u} \<subseteq> S \<Longrightarrow> parted R P l u i j t \<Longrightarrow>
   \<exists>i' t'. partition_loop lt P l u i j t = Inr (i', t') \<and> rearr l u t t' \<and> t' (u - 1) = P \<and> split_at R P l u i' t'"
proof (induction lt P l u i j t rule: partition_loop.induct)
  case (1 lt P l u i j t)
  note part = 1(5)
  obtain a b where ab: "scan_up lt P u i t = Inr a" "scan_down lt P l j t = Inr b" "i < a" "a \<le> u - 1" "l \<le> b" "b < j" "\<not> R (t a) P" "\<not> R P (t b)"
    and lo: "\<forall>k. l \<le> k \<longrightarrow> k < a \<longrightarrow> \<not> R P (t k)" and hi: "\<forall>k. b < k \<longrightarrow> k \<le> u \<longrightarrow> \<not> R (t k) P"
    using 1(2-5) by (rule scans_meet)
  have ij: "l \<le> i" "j \<le> u - 1" "t (u - 1) = P" using part by (auto simp: parted_def)
  show ?case
  proof (cases "b < a")
    case True
    then have "split_at R P l u a t" using ab ij lo hi by (auto simp: split_at_def)
    then show ?thesis using ab True ij by (simp add: partition_loop.simps [of lt P l u i j t])
  next
    case False
    have swap: "rearr l u t (swap_at a b t)" using False ab ij by (intro rearr_swap) auto
    have "\<not> R P (swap_at a b t k)" if "l \<le> k" "k \<le> a" for k using that False lo ab by (cases "k = a") (auto simp: swap_at_def)
    moreover have "\<not> R (swap_at a b t k) P" if "b \<le> k" "k \<le> u" for k using that False hi ab by (cases "k = b") (auto simp: swap_at_def)
    ultimately have "parted R P l u a b (swap_at a b t)" using False ab ij by (auto simp: parted_def swap_at_def)
    then obtain i' t' where r: "partition_loop lt P l u a b (swap_at a b t) = Inr (i', t')" "rearr l u (swap_at a b t) t'" "t' (u - 1) = P"
      "split_at R P l u i' t'" using 1(1) [OF ab(1,2) False 1(2,3)] rearr_image [OF swap] 1(4) by auto
    then show ?thesis using ab False rearr_trans [OF swap] by (simp add: partition_loop.simps [of lt P l u i j t])
  qed
qed

lemma sort_ends_ok:
  assumes "orders lt R S" "t l \<in> S" "t u \<in> S" "l < u"
  shows "\<exists>t'. sort_ends lt l u t = Inr t' \<and> rearr l u t t' \<and> \<not> R (t' u) (t' l)"
  using assms orders_asym [OF assms(1), of "t u" "t l"]
  by (auto simp: sort_ends_def orders_lt [OF assms(1)] swap_at_def [of l u] intro: rearr_swap [of l l u u t, unfolded swap_at_def])

lemma sort_middle_ok:
  assumes ord: "orders lt R S" and S: "t l \<in> S" "t i \<in> S" "t u \<in> S" and i: "l < i" "i < u" and lu: "\<not> R (t u) (t l)"
  shows "\<exists>t'. sort_middle lt l u i t = Inr t' \<and> rearr l u t t' \<and> \<not> R (t' i) (t' l) \<and> \<not> R (t' u) (t' i)"
proof -
  have swap: "rearr l u t (swap_at i l t)" "rearr l u t (swap_at i u t)" using i by (auto intro: rearr_swap)
  show ?thesis
    using orders_asym [OF ord S(2,1)] orders_asym [OF ord S(3,2)] swap S i lu
    by (auto simp: sort_middle_def orders_lt [OF ord] swap_at_def)
qed

lemma sorted_two: "\<not> R (t u) (t l) \<Longrightarrow> u - l = 1 \<Longrightarrow> sorted_range R l u t"
  unfolding sorted_range_def
proof (intro allI impI)
  fix i j assume "\<not> R (t u) (t l)" "u - l = 1" "l \<le> i" "i < j" "j \<le> u"
  moreover from this have "i = l" "j = u" by auto
  ultimately show "\<not> R (t j) (t i)" by simp
qed

lemma sorted_three:
  assumes "\<not> R (t m) (t l)" "\<not> R (t u) (t m)" "\<not> R (t u) (t l)" "u - l = 2" "m = l + 1"
  shows "sorted_range R l u t"
  unfolding sorted_range_def
proof (intro allI impI)
  fix i j assume "l \<le> i" "i < j" "j \<le> u"
  then have "i = l \<and> j = m \<or> i = l \<and> j = u \<or> i = m \<and> j = u" using assms(4,5) by auto
  then show "\<not> R (t j) (t i)" using assms(1-3) by auto
qed

definition turn_done :: "('v option \<Rightarrow> 'v option \<Rightarrow> bool) \<Rightarrow> int \<Rightarrow> int \<Rightarrow> turn \<Rightarrow> 'v tab \<Rightarrow> bool" where
  "turn_done R l u x t \<longleftrightarrow> (case x of Sorted \<Rightarrow> sorted_range R l u t | Split i \<Rightarrow> split_at R (t i) l u i t)"

lemma pivot_home:
  assumes "split_at R P l u i t" "t (u - 1) = P"
  shows "split_at R P l u i (swap_at (u - 1) i t)" "swap_at (u - 1) i t i = P"
  using assms by (auto simp: split_at_def swap_at_def)

lemma parted_start:
  assumes "\<not> R (t m) (t l)" "\<not> R (t u) (t m)" "\<not> R (t m) (t m)" "l < m" "m < u" "u - l \<noteq> 2"
  shows "parted R (t m) l u l (u - 1) (swap_at m (u - 1) t)"
  unfolding parted_def
proof (intro conjI allI impI)
  show "\<not> R (t m) (swap_at m (u - 1) t k)" if "l \<le> k" "k \<le> l" for k
    using that assms by (auto simp: swap_at_def)
  show "\<not> R (swap_at m (u - 1) t k) (t m)" if "u - 1 \<le> k" "k \<le> u" for k
  proof -
    have "k = u - 1 \<or> k = u" using that by auto
    then show ?thesis using assms by (auto simp: swap_at_def)
  qed
qed (use assms in \<open>auto simp: swap_at_def\<close>)

lemma sort_turn_ok:
  assumes ord: "orders lt R S" and S: "t ` {l..u} \<subseteq> S" and lu: "l < u" "l + u \<le> INT_MAX"
  shows "\<exists>x t'. sort_turn lt l u t = Inr (x, t') \<and> rearr l u t t' \<and> turn_done R l u x t'"
proof -
  let ?m = "(l + u) div 2"
  have "t l \<in> S" "t u \<in> S" using S lu by auto
  then obtain t1 where t1: "sort_ends lt l u t = Inr t1" "rearr l u t t1" "\<not> R (t1 u) (t1 l)"
    using sort_ends_ok [OF ord _ _ lu(1)] by blast
  show ?thesis
  proof (cases "u - l = 1")
    case True
    then show ?thesis using t1 sorted_two [of R t1 u l] by (auto simp: sort_turn_def turn_done_def)
  next
    case False
    have m: "l < ?m" "?m < u" using False lu by auto
    have S1: "t1 ` {l..u} \<subseteq> S" using rearr_image [OF t1(2)] S by simp
    then have "t1 l \<in> S" "t1 ?m \<in> S" "t1 u \<in> S" using m lu by auto
    then obtain t2 where t2: "sort_middle lt l u ?m t1 = Inr t2" "rearr l u t1 t2" "\<not> R (t2 ?m) (t2 l)" "\<not> R (t2 u) (t2 ?m)"
      using sort_middle_ok [OF ord _ _ _ m t1(3)] by blast
    note r2 = rearr_trans [OF t1(2) t2(2)]
    have S2: "t2 ` {l..u} \<subseteq> S" using rearr_image [OF t2(2)] S1 by simp
    then have in_S: "t2 k \<in> S" if "l \<le> k" "k \<le> u" for k using that by auto
    show ?thesis
    proof (cases "u - l = 2")
      case True
      have "sorted_range R l u t2" using True m t2 lu orders_trans [OF ord in_S in_S in_S t2(3,4)] by (intro sorted_three [of R t2 ?m]) auto
      then show ?thesis using True t1 t2 r2 lu by (auto simp: sort_turn_def turn_done_def Let_def)
    next
      case big: False
      let ?P = "t2 ?m" and ?t = "swap_at ?m (u - 1) t2"
      have P: "?P \<in> S" using in_S m by simp
      have swap: "rearr l u t2 ?t" using m by (intro rearr_swap) auto
      have "\<not> R ?P ?P" using orders_asym [OF ord P P] by blast
      then have part: "parted R ?P l u l (u - 1) ?t" using t2(3,4) m big by (intro parted_start) auto
      have S3: "?t ` {l..u} \<subseteq> S" using rearr_image [OF swap] S2 by simp
      obtain i t3 where t3: "partition_loop lt ?P l u l (u - 1) ?t = Inr (i, t3)" "rearr l u ?t t3" "t3 (u - 1) = ?P" "split_at R ?P l u i t3"
        using partition_loop_parts [OF ord P S3 part] by blast
      have "rearr l u t3 (swap_at (u - 1) i t3)" using t3(4) by (intro rearr_swap) (auto simp: split_at_def)
      then have "rearr l u t (swap_at (u - 1) i t3)" using r2 swap t3(2) by (blast intro: rearr_trans)
      moreover have "sort_turn lt l u t = Inr (Split i, swap_at (u - 1) i t3)" using t1 t2 t3 False big lu by (simp add: sort_turn_def Let_def)
      ultimately show ?thesis using pivot_home [OF t3(4,3)] by (auto simp: turn_done_def)
    qed
  qed
qed

text \<open>Sorting the two parts sorts the range.\<close>

lemma sorted_join:
  assumes ord: "orders lt R S" and S: "t ` {l..u} \<subseteq> S" and split: "split_at R (t i) l u i t"
    and t': "t' ` {l..i - 1} = t ` {l..i - 1}" "t' i = t i" "t' ` {i + 1..u} = t ` {i + 1..u}"
    and sorted: "sorted_range R l (i - 1) t'" "sorted_range R (i + 1) u t'"
  shows "sorted_range R l u t'"
  unfolding sorted_range_def
proof (intro allI impI)
  fix a b assume ab: "l \<le> a" "a < b" "b \<le> u"
  have i: "l < i" "i < u" using split by (auto simp: split_at_def)
  have low: "t' k \<in> S \<and> \<not> R (t i) (t' k)" if "l \<le> k" "k \<le> i" for k
  proof (cases "k = i")
    case False
    then have "t' k \<in> t ` {l..i - 1}" using that t'(1) by auto
    then show ?thesis using S i split by (auto simp: split_at_def)
  next
    case True
    have "t i \<in> S" using S i by auto
    then show ?thesis using True t'(2) orders_asym [OF ord, of "t i" "t i"] by auto
  qed
  have high: "t' k \<in> S \<and> \<not> R (t' k) (t i)" if "i \<le> k" "k \<le> u" for k
  proof (cases "k = i")
    case False
    then have "t' k \<in> t ` {i + 1..u}" using that t'(3) by auto
    then show ?thesis using S i split by (auto simp: split_at_def)
  next
    case True
    then show ?thesis using low [of i] i t'(2) by auto
  qed
  consider "b < i" | "i < a" | "a \<le> i" "i \<le> b" by linarith
  then show "\<not> R (t' b) (t' a)"
  proof cases
    case 3
    have "t i \<in> S" using S i by auto
    then show ?thesis using low [of a] high [of b] 3 ab orders_trans [OF ord, of "t' a" "t i" "t' b"] by blast
  qed (use ab sorted in \<open>auto simp: sorted_range_def\<close>)
qed

lemma rearr_parts:
  assumes "rearr l (i - 1) t1 t2 \<and> rearr (i + 1) u t2 t3 \<or> rearr (i + 1) u t1 t2 \<and> rearr l (i - 1) t2 t3" "l < i" "i < u"
  shows "rearr l u t1 t3" "t3 ` {l..i - 1} = t1 ` {l..i - 1}" "t3 i = t1 i" "t3 ` {i + 1..u} = t1 ` {i + 1..u}"
proof -
  have "rearr l u t1 t2" "rearr l u t2 t3" using assms by (auto elim!: rearr_mono)
  then show "rearr l u t1 t3" by (rule rearr_trans)
  show "t3 i = t1 i" using assms(1) by (auto simp: rearr_outside)
  have same: "t' ` A = t ` A" if "rearr a b t t'" "A \<inter> {a..b} = {}" for a b A and t t' :: "'a tab"
  proof (rule image_cong [OF refl])
    fix x assume "x \<in> A"
    then have "x < a \<or> b < x" using that(2) by force
    then show "t' x = t x" by (rule rearr_outside [OF that(1)])
  qed
  have "t' ` {l..i - 1} = t ` {l..i - 1}" "t' ` {i + 1..u} = t ` {i + 1..u}" if "rearr l (i - 1) t t' \<or> rearr (i + 1) u t t'" for t t' :: "'a tab"
    using that rearr_image [of l "i - 1" t t'] rearr_image [of "i + 1" u t t'] same [of l "i - 1" t t' "{i + 1..u}"] same [of "i + 1" u t t' "{l..i - 1}"]
    by (elim disjE; simp)+
  then show "t3 ` {l..i - 1} = t1 ` {l..i - 1}" "t3 ` {i + 1..u} = t1 ` {i + 1..u}" using assms(1) by metis+
qed

lemma sorted_range_cong: "sorted_range R l u t \<Longrightarrow> (\<And>k. l \<le> k \<Longrightarrow> k \<le> u \<Longrightarrow> t' k = t k) \<Longrightarrow> sorted_range R l u t'"
  by (simp add: sorted_range_def)

lemma auxsort_halves:
  assumes turn: "sort_turn lt l u t = Inr (Split i, t1)" and lu: "l < u" and i: "l < i" "i < u" and S1: "t1 ` {l..u} \<subseteq> S"
    and low: "\<And>s. s ` {l..i - 1} \<subseteq> S \<Longrightarrow> \<exists>t'. auxsort lt l (i - 1) s = Some (Inr t') \<and> rearr l (i - 1) s t' \<and> sorted_range R l (i - 1) t'"
    and high: "\<And>s. s ` {i + 1..u} \<subseteq> S \<Longrightarrow> \<exists>t'. auxsort lt (i + 1) u s = Some (Inr t') \<and> rearr (i + 1) u s t' \<and> sorted_range R (i + 1) u t'"
  shows "\<exists>t2 t3. auxsort lt l u t = Some (Inr t3) \<and> (rearr l (i - 1) t1 t2 \<and> rearr (i + 1) u t2 t3 \<or> rearr (i + 1) u t1 t2 \<and> rearr l (i - 1) t2 t3)
        \<and> sorted_range R l (i - 1) t3 \<and> sorted_range R (i + 1) u t3"
proof (cases "i - l < u - i")
  case small: True
  obtain t2 where t2: "auxsort lt l (i - 1) t1 = Some (Inr t2)" "rearr l (i - 1) t1 t2" "sorted_range R l (i - 1) t2"
    using low [of t1] S1 i by force
  have "t2 ` {i + 1..u} \<subseteq> S" using S1 i rearr_outside [OF t2(2)] by (auto simp: image_subset_iff)
  then obtain t3 where t3: "auxsort lt (i + 1) u t2 = Some (Inr t3)" "rearr (i + 1) u t2 t3" "sorted_range R (i + 1) u t3" using high by blast
  have "sorted_range R l (i - 1) t3" using t2(3) by (rule sorted_range_cong) (simp add: rearr_outside [OF t3(2)])
  then show ?thesis using turn t2 t3 lu small by (auto simp: auxsort.simps [of lt l u t])
next
  case small: False
  obtain t2 where t2: "auxsort lt (i + 1) u t1 = Some (Inr t2)" "rearr (i + 1) u t1 t2" "sorted_range R (i + 1) u t2"
    using high [of t1] S1 i by force
  have "t2 ` {l..i - 1} \<subseteq> S" using S1 i rearr_outside [OF t2(2)] by (auto simp: image_subset_iff)
  then obtain t3 where t3: "auxsort lt l (i - 1) t2 = Some (Inr t3)" "rearr l (i - 1) t2 t3" "sorted_range R l (i - 1) t3" using low by blast
  have "sorted_range R (i + 1) u t3" using t2(3) by (rule sorted_range_cong) (simp add: rearr_outside [OF t3(2)])
  then show ?thesis using turn t2 t3 lu small by (auto simp: auxsort.simps [of lt l u t])
qed

lemma auxsort_ok:
  assumes ord: "orders lt R S"
  shows "t ` {l..u} \<subseteq> S \<Longrightarrow> 2 * u \<le> INT_MAX \<Longrightarrow> \<exists>t'. auxsort lt l u t = Some (Inr t') \<and> rearr l u t t' \<and> sorted_range R l u t'"
proof (induction "nat (u - l)" arbitrary: l u t rule: less_induct)
  case less
  show ?case
  proof (cases "l < u")
    case False
    then show ?thesis by (simp add: auxsort.simps [of lt l u t] sorted_range_def)
  next
    case True
    have "l + u \<le> INT_MAX" using True less.prems(2) by simp
    then obtain x t1 where t1: "sort_turn lt l u t = Inr (x, t1)" "rearr l u t t1" "turn_done R l u x t1"
      using sort_turn_ok [OF ord less.prems(1) True] by blast
    have S1: "t1 ` {l..u} \<subseteq> S" using rearr_image [OF t1(2)] less.prems(1) by simp
    show ?thesis
    proof (cases x)
      case Sorted
      then show ?thesis using True t1 by (simp add: auxsort.simps [of lt l u t] turn_done_def)
    next
      case (Split i)
      then have split: "split_at R (t1 i) l u i t1" and i: "l < i" "i < u" using t1(3) by (auto simp: turn_done_def split_at_def)
      have low: "\<exists>t'. auxsort lt l (i - 1) s = Some (Inr t') \<and> rearr l (i - 1) s t' \<and> sorted_range R l (i - 1) t'"
        if "s ` {l..i - 1} \<subseteq> S" for s using less.hyps [OF _ that] i less.prems(2) by auto
      have high: "\<exists>t'. auxsort lt (i + 1) u s = Some (Inr t') \<and> rearr (i + 1) u s t' \<and> sorted_range R (i + 1) u t'"
        if "s ` {i + 1..u} \<subseteq> S" for s using less.hyps [OF _ that] i less.prems(2) by auto
      obtain t2 t3 where t3: "auxsort lt l u t = Some (Inr t3)"
        and r: "rearr l (i - 1) t1 t2 \<and> rearr (i + 1) u t2 t3 \<or> rearr (i + 1) u t1 t2 \<and> rearr l (i - 1) t2 t3"
        and "sorted_range R l (i - 1) t3" "sorted_range R (i + 1) u t3"
        using auxsort_halves [OF t1(1) [unfolded Split] True i S1 low high] by blast
      then have "sorted_range R l u t3" using rearr_parts [OF r i] by (intro sorted_join [OF ord S1 split])
      then show ?thesis using t3 rearr_trans [OF t1(2) rearr_parts(1) [OF r i]] by blast
    qed
  qed
qed

text \<open>
  Property C15.  \<open>table.sort\<close> sorts.  When the order answers on the elements \<open>t[1] .. t[n]\<close> by a strict weak order, it returns, without an error; afterwards the
  elements are in order, they are the ones from before, each as often, and no other entry of the table has changed.
\<close>

theorem table_sort_sorts:
  assumes "orders lt R (t ` {1..n})" "2 * n \<le> INT_MAX"
  shows "\<exists>t'. table_sort lt n t = Some (Inr t') \<and> sorted_range R 1 n t'
    \<and> image_mset t' (mset_set {1..n}) = image_mset t (mset_set {1..n}) \<and> (\<forall>k. k < 1 \<or> n < k \<longrightarrow> t' k = t k)"
  using auxsort_ok [OF assms(1) subset_refl assms(2)] unfolding table_sort_def rearr_def by blast

theorem table_sort_sorts_witness:
  "orders (\<lambda>x y. Inr (the x < the y)) (\<lambda>x y. the x < the y) ((\<lambda>k. Some (3 - k)) ` {1..3 :: int})
   \<and> (\<exists>t'. table_sort (\<lambda>x y. Inr (the x < the y)) 3 (\<lambda>k. Some (3 - k)) = Some (Inr t') \<and> sorted_range (\<lambda>x y. the x < the y) 1 3 t')"
proof -
  have "orders (\<lambda>x y. Inr (the x < the y)) (\<lambda>x y. the x < the y) ((\<lambda>k. Some (3 - k)) ` {1..3 :: int})"
    by (auto simp: orders_def)
  then show ?thesis using table_sort_sorts [of "\<lambda>x y. Inr (the x < the y)" "\<lambda>x y. the x < the y" "\<lambda>k. Some (3 - k)" 3] by auto
qed

text \<open>
  Whatever a comparison function without state answers, when \<open>table.sort\<close> returns normally it has only exchanged entries, and reached no further than
  \<open>t[0]\<close> and \<open>t[n + 1]\<close>: with a function that is no order these two can be mixed with the elements.
\<close>

theorem table_sort_rearranges:
  assumes "table_sort lt n t = Some (Inr t')"
  shows "image_mset t' (mset_set {0..n + 1}) = image_mset t (mset_set {0..n + 1}) \<and> (\<forall>k. k < 0 \<or> n + 1 < k \<longrightarrow> t' k = t k)"
  using auxsort_rearr [of lt 1 n t] assms by (simp add: table_sort_def rearr_def)

theorem table_sort_rearranges_witness:
  "table_sort (\<lambda>_ _. Inr True) 2 (\<lambda>k. Some k) = Some (Inr (swap_at 1 2 (\<lambda>k. Some k)))
   \<and> image_mset (swap_at 1 2 (\<lambda>k. Some k)) (mset_set {0..2 + 1}) = image_mset (\<lambda>k. Some k) (mset_set {0..2 + 1})"
proof -
  have "table_sort (\<lambda>_ _. Inr True) 2 (\<lambda>k. Some k) = Some (Inr (swap_at 1 2 (\<lambda>k. Some (k :: int))))"
    by (simp add: table_sort_def auxsort.simps sort_turn_def sort_ends_def)
  then show ?thesis using table_sort_rearranges by blast
qed

section \<open>Insertion, removal, concatenation\<close>



text \<open>\<open>concat\<close> joins the strings of the range, with the separator between them.\<close>

lemma concat_loop_joins:
  "(\<And>k. i \<le> k \<Longrightarrow> k \<le> j \<Longrightarrow> Option.bind (t k) str = Some (s k)) \<Longrightarrow>
   concat_loop str sep t i j b = Inr (b @ concat (map (\<lambda>k. s k @ sep) [i..j - 1]) @ (if i \<le> j then s j else []))"
proof (induction str sep t i j b rule: concat_loop.induct)
  case (1 str sep t i j b)
  consider "i < j" | "i = j" | "j < i" by linarith
  then show ?case
  proof cases
    case 1
    then show ?thesis using "1.IH" [OF 1] "1.prems" by (simp add: concat_loop.simps [of str sep t i j] addfield_def upto_rec1)
  next
    case 2
    then show ?thesis using "1.prems" by (simp add: concat_loop.simps [of str sep t j j] addfield_def)
  qed (simp add: concat_loop.simps [of str sep t i j])
qed



end
