(* ===== verification/Spec2Isabelle.thy ===== *)
theory Spec2Isabelle
  imports TableOps PrecompiledProps ProtobufCodecProps LogonProtocol PatternProps TcpConnectionProps HttpProps LexerProps TimerProps EPollProps PollProps TableLibProps
begin

text \<open>
  A verification library for mmvx: a logon cluster of small servers, written on a C++ network library (muduo) and an embedded Lua 5.1.

  \<^bold>\<open>The program.\<close>  A client logs on at a logon server, which checks the password in a database and asks the hub for a forward server; the hub
  picks the least loaded one and hands the session to it through its keeper; the client then presents the session at the forward server.  The servers talk in
  protobuf messages, framed, check-summed and optionally encrypted by a codec over byte buffers, which TCP connections fill and drain.  They read
  their configuration with the embedded Lua, whose core (strings, tables, byte code, precompiled chunks, patterns, lexer) is the C part of the repository.

  \<^bold>\<open>The model\<close> is a shallow embedding for a 64-bit little endian Linux.  C structs and C++ objects are records, enumerations are data types, machine
  integers are words or numbers with the wrap-around written out, bytes are characters.  Code that can raise a Lua error returns a value of
  \<open>lua_error + 'a\<close>; a failed assertion of the C++ code is \<open>None\<close>; the handlers of the servers are functions from the state of the server to the
  changed state and the list of its actions.  What is not in the repository (the protobuf runtime, adler32, AES, MySQL, the system calls) is an argument of
  the definitions that use it.

  \<^bold>\<open>The theories\<close>, in the order of the code they model:

  \<^item> \<open>Prelude\<close>: the error monad and the lemmas and collections shared by all.
  \<^item> \<open>Opcodes\<close> (\<^verbatim>\<open>lopcodes.h\<close>, \<^verbatim>\<open>lopcodes.c\<close>): layout of instructions, operand modes.  Building an instruction and reading its fields is the identity.
  \<^item> \<open>LuaNumber\<close>, \<open>Objects\<close> (\<^verbatim>\<open>lobject.h\<close>, \<^verbatim>\<open>lobject.c\<close>, \<^verbatim>\<open>lfunc.c\<close>): numbers as doubles with the operations the tables need, values, raw equality, prototypes,
    chunk names that fit their buffer.
  \<^item> \<open>StringTable\<close> (\<^verbatim>\<open>lstring.c\<close>): interning.  Equal strings have one address, through collisions, resizes and revived dead strings.
  \<^item> \<open>LuaTable\<close>, \<open>Chains\<close>, \<open>TableProps\<close>, \<open>TableSizes\<close>, \<open>TableMap\<close>, \<open>TableOps\<close> (\<^verbatim>\<open>ltable.c\<close>): the hybrid of array and chained scatter table.  A table refines a finite
    map; traversal visits every entry once; the length is a border; resizing keeps the map.
  \<^item> \<open>CodeChecker\<close> (\<^verbatim>\<open>ldebug.c\<close>): the byte code verifier.  Accepted code stays inside its code and its registers in the control flow of the interpreter.
  \<^item> \<open>Zio\<close>, \<open>Bytes\<close>, \<open>Precompiled\<close>, \<open>PrecompiledProps\<close> (\<^verbatim>\<open>lzio.c\<close>, \<^verbatim>\<open>ldump.c\<close>, \<^verbatim>\<open>lundump.c\<close>): streams and binary chunks.  Loading a dumped function gives it back; whatever is
    loaded has passed the verifier.
  \<^item> \<open>StrLib\<close>, \<open>PatternMatch\<close>, \<open>PatternProps\<close> (\<^verbatim>\<open>lstrlib.c\<close>): the string library.  The backtracking matcher computes the first element of a list of
    successes; matches stay in the subject; \<open>find\<close> is leftmost; the plain search is the pattern search for patterns without special
    characters and closing parentheses; \<open>gmatch\<close> ends; \<open>gsub\<close> keeps the rest.
  \<^item> \<open>TableLib\<close>, \<open>TableLibProps\<close> (\<^verbatim>\<open>ltablib.c\<close>): the table library.  \<open>sort\<close> sorts with an order and, when it returns, only rearranges with any other function of
    two values; \<open>insert\<close> and \<open>remove\<close> are inverse; \<open>concat\<close> joins.
  \<^item> \<open>Lexer\<close>, \<open>LexerProps\<close> (\<^verbatim>\<open>llex.c\<close>): the lexical analyser.  On texts of fewer than \<open>2 ^ 29\<close> bytes it never reads past its stream or its buffer, every token uses up input, lines are counted
    right, and printed tokens and quoted strings are read back.
  \<^item> \<open>NetBuffer\<close> (\<^verbatim>\<open>Buffer.h\<close>): the byte buffer refines a queue of bytes.
  \<^item> \<open>TcpConnection\<close>, \<open>TcpConnectionProps\<close> (\<^verbatim>\<open>TcpConnection.cc\<close>, \<^verbatim>\<open>Channel.cc\<close>): a connection under every interleaving of events, timers, queued functors and calls.  Output
    leaves in order; when other threads only send (the other calls are not thread safe) no assertion fails and the callbacks tell one life; closing is orderly when only
    the loop thread sends.
  \<^item> \<open>Pollers\<close>, \<open>PollerProps\<close>, \<open>EPollProps\<close>, \<open>PollProps\<close> (\<^verbatim>\<open>EventLoop.cc\<close>, \<^verbatim>\<open>Channel.cc\<close>, \<^verbatim>\<open>poller/\<close>): the event loop over its two pollers, with the channels in a heap.  When the
    owners of channels keep the rules of their use (assertions about the caller, which are assumed), no other assertion fails and no deleted channel is touched; what is watched
    is what the channels ask for.
  \<^item> \<open>TimerQueue\<close>, \<open>TimerProps\<close> (\<^verbatim>\<open>TimerQueue.cc\<close>, \<^verbatim>\<open>Timer.h\<close>): timers.  No assertion fails and no deleted timer is used whatever the callbacks do; timers fire in
    order, cancelled ones of the queue never again; while the kernel accepts the settings the descriptor is set for the first timer, at the earliest 100 microseconds ahead.
  \<^item> \<open>HttpServer\<close>, \<open>HttpProps\<close> (\<^verbatim>\<open>net/http/\<close>): the HTTP server.  Requests without a body are read back however they are cut and answered once; parsing ends.
  \<^item> \<open>ProtobufCodec\<close>, \<open>ProtobufCodecProps\<close>: framing.  On connections without encryption messages arrive in order however the stream is cut, and only frames with a valid
    length and checksum are delivered.
  \<^item> \<open>ServerBase\<close>, \<open>HubServer\<close>, \<open>KeeperServer\<close>, \<open>ForwardServer\<close>, \<open>LogonServer\<close>: the handlers of the servers, each with its invariant and its decisions.
  \<^item> \<open>LogonProtocol\<close>: the cluster.  A forward server accepts at most as many logons of a user as there were successful password checks, whatever clients
    send to the client ports and however messages are delayed or lost, as long as no step is undefined; and with connected programs a request with the right password leads to
    the acceptance, every message travelling along the connection it is sent on.

  \<^bold>\<open>Interfaces.\<close>  \<open>NetBuffer\<close> states the queue of bytes as the locale \<open>byte_queue\<close> and interprets it on the two ways of filling a buffer; \<open>StringTable\<close> and
  the table theories state their contracts in locales interpreted on the code's model; \<open>LogonProtocol\<close> states what the proof of authentication needs of a server
  that receives a message as locales and interprets them on the servers.  \<open>PollerProps\<close> states the virtual functions of a poller as the locale \<open>poller\<close>, over which
  the event loop is proved; \<open>PollProps\<close> interprets it, and in \<open>EPollProps\<close> it is a sublocale of the documented behaviour of \<open>epoll_ctl\<close>.  Handlers of a connection share one contract, which composes, and so do the
  routines of the lexer and the operations of the timer queue (the contract \<open>outcome\<close> of \<open>Prelude\<close>).

  \<^bold>\<open>Termination and fuel.\<close>  Every loop is a total function with a measure: the length of the pattern for the matcher, the rest of the subject for the searches, the
  size of the table for its loops.  The only fuel is that of \<open>decrypt_loop\<close>, one more than the number of blocks it is called for; \<open>auxsort\<close>, which
  need not end with a function that is no order, is a partial function and is shown to return with an order.  A hash search over an ever growing table ends at \<open>MAX_INT\<close>, as in the code.

  \<^bold>\<open>Threads.\<close>  A handler is one atomic step.  The hub and the logon server lock what their I/O threads share; the keeper does not lock the records of started servers, and the model
  is that of its one I/O thread; a connection is closed by its loop thread only.  Where another thread can come between the halves of an operation, the halves are
  definitions of their own and a lemma shows what goes wrong (\<open>keeper_query_race\<close>, \<open>tcp_close_race\<close>).

  \<^bold>\<open>Findings.\<close>  The verifier misses an instruction with operand 2 of \<open>OP_LOADBOOL\<close>; the keeper marks the wrong server as stopped and does not notice the end of a
  restarted one; the hub reads through an erased iterator; encrypted messages leave their padding in the receive buffer; a message queued by another
  thread is lost when the loop thread shuts the connection down; destroying a server with a connection that is being closed fails an assertion; a refused HTTP
  request line makes the next bytes of the peer fail an assertion; the lexer takes a zero byte for a member of every character set; a timer whose
  insertion is still queued cannot be cancelled; the poller over \<open>poll\<close> ignores a channel that is enabled again; closing a connection from another thread can take
  it down twice; two queries of a keeper with several I/O threads can be given one identity; a second answer of the keeper deletes a forward server that functors and connections
  still use; the body of an HTTP request is taken for the next request; a closing parenthesis is plain to \<open>find\<close> and an error to the matcher; \<open>shrink\<close> of a buffer of
  \<open>2 ^ 31\<close> bytes fails.

  \<^bold>\<open>Not modelled.\<close>  The interpreter loop, the collector, the parser and the code generator of Lua (closures and stacks in a raw heap), the libraries that only bind the C
  library, logging, threads and locks, the wrappers of system calls, third-party code (\<open>lua_tinker\<close>) and the example programs.
\<close>

end
